(* ===== verification/Prelude.thy ===== *)
theory Prelude
  imports Main "HOL-Library.Monad_Syntax"
begin

text \<open>
  What the components share.  A Go byte is a \<open>char\<close> (256 values) and a Go string or
  byte slice a \<open>string\<close>; \<open>byte_val\<close> reads a byte as a number.  A Go run-time panic is
  the value \<open>None\<close> of an option where a component has no other use of that type.  The
  fixed-width integers of the code that a component keeps as \<open>int\<close> are reduced by the
  \<open>wrap\<close> functions below after every operation that can leave the range.
\<close>

named_theorems byte_simps \<open>facts on byte classes\<close>
named_theorems panic_simps \<open>facts on the panic option\<close>

type_synonym byte = char
type_synonym bytes = string

abbreviation byte_val :: "byte \<Rightarrow> nat" where
  "byte_val c \<equiv> of_char c"

abbreviation newline :: byte where "newline \<equiv> CHR 0x0A"
abbreviation tabchar :: byte where "tabchar \<equiv> CHR 0x09"
abbreviation vtab :: byte where "vtab \<equiv> CHR 0x0B"
abbreviation formfeed :: byte where "formfeed \<equiv> CHR 0x0C"
abbreviation retchar :: byte where "retchar \<equiv> CHR 0x0D"
abbreviation nulchar :: byte where "nulchar \<equiv> CHR 0x00"
abbreviation backslash :: byte where "backslash \<equiv> CHR 0x5C"
abbreviation squote :: byte where "squote \<equiv> CHR 0x27"
abbreviation dquote :: byte where "dquote \<equiv> CHR 0x22"

definition is_digit :: "byte \<Rightarrow> bool" where
  "is_digit c \<longleftrightarrow> 48 \<le> byte_val c \<and> byte_val c \<le> (57::nat)"

definition is_lower :: "byte \<Rightarrow> bool" where
  "is_lower c \<longleftrightarrow> 97 \<le> byte_val c \<and> byte_val c \<le> (122::nat)"

definition is_upper :: "byte \<Rightarrow> bool" where
  "is_upper c \<longleftrightarrow> 65 \<le> byte_val c \<and> byte_val c \<le> (90::nat)"

definition digit_char :: "nat \<Rightarrow> byte" where
  "digit_char d = char_of (48 + d)"

lemma byte_val_digit_char [byte_simps]: "d < 10 \<Longrightarrow> byte_val (digit_char d) = 48 + d"
  by (simp add: digit_char_def of_char_of)

lemma is_digit_digit_char [byte_simps]: "d < 10 \<Longrightarrow> is_digit (digit_char d)"
  by (simp add: is_digit_def byte_val_digit_char)

lemma byte_val_less [byte_simps]: "byte_val c < (256::nat)"
  by (simp add: less_le_trans)

lemma byte_eq_iff: "c = d \<longleftrightarrow> byte_val c = (byte_val d :: nat)"
  by simp

subsection \<open>Strings\<close>

lemma append_single [simp]: "(@) [x] = (#) x"
  by (rule ext) simp

definition has_prefix :: "bytes \<Rightarrow> bytes \<Rightarrow> bool" where
  "has_prefix s p \<longleftrightarrow> take (length p) s = p"

definition has_suffix :: "bytes \<Rightarrow> bytes \<Rightarrow> bool" where
  "has_suffix s p \<longleftrightarrow> length p \<le> length s \<and> drop (length s - length p) s = p"

lemma has_prefix_append [simp]: "has_prefix (p @ s) p"
  by (simp add: has_prefix_def)

lemma has_prefix_iff: "has_prefix s p \<longleftrightarrow> (\<exists>t. s = p @ t)"
  by (metis append_take_drop_id has_prefix_append has_prefix_def)

lemma has_prefix_length: "has_prefix s p \<Longrightarrow> length p \<le> length s"
  by (auto simp: has_prefix_iff)

fun index_byte :: "bytes \<Rightarrow> byte \<Rightarrow> nat option" where
  "index_byte [] c = None"
| "index_byte (x # xs) c = (if x = c then Some 0 else map_option Suc (index_byte xs c))"

lemma index_byte_None: "index_byte s c = None \<longleftrightarrow> c \<notin> set s"
  by (induction s) auto

lemma index_byte_Some:
  "index_byte s c = Some k \<Longrightarrow> k < length s \<and> s ! k = c \<and> c \<notin> set (take k s)"
  by (induction s arbitrary: k) (auto split: if_splits)

subsection \<open>Fixed-width integers kept as int\<close>

definition wrap_u :: "nat \<Rightarrow> int \<Rightarrow> int" where
  "wrap_u w x = x mod 2 ^ w"

definition wrap_s :: "nat \<Rightarrow> int \<Rightarrow> int" where
  "wrap_s w x = (x + 2 ^ (w - 1)) mod 2 ^ w - 2 ^ (w - 1)"

lemma wrap_u_id: "0 \<le> x \<Longrightarrow> x < 2 ^ w \<Longrightarrow> wrap_u w x = x"
  by (simp add: wrap_u_def)

lemma wrap_s_id: "0 < w \<Longrightarrow> - (2 ^ (w - 1)) \<le> x \<Longrightarrow> x < 2 ^ (w - 1) \<Longrightarrow> wrap_s w x = x"
proof -
  assume w: "0 < w" and lo: "- (2 ^ (w - 1)) \<le> x" and hi: "x < 2 ^ (w - 1)"
  have "(2::int) ^ w = 2 ^ (w - 1) + 2 ^ (w - 1)" using w by (cases w) auto
  with lo hi have "(x + 2 ^ (w - 1)) mod 2 ^ w = x + 2 ^ (w - 1)" by simp
  then show ?thesis by (simp add: wrap_s_def)
qed

lemma wrap_u_range: "0 \<le> wrap_u w x \<and> wrap_u w x < 2 ^ w"
  by (simp add: wrap_u_def)

lemma wrap_s_range: "0 < w \<Longrightarrow> - (2 ^ (w - 1)) \<le> wrap_s w x \<and> wrap_s w x < 2 ^ (w - 1)"
proof -
  assume w: "0 < w"
  have "(2::int) ^ w = 2 ^ (w - 1) + 2 ^ (w - 1)" using w by (cases w) auto
  moreover have "0 \<le> (x + 2 ^ (w - 1)) mod 2 ^ w" "(x + 2 ^ (w - 1)) mod 2 ^ w < 2 ^ w" by simp_all
  ultimately show ?thesis by (simp add: wrap_s_def)
qed

subsection \<open>Panics\<close>

lemma bind_Some_iff [panic_simps]: "Option.bind m f = Some y \<longleftrightarrow> (\<exists>x. m = Some x \<and> f x = Some y)"
  by (cases m) auto

text \<open>An index into a Go slice panics out of range.\<close>

definition nth_opt :: "'a list \<Rightarrow> nat \<Rightarrow> 'a option" where
  "nth_opt xs i = (if i < length xs then Some (xs ! i) else None)"

lemma nth_opt_Some [panic_simps]: "nth_opt xs i = Some x \<longleftrightarrow> i < length xs \<and> xs ! i = x"
  by (auto simp: nth_opt_def)

lemma nth_opt_None [panic_simps]: "nth_opt xs i = None \<longleftrightarrow> length xs \<le> i"
  by (auto simp: nth_opt_def)

lemma nth_opt_append: "nth_opt (xs @ y # ys) (length xs) = Some y"
  by (simp add: nth_opt_def)

subsection \<open>Fuel and failure\<close>

text \<open>
  A recursion of the code without a bound, given fuel: the outer \<open>None\<close> is running out of
  fuel, the inner \<open>None\<close> the code's own failure.  \<open>fbind\<close> goes on with what a call gave.
\<close>

type_synonym 'a fuelled = "'a option option"

fun fbind :: "'a fuelled \<Rightarrow> ('a \<Rightarrow> 'b fuelled) \<Rightarrow> 'b fuelled" where
  "fbind None f = None"
| "fbind (Some None) f = Some None"
| "fbind (Some (Some x)) f = f x"

lemma fbind_Some_iff:
  "fbind m f = Some r \<longleftrightarrow> (m = Some None \<and> r = None \<or> (\<exists>x. m = Some (Some x) \<and> f x = Some r))"
  by (cases "(m, f)" rule: fbind.cases) auto

lemma fbind_mono:
  assumes "fbind m f = Some r" "\<And>q. m = Some q \<Longrightarrow> m' = Some q"
    and "\<And>x q. f x = Some q \<Longrightarrow> f' x = Some q"
  shows "fbind m' f' = Some r"
  using assms by (auto simp: fbind_Some_iff)

definition lift_option :: "'a option \<Rightarrow> 'a fuelled" where
  "lift_option m = Some m"

text \<open>
  What a recursion with panics gives: an answer, no answer (the code's \<open>ok\<close> false, or its
  \<open>nil\<close>), a run-time panic, or no fuel left.
\<close>

datatype 'a ans = Ans 'a | Unknown | Panic | NoFuel

fun abind :: "'a ans \<Rightarrow> ('a \<Rightarrow> 'b ans) \<Rightarrow> 'b ans" where
  "abind (Ans x) f = f x"
| "abind Unknown f = Unknown"
| "abind Panic f = Panic"
| "abind NoFuel f = NoFuel"

definition answer :: "'a option \<Rightarrow> 'a ans" where
  "answer m = (case m of Some x \<Rightarrow> Ans x | None \<Rightarrow> Unknown)"

end
