(* ===== verification/Sexp.thy ===== *)
theory Sexp
  imports Prelude
begin

text \<open>
  The C-lisp s-expressions, crefactor/clisp/sexp.go: the node type, the reader, the flat
  printer and the layout printer.  The reader's position \<open>r.src[r.i:]\<close> is the text still
  to be read and \<open>r.line\<close> a number.  A recursion of the reader that the Go code does
  without a bound is bounded by fuel here; \<open>None\<close> is running out of it, which
  \<open>Read_total\<close> excludes.
\<close>

subsection \<open>Nodes\<close>

datatype node = Atom bytes | Lst "node list"

fun IsList :: "node \<Rightarrow> bool" where
  "IsList (Lst _) = True"
| "IsList (Atom _) = False"

fun Head :: "node \<Rightarrow> bytes" where
  "Head (Lst (Atom a # _)) = a"
| "Head _ = []"

definition Is :: "node \<Rightarrow> bytes \<Rightarrow> bool" where
  "Is n h \<longleftrightarrow> Head n = h"

fun Args :: "node \<Rightarrow> node list" where
  "Args (Lst (_ # xs)) = xs"
| "Args _ = []"

text \<open>\<open>flat\<close> writes a node on one line; \<open>String\<close> is its result.\<close>

fun flat :: "node \<Rightarrow> bytes"
  and flat_list :: "node list \<Rightarrow> bytes" where
  "flat (Atom a) = a"
| "flat (Lst xs) = ''('' @ flat_list xs @ '')''"
| "flat_list [] = []"
| "flat_list [x] = flat x"
| "flat_list (x # y # ys) = flat x @ '' '' @ flat_list (y # ys)"

subsection \<open>The reader\<close>

datatype read_error =
    UnclosedList nat
  | UnexpectedParen nat
  | NewlineInLiteral nat
  | UnclosedLiteral nat
  | IndexOutOfRange

fun skip_comment :: "bytes \<Rightarrow> bytes" where
  "skip_comment [] = []"
| "skip_comment (c # s) = (if c = newline then c # s else skip_comment s)"

lemma length_skip_comment: "length (skip_comment s) \<le> length s"
  by (induction s) auto

definition is_blank :: "byte \<Rightarrow> bool" where
  "is_blank c \<longleftrightarrow> c \<in> {CHR '' '', tabchar, retchar, formfeed, vtab}"

function space :: "bytes \<Rightarrow> nat \<Rightarrow> bytes \<times> nat" where
  "space [] ln = ([], ln)"
| "space (c # s) ln =
     (if c = newline then space s (Suc ln)
      else if is_blank c then space s ln
      else if c = CHR '';'' then space (skip_comment s) ln
      else (c # s, ln))"
  by pat_completeness auto
termination
  by (relation "measure (\<lambda>(s, ln). length s)") (auto simp: less_Suc_eq_le length_skip_comment)

definition is_delim :: "byte \<Rightarrow> bool" where
  "is_delim c \<longleftrightarrow> c = newline \<or> is_blank c \<or> c \<in> {CHR ''('', CHR '')'', CHR '';''}"

text \<open>Bytes consumed before a result that carries the bytes consumed after them.\<close>

fun prepend :: "bytes \<Rightarrow> 'e + bytes \<times> 'r \<Rightarrow> 'e + bytes \<times> 'r" where
  "prepend p (Inl e) = Inl e"
| "prepend p (Inr (a, t)) = Inr (p @ a, t)"

lemma prepend_Inr [simp]: "prepend p r = Inr (a, t) \<longleftrightarrow> (\<exists>b. r = Inr (b, t) \<and> a = p @ b)"
  by (cases "(p, r)" rule: prepend.cases) auto

lemma prepend_Inl [simp]: "prepend p r = Inl e \<longleftrightarrow> r = Inl e"
  by (cases "(p, r)" rule: prepend.cases) auto

text \<open>
  The quoted literal inside an atom, from after its opening quote \<open>q\<close>: the bytes up to
  and with the closing quote, and the text after it.
\<close>

fun literal :: "byte \<Rightarrow> nat \<Rightarrow> bytes \<Rightarrow> read_error + bytes \<times> bytes" where
  "literal q ln [] = Inl (UnclosedLiteral ln)"
| "literal q ln (c # s) =
     (if c = q then Inr ([c], s)
      else if c = newline then Inl (NewlineInLiteral ln)
      else if c = backslash then
        (case s of [] \<Rightarrow> Inl (UnclosedLiteral ln) | d # s' \<Rightarrow> prepend [c, d] (literal q ln s'))
      else prepend [c] (literal q ln s))"

lemma literal_split: "literal q ln s = Inr (l, t) \<Longrightarrow> s = l @ t \<and> l \<noteq> []"
proof (induction q ln s arbitrary: l t rule: literal.induct)
  case (2 q ln c s)
  then show ?case by (cases s) (auto split: if_splits)
qed simp

text \<open>
  The loop of \<open>atom\<close>; \<open>start\<close> is the atom's first byte once the loop is past it.
\<close>

definition start_of :: "byte option \<Rightarrow> byte \<Rightarrow> byte option" where
  "start_of start c = (case start of None \<Rightarrow> Some c | Some d \<Rightarrow> Some d)"

definition in_number :: "byte option \<Rightarrow> bool" where
  "in_number start = (case start of None \<Rightarrow> False | Some d \<Rightarrow> is_digit d \<or> d = CHR ''.'')"

function atom_loop :: "byte option \<Rightarrow> nat \<Rightarrow> bytes \<Rightarrow> read_error + bytes \<times> bytes" where
  "atom_loop start ln [] = Inr ([], [])"
| "atom_loop start ln (c # s) =
     (if is_delim c then Inr ([], c # s)
      else if c = dquote \<or> c = squote then
        (if c = squote \<and> in_number start then prepend [c] (atom_loop (start_of start c) ln s)
         else (case literal c ln s of
             Inl e \<Rightarrow> Inl e
           | Inr (l, s') \<Rightarrow> prepend (c # l) (atom_loop (start_of start c) ln s')))
      else prepend [c] (atom_loop (start_of start c) ln s))"
  by pat_completeness auto
termination
  by (relation "measure (\<lambda>(st, ln, s). length s)") (auto dest!: literal_split)

definition read_atom :: "nat \<Rightarrow> bytes \<Rightarrow> read_error + node \<times> bytes" where
  "read_atom ln s = (case atom_loop None ln s of Inl e \<Rightarrow> Inl e | Inr (a, t) \<Rightarrow> Inr (Atom a, t))"

fun read_node :: "nat \<Rightarrow> nat \<Rightarrow> bytes \<Rightarrow> (read_error + node \<times> bytes \<times> nat) option"
  and read_items :: "nat \<Rightarrow> nat \<Rightarrow> bytes \<Rightarrow> (read_error + node list \<times> bytes \<times> nat) option" where
  "read_node 0 ln s = None"
| "read_node (Suc fuel) ln s =
     (case s of
       [] \<Rightarrow> Some (Inl IndexOutOfRange)
     | c # s' \<Rightarrow>
         if c = CHR ''('' then
           (case read_items fuel ln s' of
             None \<Rightarrow> None
           | Some (Inl e) \<Rightarrow> Some (Inl e)
           | Some (Inr (xs, t, ln')) \<Rightarrow> Some (Inr (Lst xs, t, ln')))
         else if c = CHR '')'' then Some (Inl (UnexpectedParen ln))
         else (case read_atom ln s of
             Inl e \<Rightarrow> Some (Inl e)
           | Inr (n, t) \<Rightarrow> Some (Inr (n, t, ln))))"
| "read_items 0 ln s = None"
| "read_items (Suc fuel) ln s =
     (case space s ln of
       ([], ln1) \<Rightarrow> Some (Inl (UnclosedList ln1))
     | (c # s1, ln1) \<Rightarrow>
         if c = CHR '')'' then Some (Inr ([], s1, ln1))
         else (case read_node fuel ln1 (c # s1) of
             None \<Rightarrow> None
           | Some (Inl e) \<Rightarrow> Some (Inl e)
           | Some (Inr (x, s2, ln2)) \<Rightarrow>
               (case read_items fuel ln2 s2 of
                 None \<Rightarrow> None
               | Some (Inl e) \<Rightarrow> Some (Inl e)
               | Some (Inr (xs, t, ln3)) \<Rightarrow> Some (Inr (x # xs, t, ln3)))))"

fun read_forms :: "nat \<Rightarrow> nat \<Rightarrow> bytes \<Rightarrow> (read_error + node list) option" where
  "read_forms 0 ln s = None"
| "read_forms (Suc fuel) ln s =
     (case space s ln of
       ([], ln1) \<Rightarrow> Some (Inr [])
     | (c # s1, ln1) \<Rightarrow>
         (case read_node fuel ln1 (c # s1) of
           None \<Rightarrow> None
         | Some (Inl e) \<Rightarrow> Some (Inl e)
         | Some (Inr (x, s2, ln2)) \<Rightarrow>
             (case read_forms fuel ln2 s2 of
               None \<Rightarrow> None
             | Some (Inl e) \<Rightarrow> Some (Inl e)
             | Some (Inr xs) \<Rightarrow> Some (Inr (x # xs)))))"

definition Read :: "bytes \<Rightarrow> (read_error + node list) option" where
  "Read src = read_forms (2 * length src + 2) 1 src"

subsection \<open>The layout printer\<close>

definition Width :: nat where "Width = 100"

fun count_atoms :: "node list \<Rightarrow> nat" where
  "count_atoms (Atom _ # xs) = Suc (count_atoms xs)"
| "count_atoms _ = 0"

definition keep :: "node \<Rightarrow> nat" where
  "keep n =
     (let args = Args n; atoms = count_atoms args in
      if Head n \<in> {''if'', ''while'', ''switch'', ''return'', ''case'', ''sizeof'', ''cast'', ''call'',
          ''index'', ''.'', ''->'', ''='', ''literal'', ''static_assert'', ''?'', ''fn''} then 1
      else if Head n = ''for'' then 3
      else if Head n \<in> {''def'', ''typedef''} then min (atoms + 1) (length args)
      else if Head n = ''defn'' then min (atoms + 1) (length args)
      else if Head n \<in> {''struct'', ''union'', ''enum''} then atoms
      else atoms)"

fun broken :: "node \<Rightarrow> bool"
  and any_broken :: "node list \<Rightarrow> bool" where
  "broken (Atom a) = False"
| "broken (Lst []) = False"
| "broken (Lst (h # xs)) =
     (let hd = Head (Lst (h # xs)) in
      if hd = ''defn'' then True
      else if hd = ''block'' then
        length xs > 1 \<or> (case xs of [x] \<Rightarrow> IsList x \<and> broken x | _ \<Rightarrow> False)
      else if hd \<in> {''if'', ''while'', ''for'', ''do'', ''switch'', ''stmt-expr''} then any_broken xs
      else False)"
| "any_broken [] = False"
| "any_broken (x # xs) = (broken x \<or> any_broken xs)"

text \<open>Whether \<open>layout\<close> writes a list flat at a column.\<close>

definition fits_line :: "node \<Rightarrow> nat \<Rightarrow> bool" where
  "fits_line n col \<longleftrightarrow>
     (let flat_n = flat n in col + length flat_n \<le> Width \<and> \<not> broken n \<and> newline \<notin> set flat_n)"

text \<open>
  \<open>layout_rest\<close> is the loop over \<open>rest\<close>: \<open>i\<close> counts the elements, \<open>k\<close> and \<open>at\<close> are the
  variables the loop updates.
\<close>

function (sequential) layout :: "node \<Rightarrow> nat \<Rightarrow> bytes"
  and layout_rest :: "node list \<Rightarrow> nat \<Rightarrow> nat \<Rightarrow> nat \<Rightarrow> nat \<Rightarrow> bytes" where
  "layout (Atom a) col = a"
| "layout (Lst xs) col =
     (if fits_line (Lst xs) col then flat (Lst xs)
      else (case xs of
          [] \<Rightarrow> ''()''
        | first # rest \<Rightarrow>
            ''('' @ layout first (col + 1) @
            (case first of
               Atom a \<Rightarrow> layout_rest rest 0 (keep (Lst xs)) (col + 1 + length a) (col + 2)
             | Lst _ \<Rightarrow> layout_rest rest 0 0 (col + 1) (col + 1)) @ '')''))"
| "layout_rest [] i k pos inner = []"
| "layout_rest (x # xs) i k pos inner =
     (let s = flat x in
      if i < k \<and> (pos + 1 + length s \<le> Width \<or> i = 0 \<and> \<not> IsList x)
      then '' '' @ layout x (pos + 1) @ layout_rest xs (Suc i) k (pos + 1 + length s) inner
      else [newline] @ replicate inner (CHR '' '') @ layout x inner @ layout_rest xs (Suc i) 0 pos inner)"
  by pat_completeness auto
termination
  by (relation "measure (\<lambda>p. case p of Inl (n, _) \<Rightarrow> size n | Inr (xs, _) \<Rightarrow> size_list size xs)") auto

fun Format_from :: "node option \<Rightarrow> node list \<Rightarrow> bytes" where
  "Format_from prev [] = []"
| "Format_from prev (f # fs) =
     (case prev of
        None \<Rightarrow> []
      | Some p \<Rightarrow> if Is f ''include'' \<and> Is p ''include'' then [] else [newline]) @
     layout f 0 @ [newline] @ Format_from (Some f) fs"

definition Format :: "node list \<Rightarrow> bytes" where
  "Format fs = Format_from None fs"

subsection \<open>The reader returns\<close>

lemma space_length: "space s ln = (t, ln') \<Longrightarrow> length t \<le> length s"
proof (induction s ln arbitrary: t ln' rule: space.induct)
  case (2 c s ln)
  note comment = length_skip_comment [of s]
  consider "c = newline" | "c \<noteq> newline" "is_blank c" | "c \<noteq> newline" "\<not> is_blank c" "c = CHR '';''"
    | "c \<noteq> newline" "\<not> is_blank c" "c \<noteq> CHR '';''"
    by blast
  then show ?case
  proof cases
    case 3
    with "2.IH"(3) "2.prems" have "length t \<le> length (skip_comment s)" by simp
    with comment show ?thesis by simp
  qed (use 2 in auto)
qed simp

lemma space_head: "space s ln = (c # t, ln') \<Longrightarrow> c \<noteq> newline \<and> \<not> is_blank c \<and> c \<noteq> CHR '';''"
  by (induction s ln rule: space.induct) (auto split: if_splits)

lemma atom_loop_cases [consumes 1, case_names delim number quoted plain]:
  assumes "atom_loop st ln (c # s) = Inr (a, t)"
  obtains "is_delim c" "a = []" "t = c # s"
  | a' where "\<not> is_delim c" "c = squote" "in_number st" "a = c # a'"
      "atom_loop (start_of st c) ln s = Inr (a', t)"
  | l s' a' where "\<not> is_delim c" "c = dquote \<or> c = squote" "\<not> (c = squote \<and> in_number st)"
      "literal c ln s = Inr (l, s')" "a = c # l @ a'" "atom_loop (start_of st c) ln s' = Inr (a', t)"
  | a' where "\<not> is_delim c" "c \<noteq> dquote" "c \<noteq> squote" "a = c # a'"
      "atom_loop (start_of st c) ln s = Inr (a', t)"
proof (cases "is_delim c")
  case True
  with assms that(1) show ?thesis by simp
next
  case False
  consider "c = squote" "in_number st" | "c = dquote \<or> c = squote" "\<not> (c = squote \<and> in_number st)"
    | "c \<noteq> dquote" "c \<noteq> squote" by blast
  then show ?thesis
  proof cases
    case 1
    with False assms that(2) show ?thesis by auto
  next
    case 2
    with False assms obtain l s' where l: "literal c ln s = Inr (l, s')"
      by (cases "literal c ln s") auto
    with False 2 assms obtain a' where "a = c # l @ a'" "atom_loop (start_of st c) ln s' = Inr (a', t)"
      by auto
    with l False 2 show ?thesis by (intro that(3))
  next
    case 3
    with False assms that(4) show ?thesis by auto
  qed
qed

lemma atom_loop_split: "atom_loop st ln s = Inr (a, t) \<Longrightarrow> s = a @ t"
proof (induction st ln s arbitrary: a t rule: atom_loop.induct)
  case (2 st ln c s)
  from "2.prems" show ?case
  proof (cases rule: atom_loop_cases)
    case (number a')
    with "2.IH"(1) show ?thesis by simp
  next
    case (quoted l s' a')
    with "2.IH"(2) [of "(l, s')"] have "s' = a' @ t" by auto
    with quoted literal_split show ?thesis by fastforce
  next
    case (plain a')
    with "2.IH"(3) show ?thesis by simp
  qed simp
qed simp

lemma read_atom_progress:
  assumes "read_atom ln (c # s) = Inr (n, t)" and "\<not> is_delim c"
  shows "length t < length (c # s)"
proof -
  from assms(1) obtain a where a: "atom_loop None ln (c # s) = Inr (a, t)"
    by (auto simp: read_atom_def split: sum.splits)
  then have "a \<noteq> []" using assms(2) by (auto simp: Let_def split: if_splits sum.splits)
  with atom_loop_split [OF a] show ?thesis by (cases a) auto
qed

definition no_panic :: "(read_error + 'a) option \<Rightarrow> bool" where
  "no_panic r \<longleftrightarrow> r \<noteq> None \<and> r \<noteq> Some (Inl IndexOutOfRange)"

lemma literal_no_panic: "literal q ln s \<noteq> Inl IndexOutOfRange"
proof (induction q ln s rule: literal.induct)
  case (2 q ln c s)
  then show ?case by (cases s) auto
qed simp

lemma atom_loop_no_panic: "atom_loop st ln s \<noteq> Inl IndexOutOfRange"
proof (induction st ln s rule: atom_loop.induct)
  case (2 st ln c s)
  show ?case
    using "2.IH" literal_no_panic [of c ln s] by (auto simp: Let_def split: sum.splits)
qed simp

lemma read_atom_no_panic: "read_atom ln s \<noteq> Inl IndexOutOfRange"
  using atom_loop_no_panic [of None ln s] by (auto simp: read_atom_def split: sum.splits)

lemma read_node_items_total:
  shows "s \<noteq> [] \<Longrightarrow> \<not> is_delim (hd s) \<or> hd s = CHR ''('' \<or> hd s = CHR '')'' \<Longrightarrow>
      2 * length s \<le> fuel \<Longrightarrow>
      no_panic (read_node fuel ln s) \<and>
      (\<forall>n t ln'. read_node fuel ln s = Some (Inr (n, t, ln')) \<longrightarrow> length t < length s)"
    and "2 * length s < fuel \<Longrightarrow>
      no_panic (read_items fuel ln s) \<and>
      (\<forall>xs t ln'. read_items fuel ln s = Some (Inr (xs, t, ln')) \<longrightarrow> length t < length s)"
proof (induction fuel ln s and fuel ln s rule: read_node_read_items.induct)
  case (2 fuel ln s)
  then obtain c s' where s: "s = c # s'" by (cases s) auto
  show ?case
  proof (cases "c = CHR ''(''")
    case True
    with 2 s show ?thesis
      by (auto simp: no_panic_def split: option.splits sum.splits)
  next
    case False
    with 2 s read_atom_no_panic [of ln s] show ?thesis
      by (auto simp: no_panic_def split: sum.splits dest: read_atom_progress)
  qed
next
  case (4 fuel ln s)
  obtain t ln1 where sp: "space s ln = (t, ln1)" by force
  show ?case
  proof (cases t)
    case Nil
    with sp show ?thesis by (simp add: no_panic_def)
  next
    case (Cons c s1)
    have len: "length (c # s1) \<le> length s" using space_length [OF sp] Cons by simp
    have c: "\<not> is_delim c \<or> c = CHR ''('' \<or> c = CHR '')''"
      using space_head [of s ln c s1 ln1] sp Cons by (auto simp: is_delim_def)
    have node: "c \<noteq> CHR '')'' \<Longrightarrow> no_panic (read_node fuel ln1 (c # s1)) \<and>
        (\<forall>n t' ln'. read_node fuel ln1 (c # s1) = Some (Inr (n, t', ln')) \<longrightarrow> length t' < length (c # s1))"
      using "4.IH"(1) [OF sp [symmetric] Cons _ _ _ ] c len "4.prems" sp Cons by auto
    have rest: "no_panic (read_items fuel ln2 s2) \<and>
        (\<forall>xs t' ln'. read_items fuel ln2 s2 = Some (Inr (xs, t', ln')) \<longrightarrow> length t' < length s2)"
      if "c \<noteq> CHR '')''" "read_node fuel ln1 (c # s1) = Some (Inr (x, s2, ln2))" for x s2 ln2
      using "4.IH"(2) sp Cons that node len "4.prems" by fastforce
    show ?thesis
    proof (cases "c = CHR '')''")
      case True
      with sp Cons len show ?thesis by (simp add: no_panic_def)
    next
      case False
      from node [OF False] show ?thesis
        using sp Cons False len rest [OF False]
        by (fastforce simp: no_panic_def split: option.splits sum.splits)
    qed
  qed
qed (auto)

lemma read_forms_total: "2 * length s + 2 \<le> fuel \<Longrightarrow> no_panic (read_forms fuel ln s)"
proof (induction fuel ln s rule: read_forms.induct)
  case (2 fuel ln s)
  obtain t ln1 where sp: "space s ln = (t, ln1)" by force
  show ?case
  proof (cases t)
    case Nil
    with sp show ?thesis by (simp add: no_panic_def)
  next
    case (Cons c s1)
    have len: "length (c # s1) \<le> length s" using space_length [OF sp] Cons by simp
    have c: "\<not> is_delim c \<or> c = CHR ''('' \<or> c = CHR '')''"
      using space_head [of s ln c s1 ln1] sp Cons by (auto simp: is_delim_def)
    have node: "no_panic (read_node fuel ln1 (c # s1)) \<and>
        (\<forall>n t' ln'. read_node fuel ln1 (c # s1) = Some (Inr (n, t', ln')) \<longrightarrow> length t' < length (c # s1))"
      using read_node_items_total(1) [of "c # s1" fuel ln1] c len "2.prems" by auto
    have rest: "no_panic (read_forms fuel ln2 s2)"
      if "read_node fuel ln1 (c # s1) = Some (Inr (x, s2, ln2))" for x s2 ln2
      using "2.IH" sp Cons that node len "2.prems" by fastforce
    from node show ?thesis
      using sp Cons rest by (fastforce simp: no_panic_def split: option.splits sum.splits)
  qed
qed simp

subsection \<open>Texts that spell a node\<close>

text \<open>
  \<open>prints n s\<close> says that \<open>s\<close> is the node \<open>n\<close> with its atoms as they are and blanks or
  newlines between the elements of a list.  A well-formed node has only atoms that the
  reader takes whole.
\<close>

declare space.simps(2) [simp del]

definition atom_ok :: "bytes \<Rightarrow> bool" where
  "atom_ok a \<longleftrightarrow> a \<noteq> [] \<and> atom_loop None 0 a = Inr (a, [])"

fun wf_node :: "node \<Rightarrow> bool" where
  "wf_node (Atom a) = atom_ok a"
| "wf_node (Lst xs) = (\<forall>x \<in> set xs. wf_node x)"

definition is_gap :: "bytes \<Rightarrow> bool" where
  "is_gap g \<longleftrightarrow> (\<forall>c \<in> set g. c = newline \<or> is_blank c)"

inductive prints :: "node \<Rightarrow> bytes \<Rightarrow> bool" and prints_list :: "node list \<Rightarrow> bytes \<Rightarrow> bool" where
  prints_atom: "atom_ok a \<Longrightarrow> prints (Atom a) a"
| prints_lst: "prints_list xs s \<Longrightarrow> prints (Lst xs) (''('' @ s @ '')'')"
| prints_nil: "prints_list [] []"
| prints_one: "prints x s \<Longrightarrow> prints_list [x] s"
| prints_cons: "prints x s \<Longrightarrow> is_gap g \<Longrightarrow> g \<noteq> [] \<Longrightarrow> prints_list (y # ys) t \<Longrightarrow>
    prints_list (x # y # ys) (s @ g @ t)"

definition ends :: "bytes \<Rightarrow> bool" where
  "ends r \<longleftrightarrow> (case r of [] \<Rightarrow> True | c # _ \<Rightarrow> is_delim c)"

lemma literal_extend: "literal q ln s = Inr (l, t) \<Longrightarrow> literal q ln' (s @ r) = Inr (l, t @ r)"
proof (induction q ln s arbitrary: l t rule: literal.induct)
  case (2 q ln c s)
  then show ?case by (cases s) (auto split: if_splits)
qed simp

lemma atom_loop_extend:
  "atom_loop st ln s = Inr (a, []) \<Longrightarrow> ends r \<Longrightarrow> atom_loop st ln' (s @ r) = Inr (a, r)"
proof (induction st ln s arbitrary: a rule: atom_loop.induct)
  case (1 st ln)
  then show ?case by (cases r) (auto simp: ends_def)
next
  case (2 st ln c s)
  from "2.prems"(1) show ?case
  proof (cases rule: atom_loop_cases)
    case (number a')
    with "2.IH"(1) "2.prems"(2) show ?thesis by simp
  next
    case (quoted l s' a')
    with "2.IH"(2) [of "(l, s')"] "2.prems"(2) have "atom_loop (start_of st c) ln' (s' @ r) = Inr (a', r)"
      by auto
    with quoted literal_extend [OF quoted(4), of ln' r] show ?thesis by auto
  next
    case (plain a')
    with "2.IH"(3) "2.prems"(2) show ?thesis by simp
  qed simp
qed

lemma read_atom_ok: "atom_ok a \<Longrightarrow> ends r \<Longrightarrow> read_atom ln (a @ r) = Inr (Atom a, r)"
  using atom_loop_extend [of None 0 a a r ln] by (simp add: atom_ok_def read_atom_def)

lemma atom_ok_Cons: "atom_ok a \<Longrightarrow> \<exists>c s. a = c # s \<and> \<not> is_delim c"
  by (cases a) (auto simp: atom_ok_def)

lemma space_gap: "is_gap g \<Longrightarrow> \<exists>ln'. space (g @ s) ln = space s ln'"
proof (induction g arbitrary: ln)
  case (Cons c g)
  then show ?case by (auto simp: is_gap_def space.simps(2))
qed auto

lemma space_stop: "\<not> is_delim c \<or> c = CHR ''('' \<or> c = CHR '')'' \<Longrightarrow> space (c # s) ln = (c # s, ln)"
  by (auto simp: is_delim_def is_blank_def space.simps(2))

lemma is_delim_simps [simp]: "is_delim newline" "is_blank c \<Longrightarrow> is_delim c" "is_delim (CHR '')'')"
  "is_delim (CHR ''('')" "is_delim (CHR '' '')"
  by (auto simp: is_delim_def is_blank_def)

lemma prints_head: "prints n s \<Longrightarrow> \<exists>c s'. s = c # s' \<and> (\<not> is_delim c \<or> c = CHR ''('')"
proof (erule prints.cases)
  fix a
  assume "n = Atom a" "s = a" "atom_ok a"
  then show ?thesis using atom_ok_Cons by blast
next
  fix xs t
  assume "s = ''('' @ t @ '')''"
  then show ?thesis by simp
qed

lemma ends_gap: "is_gap g \<Longrightarrow> g \<noteq> [] \<Longrightarrow> ends (g @ r)"
proof -
  assume g: "is_gap g" "g \<noteq> []"
  then obtain c g' where c: "g = c # g'" by (cases g) auto
  with g have "c = newline \<or> is_blank c" by (simp add: is_gap_def)
  then have "is_delim c" unfolding is_delim_def by blast
  with c show ?thesis by (simp add: ends_def)
qed

lemma read_prints:
  shows "prints n s \<Longrightarrow> ends r \<Longrightarrow> 2 * length s \<le> fuel \<Longrightarrow>
      \<exists>ln'. read_node fuel ln (s @ r) = Some (Inr (n, r, ln'))"
    and "prints_list xs s \<Longrightarrow> 2 * length s < fuel \<Longrightarrow>
      \<exists>ln'. read_items fuel ln (s @ CHR '')'' # r) = Some (Inr (xs, r, ln'))"
proof (induction arbitrary: r fuel ln and r fuel ln rule: prints_prints_list.inducts)
  case (prints_atom a)
  from atom_ok_Cons [OF prints_atom(1)] obtain c s where a: "a = c # s" "\<not> is_delim c" by blast
  then have "c \<noteq> CHR ''(''" "c \<noteq> CHR '')''" by auto
  with a prints_atom read_atom_ok [OF prints_atom(1,2), of ln] show ?case
    by (cases fuel) auto
next
  case (prints_lst xs s)
  then obtain f where f: "fuel = Suc f" "2 * length s < f" by (cases fuel) auto
  with prints_lst.IH [OF f(2), of ln r] show ?case by auto
next
  case prints_nil
  then show ?case by (cases fuel) (auto simp: space_stop)
next
  case (prints_one x s)
  then obtain f where f: "fuel = Suc f" "2 * length s \<le> f" by (cases fuel) auto
  obtain c s' where s: "s = c # s'" "\<not> is_delim c \<or> c = CHR ''(''"
    using prints_head [OF prints_one.hyps] by blast
  obtain ln' where n: "read_node f ln (s @ CHR '')'' # r) = Some (Inr (x, CHR '')'' # r, ln'))"
    using prints_one.IH [of "CHR '')'' # r" f ln] f(2) by (auto simp: ends_def)
  from s f(2) obtain f' where "f = Suc f'" by (cases f) auto
  with n f s show ?case by (auto simp: space_stop)
next
  case (prints_cons x s g y ys t)
  then obtain f where f: "fuel = Suc f" "2 * length s + 2 * length g + 2 * length t \<le> f" by (cases fuel) auto
  obtain c s' where s: "s = c # s'" "\<not> is_delim c \<or> c = CHR ''(''"
    using prints_head [OF prints_cons.hyps(1)] by blast
  let ?r = "g @ t @ CHR '')'' # r"
  obtain ln1 where n: "read_node f ln (s @ ?r) = Some (Inr (x, ?r, ln1))"
    using prints_cons.IH(1) [of ?r f ln] f(2) ends_gap [OF prints_cons.hyps(2,3)] by auto
  obtain ln2 where sp: "space ?r ln1 = space (t @ CHR '')'' # r) ln2"
    using space_gap [OF prints_cons.hyps(2)] by blast
  have "2 * length t < f" using f(2) prints_cons.hyps(3) by (cases g) auto
  then obtain ln3 where t: "read_items f ln2 (t @ CHR '')'' # r) = Some (Inr (y # ys, r, ln3))"
    using prints_cons.IH(2) by blast
  then obtain f' where "f = Suc f'" by (cases f) auto
  with t sp have "read_items f ln1 ?r = Some (Inr (y # ys, r, ln3))" by simp
  with n f s show ?case by (auto simp: space_stop)
qed

text \<open>
  A writer of nodes whose every output spells its node is inverted by the reader.  The
  flat printer and the layout printer at a column are both such writers.
\<close>

locale sexp_writer =
  fixes writes :: "node \<Rightarrow> bytes"
  assumes writes_prints: "wf_node n \<Longrightarrow> prints n (writes n)"
begin

lemma read_writes:
  assumes "wf_node n" "ends r" "2 * length (writes n) \<le> fuel"
  shows "\<exists>ln'. read_node fuel ln (writes n @ r) = Some (Inr (n, r, ln'))"
  using read_prints(1) [OF writes_prints [OF assms(1)] assms(2,3)] .

lemma writes_head: "wf_node n \<Longrightarrow> \<exists>c s. writes n = c # s \<and> (\<not> is_delim c \<or> c = CHR ''('')"
  using prints_head [OF writes_prints] .

lemma writes_injective:
  assumes "wf_node m" "wf_node n" "writes m = writes n"
  shows "m = n"
proof -
  have e: "ends []" by (simp add: ends_def)
  from read_writes [OF assms(1) e order_refl] read_writes [OF assms(2) e order_refl] assms(3)
  show ?thesis by (metis option.inject old.sum.inject(2) prod.inject)
qed

lemma Read_writes:
  assumes "wf_node n"
  shows "Read (writes n) = Some (Inr [n])"
proof -
  obtain c s where cs: "writes n = c # s" "\<not> is_delim c \<or> c = CHR ''(''"
    using writes_head [OF assms] by blast
  obtain ln' where "read_node (2 * length (writes n) + 1) 1 (writes n) = Some (Inr (n, [], ln'))"
    using read_writes [OF assms, of "[]" "2 * length (writes n) + 1" 1] by (auto simp: ends_def)
  with cs show ?thesis by (auto simp: Read_def space_stop)
qed

lemma read_forms_writes:
  assumes "wf_node n" "is_gap g" "ends r" "2 * length (writes n) \<le> fuel"
  shows "\<exists>ln'. read_forms (Suc fuel) ln (g @ writes n @ r) =
    (case read_forms fuel ln' r of
       None \<Rightarrow> None | Some (Inl e) \<Rightarrow> Some (Inl e) | Some (Inr xs) \<Rightarrow> Some (Inr (n # xs)))"
proof -
  obtain c s where cs: "writes n = c # s" "\<not> is_delim c \<or> c = CHR ''(''"
    using writes_head [OF assms(1)] by blast
  obtain ln1 where "space (g @ writes n @ r) ln = space (writes n @ r) ln1"
    using space_gap [OF assms(2)] by blast
  with cs have sp: "space (g @ writes n @ r) ln = (writes n @ r, ln1)" by (auto simp: space_stop)
  obtain ln2 where "read_node fuel ln1 (writes n @ r) = Some (Inr (n, r, ln2))"
    using read_writes [OF assms(1,3,4)] by blast
  with sp cs show ?thesis by auto
qed

end

lemma flat_prints: "wf_node n \<Longrightarrow> prints n (flat n)"
  and flat_list_prints: "\<forall>x \<in> set xs. wf_node x \<Longrightarrow> prints_list xs (flat_list xs)"
proof (induction n and xs rule: flat_flat_list.induct)
  case (5 x y ys)
  then show ?case
    using prints_cons [of x "flat x" "'' ''" y ys] by (auto simp: is_gap_def is_blank_def)
qed (auto intro: prints_prints_list.intros prints_lst [of _ "flat_list _", simplified])

interpretation flat: sexp_writer flat
  by unfold_locales (rule flat_prints)

lemma layout_prints: "wf_node n \<Longrightarrow> prints n (layout n col)"
  and layout_rest_prints: "\<forall>x \<in> set xs. wf_node x \<Longrightarrow> prints y t \<Longrightarrow>
    prints_list (y # xs) (t @ layout_rest xs i k pos inner)"
proof (induction n col and xs i k pos inner arbitrary: and y t rule: layout_layout_rest.induct)
  case (1 a col)
  then show ?case by (simp add: prints_atom)
next
  case (2 xs col)
  show ?case
  proof (cases "fits_line (Lst xs) col")
    case True
    with flat_prints [OF "2.prems"] show ?thesis by simp
  next
    case False
    show ?thesis
    proof (cases xs)
      case Nil
      with False show ?thesis using prints_lst [OF prints_nil] by simp
    next
      case (Cons first rest)
      have first: "prints first (layout first (col + 1))"
        using "2.IH"(1) [OF False Cons] "2.prems" Cons by simp
      have wf: "\<forall>x \<in> set rest. wf_node x" using "2.prems" Cons by simp
      show ?thesis
      proof (cases first)
        case (Atom a)
        have "prints_list (first # rest) (layout first (col + 1) @
            layout_rest rest 0 (keep (Lst xs)) (col + 1 + length a) (col + 2))"
          using "2.IH"(2) [OF False Cons Atom wf first] .
        from prints_lst [OF this] False Cons Atom show ?thesis by simp
      next
        case (Lst ys)
        have "prints_list (first # rest) (layout first (col + 1) @
            layout_rest rest 0 0 (col + 1) (col + 1))"
          using "2.IH"(3) [OF False Cons Lst wf first] .
        from prints_lst [OF this] False Cons Lst show ?thesis by simp
      qed
    qed
  qed
next
  case (3 i k pos inner)
  then show ?case by (simp add: prints_one)
next
  case (4 x xs i k pos inner)
  let ?kept = "i < k \<and> (pos + 1 + length (flat x) \<le> Width \<or> i = 0 \<and> \<not> IsList x)"
  have wf: "wf_node x" "\<forall>z \<in> set xs. wf_node z" using "4.prems"(1) by auto
  show ?case
  proof (cases ?kept)
    case True
    have "prints_list (x # xs) (layout x (pos + 1) @
        layout_rest xs (Suc i) k (pos + 1 + length (flat x)) inner)"
      using "4.IH"(2) [OF refl True wf(2) "4.IH"(1) [OF refl True wf(1)]] .
    from prints_cons [OF "4.prems"(2) _ _ this, of "'' ''"] True show ?thesis
      by (simp add: Let_def is_gap_def is_blank_def)
  next
    case False
    have "prints_list (x # xs) (layout x inner @ layout_rest xs (Suc i) 0 pos inner)"
      using "4.IH"(4) [OF refl False wf(2) "4.IH"(3) [OF refl False wf(1)]] .
    from prints_cons [OF "4.prems"(2) _ _ this, of "newline # replicate inner (CHR '' '')"] False
    show ?thesis by (auto simp: Let_def is_gap_def is_blank_def)
  qed
qed

interpretation lay: sexp_writer "\<lambda>n. layout n col" for col
  by unfold_locales (rule layout_prints)

lemma ends_Cons [simp]: "ends (newline # r)"
  by (simp add: ends_def)

lemma read_forms_Format:
  assumes "\<forall>n \<in> set fs. wf_node n" "is_gap g" "2 * length (Format_from prev fs) < fuel"
  shows "read_forms fuel ln (g @ Format_from prev fs) = Some (Inr fs)"
  using assms
proof (induction fs arbitrary: prev fuel ln g)
  case Nil
  then obtain f where "fuel = Suc f" by (cases fuel) auto
  with space_gap [OF Nil.prems(2), of "[]" ln] show ?case by auto
next
  case (Cons n fs)
  then obtain f where f: "fuel = Suc f" by (cases fuel) auto
  let ?sep = "case prev of None \<Rightarrow> []
      | Some p \<Rightarrow> if Is n ''include'' \<and> Is p ''include'' then [] else [newline]"
  let ?r = "newline # Format_from (Some n) fs"
  have gap: "is_gap (g @ ?sep)" "is_gap [newline]"
    using Cons.prems(2) by (auto simp: is_gap_def split: option.splits)
  have len: "2 * length (layout n 0) \<le> f" "2 * length (Format_from (Some n) fs) < f"
    using Cons.prems(3) f by auto
  have wf: "wf_node n" "\<forall>n \<in> set fs. wf_node n" using Cons.prems(1) by auto
  obtain ln' where "read_forms fuel ln ((g @ ?sep) @ layout n 0 @ ?r) =
      (case read_forms f ln' ?r of
         None \<Rightarrow> None | Some (Inl e) \<Rightarrow> Some (Inl e) | Some (Inr xs) \<Rightarrow> Some (Inr (n # xs)))"
    using lay.read_forms_writes [OF wf(1) gap(1) ends_Cons len(1)] f by blast
  moreover have "read_forms f ln' ?r = Some (Inr fs)"
    using Cons.IH [OF wf(2) gap(2) len(2)] by simp
  ultimately show ?case by simp
qed

subsection \<open>Properties\<close>

text \<open>
  C2.  What \<open>Format\<close> lays out, \<open>Read\<close> reads back: for forms whose atoms are tokens, the
  layout printer's line breaks, indentation and blank lines never change what is read.
\<close>

theorem Read_Format:
  assumes "\<forall>n \<in> set fs. wf_node n"
  shows "Read (Format fs) = Some (Inr fs)"
  using read_forms_Format [OF assms, of "[]" None "2 * length (Format fs) + 2" 1]
  by (simp add: Read_def Format_def is_gap_def)

theorem Read_Format_witness:
  "Read (Format [Lst [Atom ''defn'', Atom ''f'', Lst [], Lst [Atom ''return'', Atom ''1'']]]) =
     Some (Inr [Lst [Atom ''defn'', Atom ''f'', Lst [], Lst [Atom ''return'', Atom ''1'']]])"
proof -
  let ?n = "Lst [Atom ''defn'', Atom ''f'', Lst [], Lst [Atom ''return'', Atom ''1'']]"
  have "wf_node ?n" by code_simp
  then show ?thesis using Read_Format [of "[?n]"] by simp
qed

text \<open>
  C8.  The one-line spelling of a node whose atoms are tokens (\<open>Node.String\<close>) reads back as that
  node alone.
\<close>

theorem Read_flat:
  assumes "wf_node n"
  shows "Read (flat n) = Some (Inr [n])"
  using assms by (rule flat.Read_writes)

theorem Read_flat_witness:
  "Read (flat (Lst [Atom ''call'', Atom ''f'', Lst []])) = Some (Inr [Lst [Atom ''call'', Atom ''f'', Lst []]])"
proof -
  have "wf_node (Lst [Atom ''call'', Atom ''f'', Lst []])" by code_simp
  then show ?thesis by (rule Read_flat)
qed

text \<open>
  C9.  The reader returns on every input, with forms or one of its four errors: it never
  runs on, and never indexes past the end of the text.
\<close>

theorem Read_total: "Read src \<noteq> None \<and> Read src \<noteq> Some (Inl IndexOutOfRange)"
  using read_forms_total [of src "2 * length src + 2" 1] by (simp add: Read_def no_panic_def)

end
