(* ===== verification/Pattern.thy ===== *)
theory Pattern
  imports Sexp
begin

text \<open>
  The patterns over C-lisp forms, crefactor/clisp/pattern.go: reading a pattern (the reader's
  forms, then \<open>shapes\<close>), matching a form, and writing a form from a pattern and what it
  bound.  \<open>Bindings\<close> is a map from names to nodes.  \<open>match\<close> gives the bindings it leaves,
  or \<open>None\<close> for no match; the Go code's map is only read after a match, so what a failed
  attempt leaves in it is not modelled.
\<close>

type_synonym bindings = "bytes \<rightharpoonup> node"

subsection \<open>Reading a pattern\<close>

datatype pattern_error =
    ReadError read_error
  | NoPatternAfter bytes
  | BindsRun bytes
  | NotOneForm nat

definition shapedAtom :: "bytes \<Rightarrow> (bytes \<times> bytes) option" where
  "shapedAtom s =
     (if length s < 3 \<or> hd s \<noteq> CHR ''?'' then None
      else (case index_byte s (CHR '':'') of
          None \<Rightarrow> None
        | Some i \<Rightarrow> if i < 2 then None else Some (drop 1 (take i s), drop (i + 1) s)))"

text \<open>The end of an iteration of \<open>shapes\<close> that has a name and its pattern.\<close>

definition shaped_out :: "bytes \<Rightarrow> node \<Rightarrow> pattern_error + node list \<Rightarrow> pattern_error + node list" where
  "shaped_out name sub out =
     (if sub = Atom ''_*'' then Inl (BindsRun name)
      else case out of Inl e \<Rightarrow> Inl e | Inr ys \<Rightarrow> Inr (Lst [Atom (''?'' @ name @ '':''), sub] # ys))"

function (sequential) shapes :: "node list \<Rightarrow> pattern_error + node list" where
  "shapes [] = Inr []"
| "shapes (Lst ys # xs) =
     (case shapes ys of
        Inl e \<Rightarrow> Inl e
      | Inr kids \<Rightarrow> (case shapes xs of Inl e \<Rightarrow> Inl e | Inr out \<Rightarrow> Inr (Lst kids # out)))"
| "shapes (Atom a # xs) =
     (case shapedAtom a of
        None \<Rightarrow> (case shapes xs of Inl e \<Rightarrow> Inl e | Inr out \<Rightarrow> Inr (Atom a # out))
      | Some (name, rest) \<Rightarrow>
          if rest \<noteq> [] then shaped_out name (Atom rest) (shapes xs)
          else (case xs of
              [] \<Rightarrow> Inl (NoPatternAfter name)
            | y # ys \<Rightarrow>
                (case shapes [y] of
                   Inl e \<Rightarrow> Inl e
                 | Inr sx \<Rightarrow> shaped_out name (hd sx) (shapes ys))))"
  by pat_completeness auto
termination
  by (relation "measure (size_list size)") auto

definition read_pattern :: "bytes \<Rightarrow> (pattern_error + node) option" where
  "read_pattern src =
     (case Read src of
        None \<Rightarrow> None
      | Some (Inl e) \<Rightarrow> Some (Inl (ReadError e))
      | Some (Inr fs) \<Rightarrow>
          (case shapes fs of
             Inl e \<Rightarrow> Some (Inl e)
           | Inr gs \<Rightarrow> (case gs of [p] \<Rightarrow> Some (Inr p) | _ \<Rightarrow> Some (Inl (NotOneForm (length gs))))))"

subsection \<open>Shaped bindings\<close>

fun Shaped :: "node \<Rightarrow> (bytes \<times> node) option" where
  "Shaped (Lst [Atom h, sub]) =
     (if length h < 3 \<or> hd h \<noteq> CHR ''?'' \<or> last h \<noteq> CHR '':''
         \<or> index_byte h (CHR '':'') \<noteq> Some (length h - 1) then None
      else Some (drop 1 (take (length h - 1) h), sub))"
| "Shaped _ = None"

lemma Shaped_size: "Shaped p = Some (name, sub) \<Longrightarrow> size sub < size p"
  by (cases p rule: Shaped.cases) (auto split: if_splits)

lemma Shaped_Lst: "Shaped p = Some (name, sub) \<Longrightarrow> \<exists>h. p = Lst [Atom h, sub]"
  by (cases p rule: Shaped.cases) (auto split: if_splits)

definition is_var :: "bytes \<Rightarrow> bool" where
  "is_var a \<longleftrightarrow> length a > 1 \<and> hd a = CHR ''?''"

subsection \<open>Matching and substitution\<close>

text \<open>\<open>Equal\<close> and \<open>Clone\<close> of tree.go: the same tree, and a copy of it.\<close>

fun Equal :: "node \<Rightarrow> node \<Rightarrow> bool"
  and Equal_list :: "node list \<Rightarrow> node list \<Rightarrow> bool" where
  "Equal (Atom a) (Atom b) = (a = b)"
| "Equal (Lst xs) (Lst ys) = (length xs = length ys \<and> Equal_list xs ys)"
| "Equal _ _ = False"
| "Equal_list (x # xs) (y # ys) = (Equal x y \<and> Equal_list xs ys)"
| "Equal_list _ _ = True"

fun Clone :: "node \<Rightarrow> node" where
  "Clone (Atom a) = Atom a"
| "Clone (Lst xs) = Lst (map Clone xs)"

lemma Equal_eq: "Equal a b \<longleftrightarrow> a = b"
  and Equal_list_eq: "length xs = length ys \<Longrightarrow> Equal_list xs ys \<longleftrightarrow> xs = ys"
  by (induction a b and xs ys rule: Equal_Equal_list.induct) auto

lemma Clone_id [simp]: "Clone n = n"
  by (induction n) (auto simp: map_idI)

definition bind_name :: "bytes \<Rightarrow> node \<Rightarrow> bindings \<Rightarrow> bindings option" where
  "bind_name name n b =
     (case b name of
        Some old \<Rightarrow> if Equal old n then Some b else None
      | None \<Rightarrow> Some (b(name \<mapsto> n)))"

function (sequential) match :: "node \<Rightarrow> node \<Rightarrow> bindings \<Rightarrow> bindings option"
  and match_list :: "node list \<Rightarrow> node list \<Rightarrow> bindings \<Rightarrow> bindings option" where
  "match (Atom a) n b =
     (if a = ''_'' then Some b
      else if is_var a then bind_name (drop 1 a) n b
      else if n = Atom a then Some b else None)"
| "match (Lst ps) n b =
     (case Shaped (Lst ps) of
        Some (name, sub) \<Rightarrow>
          (case match sub n b of None \<Rightarrow> None | Some b' \<Rightarrow> bind_name name n b')
      | None \<Rightarrow> (case n of Atom _ \<Rightarrow> None | Lst ns \<Rightarrow> match_list ps ns b))"
| "match_list [] ns b = (if ns = [] then Some b else None)"
| "match_list (q # qs) ns b =
     (if q = Atom ''_*'' \<and> qs = [] then Some b
      else (case ns of
          [] \<Rightarrow> None
        | x # xs \<Rightarrow> (case match q x b of None \<Rightarrow> None | Some b' \<Rightarrow> match_list qs xs b')))"
  by pat_completeness auto
termination
  by (relation "measure (\<lambda>p. case p of Inl (p, _) \<Rightarrow> 2 * size p | Inr (ps, _) \<Rightarrow> 2 * size_list size ps + 1)")
    (auto dest!: Shaped_size)

definition Match :: "node \<Rightarrow> node \<Rightarrow> bindings option" where
  "Match p n = match p n Map.empty"

definition Matches :: "node \<Rightarrow> node \<Rightarrow> bool" where
  "Matches p n \<longleftrightarrow> match p n Map.empty \<noteq> None"

function (sequential) Subst :: "node \<Rightarrow> bindings \<Rightarrow> node" where
  "Subst (Atom a) b =
     (if is_var a then (case b (drop 1 a) of Some v \<Rightarrow> Clone v | None \<Rightarrow> Atom a) else Atom a)"
| "Subst (Lst ps) b =
     (case Shaped (Lst ps) of
        Some (name, sub) \<Rightarrow> (case b name of Some v \<Rightarrow> Clone v | None \<Rightarrow> Subst sub b)
      | None \<Rightarrow> Lst (map (\<lambda>x. Subst x b) ps))"
  by pat_completeness auto
termination
  by (relation "measure (\<lambda>(p, b). size p)") (auto dest!: Shaped_size simp: less_Suc_eq_le size_list_estimation')

subsection \<open>Bindings only grow\<close>

lemma bind_name_Some:
  "bind_name name n b = Some b' \<longleftrightarrow> (b name = Some n \<and> b' = b \<or> b name = None \<and> b' = b(name \<mapsto> n))"
  by (auto simp: bind_name_def Equal_eq split: option.splits)

lemma bind_name_grows: "bind_name name n b = Some b' \<Longrightarrow> b \<subseteq>\<^sub>m b' \<and> b' name = Some n"
  by (auto simp: bind_name_Some map_le_def)

lemma match_grows:
  shows "match p n b = Some b' \<Longrightarrow> b \<subseteq>\<^sub>m b'"
    and "match_list ps ns b = Some b' \<Longrightarrow> b \<subseteq>\<^sub>m b'"
proof (induction p n b and ps ns b arbitrary: b' and b' rule: match_match_list.induct)
  case (1 a n b)
  then show ?case by (auto split: if_splits dest: bind_name_grows)
next
  case (2 ps n b)
  show ?case
  proof (cases "Shaped (Lst ps)")
    case None
    with 2 show ?thesis by (auto split: node.splits)
  next
    case (Some s)
    then obtain name sub b1 where s: "s = (name, sub)" "match sub n b = Some b1"
      "bind_name name n b1 = Some b'"
      using "2.prems" by (cases s) (auto split: option.splits)
    with "2.IH"(2) [OF Some s(1) [symmetric]] have "b \<subseteq>\<^sub>m b1" by simp
    with s(3) show ?thesis by (meson bind_name_grows map_le_trans)
  qed
next
  case (4 q qs ns b)
  show ?case
  proof (cases "q = Atom ''_*'' \<and> qs = []")
    case True
    with "4.prems" show ?thesis by simp
  next
    case False
    with "4.prems" obtain x xs b1 where x: "ns = x # xs" "match q x b = Some b1"
      "match_list qs xs b1 = Some b'"
      by (auto split: list.splits option.splits)
    with "4.IH"(1) [OF False x(1,2)] "4.IH"(2) [OF False x(1,2,3)] show ?thesis
      by (blast intro: map_le_trans)
  qed
qed (auto split: if_splits)

subsection \<open>A match is an instance\<close>

text \<open>
  A pattern without wildcards outside its shaped bindings: every node it matches is the
  substitution instance of the pattern.
\<close>

fun no_wild :: "node \<Rightarrow> bool" where
  "no_wild (Atom a) \<longleftrightarrow> a \<noteq> ''_''"
| "no_wild (Lst ps) \<longleftrightarrow>
     Shaped (Lst ps) \<noteq> None \<or> (ps \<noteq> [] \<longrightarrow> last ps \<noteq> Atom ''_*'') \<and> (\<forall>p \<in> set ps. no_wild p)"

lemma match_Subst_gen:
  shows "match p n b = Some b' \<Longrightarrow> no_wild p \<Longrightarrow> b' \<subseteq>\<^sub>m c \<Longrightarrow> Subst p c = n"
    and "match_list ps ns b = Some b' \<Longrightarrow> ps \<noteq> [] \<longrightarrow> last ps \<noteq> Atom ''_*'' \<Longrightarrow>
      \<forall>p \<in> set ps. no_wild p \<Longrightarrow> b' \<subseteq>\<^sub>m c \<Longrightarrow> map (\<lambda>p. Subst p c) ps = ns"
proof (induction p n b and ps ns b arbitrary: b' c and b' c rule: match_match_list.induct)
  case (1 a n b)
  then show ?case
    by (auto split: if_splits option.splits dest!: bind_name_grows simp: map_le_def dom_def)
next
  case (2 ps n b)
  show ?case
  proof (cases "Shaped (Lst ps)")
    case None
    with 2 show ?thesis by (auto split: node.splits)
  next
    case (Some s)
    then obtain name sub b1 where s: "s = (name, sub)" "bind_name name n b1 = Some b'"
      using "2.prems"(1) by (cases s) (auto split: option.splits)
    with "2.prems"(3) have "c name = Some n"
      by (auto dest!: bind_name_grows simp: map_le_def dom_def)
    with Some s show ?thesis by simp
  qed
next
  case (3 ns b)
  then show ?case by (auto split: if_splits)
next
  case (4 q qs ns b)
  then have ne: "\<not> (q = Atom ''_*'' \<and> qs = [])" by auto
  with "4.prems"(1) obtain x xs b1 where x: "ns = x # xs" "match q x b = Some b1"
    "match_list qs xs b1 = Some b'"
    by (auto split: list.splits option.splits)
  have "b1 \<subseteq>\<^sub>m c" using match_grows(2) [OF x(3)] "4.prems"(4) by (rule map_le_trans)
  with "4.IH"(1) [OF ne x(1,2)] "4.IH"(2) [OF ne x(1,2,3)] "4.prems" x show ?case
    by (auto split: if_splits)
qed

text \<open>
  Conversely, substituting for every variable of a pattern without shaped bindings gives
  a node that the pattern matches, with bindings among those substituted.
\<close>

fun vars :: "node \<Rightarrow> bytes set" where
  "vars (Atom a) = (if is_var a then {drop 1 a} else {})"
| "vars (Lst ps) = (\<Union>p \<in> set ps. vars p)"

fun unshaped :: "node \<Rightarrow> bool" where
  "unshaped (Atom a) = True"
| "unshaped (Lst ps) \<longleftrightarrow> Shaped (Lst ps) = None \<and> (\<forall>p \<in> set ps. unshaped p)"

lemma match_instance_gen:
  shows "n = Subst p c \<Longrightarrow> b \<subseteq>\<^sub>m c \<Longrightarrow> vars p \<subseteq> dom c \<Longrightarrow> unshaped p \<Longrightarrow>
      \<exists>b'. match p n b = Some b' \<and> b' \<subseteq>\<^sub>m c"
    and "ns = map (\<lambda>p. Subst p c) ps \<Longrightarrow> b \<subseteq>\<^sub>m c \<Longrightarrow> (\<Union>p \<in> set ps. vars p) \<subseteq> dom c \<Longrightarrow>
      \<forall>p \<in> set ps. unshaped p \<Longrightarrow> \<exists>b'. match_list ps ns b = Some b' \<and> b' \<subseteq>\<^sub>m c"
proof (induction p n b and ps ns b rule: match_match_list.induct)
  case (1 a n b)
  show ?case
  proof (cases "a \<noteq> ''_'' \<and> is_var a")
    case True
    with 1 obtain v where v: "c (drop 1 a) = Some v" by auto
    with True "1.prems" have "n = v" by simp
    with True v "1.prems"(2) show ?thesis
      by (cases "b (drop 1 a)") (auto simp: bind_name_def Equal_eq map_le_def dom_def)
  next
    case False
    with 1 show ?thesis by (auto simp: is_var_def)
  qed
next
  case (4 q qs ns b)
  then show ?case by (fastforce split: list.splits)
qed auto

subsection \<open>Properties\<close>

text \<open>
  C4.  What a pattern bound writes the matched form back: substituting the bindings of a
  match into the pattern gives the form itself, for a pattern with no wildcard outside a
  shaped binding.
\<close>

theorem Match_Subst:
  assumes "Match p n = Some b" and "no_wild p"
  shows "Subst p b = n"
  using match_Subst_gen(1) [OF assms(1) [unfolded Match_def] assms(2) map_le_refl] .

theorem Match_Subst_witness:
  "\<exists>b. Match (Lst [Atom ''='', Atom ''?x'', Lst [Atom ''?c:'', Lst [Atom ''call'', Atom ''_*'']]])
        (Lst [Atom ''='', Atom ''y'', Lst [Atom ''call'', Atom ''f'', Atom ''1'']]) = Some b \<and>
     Subst (Lst [Atom ''='', Atom ''?x'', Lst [Atom ''?c:'', Lst [Atom ''call'', Atom ''_*'']]]) b =
       Lst [Atom ''='', Atom ''y'', Lst [Atom ''call'', Atom ''f'', Atom ''1'']]"
proof -
  let ?p = "Lst [Atom ''='', Atom ''?x'', Lst [Atom ''?c:'', Lst [Atom ''call'', Atom ''_*'']]]"
  let ?n = "Lst [Atom ''='', Atom ''y'', Lst [Atom ''call'', Atom ''f'', Atom ''1'']]"
  obtain b where b: "Match ?p ?n = Some b" by (auto simp: Match_def is_var_def bind_name_def)
  have "no_wild ?p" by simp
  from b Match_Subst [OF b this] show ?thesis by blast
qed

text \<open>
  C5.  Every instance of a pattern matches it: when the bindings give every variable of a
  pattern without shaped bindings, the form \<open>Subst\<close> writes is matched, and what the match
  binds agrees with the bindings substituted.
\<close>

theorem Subst_Matches:
  assumes "vars p \<subseteq> dom c" and "unshaped p"
  shows "\<exists>b. Match p (Subst p c) = Some b \<and> b \<subseteq>\<^sub>m c"
  using match_instance_gen(1) [OF refl _ assms, of Map.empty] by (simp add: Match_def)

theorem Subst_Matches_witness:
  "\<exists>b. Match (Lst [Atom ''='', Atom ''?x'', Atom ''?x''])
        (Lst [Atom ''='', Lst [Atom ''f''], Lst [Atom ''f'']]) = Some b \<and>
     b \<subseteq>\<^sub>m [''x'' \<mapsto> Lst [Atom ''f'']]"
proof -
  let ?p = "Lst [Atom ''='', Atom ''?x'', Atom ''?x'']" and ?c = "[''x'' \<mapsto> Lst [Atom ''f'']]"
  have "vars ?p \<subseteq> dom ?c" "unshaped ?p" by (auto simp: is_var_def)
  from Subst_Matches [OF this] show ?thesis by (simp add: is_var_def)
qed

end
