(* ===== verification/Consts.thy ===== *)
theory Consts
  imports Prelude "HOL-Library.Word" "HOL-Library.Signed_Division"
begin

text \<open>
  The constants of C as the pipeline's evaluators read them: Go's \<open>strconv.ParseUint\<close>
  (standard library), \<open>parseInt\<close> and \<open>parseChar\<close> of crefactor/sweep/eval.go, and the
  arithmetic of \<open>int64\<close>, a 64-bit word that wraps, compared and divided as signed.
\<close>

unbundle bit_operations_syntax

type_synonym int64 = "64 word"

subsection \<open>strconv.ParseUint\<close>

definition digit_value :: "byte \<Rightarrow> nat option" where
  "digit_value c =
     (if is_digit c then Some (byte_val c - 48)
      else if is_lower c then Some (byte_val c - 97 + 10)
      else if is_upper c then Some (byte_val c - 65 + 10)
      else None)"

text \<open>The value of a digit string, \<open>None\<close> at a byte that is no digit of the base.\<close>

fun digits_value :: "nat \<Rightarrow> nat \<Rightarrow> bytes \<Rightarrow> nat option" where
  "digits_value base acc [] = Some acc"
| "digits_value base acc (c # s) =
     (case digit_value c of
        None \<Rightarrow> None
      | Some d \<Rightarrow> if d < base then digits_value base (acc * base + d) s else None)"

definition ParseUint :: "bytes \<Rightarrow> nat \<Rightarrow> nat \<Rightarrow> nat option" where
  "ParseUint s base bits =
     (if s = [] then None
      else case digits_value base 0 s of
          None \<Rightarrow> None
        | Some v \<Rightarrow> if v < 2 ^ bits then Some v else None)"

definition TrimRight :: "bytes \<Rightarrow> bytes \<Rightarrow> bytes" where
  "TrimRight s cutset = rev (dropWhile (\<lambda>c. c \<in> set cutset) (rev s))"

subsection \<open>parseInt and parseChar\<close>

definition parseInt :: "bytes \<Rightarrow> int64 option" where
  "parseInt t0 =
     (let t = TrimRight t0 ''uUlL'' in
      map_option of_nat
        (if has_prefix t ''0x'' \<or> has_prefix t ''0X'' then ParseUint (drop 2 t) 16 64
         else if has_prefix t ''0b'' \<or> has_prefix t ''0B'' then ParseUint (drop 2 t) 2 64
         else if length t > 1 \<and> hd t = CHR ''0'' then ParseUint (drop 1 t) 8 64
         else ParseUint t 10 64))"

definition byte_int :: "byte \<Rightarrow> int64" where
  "byte_int c = of_nat (byte_val c)"

fun parseChar :: "bytes \<Rightarrow> int64 option" where
  "parseChar [] = None"
| "parseChar [c] = Some (byte_int c)"
| "parseChar (c # e # s) =
     (if c \<noteq> backslash then None
      else if e = CHR ''n'' then Some (byte_int newline)
      else if e = CHR ''t'' then Some (byte_int tabchar)
      else if e = CHR ''r'' then Some (byte_int retchar)
      else if e \<in> set ''01234567'' then map_option of_nat (ParseUint (e # s) 8 8)
      else if e = CHR ''x'' then map_option of_nat (ParseUint s 16 8)
      else if e \<in> {backslash, squote, dquote, CHR ''?''} then Some (byte_int e)
      else if e = CHR ''a'' then Some 7
      else if e = CHR ''b'' then Some 8
      else if e = CHR ''f'' then Some 12
      else if e = CHR ''v'' then Some 11
      else if e = CHR ''e'' then Some 27
      else None)"

subsection \<open>Operations on int64\<close>

definition b2i :: "bool \<Rightarrow> int64" where
  "b2i b = (if b then 1 else 0)"

text \<open>Go's \<open>/\<close> and \<open>%\<close> on \<open>int64\<close> truncate towards zero and wrap at the one overflow.\<close>

definition quot64 :: "int64 \<Rightarrow> int64 \<Rightarrow> int64" where
  "quot64 l r = word_of_int (sint l sdiv sint r)"

definition rem64 :: "int64 \<Rightarrow> int64 \<Rightarrow> int64" where
  "rem64 l r = word_of_int (sint l smod sint r)"

text \<open>Go's shifts by an unsigned count: 64 or more shifts everything out.\<close>

definition shl64 :: "int64 \<Rightarrow> int64 \<Rightarrow> int64" where
  "shl64 l r = (if unat r \<ge> 64 then 0 else push_bit (unat r) l)"

definition sar64 :: "int64 \<Rightarrow> int64 \<Rightarrow> int64" where
  "sar64 l r = signed_drop_bit (if unat r \<ge> 64 then 63 else unat r) l"

lemma b2i_zero [simp]: "b2i b = 0 \<longleftrightarrow> \<not> b"
  by (simp add: b2i_def)

subsection \<open>A decimal numeral reads back\<close>

fun decimal :: "nat \<Rightarrow> bytes" where
  "decimal n = (if n < 10 then [digit_char n] else decimal (n div 10) @ [digit_char (n mod 10)])"

declare decimal.simps [simp del]

lemma digit_value_digit_char [byte_simps]: "d < 10 \<Longrightarrow> digit_value (digit_char d) = Some d"
  by (simp add: digit_value_def is_digit_digit_char byte_val_digit_char)

lemma digits_value_append:
  "digits_value b acc (s @ t) = (case digits_value b acc s of None \<Rightarrow> None | Some v \<Rightarrow> digits_value b v t)"
  by (induction b acc s rule: digits_value.induct) (auto split: option.splits)

lemma digits_value_decimal: "digits_value 10 0 (decimal n) = Some n"
proof (induction n rule: decimal.induct)
  case (1 n)
  show ?case
  proof (cases "n < 10")
    case True
    then show ?thesis by (simp add: decimal.simps [of n] byte_simps)
  next
    case False
    with 1 have "digits_value 10 0 (decimal (n div 10)) = Some (n div 10)" by simp
    with False show ?thesis
      by (simp add: decimal.simps [of n] digits_value_append byte_simps)
  qed
qed

lemma decimal_ne: "decimal n \<noteq> []"
  by (simp add: decimal.simps)

lemma decimal_digits: "\<forall>c \<in> set (decimal n). is_digit c"
proof (induction n rule: decimal.induct)
  case (1 n)
  then show ?case
    by (cases "n < 10") (auto simp: decimal.simps [of n] byte_simps)
qed

lemma ParseUint_decimal: "n < 2 ^ bits \<Longrightarrow> ParseUint (decimal n) 10 bits = Some n"
  by (simp add: ParseUint_def decimal_ne digits_value_decimal)

end
