(* ===== verification/SweepEval.thy ===== *)
theory SweepEval
  imports Consts
begin

text \<open>
  The evaluator of an enumerator's value text, crefactor/sweep/eval.go: the lexer
  \<open>lexConst\<close> and the precedence-climbing parser that computes as it goes.  The parser's
  position is the list of the tokens left.  The parser's functions call each other without
  a bound in Go; here each call spends fuel, and the outer \<open>None\<close> is running out of it.
  The inner \<open>None\<close> is the code's \<open>false\<close>, no answer.
\<close>

subsection \<open>The lexer\<close>

definition isIdent :: "byte \<Rightarrow> bool" where
  "isIdent c \<longleftrightarrow> c = CHR ''_'' \<or> is_lower c \<or> is_upper c \<or> is_digit c"

definition isSpace :: "byte \<Rightarrow> bool" where
  "isSpace c \<longleftrightarrow> c \<in> {CHR '' '', tabchar, newline, retchar, formfeed, vtab}"

text \<open>A character constant from after its opening quote.\<close>

fun lex_char :: "bytes \<Rightarrow> (bytes \<times> bytes) option" where
  "lex_char [] = None"
| "lex_char (c # s) =
     (if c = squote then Some ([c], s)
      else if c = backslash then
        (case s of
           [] \<Rightarrow> None
         | d # s' \<Rightarrow> map_option (\<lambda>(l, t). (c # d # l, t)) (lex_char s'))
      else map_option (\<lambda>(l, t). (c # l, t)) (lex_char s))"

lemma lex_char_split: "lex_char s = Some (l, t) \<Longrightarrow> s = l @ t"
proof (induction s arbitrary: l t rule: lex_char.induct)
  case (2 c s)
  then show ?case by (cases s) (auto split: if_splits)
qed simp

definition two_ops :: "bytes list" where
  "two_ops = [''<<'', ''>>'', ''<='', ''>='', ''=='', ''!='', ''&&'', ''||'']"

definition one_ops :: bytes where
  "one_ops = ''+-*/%&|^~!<>?:()''"

function lexConst :: "bytes \<Rightarrow> bytes list option" where
  "lexConst [] = Some []"
| "lexConst (c # s) =
     (if isSpace c then lexConst s
      else if is_digit c then
        map_option ((#) (c # takeWhile isIdent s)) (lexConst (dropWhile isIdent s))
      else if isIdent c then
        map_option ((#) (c # takeWhile isIdent s)) (lexConst (dropWhile isIdent s))
      else if c = squote then
        (case lex_char s of
           None \<Rightarrow> None
         | Some (l, t) \<Rightarrow> map_option ((#) (c # l)) (lexConst t))
      else if take 2 (c # s) \<in> set two_ops then
        map_option ((#) (take 2 (c # s))) (lexConst (drop 1 s))
      else if c \<notin> set one_ops then None
      else map_option ((#) [c]) (lexConst s))"
  by pat_completeness auto
termination
  by (relation "measure length")
    (auto simp: less_Suc_eq_le length_dropWhile_le dest!: lex_char_split)

subsection \<open>The parser\<close>

definition peek :: "bytes list \<Rightarrow> bytes" where
  "peek ts = (case ts of [] \<Rightarrow> [] | t # _ \<Rightarrow> t)"

definition precedence :: "bytes \<Rightarrow> nat option" where
  "precedence op =
     (if op = ''||'' then Some 1
      else if op = ''&&'' then Some 2
      else if op = ''|'' then Some 3
      else if op = ''^'' then Some 4
      else if op = ''&'' then Some 5
      else if op \<in> {''=='', ''!=''} then Some 6
      else if op \<in> {''<'', ''>'', ''<='', ''>=''} then Some 7
      else if op \<in> {''<<'', ''>>''} then Some 8
      else if op \<in> {''+'', ''-''} then Some 9
      else if op \<in> {''*'', ''/'', ''%''} then Some 10
      else None)"

text \<open>The \<open>switch op\<close> of \<open>binary\<close>.\<close>

definition apply_op :: "bytes \<Rightarrow> int64 \<Rightarrow> int64 \<Rightarrow> int64 option" where
  "apply_op op l r =
     (if op = ''||'' then Some (b2i (l \<noteq> 0 \<or> r \<noteq> 0))
      else if op = ''&&'' then Some (b2i (l \<noteq> 0 \<and> r \<noteq> 0))
      else if op = ''|'' then Some (l OR r)
      else if op = ''^'' then Some (l XOR r)
      else if op = ''&'' then Some (l AND r)
      else if op = ''=='' then Some (b2i (l = r))
      else if op = ''!='' then Some (b2i (l \<noteq> r))
      else if op = ''<'' then Some (b2i (sint l < sint r))
      else if op = ''>'' then Some (b2i (sint l > sint r))
      else if op = ''<='' then Some (b2i (sint l \<le> sint r))
      else if op = ''>='' then Some (b2i (sint l \<ge> sint r))
      else if op = ''<<'' then Some (shl64 l r)
      else if op = ''>>'' then Some (sar64 l r)
      else if op = ''+'' then Some (l + r)
      else if op = ''-'' then Some (l - r)
      else if op = ''*'' then Some (l * r)
      else if op = ''/'' then (if r = 0 then None else Some (quot64 l r))
      else if op = ''%'' then (if r = 0 then None else Some (rem64 l r))
      else Some l)"

definition intKeyword :: "bytes \<Rightarrow> bool" where
  "intKeyword t \<longleftrightarrow> t \<in> {''int'', ''unsigned'', ''signed'', ''long'', ''short''}"

definition unary_op :: "bytes \<Rightarrow> int64 \<Rightarrow> int64" where
  "unary_op t v =
     (if t = ''-'' then - v else if t = ''~'' then NOT v else if t = ''!'' then b2i (v = 0) else v)"

text \<open>
  The tokens after a cast to builtin integer words, when \<open>ts\<close>, what follows a \<open>(\<close>,
  starts with one.
\<close>

definition skip_cast :: "bytes list \<Rightarrow> bytes list option" where
  "skip_cast ts =
     (let r = dropWhile intKeyword ts in
      if r \<noteq> ts \<and> r \<noteq> [] \<and> hd r = '')'' then Some (tl r) else None)"

definition primary :: "(bytes \<rightharpoonup> int64) \<Rightarrow> bytes \<Rightarrow> int64 option" where
  "primary env t =
     (if t \<noteq> [] \<and> is_digit (hd t) then parseInt t
      else if t \<noteq> [] \<and> hd t = squote then parseChar (butlast (tl t))
      else env t)"

type_synonym parsed = "(int64 \<times> bytes list) fuelled"

function (sequential) cond :: "(bytes \<rightharpoonup> int64) \<Rightarrow> nat \<Rightarrow> bytes list \<Rightarrow> parsed"
  and binary :: "(bytes \<rightharpoonup> int64) \<Rightarrow> nat \<Rightarrow> nat \<Rightarrow> bytes list \<Rightarrow> parsed"
  and binary_loop :: "(bytes \<rightharpoonup> int64) \<Rightarrow> nat \<Rightarrow> nat \<Rightarrow> int64 \<Rightarrow> bytes list \<Rightarrow> parsed"
  and unary :: "(bytes \<rightharpoonup> int64) \<Rightarrow> nat \<Rightarrow> bytes list \<Rightarrow> parsed" where
  "cond env 0 ts = None"
| "cond env (Suc fuel) ts =
     fbind (binary env fuel 0 ts) (\<lambda>(c, ts1).
       if peek ts1 \<noteq> ''?'' then Some (Some (c, ts1))
       else fbind (cond env fuel (tl ts1)) (\<lambda>(a, ts2).
         if peek ts2 \<noteq> '':'' then Some None
         else fbind (cond env fuel (tl ts2)) (\<lambda>(b, ts3).
           Some (Some (if c \<noteq> 0 then a else b, ts3)))))"
| "binary env 0 lo ts = None"
| "binary env (Suc fuel) lo ts =
     fbind (unary env fuel ts) (\<lambda>(l, ts1). binary_loop env fuel lo l ts1)"
| "binary_loop env 0 lo l ts = None"
| "binary_loop env (Suc fuel) lo l ts =
     (case precedence (peek ts) of
        None \<Rightarrow> Some (Some (l, ts))
      | Some prec \<Rightarrow>
          if prec \<le> lo then Some (Some (l, ts))
          else fbind (binary env fuel prec (tl ts)) (\<lambda>(r, ts1).
            fbind (lift_option (apply_op (peek ts) l r)) (\<lambda>l'. binary_loop env fuel lo l' ts1)))"
| "unary env 0 ts = None"
| "unary env (Suc fuel) ts =
     (if peek ts \<in> {''-'', ''+'', ''~'', ''!''} then
        fbind (unary env fuel (tl ts)) (\<lambda>(v, ts1). Some (Some (unary_op (peek ts) v, ts1)))
      else if peek ts = ''('' then
        (case skip_cast (tl ts) of
           Some ts1 \<Rightarrow> unary env fuel ts1
         | None \<Rightarrow>
             fbind (cond env fuel (tl ts)) (\<lambda>(v, ts1).
               if peek ts1 \<noteq> '')'' then Some None else Some (Some (v, tl ts1))))
      else if peek ts = [] then Some None
      else fbind (lift_option (primary env (peek ts))) (\<lambda>v. Some (Some (v, tl ts))))"
  by pat_completeness auto
termination
  by (relation "measure (\<lambda>x. case x of Inl (Inl (e, f, ts)) \<Rightarrow> f | Inl (Inr (e, f, lo, ts)) \<Rightarrow> f
      | Inr (Inl (e, f, lo, l, ts)) \<Rightarrow> f | Inr (Inr (e, f, ts)) \<Rightarrow> f)") simp_all

definition evalConst :: "bytes \<Rightarrow> (bytes \<rightharpoonup> int64) \<Rightarrow> int64 fuelled" where
  "evalConst s env =
     (case lexConst s of
        None \<Rightarrow> Some None
      | Some toks \<Rightarrow>
          fbind (cond env (3 * length toks + 3) toks) (\<lambda>(v, rest).
            Some (if rest = [] then Some v else None)))"

subsection \<open>The parser returns\<close>

lemma skip_cast_length: "skip_cast ts = Some ts1 \<Longrightarrow> length ts1 < length ts"
proof -
  assume a: "skip_cast ts = Some ts1"
  let ?r = "dropWhile intKeyword ts"
  from a have "?r \<noteq> []" "ts1 = tl ?r" by (auto simp: skip_cast_def Let_def split: if_splits)
  moreover have "length ?r \<le> length ts" by (rule length_dropWhile_le)
  ultimately show ?thesis by (cases ?r) auto
qed

lemma peek_ne: "peek ts \<noteq> [] \<Longrightarrow> length (tl ts) < length ts"
  by (cases ts) (auto simp: peek_def)

lemma precedence_peek_ne: "precedence (peek ts) = Some k \<Longrightarrow> length (tl ts) < length ts"
  by (cases ts) (auto simp: peek_def precedence_def)

text \<open>Fuel enough to return, with no more than \<open>k\<close> tokens left.\<close>

definition returns :: "nat \<Rightarrow> parsed \<Rightarrow> bool" where
  "returns k r \<longleftrightarrow> r \<noteq> None \<and> (\<forall>v ts. r = Some (Some (v, ts)) \<longrightarrow> length ts \<le> k)"

lemma returns_Some [simp]:
  "\<not> returns k None" "returns k (Some None)" "returns k (Some (Some (v, ts))) \<longleftrightarrow> length ts \<le> k"
  by (simp_all add: returns_def)

lemma returns_mono: "returns k r \<Longrightarrow> k \<le> k' \<Longrightarrow> returns k' r"
  by (auto simp: returns_def)

lemma returns_fbind:
  assumes "returns k m" "\<And>v ts. length ts \<le> k \<Longrightarrow> returns k' (f (v, ts))"
  shows "returns k' (fbind m f)"
  using assms by (cases "(m, f)" rule: fbind.cases) auto

lemma returns_lift:
  assumes "\<And>x. returns k (f x)"
  shows "returns k (fbind (lift_option m) f)"
  using assms by (cases m) (auto simp: lift_option_def)

lemma parser_returns:
  shows "3 * length ts + 3 \<le> fuel \<Longrightarrow> returns (length ts - 1) (cond env fuel ts)"
    and "3 * length ts + 2 \<le> fuel \<Longrightarrow> returns (length ts - 1) (binary env fuel lo ts)"
    and "3 * length ts + 1 \<le> fuel \<Longrightarrow> returns (length ts) (binary_loop env fuel lo l ts)"
    and "3 * length ts + 1 \<le> fuel \<Longrightarrow> returns (length ts - 1) (unary env fuel ts)"
proof (induction env fuel ts and env fuel lo ts and env fuel lo l ts and env fuel ts
    rule: cond_binary_binary_loop_unary.induct)
  case (2 env fuel ts)
  have branch: "returns (length ts - 1) (fbind (cond env fuel (tl ts1)) (\<lambda>(a, ts2).
         if peek ts2 \<noteq> '':'' then Some None
         else fbind (cond env fuel (tl ts2)) (\<lambda>(b, ts3). Some (Some (g a b, ts3)))))"
    if ts1: "length ts1 \<le> length ts - 1" "peek ts1 = ''?''" for ts1 and g :: "int64 \<Rightarrow> int64 \<Rightarrow> int64"
  proof (rule returns_fbind)
    have l1: "length (tl ts1) < length ts1" using ts1(2) by (intro peek_ne) simp
    with ts1 "2.prems" show "returns (length (tl ts1) - 1) (cond env fuel (tl ts1))"
      by (intro "2.IH"(2)) auto
    fix a and ts2 :: "bytes list"
    assume ts2: "length ts2 \<le> length (tl ts1) - 1"
    show "returns (length ts - 1) ((\<lambda>(a, ts2). if peek ts2 \<noteq> '':'' then Some None
         else fbind (cond env fuel (tl ts2)) (\<lambda>(b, ts3). Some (Some (g a b, ts3)))) (a, ts2))"
    proof (cases "peek ts2 = '':''")
      case True
      then have l2: "length (tl ts2) < length ts2" by (intro peek_ne) simp
      have "3 * length (tl ts2) + 3 \<le> fuel" using ts1 ts2 l1 l2 "2.prems" by auto
      with "2.IH"(3) [of ts1 ts2] ts1(2) True have "returns (length (tl ts2) - 1) (cond env fuel (tl ts2))"
        by blast
      with True l1 l2 ts1 ts2 show ?thesis by (auto intro!: returns_fbind)
    qed simp
  qed
  have "returns (length ts - 1) (binary env fuel 0 ts)" using "2.IH"(1) "2.prems" by simp
  then show ?case unfolding cond.simps
  proof (rule returns_fbind)
    fix c and ts1 :: "bytes list"
    assume "length ts1 \<le> length ts - 1"
    with branch [of ts1 "\<lambda>a b. if c \<noteq> 0 then a else b"]
    show "returns (length ts - 1) (case (c, ts1) of (c, ts1) \<Rightarrow>
       if peek ts1 \<noteq> ''?'' then Some (Some (c, ts1))
       else fbind (cond env fuel (tl ts1)) (\<lambda>(a, ts2).
         if peek ts2 \<noteq> '':'' then Some None
         else fbind (cond env fuel (tl ts2)) (\<lambda>(b, ts3).
           Some (Some (if c \<noteq> 0 then a else b, ts3)))))"
      by (cases "peek ts1 = ''?''") simp_all
  qed
next
  case (4 env fuel lo ts)
  then have "returns (length ts - 1) (unary env fuel ts)" by simp
  then show ?case unfolding binary.simps
  proof (rule returns_fbind)
    fix v and ts1 :: "bytes list"
    assume l: "length ts1 \<le> length ts - 1"
    with "4.prems" have "returns (length ts1) (binary_loop env fuel lo v ts1)"
      by (intro "4.IH"(2)) auto
    with l show "returns (length ts - 1) (case (v, ts1) of (l, ts1) \<Rightarrow> binary_loop env fuel lo l ts1)"
      by (auto intro: returns_mono)
  qed
next
  case (6 env fuel lo l ts)
  show ?case
  proof (cases "precedence (peek ts)")
    case (Some prec)
    note lt = precedence_peek_ne [OF Some]
    show ?thesis
    proof (cases "prec \<le> lo")
      case False
      have bin: "returns (length (tl ts) - 1) (binary env fuel prec (tl ts))"
        using "6.IH"(1) [OF Some False] lt "6.prems" by simp
      have loop: "returns (length ts) (binary_loop env fuel lo l' ts1)"
        if "length ts1 \<le> length (tl ts) - 1" for l' ts1
        using returns_mono [OF "6.IH"(2) [OF Some False]] that lt "6.prems" by auto
      have "returns (length ts) (fbind (binary env fuel prec (tl ts)) (\<lambda>(r, ts1).
            fbind (lift_option (apply_op (peek ts) l r)) (\<lambda>l'. binary_loop env fuel lo l' ts1)))"
        by (rule returns_fbind [OF bin]) (auto intro!: returns_lift loop)
      with Some False show ?thesis by simp
    qed (use Some in auto)
  qed auto
next
  case (8 env fuel ts)
  consider (op) "peek ts \<in> {''-'', ''+'', ''~'', ''!''}"
    | (paren) "peek ts \<notin> {''-'', ''+'', ''~'', ''!''}" "peek ts = ''(''"
    | (prim) "peek ts \<notin> {''-'', ''+'', ''~'', ''!''}" "peek ts \<noteq> ''(''"
    by blast
  then show ?case
  proof cases
    case op
    then have l: "length (tl ts) < length ts" by (intro peek_ne) auto
    from "8.IH"(1) [OF op] l "8.prems" have "returns (length (tl ts) - 1) (unary env fuel (tl ts))"
      by simp
    then have "returns (length ts - 1)
        (fbind (unary env fuel (tl ts)) (\<lambda>(v, ts1). Some (Some (unary_op (peek ts) v, ts1))))"
      by (rule returns_fbind) (use l in auto)
    with op show ?thesis by (simp only: unary.simps if_True)
  next
    case paren
    then have l: "length (tl ts) < length ts" by (intro peek_ne) auto
    show ?thesis
    proof (cases "skip_cast (tl ts)")
      case None
      from "8.IH"(2) [OF paren None] l "8.prems" have "returns (length (tl ts) - 1) (cond env fuel (tl ts))"
        by simp
      then have "returns (length ts - 1) (fbind (cond env fuel (tl ts)) (\<lambda>(v, ts1).
               if peek ts1 \<noteq> '')'' then Some None else Some (Some (v, tl ts1))))"
        by (rule returns_fbind) (use l in auto)
      with paren None show ?thesis by simp
    next
      case (Some ts1)
      note l1 = skip_cast_length [OF Some]
      from "8.IH"(3) [OF paren Some] l l1 "8.prems" have "returns (length ts1 - 1) (unary env fuel ts1)"
        by simp
      then show ?thesis using paren Some l l1 returns_mono [of "length ts1 - 1" _ "length ts - 1"] by auto
    qed
  next
    case prim
    then show ?thesis by (auto intro!: returns_lift)
  qed
qed simp_all

lemma parser_mono:
  shows "cond env fuel ts = Some r \<Longrightarrow> cond env (Suc fuel) ts = Some r"
    and "binary env fuel lo ts = Some r \<Longrightarrow> binary env (Suc fuel) lo ts = Some r"
    and "binary_loop env fuel lo l ts = Some r \<Longrightarrow> binary_loop env (Suc fuel) lo l ts = Some r"
    and "unary env fuel ts = Some r \<Longrightarrow> unary env (Suc fuel) ts = Some r"
proof (induction env fuel ts and env fuel lo ts and env fuel lo l ts and env fuel ts
    arbitrary: r and r and r and r rule: cond_binary_binary_loop_unary.induct)
  case (2 env fuel ts)
  have second: "cond env (Suc fuel) (tl ts1) = Some q"
    if "peek ts1 = ''?''" "cond env fuel (tl ts1) = Some q" for ts1 q
    using "2.IH"(2) that by simp
  have third: "cond env (Suc fuel) (tl ts2) = Some q"
    if "peek ts1 = ''?''" "peek ts2 = '':''" "cond env fuel (tl ts2) = Some q" for ts1 ts2 q
    using "2.IH"(3) that by simp
  from "2.prems" [unfolded cond.simps(2) [of env fuel]] show ?case
    by (subst cond.simps(2)) (auto split: if_splits elim!: fbind_mono
        intro: "2.IH"(1) simp del: cond.simps binary.simps binary_loop.simps unary.simps,
      (erule (1) second | erule (2) third)+)
next
  case (4 env fuel lo ts)
  from "4.prems" [unfolded binary.simps(2) [of env fuel]] show ?case
    by (subst binary.simps(2)) (auto elim!: fbind_mono intro: "4.IH" simp del: cond.simps binary.simps binary_loop.simps unary.simps)
next
  case (6 env fuel lo l ts)
  from "6.prems" [unfolded binary_loop.simps(2) [of env fuel]] show ?case
    by (subst binary_loop.simps(2)) (auto split: option.splits if_splits elim!: fbind_mono intro: "6.IH" simp del: cond.simps binary.simps binary_loop.simps unary.simps)
next
  case (8 env fuel ts)
  have op: "unary env (Suc fuel) (tl ts) = Some q"
    if "unary env fuel (tl ts) = Some q" "peek ts \<in> {''-'', ''+'', ''~'', ''!''}" for q
    using "8.IH"(1) that by blast
  have paren: "cond env (Suc fuel) (tl ts) = Some q"
    if "cond env fuel (tl ts) = Some q" "peek ts = ''(''" "skip_cast (tl ts) = None" for q
    using "8.IH"(2) that by simp
  have cast: "unary env (Suc fuel) ts1 = Some q"
    if "unary env fuel ts1 = Some q" "peek ts = ''(''" "skip_cast (tl ts) = Some ts1" for q ts1
    using "8.IH"(3) that by simp
  from "8.prems" [unfolded unary.simps(2) [of env fuel]] show ?case
    by (subst unary.simps(2)) (auto split: option.splits if_splits elim!: fbind_mono
        simp del: cond.simps binary.simps binary_loop.simps unary.simps,
      (erule op, simp | erule (2) paren | erule (2) cast)+)
qed simp_all

subsection \<open>The parser without fuel\<close>

definition condT :: "(bytes \<rightharpoonup> int64) \<Rightarrow> bytes list \<Rightarrow> (int64 \<times> bytes list) option" where
  "condT env ts = the (cond env (3 * length ts + 3) ts)"

definition binaryT :: "(bytes \<rightharpoonup> int64) \<Rightarrow> nat \<Rightarrow> bytes list \<Rightarrow> (int64 \<times> bytes list) option" where
  "binaryT env lo ts = the (binary env (3 * length ts + 2) lo ts)"

definition loopT :: "(bytes \<rightharpoonup> int64) \<Rightarrow> nat \<Rightarrow> int64 \<Rightarrow> bytes list \<Rightarrow> (int64 \<times> bytes list) option" where
  "loopT env lo l ts = the (binary_loop env (3 * length ts + 1) lo l ts)"

definition unaryT :: "(bytes \<rightharpoonup> int64) \<Rightarrow> bytes list \<Rightarrow> (int64 \<times> bytes list) option" where
  "unaryT env ts = the (unary env (3 * length ts + 1) ts)"

lemma fuel_lift:
  assumes "\<And>f r. g f = Some r \<Longrightarrow> g (Suc f) = Some (r :: 'a option)" "g m \<noteq> None" "m \<le> n"
  shows "g n = Some (the (g m))"
proof -
  have "g (m + k) = Some (the (g m))" for k
    by (induction k) (use assms in auto)
  with assms(3) show ?thesis by (metis le_add_diff_inverse)
qed

lemma returns_not_None: "returns k r \<Longrightarrow> r \<noteq> None"
  by (auto simp: returns_def)

lemma condT: "3 * length ts + 3 \<le> f \<Longrightarrow> cond env f ts = Some (condT env ts)"
  unfolding condT_def
  by (rule fuel_lift [where g = "\<lambda>f. cond env f ts"], erule parser_mono,
      rule returns_not_None [OF parser_returns(1)]) simp_all

lemma binaryT: "3 * length ts + 2 \<le> f \<Longrightarrow> binary env f lo ts = Some (binaryT env lo ts)"
  unfolding binaryT_def
  by (rule fuel_lift [where g = "\<lambda>f. binary env f lo ts"], erule parser_mono,
      rule returns_not_None [OF parser_returns(2)]) simp_all

lemma loopT: "3 * length ts + 1 \<le> f \<Longrightarrow> binary_loop env f lo l ts = Some (loopT env lo l ts)"
  unfolding loopT_def
  by (rule fuel_lift [where g = "\<lambda>f. binary_loop env f lo l ts"], erule parser_mono,
      rule returns_not_None [OF parser_returns(3)]) simp_all

lemma unaryT: "3 * length ts + 1 \<le> f \<Longrightarrow> unary env f ts = Some (unaryT env ts)"
  unfolding unaryT_def
  by (rule fuel_lift [where g = "\<lambda>f. unary env f ts"], erule parser_mono,
      rule returns_not_None [OF parser_returns(4)]) simp_all

text \<open>The equations of the parser, without fuel.\<close>

definition pbind :: "('a \<times> bytes list) option \<Rightarrow> ('a \<Rightarrow> bytes list \<Rightarrow> 'b option) \<Rightarrow> 'b option" where
  "pbind m f = (case m of None \<Rightarrow> None | Some (v, ts) \<Rightarrow> f v ts)"

lemma pbind_simps [simp]: "pbind None f = None" "pbind (Some (v, ts)) f = f v ts"
  by (simp_all add: pbind_def)

lemma binaryT_eq: "binaryT env lo ts = pbind (unaryT env ts) (loopT env lo)"
proof -
  define f where "f = 3 * length ts + 1"
  have u: "unary env f ts = Some (unaryT env ts)" by (rule unaryT) (simp add: f_def)
  have r: "returns (length ts - 1) (unary env f ts)" by (rule parser_returns) (simp add: f_def)
  have b: "binary env (Suc f) lo ts = Some (binaryT env lo ts)" by (rule binaryT) (simp add: f_def)
  show ?thesis
  proof (cases "unaryT env ts")
    case None
    with u b show ?thesis by simp
  next
    case (Some p)
    obtain v ts1 where p: "p = (v, ts1)" by force
    with Some u r have "length ts1 \<le> length ts - 1" by simp
    then have "binary_loop env f lo v ts1 = Some (loopT env lo v ts1)"
      by (intro loopT) (auto simp: f_def)
    with Some p u b show ?thesis by simp
  qed
qed

lemma loopT_eq:
  "loopT env lo l ts =
     (case precedence (peek ts) of
        None \<Rightarrow> Some (l, ts)
      | Some prec \<Rightarrow>
          if prec \<le> lo then Some (l, ts)
          else pbind (binaryT env prec (tl ts)) (\<lambda>r ts1.
            case apply_op (peek ts) l r of None \<Rightarrow> None | Some l' \<Rightarrow> loopT env lo l' ts1))"
proof -
  define f where "f = 3 * length ts"
  have loop: "binary_loop env (Suc f) lo l ts = Some (loopT env lo l ts)"
    by (rule loopT) (simp add: f_def)
  show ?thesis
  proof (cases "precedence (peek ts)")
    case None
    with loop show ?thesis by simp
  next
    case (Some prec)
    note lt = precedence_peek_ne [OF Some]
    then have enough: "3 * length (tl ts) + 2 \<le> f" unfolding f_def by linarith
    note b = binaryT [OF enough, of env prec] and r = parser_returns(2) [OF enough, of env prec]
    show ?thesis
    proof (cases "prec \<le> lo \<or> binaryT env prec (tl ts) = None")
      case True
      with Some loop b show ?thesis by auto
    next
      case False
      then obtain v ts1 where p: "binaryT env prec (tl ts) = Some (v, ts1)" by force
      with b r have "length ts1 \<le> length (tl ts) - 1" by simp
      with lt have "binary_loop env f lo l' ts1 = Some (loopT env lo l' ts1)" for l'
        by (intro loopT) (auto simp: f_def)
      with False Some p b loop show ?thesis
        by (cases "apply_op (peek ts) l v") (simp_all add: lift_option_def)
    qed
  qed
qed

lemma condT_eq:
  "condT env ts = pbind (binaryT env 0 ts) (\<lambda>c ts1.
       if peek ts1 \<noteq> ''?'' then Some (c, ts1)
       else pbind (condT env (tl ts1)) (\<lambda>a ts2.
         if peek ts2 \<noteq> '':'' then None
         else pbind (condT env (tl ts2)) (\<lambda>b ts3. Some (if c \<noteq> 0 then a else b, ts3))))"
proof -
  define f where "f = 3 * length ts + 2"
  have b: "binary env f 0 ts = Some (binaryT env 0 ts)" by (rule binaryT) (simp add: f_def)
  have r: "returns (length ts - 1) (binary env f 0 ts)" by (rule parser_returns) (simp add: f_def)
  have c: "cond env (Suc f) ts = Some (condT env ts)" by (rule condT) (simp add: f_def)
  have rec: "cond env f ts1 = Some (condT env ts1) \<and> returns (length ts1 - 1) (cond env f ts1)"
    if "length ts1 < length ts" for ts1
    using condT [of ts1 f env] parser_returns(1) [of ts1 f env] that by (simp add: f_def)
  show ?thesis
  proof (cases "binaryT env 0 ts")
    case None
    with b c show ?thesis by simp
  next
    case (Some p)
    obtain v ts1 where p: "p = (v, ts1)" by force
    with Some b r have l: "length ts1 \<le> length ts - 1" by simp
    show ?thesis
    proof (cases "peek ts1 = ''?''")
      case True
      have l1: "length (tl ts1) < length ts"
        using peek_ne [of ts1] True l by simp
      show ?thesis
      proof (cases "condT env (tl ts1)")
        case None
        with rec [OF l1] Some p b c True show ?thesis by simp
      next
        case a: (Some q)
        obtain w ts2 where q: "q = (w, ts2)" by force
        with rec [OF l1] a have l2: "length ts2 \<le> length (tl ts1) - 1" by auto
        show ?thesis
        proof (cases "peek ts2 = '':''")
          case colon: True
          have l3: "length (tl ts2) < length ts"
            using peek_ne [of ts2] colon l1 l2 by simp
          show ?thesis
            using rec [OF l1] rec [OF l3] Some p b c True a q colon
            by (cases "condT env (tl ts2)") auto
        qed (use rec [OF l1] Some p b c True a q in auto)
      qed
    next
      case False
      with b c have "condT env ts = binaryT env 0 ts" using Some p by simp
      with Some p False show ?thesis by simp
    qed
  qed
qed

lemma unaryT_op:
  assumes "t \<in> {''-'', ''+'', ''~'', ''!''}"
  shows "unaryT env (t # ts) = pbind (unaryT env ts) (\<lambda>v ts1. Some (unary_op t v, ts1))"
proof -
  define f where "f = 3 * length (t # ts)"
  have "unary env f ts = Some (unaryT env ts)" by (rule unaryT) (simp add: f_def)
  moreover have "unary env (Suc f) (t # ts) = Some (unaryT env (t # ts))"
    by (rule unaryT) (simp add: f_def)
  ultimately show ?thesis using assms
    by (cases "unaryT env ts") (auto simp: peek_def)
qed

lemma unaryT_cast:
  assumes "skip_cast ts = Some ts1"
  shows "unaryT env (''('' # ts) = unaryT env ts1"
proof -
  define f where "f = 3 * length (''('' # ts)"
  have "unary env f ts1 = Some (unaryT env ts1)"
    using skip_cast_length [OF assms] by (intro unaryT) (simp add: f_def)
  moreover have "unary env (Suc f) (''('' # ts) = Some (unaryT env (''('' # ts))"
    by (rule unaryT) (simp add: f_def)
  ultimately show ?thesis using assms by (simp add: peek_def)
qed

lemma unaryT_paren:
  assumes "skip_cast ts = None"
  shows "unaryT env (''('' # ts) =
    pbind (condT env ts) (\<lambda>v ts1. if peek ts1 \<noteq> '')'' then None else Some (v, tl ts1))"
proof -
  define f where "f = 3 * length (''('' # ts)"
  have "cond env f ts = Some (condT env ts)" by (rule condT) (simp add: f_def)
  moreover have "unary env (Suc f) (''('' # ts) = Some (unaryT env (''('' # ts))"
    by (rule unaryT) (simp add: f_def)
  ultimately show ?thesis using assms
    by (cases "condT env ts") (auto simp: peek_def)
qed

lemma unaryT_primary:
  assumes "t \<notin> {''-'', ''+'', ''~'', ''!'', ''('', []}"
  shows "unaryT env (t # ts) = map_option (\<lambda>v. (v, ts)) (primary env t)"
proof -
  define f where "f = 3 * length (t # ts)"
  have "unary env (Suc f) (t # ts) = Some (unaryT env (t # ts))"
    by (rule unaryT) (simp add: f_def)
  with assms show ?thesis
    by (cases "primary env t") (auto simp: peek_def lift_option_def)
qed

lemma evalConst_toks:
  "lexConst s = Some toks \<Longrightarrow> evalConst s env =
     Some (pbind (condT env toks) (\<lambda>v rest. if rest = [] then Some v else None))"
  using condT [of toks "3 * length toks + 3" env]
  by (cases "condT env toks") (auto simp: evalConst_def simp del: cond.simps)

end
