(* ===== verification/Levels.thy ===== *)
theory Levels
  imports Sexp
begin

text \<open>
  The precedence levels of expression forms, crefactor/graph/foldx_eval.go: \<open>formLevel\<close>
  is the level a form prints at and \<open>placeLevel\<close> the level an element of a form is asked
  for; the C view writes parentheses around an element of a lower level than its place.
  Both read only a node's containment (its atom or its list), so that they are stated on
  the C-lisp nodes of \<open>Sexp\<close>.
\<close>

abbreviation (input) xlvComma :: nat where "xlvComma \<equiv> 1"
abbreviation (input) xlvAssign :: nat where "xlvAssign \<equiv> 2"
abbreviation (input) xlvCond :: nat where "xlvCond \<equiv> 3"
abbreviation (input) xlvLOr :: nat where "xlvLOr \<equiv> 4"
abbreviation (input) xlvLAnd :: nat where "xlvLAnd \<equiv> 5"
abbreviation (input) xlvOr :: nat where "xlvOr \<equiv> 6"
abbreviation (input) xlvXor :: nat where "xlvXor \<equiv> 7"
abbreviation (input) xlvAnd :: nat where "xlvAnd \<equiv> 8"
abbreviation (input) xlvEq :: nat where "xlvEq \<equiv> 9"
abbreviation (input) xlvRel :: nat where "xlvRel \<equiv> 10"
abbreviation (input) xlvShift :: nat where "xlvShift \<equiv> 11"
abbreviation (input) xlvAdd :: nat where "xlvAdd \<equiv> 12"
abbreviation (input) xlvMul :: nat where "xlvMul \<equiv> 13"
abbreviation (input) xlvCast :: nat where "xlvCast \<equiv> 14"
abbreviation (input) xlvUnary :: nat where "xlvUnary \<equiv> 15"
abbreviation (input) xlvPostfix :: nat where "xlvPostfix \<equiv> 16"
abbreviation (input) xlvPrimary :: nat where "xlvPrimary \<equiv> 17"

definition xBinaryLevel :: "bytes \<Rightarrow> nat option" where
  "xBinaryLevel h =
     (if h = ''||'' then Some xlvLOr
      else if h = ''&&'' then Some xlvLAnd
      else if h = ''|'' then Some xlvOr
      else if h = ''^'' then Some xlvXor
      else if h = ''&'' then Some xlvAnd
      else if h \<in> {''=='', ''!=''} then Some xlvEq
      else if h \<in> {''<'', ''>'', ''<='', ''>=''} then Some xlvRel
      else if h \<in> {''<<'', ''>>''} then Some xlvShift
      else if h \<in> {''+'', ''-''} then Some xlvAdd
      else if h \<in> {''*'', ''/'', ''%''} then Some xlvMul
      else if h \<in> {''='', ''*='', ''/='', ''%='', ''+='', ''-='', ''<<='', ''>>='', ''&='', ''^='', ''|=''}
        then Some xlvAssign
      else None)"

fun Kids :: "node \<Rightarrow> node list" where
  "Kids (Lst xs) = xs"
| "Kids (Atom _) = []"

definition formLevel :: "node \<Rightarrow> nat" where
  "formLevel n =
     (if \<not> IsList n then xlvPrimary
      else let h = Head n in
        if h = ''comma'' then xlvComma
        else if h = ''?'' then xlvCond
        else if h = ''cast'' then xlvCast
        else if h \<in> {''-'', ''+''} \<and> length (Kids n) = 2 then xlvUnary
        else if h \<in> {''addr'', ''deref'', ''!'', ''~'', ''pre++'', ''pre--'', ''sizeof'', ''sizeof-bare'',
            ''sizeof-type'', ''alignof'', ''alignof-bare'', ''alignof-type'', ''label-addr''} then xlvUnary
        else if h \<in> {''call'', ''index'', ''.'', ''->'', ''post++'', ''post--'', ''literal''} then xlvPostfix
        else (case xBinaryLevel h of Some l \<Rightarrow> l | None \<Rightarrow> xlvPrimary))"

text \<open>The part of \<open>placeLevel\<close> after the binary operators.\<close>

definition placeLevel_head :: "bytes \<Rightarrow> nat \<Rightarrow> nat" where
  "placeLevel_head h i =
     (if h \<in> {''paren'', ''sizeof'', ''alignof''} then xlvComma
      else if h = ''call'' then (if i = 1 then xlvPostfix else xlvAssign)
      else if h = ''index'' then (if i = 1 then xlvPostfix else xlvComma)
      else if h \<in> {''.'', ''->'', ''post++'', ''post--''} then xlvPostfix
      else if h \<in> {''pre++'', ''pre--'', ''sizeof-bare'', ''alignof-bare''} then xlvUnary
      else if h \<in> {''addr'', ''deref'', ''!'', ''~'', ''-'', ''+'', ''cast''} then xlvCast
      else if h = ''?'' then (if i = 1 then xlvLOr else if i = 2 then xlvComma else xlvCond)
      else if h \<in> {''comma'', ''generic''} then xlvAssign
      else if h \<in> {''case'', ''case-range'', ''static_assert''} then xlvCond
      else if h \<in> {''def'', ''init'', ''at'', ''array''} then xlvAssign
      else xlvComma)"

definition placeLevel :: "node \<Rightarrow> nat \<Rightarrow> nat" where
  "placeLevel p i =
     (case xBinaryLevel (Head p) of
        Some lv \<Rightarrow>
          if length (Kids p) \<ge> 3 then
            (if lv = xlvAssign \<and> i = 1 then xlvUnary
             else if lv = xlvAssign then xlvAssign
             else if i = 1 then lv
             else lv + 1)
          else placeLevel_head (Head p) i
      | None \<Rightarrow> placeLevel_head (Head p) i)"

end
