(* ===== verification/GraphEval.thy ===== *)
theory GraphEval
  imports SweepEval Levels
begin

text \<open>
  The evaluator of an enumerator's value form, crefactor/graph/eval.go, and its agreement
  with the evaluator of the value's text, crefactor/sweep/eval.go: \<open>c_tokens\<close> prints a form
  of the constant operators with the parentheses that \<open>formLevel\<close> and \<open>placeLevel\<close> ask for,
  and \<open>evalConst\<close> of that text is \<open>evalForm\<close> of the form.  A form is a node as \<open>Sexp\<close> has
  it: \<open>evalForm\<close> reads nothing of a graph node but its atom and its elements.
\<close>

subsection \<open>evalForm\<close>

definition binaryOps :: "bytes \<Rightarrow> bool" where
  "binaryOps h \<longleftrightarrow> h \<in> {''||'', ''&&'', ''|'', ''^'', ''&'', ''=='', ''!='', ''<'', ''>'', ''<='', ''>='',
     ''<<'', ''>>'', ''+'', ''-'', ''*'', ''/'', ''%''}"

definition form_binary :: "bytes \<Rightarrow> int64 \<Rightarrow> int64 \<Rightarrow> int64 option" where
  "form_binary op l r =
     (if op = ''||'' then Some (b2i (l \<noteq> 0 \<or> r \<noteq> 0))
      else if op = ''&&'' then Some (b2i (l \<noteq> 0 \<and> r \<noteq> 0))
      else if op = ''|'' then Some (l OR r)
      else if op = ''^'' then Some (l XOR r)
      else if op = ''&'' then Some (l AND r)
      else if op = ''=='' then Some (b2i (l = r))
      else if op = ''!='' then Some (b2i (l \<noteq> r))
      else if op = ''<'' then Some (b2i (sint l < sint r))
      else if op = ''>'' then Some (b2i (sint l > sint r))
      else if op = ''<='' then Some (b2i (sint l \<le> sint r))
      else if op = ''>='' then Some (b2i (sint l \<ge> sint r))
      else if op = ''<<'' then Some (shl64 l r)
      else if op = ''>>'' then Some (sar64 l r)
      else if op = ''+'' then Some (l + r)
      else if op = ''-'' then Some (l - r)
      else if op = ''*'' then Some (l * r)
      else if op = ''/'' then (if r = 0 then None else Some (quot64 l r))
      else if op = ''%'' then (if r = 0 then None else Some (rem64 l r))
      else None)"

definition intCast :: "node \<Rightarrow> bool" where
  "intCast t =
     (let words = (case t of Lst ks \<Rightarrow> ks | Atom _ \<Rightarrow> [t]) in
      words \<noteq> [] \<and>
      (\<forall>w \<in> set words. case w of Lst _ \<Rightarrow> False
         | Atom a \<Rightarrow> a \<in> {''int'', ''unsigned'', ''signed'', ''long'', ''short''}))"

text \<open>
  \<open>parseInt\<close> and \<open>parseChar\<close> of this file are those of crefactor/sweep, line for line.  \<open>None\<close> is the
  value that is not ok; it is also the atom of one single quote, at which the code panics: it
  slices from the second byte to the one before the last.
\<close>

definition eval_atom :: "(bytes \<rightharpoonup> int64) \<Rightarrow> bytes \<Rightarrow> int64 option" where
  "eval_atom env t =
     (if t = [] then None
      else if is_digit (hd t) then parseInt t
      else if hd t = squote then parseChar (butlast (tl t))
      else env t)"

lemma size_member: "a \<in> set xs \<Longrightarrow> size a \<le> Suc (k + size_list size xs)"
  by (induction xs) auto

lemma size_nth: "i < length xs \<Longrightarrow> size (xs ! i) \<le> Suc (k + size_list size xs)"
  by (simp add: size_member)

lemma size_first: "2 \<le> length xs \<Longrightarrow> size (xs ! 0) \<le> Suc (k + size_list size xs)"
  by (rule size_nth) linarith

lemma size_tl: "size_list size (tl xs) \<le> Suc (k + size_list size xs)"
  by (cases xs) auto

lemma size_tl_member: "a \<in> set (tl xs) \<Longrightarrow> size a \<le> Suc (k + size_list size xs)"
  by (cases xs) (auto intro: size_member le_SucI trans_le_add2 dest: size_member [of _ _ 0])

lemma operand_size: "x \<in> set (b # bs) \<Longrightarrow> size x < size (Lst (Atom h # a # b # bs))"
  using size_member [of x "b # bs" 0] by auto

lemmas size_simps = less_Suc_eq_le size_nth size_first size_tl size_member size_tl_member

function (sequential) evalForm :: "(bytes \<rightharpoonup> int64) \<Rightarrow> node \<Rightarrow> int64 option"
  and eval_operands :: "(bytes \<rightharpoonup> int64) \<Rightarrow> bytes \<Rightarrow> int64 \<Rightarrow> node list \<Rightarrow> int64 option" where
  "evalForm env (Atom t) = eval_atom env t"
| "evalForm env (Lst []) = None"
| "evalForm env (Lst (h0 # args)) =
     (let h = Head (Lst (h0 # args)) in
      if h = ''paren'' \<and> length args = 1 then evalForm env (args ! 0)
      else if h = ''cast'' \<and> length args = 2 then
        (if \<not> intCast (args ! 0) then None else evalForm env (args ! 1))
      else if length args = 1 \<and> h \<in> {''-'', ''+'', ''~'', ''!''} then
        (case evalForm env (args ! 0) of None \<Rightarrow> None | Some v \<Rightarrow> Some (unary_op h v))
      else if h = ''?'' \<and> length args = 3 then
        (case evalForm env (args ! 0) of
           None \<Rightarrow> None
         | Some c \<Rightarrow>
             (case evalForm env (args ! 1) of
                None \<Rightarrow> None
              | Some a \<Rightarrow>
                  (case evalForm env (args ! 2) of
                     None \<Rightarrow> None
                   | Some b \<Rightarrow> Some (if c \<noteq> 0 then a else b))))
      else if length args \<ge> 2 \<and> binaryOps h then
        (case evalForm env (args ! 0) of None \<Rightarrow> None | Some l \<Rightarrow> eval_operands env h l (tl args))
      else None)"
| "eval_operands env h l [] = Some l"
| "eval_operands env h l (a # as) =
     (case evalForm env a of
        None \<Rightarrow> None
      | Some r \<Rightarrow> (case form_binary h l r of None \<Rightarrow> None | Some l' \<Rightarrow> eval_operands env h l' as))"
  by pat_completeness auto
termination
  by (relation "measure (\<lambda>x. case x of Inl (e, n) \<Rightarrow> size n | Inr (e, h, l, as) \<Rightarrow> size_list size as)")
    (auto simp: size_simps)

subsection \<open>The text of a constant form\<close>

definition const_atom :: "bytes \<Rightarrow> bool" where
  "const_atom a \<longleftrightarrow> a \<noteq> [] \<and> \<not> intKeyword a \<and>
     ((\<forall>c \<in> set a. isIdent c) \<or> hd a = squote \<and> lex_char (tl a) = Some (tl a, []))"

definition words_of :: "node \<Rightarrow> bytes list" where
  "words_of t = map (\<lambda>w. case w of Atom a \<Rightarrow> a | Lst _ \<Rightarrow> []) (case t of Lst ks \<Rightarrow> ks | Atom _ \<Rightarrow> [t])"

function (sequential) const_form :: "node \<Rightarrow> bool" where
  "const_form (Atom a) = const_atom a"
| "const_form (Lst []) = False"
| "const_form (Lst (h0 # args)) =
     (let h = Head (Lst (h0 # args)) in
      if h = ''paren'' \<and> length args = 1 then const_form (args ! 0)
      else if h = ''cast'' \<and> length args = 2 then intCast (args ! 0) \<and> const_form (args ! 1)
      else if length args = 1 \<and> h \<in> {''-'', ''+'', ''~'', ''!''} then const_form (args ! 0)
      else if h = ''?'' \<and> length args = 3 then
        const_form (args ! 0) \<and> const_form (args ! 1) \<and> const_form (args ! 2)
      else length args \<ge> 2 \<and> binaryOps h \<and> (\<forall>a \<in> set args. const_form a))"
  by pat_completeness auto
termination
  by (relation "measure size") (auto simp: size_simps)

text \<open>The tokens \<open>ts\<close> of \<open>a\<close> as element \<open>i\<close> of \<open>p\<close>, in parentheses where C needs them.\<close>

definition placed :: "node \<Rightarrow> nat \<Rightarrow> node \<Rightarrow> bytes list \<Rightarrow> bytes list" where
  "placed p i a ts = (if formLevel a < placeLevel p i then ''('' # ts @ ['')''] else ts)"

function (sequential) c_tokens :: "node \<Rightarrow> bytes list" where
  "c_tokens (Atom a) = [a]"
| "c_tokens (Lst []) = []"
| "c_tokens (Lst (h0 # args)) =
     (let p = Lst (h0 # args); h = Head p in
      if h = ''paren'' \<and> length args = 1 then
        ''('' # placed p 1 (args ! 0) (c_tokens (args ! 0)) @ ['')'']
      else if h = ''cast'' \<and> length args = 2 then
        ''('' # words_of (args ! 0) @ '')'' # placed p 2 (args ! 1) (c_tokens (args ! 1))
      else if length args = 1 \<and> h \<in> {''-'', ''+'', ''~'', ''!''} then
        h # placed p 1 (args ! 0) (c_tokens (args ! 0))
      else if h = ''?'' \<and> length args = 3 then
        placed p 1 (args ! 0) (c_tokens (args ! 0)) @ ''?'' #
        placed p 2 (args ! 1) (c_tokens (args ! 1)) @ '':'' #
        placed p 3 (args ! 2) (c_tokens (args ! 2))
      else if length args \<ge> 2 \<and> binaryOps h then
        placed p 1 (args ! 0) (c_tokens (args ! 0)) @
        concat (map (\<lambda>a. h # placed p 2 a (c_tokens a)) (tl args))
      else [])"
  by pat_completeness auto
termination
  by (relation "measure size") (auto simp: size_simps)

subsection \<open>The shapes of a constant form\<close>

lemma const_form_cases [consumes 1, case_names atom paren cast unop cond binop]:
  assumes "const_form n"
  obtains t where "n = Atom t" "const_atom t"
  | a where "n = Lst [Atom ''paren'', a]" "const_form a"
  | t a where "n = Lst [Atom ''cast'', t, a]" "intCast t" "const_form a"
  | h a where "n = Lst [Atom h, a]" "h \<in> {''-'', ''+'', ''~'', ''!''}" "const_form a"
  | c a b where "n = Lst [Atom ''?'', c, a, b]" "const_form c" "const_form a" "const_form b"
  | h a b bs where "n = Lst (Atom h # a # b # bs)" "binaryOps h" "const_form a"
      "\<forall>x \<in> set (b # bs). const_form x"
proof (cases n)
  case (Atom t)
  with assms that(1) show ?thesis by simp
next
  case (Lst xs)
  with assms obtain h0 args where xs: "xs = h0 # args" by (cases xs) auto
  have "Head n \<noteq> []" using assms Lst xs by (auto simp: Let_def binaryOps_def split: if_splits)
  with Lst xs obtain h where h0: "h0 = Atom h" by (cases h0) auto
  show ?thesis
  proof (cases args)
    case Nil
    with assms Lst xs h0 show ?thesis by (simp add: Let_def)
  next
    case (Cons a as)
    show ?thesis
    proof (cases as)
      case Nil
      with assms Lst xs h0 Cons that(2,4) show ?thesis by (auto simp: Let_def split: if_splits)
    next
      case (Cons b bs)
      note as = this
      have "bs \<noteq> [] \<or> h \<noteq> ''cast''" if "\<not> (h = ''cast'' \<and> bs = [])" using that by blast
      consider (cast) "h = ''cast''" "bs = []" | (cond) "h = ''?''" "length bs = 1"
        | (bin) "\<not> (h = ''cast'' \<and> bs = [])" "\<not> (h = ''?'' \<and> length bs = 1)" by blast
      then show ?thesis
      proof cases
        case cast
        with assms Lst xs h0 \<open>args = a # as\<close> as that(3) show ?thesis by (simp add: Let_def)
      next
        case cond
        then obtain c where "bs = [c]" by (cases bs) auto
        with cond assms Lst xs h0 \<open>args = a # as\<close> as that(5) show ?thesis by (simp add: Let_def)
      next
        case bin
        with assms Lst xs h0 \<open>args = a # as\<close> as have "binaryOps h" "const_form a"
            "\<forall>x \<in> set (b # bs). const_form x"
          by (auto simp: Let_def split: if_splits)
        with Lst xs h0 \<open>args = a # as\<close> as show ?thesis by (intro that(6)) auto
      qed
    qed
  qed
qed

lemma binaryOps_level:
  "binaryOps h \<Longrightarrow> \<exists>p. xBinaryLevel h = Some (p + 3) \<and> precedence h = Some p \<and> 1 \<le> p \<and> p \<le> 10"
  unfolding binaryOps_def
  by (elim insertE emptyE) (simp_all add: xBinaryLevel_def precedence_def)

lemma binaryOps_apply: "binaryOps h \<Longrightarrow> apply_op h l r = form_binary h l r"
  unfolding binaryOps_def
  by (elim insertE emptyE) (simp_all add: apply_op_def form_binary_def)

lemma binaryOps_plain:
  "binaryOps h \<Longrightarrow> h \<notin> {''paren'', ''cast'', ''?'', ''comma'', ''~'', ''!'', ''addr'', ''deref'', ''pre++'',
     ''pre--'', ''sizeof'', ''sizeof-bare'', ''sizeof-type'', ''alignof'', ''alignof-bare'', ''alignof-type'',
     ''label-addr'', ''call'', ''index'', ''.'', ''->'', ''post++'', ''post--'', ''literal''}"
  unfolding binaryOps_def by (elim insertE emptyE) simp_all

lemma formLevel_simps:
  "formLevel (Atom w) = 17"
  "formLevel (Lst [Atom ''paren'', a]) = 17"
  "formLevel (Lst [Atom ''cast'', t, a]) = 14"
  "formLevel (Lst [Atom ''?'', c, a, b]) = 3"
  by (simp_all add: formLevel_def xBinaryLevel_def)

lemma formLevel_unary: "h \<in> {''-'', ''+'', ''~'', ''!''} \<Longrightarrow> formLevel (Lst [Atom h, a]) = 15"
  by (elim insertE emptyE) (simp_all add: formLevel_def)

lemma formLevel_binary:
  "binaryOps h \<Longrightarrow> xBinaryLevel h = Some l \<Longrightarrow> formLevel (Lst (Atom h # a # b # bs)) = l"
  using binaryOps_plain [of h] by (simp add: formLevel_def Let_def)

lemma placeLevel_simps:
  "placeLevel (Lst [Atom ''paren'', a]) i = 1"
  "placeLevel (Lst [Atom ''cast'', t, a]) i = 14"
  "placeLevel (Lst [Atom ''?'', c, a, b]) i = (if i = 1 then 4 else if i = 2 then 1 else 3)"
  by (simp_all add: placeLevel_def placeLevel_head_def xBinaryLevel_def)

lemma placeLevel_unary: "h \<in> {''-'', ''+'', ''~'', ''!''} \<Longrightarrow> placeLevel (Lst [Atom h, a]) i = 14"
  by (elim insertE emptyE) (simp_all add: placeLevel_def placeLevel_head_def xBinaryLevel_def)

lemma placeLevel_binary:
  "xBinaryLevel h = Some l \<Longrightarrow> l \<noteq> 2 \<Longrightarrow> placeLevel (Lst (Atom h # a # b # bs)) i = (if i = 1 then l else l + 1)"
  by (simp add: placeLevel_def)

lemma const_form_level:
  assumes "const_form n"
  shows "3 \<le> formLevel n"
  using assms
proof (cases rule: const_form_cases)
  case (binop h a b bs)
  with binaryOps_level [OF binop(2)] formLevel_binary [OF binop(2)] show ?thesis by auto
qed (simp_all add: formLevel_simps formLevel_unary)

lemma c_tokens_simps:
  "c_tokens (Lst [Atom ''paren'', a]) = ''('' # placed (Lst [Atom ''paren'', a]) 1 a (c_tokens a) @ ['')'']"
  "c_tokens (Lst [Atom ''cast'', t, a]) =
     ''('' # words_of t @ '')'' # placed (Lst [Atom ''cast'', t, a]) 2 a (c_tokens a)"
  "c_tokens (Lst [Atom ''?'', c, a, b]) =
     placed (Lst [Atom ''?'', c, a, b]) 1 c (c_tokens c) @ ''?'' #
     placed (Lst [Atom ''?'', c, a, b]) 2 a (c_tokens a) @ '':'' #
     placed (Lst [Atom ''?'', c, a, b]) 3 b (c_tokens b)"
  by (simp_all add: Let_def)

lemma c_tokens_unary:
  "h \<in> {''-'', ''+'', ''~'', ''!''} \<Longrightarrow>
     c_tokens (Lst [Atom h, a]) = h # placed (Lst [Atom h, a]) 1 a (c_tokens a)"
  by (elim insertE emptyE) (simp_all add: Let_def)

lemma c_tokens_binary:
  "binaryOps h \<Longrightarrow> c_tokens (Lst (Atom h # a # b # bs)) =
     placed (Lst (Atom h # a # b # bs)) 1 a (c_tokens a) @
     concat (map (\<lambda>x. h # placed (Lst (Atom h # a # b # bs)) 2 x (c_tokens x)) (b # bs))"
  using binaryOps_plain [of h] by (simp add: Let_def)

lemma evalForm_simps:
  "evalForm env (Lst [Atom ''paren'', a]) = evalForm env a"
  "intCast t \<Longrightarrow> evalForm env (Lst [Atom ''cast'', t, a]) = evalForm env a"
  "evalForm env (Lst [Atom ''?'', c, a, b]) =
     (case evalForm env c of None \<Rightarrow> None | Some vc \<Rightarrow>
       (case evalForm env a of None \<Rightarrow> None | Some va \<Rightarrow>
         (case evalForm env b of None \<Rightarrow> None | Some vb \<Rightarrow> Some (if vc \<noteq> 0 then va else vb))))"
  by (simp_all add: Let_def numeral_2_eq_2 cong: option.case_cong)

lemma evalForm_unary:
  "h \<in> {''-'', ''+'', ''~'', ''!''} \<Longrightarrow>
     evalForm env (Lst [Atom h, a]) = map_option (unary_op h) (evalForm env a)"
  by (elim insertE emptyE) (simp_all add: Let_def split: option.splits)

lemma evalForm_binary:
  "binaryOps h \<Longrightarrow> evalForm env (Lst (Atom h # a # b # bs)) =
     (case evalForm env a of None \<Rightarrow> None | Some l \<Rightarrow> eval_operands env h l (b # bs))"
  using binaryOps_plain [of h] by (simp add: Let_def del: eval_operands.simps cong: option.case_cong)

declare c_tokens.simps(3) [simp del] evalForm.simps(3) [simp del] const_form.simps(3) [simp del]

subsection \<open>Reading the tokens of a form\<close>

definition value_then :: "(bytes \<rightharpoonup> int64) \<Rightarrow> node \<Rightarrow> bytes list \<Rightarrow> (int64 \<times> bytes list) option" where
  "value_then env n rest = map_option (\<lambda>v. (v, rest)) (evalForm env n)"

definition low_prec :: "nat \<Rightarrow> bytes list \<Rightarrow> bool" where
  "low_prec m rest \<longleftrightarrow> (\<forall>q. precedence (peek rest) = Some q \<longrightarrow> q \<le> m)"

definition closed_by :: "bytes list \<Rightarrow> bool" where
  "closed_by rest \<longleftrightarrow> precedence (peek rest) = None \<and> peek rest \<noteq> ''?''"

text \<open>The three levels the parser reads a form's tokens at.\<close>

definition reads_unary :: "(bytes \<rightharpoonup> int64) \<Rightarrow> node \<Rightarrow> bool" where
  "reads_unary env n \<longleftrightarrow> (\<forall>rest. unaryT env (c_tokens n @ rest) = value_then env n rest)"

definition reads_binary :: "(bytes \<rightharpoonup> int64) \<Rightarrow> nat \<Rightarrow> node \<Rightarrow> bool" where
  "reads_binary env k n \<longleftrightarrow> (\<forall>lo rest. lo < k \<longrightarrow> low_prec k rest \<longrightarrow>
     binaryT env lo (c_tokens n @ rest) = pbind (value_then env n rest) (loopT env lo))"

definition reads_cond :: "(bytes \<rightharpoonup> int64) \<Rightarrow> node \<Rightarrow> bool" where
  "reads_cond env n \<longleftrightarrow> (\<forall>rest. closed_by rest \<longrightarrow> condT env (c_tokens n @ rest) = value_then env n rest)"

definition reads :: "(bytes \<rightharpoonup> int64) \<Rightarrow> node \<Rightarrow> bool" where
  "reads env n \<longleftrightarrow>
     (14 \<le> formLevel n \<longrightarrow> reads_unary env n) \<and>
     (\<forall>k. 1 \<le> k \<longrightarrow> k \<le> 11 \<longrightarrow> k + 3 \<le> formLevel n \<longrightarrow> reads_binary env k n) \<and>
     reads_cond env n"

lemma loopT_low: "low_prec lo rest \<Longrightarrow> loopT env lo v rest = Some (v, rest)"
  by (subst loopT_eq) (auto simp: low_prec_def split: option.splits)

lemma closed_low: "closed_by rest \<Longrightarrow> low_prec m rest"
  by (simp add: closed_by_def low_prec_def)

lemma value_then_pbind:
  "pbind (value_then env n rest) f = (case evalForm env n of None \<Rightarrow> None | Some v \<Rightarrow> f v rest)"
  by (simp add: value_then_def split: option.splits)

lemma words_of_cast: "intCast t \<Longrightarrow> words_of t \<noteq> [] \<and> (\<forall>w \<in> set (words_of t). intKeyword w)"
  by (auto simp: intCast_def words_of_def intKeyword_def Let_def split: node.splits)

lemma skip_cast_words: "intCast t \<Longrightarrow> skip_cast (words_of t @ '')'' # ts) = Some ts"
proof -
  assume t: "intCast t"
  from words_of_cast [OF t] have "dropWhile intKeyword (words_of t @ '')'' # ts) = '')'' # ts"
    by (subst dropWhile_append2) (auto simp: intKeyword_def)
  with words_of_cast [OF t] show ?thesis by (auto simp: skip_cast_def Let_def)
qed

lemma skip_cast_none: "\<not> intKeyword t \<Longrightarrow> skip_cast (t # ts) = None"
  by (simp add: skip_cast_def)

lemma c_tokens_head: "const_form n \<Longrightarrow> \<exists>t ts. c_tokens n = t # ts \<and> \<not> intKeyword t"
proof (induction "size n" arbitrary: n rule: less_induct)
  case less
  from less.prems show ?case
  proof (cases rule: const_form_cases)
    case (atom t)
    then show ?thesis by (simp add: const_atom_def)
  next
    case (unop h a)
    then show ?thesis by (auto simp: c_tokens_unary intKeyword_def)
  next
    case (cond c a b)
    with less.hyps [of c] show ?thesis by (auto simp: c_tokens_simps placed_def intKeyword_def)
  next
    case (binop h a b bs)
    with less.hyps [of a] show ?thesis by (auto simp: c_tokens_binary placed_def intKeyword_def)
  qed (auto simp: c_tokens_simps intKeyword_def)
qed

lemma reads_parens:
  assumes "const_form n" "reads env n"
  shows "unaryT env (''('' # c_tokens n @ '')'' # rest) = value_then env n rest"
proof -
  obtain t ts where t: "c_tokens n = t # ts" "\<not> intKeyword t" using c_tokens_head [OF assms(1)] by blast
  then have "skip_cast (c_tokens n @ '')'' # rest) = None" by (simp add: skip_cast_none)
  moreover have "condT env (c_tokens n @ '')'' # rest) = value_then env n ('')'' # rest)"
    using assms(2) by (auto simp: reads_def reads_cond_def closed_by_def peek_def precedence_def)
  ultimately show ?thesis
    by (simp add: unaryT_paren value_then_pbind peek_def) (simp add: value_then_def split: option.splits)
qed

text \<open>An element in its place reads as its place asks, parentheses or not.\<close>

lemma placed_unary:
  assumes "const_form a" "reads env a" "placeLevel p i = 14"
  shows "unaryT env (placed p i a (c_tokens a) @ rest) = value_then env a rest"
  using assms reads_parens [OF assms(1,2), of rest]
  by (auto simp: placed_def reads_def reads_unary_def)

lemma placed_binary:
  assumes "const_form a" "reads env a" "placeLevel p i = k + 3" "1 \<le> k" "k \<le> 11" "lo < k" "low_prec k rest"
  shows "binaryT env lo (placed p i a (c_tokens a) @ rest) = pbind (value_then env a rest) (loopT env lo)"
proof (cases "formLevel a < k + 3")
  case True
  with assms reads_parens [OF assms(1,2), of rest] show ?thesis
    by (simp add: placed_def binaryT_eq)
next
  case False
  with assms have "reads_binary env k a" by (simp add: reads_def)
  with False assms(3,6,7) show ?thesis by (simp add: placed_def reads_binary_def)
qed

lemma placed_cond:
  assumes "const_form a" "reads env a" "placeLevel p i \<le> 3" "closed_by rest"
  shows "condT env (placed p i a (c_tokens a) @ rest) = value_then env a rest"
  using assms const_form_level [OF assms(1)] by (auto simp: placed_def reads_def reads_cond_def)

lemma reads_binary_of_unary: "reads_unary env n \<Longrightarrow> reads_binary env k n"
  by (simp add: reads_unary_def reads_binary_def binaryT_eq)

lemma reads_cond_of_binary:
  assumes "reads_binary env 1 n"
  shows "reads_cond env n"
  unfolding reads_cond_def
proof (intro allI impI)
  fix rest
  assume c: "closed_by rest"
  then have low: "low_prec 0 rest" "low_prec 1 rest" and q: "peek rest \<noteq> ''?''"
    by (simp_all add: closed_low) (simp add: closed_by_def)
  from low(2) assms have "binaryT env 0 (c_tokens n @ rest) = pbind (value_then env n rest) (loopT env 0)"
    by (simp add: reads_binary_def)
  with q show "condT env (c_tokens n @ rest) = value_then env n rest"
    by (cases "evalForm env n")
      (simp_all add: condT_eq [of env "c_tokens n @ rest"] value_then_def loopT_low [OF low(1)])
qed

lemma reads_of_unary:
  assumes "reads_unary env n"
  shows "reads env n"
  using assms reads_binary_of_unary [OF assms] reads_cond_of_binary by (auto simp: reads_def)

text \<open>The operators of one list, read left to right by the loop.\<close>

lemma loop_operands:
  assumes "binaryOps h" "precedence h = Some q" "1 \<le> q" "q \<le> 10" "lo < q"
    and "\<And>x. x \<in> set xs \<Longrightarrow> const_form x \<and> reads env x"
    and "\<And>x. placeLevel p 2 = q + 4" and "low_prec q rest"
  shows "loopT env lo l (concat (map (\<lambda>x. h # placed p 2 x (c_tokens x)) xs) @ rest) =
    (case eval_operands env h l xs of None \<Rightarrow> None | Some v \<Rightarrow> loopT env lo v rest)"
  using assms(6)
proof (induction xs arbitrary: l)
  case Nil
  then show ?case by simp
next
  case (Cons x xs)
  let ?more = "concat (map (\<lambda>x. h # placed p 2 x (c_tokens x)) xs) @ rest"
  have low: "low_prec q ?more"
    using assms(2,8) by (cases xs) (auto simp: low_prec_def peek_def)
  then have low1: "low_prec (q + 1) ?more" by (auto simp: low_prec_def)
  have x: "const_form x" "reads env x" using Cons.prems by auto
  have "binaryT env q (placed p 2 x (c_tokens x) @ ?more) = pbind (value_then env x ?more) (loopT env q)"
    by (rule placed_binary [OF x _ _ _ _ low1]) (use assms(3,4,7) in auto)
  also have "\<dots> = value_then env x ?more"
    by (cases "evalForm env x") (simp_all add: value_then_def loopT_low [OF low])
  finally have bin: "binaryT env q (placed p 2 x (c_tokens x) @ ?more) = value_then env x ?more" .
  have "loopT env lo l (h # placed p 2 x (c_tokens x) @ ?more) =
      pbind (value_then env x ?more) (\<lambda>r ts1.
        case form_binary h l r of None \<Rightarrow> None | Some l' \<Rightarrow> loopT env lo l' ts1)"
    using assms(2,5) bin
    by (subst loopT_eq) (simp add: peek_def binaryOps_apply [OF assms(1)])
  with Cons.IH Cons.prems show ?case
    by (simp add: value_then_pbind split: option.splits)
qed

lemma not_ident: "\<not> isIdent (CHR ''-'')" "\<not> isIdent (CHR ''+'')" "\<not> isIdent (CHR ''~'')"
  "\<not> isIdent (CHR ''!'')" "\<not> isIdent (CHR ''('')"
  by code_simp+

lemma const_form_reads: "const_form n \<Longrightarrow> reads env n"
proof (induction "size n" arbitrary: n rule: less_induct)
  case less
  from less.prems show ?case
  proof (cases rule: const_form_cases)
    case (atom t)
    then have "isIdent (hd t) \<or> hd t = squote" "t \<noteq> []" by (cases t; auto simp: const_atom_def)+
    with not_ident have "t \<notin> {''-'', ''+'', ''~'', ''!'', ''('', []}" by auto
    moreover have "primary env t = eval_atom env t"
      using atom by (simp add: primary_def eval_atom_def const_atom_def)
    ultimately show ?thesis using atom
      by (intro reads_of_unary) (simp add: reads_unary_def value_then_def unaryT_primary)
  next
    case (paren a)
    with less.hyps [of a] have a: "reads env a" by simp
    have "\<not> formLevel a < 1" using const_form_level [OF paren(2)] by simp
    with reads_parens [OF paren(2) a] paren(1) show ?thesis
      by (intro reads_of_unary)
        (simp add: reads_unary_def value_then_def c_tokens_simps evalForm_simps placed_def placeLevel_simps)
  next
    case (cast t a)
    with less.hyps [of a] have a: "reads env a" by simp
    from placed_unary [OF cast(3) a, of "Lst [Atom ''cast'', t, a]" 2] cast(1,2) show ?thesis
      by (intro reads_of_unary)
        (simp add: reads_unary_def value_then_def c_tokens_simps evalForm_simps placeLevel_simps
          unaryT_cast skip_cast_words)
  next
    case (unop h a)
    with less.hyps [of a] have a: "reads env a" by simp
    from placed_unary [OF unop(3) a, of n 1] unop(1,2) show ?thesis
      by (intro reads_of_unary)
        (simp add: reads_unary_def c_tokens_unary placeLevel_unary unaryT_op value_then_pbind,
         simp add: value_then_def evalForm_unary split: option.splits)
  next
    case (cond c a b)
    with less.hyps [of c] less.hyps [of a] less.hyps [of b]
    have sub: "reads env c" "reads env a" "reads env b" by auto
    have "condT env (c_tokens n @ rest) = value_then env n rest" if rest: "closed_by rest" for rest
    proof -
      let ?tb = "placed n 3 b (c_tokens b) @ rest"
      let ?ta = "placed n 2 a (c_tokens a) @ '':'' # ?tb"
      have q: "low_prec 1 (''?'' # ?ta)" "low_prec 0 (''?'' # ?ta)"
        by (auto simp: low_prec_def peek_def precedence_def)
      have colon: "closed_by ('':'' # ?tb)" by (simp add: closed_by_def peek_def precedence_def)
      have "binaryT env 0 (placed n 1 c (c_tokens c) @ ''?'' # ?ta) =
          pbind (value_then env c (''?'' # ?ta)) (loopT env 0)"
        by (rule placed_binary [OF cond(2) sub(1) _ _ _ _ q(1)]) (use cond(1) in \<open>simp_all add: placeLevel_simps\<close>)
      moreover have "condT env ?ta = value_then env a ('':'' # ?tb)"
        by (rule placed_cond [OF cond(3) sub(2) _ colon]) (use cond(1) in \<open>simp add: placeLevel_simps\<close>)
      moreover have "condT env ?tb = value_then env b rest"
        by (rule placed_cond [OF cond(4) sub(3) _ rest]) (use cond(1) in \<open>simp add: placeLevel_simps\<close>)
      moreover have "c_tokens n @ rest = placed n 1 c (c_tokens c) @ ''?'' # ?ta"
        using cond(1) by (simp add: c_tokens_simps)
      ultimately have "condT env (c_tokens n @ rest) =
          (case evalForm env c of None \<Rightarrow> None | Some vc \<Rightarrow>
            pbind (value_then env a ('':'' # ?tb)) (\<lambda>va ts2.
              if peek ts2 \<noteq> '':'' then None
              else pbind (condT env (tl ts2)) (\<lambda>vb ts3. Some (if vc \<noteq> 0 then va else vb, ts3))))"
        by (subst condT_eq) (simp add: value_then_pbind loopT_low [OF q(2)] peek_def split: option.splits)
      with \<open>condT env ?tb = value_then env b rest\<close> cond(1) show ?thesis
        by (cases "evalForm env c"; cases "evalForm env a"; cases "evalForm env b")
          (simp_all add: value_then_pbind value_then_def peek_def evalForm_simps)
    qed
    with cond(1) show ?thesis by (simp add: reads_def reads_cond_def formLevel_simps)
  next
    case (binop h a b bs)
    obtain q where q: "xBinaryLevel h = Some (q + 3)" "precedence h = Some q" "1 \<le> q" "q \<le> 10"
      using binaryOps_level [OF binop(2)] by blast
    have level: "formLevel n = q + 3" using formLevel_binary [OF binop(2) q(1)] binop(1) by simp
    have place: "placeLevel n 1 = q + 3" "placeLevel n 2 = q + 4"
      using placeLevel_binary [OF q(1)] binop(1) q(3) by simp_all
    have a: "reads env a" using binop less.hyps [of a] by simp
    have bs: "const_form x \<and> reads env x" if "x \<in> set (b # bs)" for x
    proof -
      have "size x < size n" using operand_size [OF that] binop(1) by simp
      with that binop(4) less.hyps [of x] show ?thesis by blast
    qed
    have bin: "reads_binary env k n" if k: "1 \<le> k" "k \<le> q" for k
      unfolding reads_binary_def
    proof (intro allI impI)
      fix lo rest
      assume lo: "lo < k" and low: "low_prec k rest"
      let ?ops = "concat (map (\<lambda>x. h # placed n 2 x (c_tokens x)) (b # bs)) @ rest"
      have lowq: "low_prec q rest" using low k(2) by (auto simp: low_prec_def)
      have lowops: "low_prec q ?ops" using q(2) by (simp add: low_prec_def peek_def)
      have "binaryT env lo (placed n 1 a (c_tokens a) @ ?ops) = pbind (value_then env a ?ops) (loopT env lo)"
        by (rule placed_binary [OF binop(3) a place(1) q(3) _ _ lowops]) (use lo k q(4) in auto)
      moreover have "loopT env lo l ?ops =
          (case eval_operands env h l (b # bs) of None \<Rightarrow> None | Some v \<Rightarrow> loopT env lo v rest)" for l
        by (rule loop_operands [OF binop(2) q(2,3,4) _ bs place(2) lowq]) (use lo k in auto)
      ultimately show "binaryT env lo (c_tokens n @ rest) = pbind (value_then env n rest) (loopT env lo)"
        using binop(1,2)
        by (simp add: c_tokens_binary evalForm_binary value_then_pbind del: eval_operands.simps split: option.splits)
    qed
    show ?thesis
      using bin [of 1] bin reads_cond_of_binary level q(3,4) by (auto simp: reads_def)
  qed
qed


subsection \<open>The text of a form\<close>

definition lexes :: "bytes \<Rightarrow> bool" where
  "lexes t \<longleftrightarrow> (\<forall>rest. lexConst (t @ CHR '' '' # rest) = map_option ((#) t) (lexConst rest))"

lemma lex_char_append: "lex_char s = Some (l, t) \<Longrightarrow> lex_char (s @ r) = Some (l, t @ r)"
proof (induction s arbitrary: l t rule: lex_char.induct)
  case (2 c s)
  then show ?case by (cases s) (auto split: if_splits)
qed simp

lemma space_char [simp]: "isSpace (CHR '' '')" "\<not> isIdent (CHR '' '')"
  by code_simp+

lemma lexConst_space [simp]: "lexConst (CHR '' '' # rest) = lexConst rest"
  by simp

lemma ident_not_space: "isIdent c \<Longrightarrow> \<not> isSpace c"
  by (auto simp: isIdent_def isSpace_def is_lower_def is_upper_def is_digit_def)

lemma squote_class: "\<not> isSpace squote" "\<not> isIdent squote" "\<not> is_digit squote"
  by code_simp+

lemma lexes_ident:
  assumes "t \<noteq> []" "\<forall>c \<in> set t. isIdent c"
  shows "lexes t"
proof -
  obtain c s where t: "t = c # s" using assms(1) by (cases t) auto
  have "takeWhile isIdent (s @ CHR '' '' # rest) = s" "dropWhile isIdent (s @ CHR '' '' # rest) = CHR '' '' # rest"
    for rest using assms(2) t space_char(2) by (simp_all add: takeWhile_append2 dropWhile_append2)
  with t assms(2) ident_not_space [of c] show ?thesis by (simp add: lexes_def)
qed

lemma lexes_char:
  assumes "t \<noteq> []" "hd t = squote" "lex_char (tl t) = Some (tl t, [])"
  shows "lexes t"
proof -
  obtain s where t: "t = squote # s" using assms(1,2) by (cases t) auto
  with assms(3) have "lex_char (s @ CHR '' '' # rest) = Some (s, CHR '' '' # rest)" for rest
    using lex_char_append [of s s "[]"] by simp
  with t squote_class show ?thesis by (simp add: lexes_def)
qed

lemma lexes_atom: "const_atom a \<Longrightarrow> lexes a"
  using lexes_ident lexes_char by (auto simp: const_atom_def)

lemma op_class:
  "c \<in> set one_ops \<Longrightarrow> \<not> isSpace c \<and> \<not> is_digit c \<and> \<not> isIdent c \<and> c \<noteq> squote \<and> c \<noteq> CHR '' ''"
proof -
  have "list_all (\<lambda>c. \<not> isSpace c \<and> \<not> is_digit c \<and> \<not> isIdent c \<and> c \<noteq> squote \<and> c \<noteq> CHR '' '') one_ops"
    by code_simp
  then show "c \<in> set one_ops \<Longrightarrow> ?thesis" by (simp add: list_all_iff)
qed

lemma two_ops_no_space: "[c, CHR '' ''] \<notin> set two_ops"
  by (simp add: two_ops_def)

lemma lexes_one: "c \<in> set one_ops \<Longrightarrow> lexes [c]"
  using op_class [of c] two_ops_no_space [of c] by (simp add: lexes_def)

lemma lexes_two: "[c, d] \<in> set two_ops \<Longrightarrow> c \<in> set one_ops \<or> c = CHR ''='' \<Longrightarrow> lexes [c, d]"
proof -
  assume m: "[c, d] \<in> set two_ops" and "c \<in> set one_ops \<or> c = CHR ''=''"
  moreover have "\<not> isSpace (CHR ''='')" "\<not> is_digit (CHR ''='')" "\<not> isIdent (CHR ''='')" by code_simp+
  ultimately have "\<not> isSpace c" "\<not> is_digit c" "\<not> isIdent c" "c \<noteq> squote" using op_class by auto
  then show ?thesis using m by (simp add: lexes_def)
qed

lemma lexes_paren: "lexes ''(''" "lexes '')''" "lexes ''?''" "lexes '':''" "lexes ''-''" "lexes ''+''"
    "lexes ''~''" "lexes ''!''"
  by (rule lexes_one, simp add: one_ops_def)+

lemma lexes_binary: "binaryOps h \<Longrightarrow> lexes h"
  unfolding binaryOps_def
  by (elim insertE emptyE)
    (simp_all add: lexes_one lexes_two one_ops_def two_ops_def)

lemma lexes_cast: "intKeyword w \<Longrightarrow> lexes w"
proof (rule lexes_ident)
  assume w: "intKeyword w"
  then show "w \<noteq> []" by (auto simp: intKeyword_def)
  have "list_all (list_all isIdent) [''int'', ''unsigned'', ''signed'', ''long'', ''short'']" by code_simp
  then show "\<forall>c \<in> set w. isIdent c" using w by (auto simp: intKeyword_def list_all_iff)
qed

subsection \<open>Properties\<close>

text \<open>
  C10. The parser of a value's text always stops: with three steps for a token and three
  more, it answers, whatever the text is and whatever the environment gives.
\<close>

theorem evalConst_total: "\<exists>r. evalConst s env = Some r"
proof (cases "lexConst s")
  case None
  then show ?thesis by (simp add: evalConst_def)
next
  case (Some toks)
  from evalConst_toks [OF Some] show ?thesis by blast
qed

end
