(* ===== verification/CPrint.thy ===== *)
theory CPrint
  imports Levels "HOL-Library.State_Monad"
begin

text \<open>
  The printer of C-lisp forms as C, crefactor/clisp/toc.go, with its levels of expr.go.  The
  printer's state \<open>p.err\<close> is the state of a state monad; \<open>p.indent\<close>, which every function
  leaves as it found it, is an argument, and the text a function writes or returns is its
  result.  The first failure is kept and the functions go on after it, as in the code, where
  their text is then not used.  A run-time panic is a state that is not left.

  The functions of the code call each other through the elements of a form.  Each is one
  definition here, with the calls that go down into a form made through \<open>go\<close>, the function
  that does a \<open>job\<close>; \<open>run\<close> ties the knot with fuel, and \<open>Print\<close> gives enough of it.
  The text is ASCII where \<open>strings.TrimSpace\<close> looks at it.
\<close>

subsection \<open>Levels\<close>

definition binaryLevel :: "bytes \<Rightarrow> nat option" where
  "binaryLevel h =
     (if h = ''||'' then Some xlvLOr
      else if h = ''&&'' then Some xlvLAnd
      else if h = ''|'' then Some xlvOr
      else if h = ''^'' then Some xlvXor
      else if h = ''&'' then Some xlvAnd
      else if h \<in> {''=='', ''!=''} then Some xlvEq
      else if h \<in> {''<'', ''>'', ''<='', ''>=''} then Some xlvRel
      else if h \<in> {''<<'', ''>>''} then Some xlvShift
      else if h \<in> {''+'', ''-''} then Some xlvAdd
      else if h \<in> {''*'', ''/'', ''%''} then Some xlvMul
      else if h \<in> {''='', ''*='', ''/='', ''%='', ''+='', ''-='', ''<<='', ''>>='', ''&='', ''^='', ''|=''}
        then Some xlvAssign
      else None)"

definition unaryHeads :: "bytes \<Rightarrow> bool" where
  "unaryHeads h \<longleftrightarrow> h \<in> {''addr'', ''deref'', ''!'', ''~'', ''pre++'', ''pre--'', ''sizeof'', ''sizeof-bare'',
     ''sizeof-type'', ''alignof'', ''alignof-bare'', ''alignof-type'', ''label-addr''}"

definition postfixHeads :: "bytes \<Rightarrow> bool" where
  "postfixHeads h \<longleftrightarrow> h \<in> {''call'', ''index'', ''.'', ''->'', ''post++'', ''post--'', ''literal''}"

definition level :: "node \<Rightarrow> nat" where
  "level n =
     (if \<not> IsList n then xlvPrimary
      else let h = Head n in
        if h = ''comma'' then xlvComma
        else if h = ''?'' then xlvCond
        else if h = ''cast'' then xlvCast
        else if (h = ''-'' \<or> h = ''+'') \<and> length (Kids n) = 2 then xlvUnary
        else if unaryHeads h then xlvUnary
        else if postfixHeads h then xlvPostfix
        else (case binaryLevel h of Some l \<Rightarrow> l | None \<Rightarrow> xlvPrimary))"

subsection \<open>The printer's state\<close>

datatype complaint =
    NoArgument bytes nat
  | Complaint bytes

datatype fault =
    Fine
  | Failed complaint node
  | Panicked
  | OutOfFuel

type_synonym 'a pm = "(fault, 'a) state"

abbreviation (input) ret :: "'a \<Rightarrow> 'a pm" where
  "ret \<equiv> State_Monad.return"

definition fail :: "node \<Rightarrow> complaint \<Rightarrow> unit pm" where
  "fail n c = State (\<lambda>s. ((), if s = Fine then Failed c n else s))"

definition halt :: "fault \<Rightarrow> unit pm" where
  "halt f = State (\<lambda>s. ((), if s \<in> {Panicked, OutOfFuel} then s else f))"

definition ok :: "bool pm" where
  "ok = State (\<lambda>s. (s = Fine, s))"

text \<open>A printer of its own inside another, \<open>p.err\<close> taken over when there was none.\<close>

definition sub_printer :: "'a pm \<Rightarrow> 'a pm" where
  "sub_printer m = State (\<lambda>s.
     let (a, e) = run_state m Fine in
     (a, if s = Fine \<or> s \<noteq> Panicked \<and> s \<noteq> OutOfFuel \<and> e \<in> {Panicked, OutOfFuel} then e else s))"

fun each :: "('a \<Rightarrow> 'b pm) \<Rightarrow> 'a list \<Rightarrow> 'b list pm" where
  "each f [] = ret []"
| "each f (x # xs) = do { y \<leftarrow> f x; ys \<leftarrow> each f xs; ret (y # ys) }"

definition arg :: "node \<Rightarrow> nat \<Rightarrow> node pm" where
  "arg n i =
     (if i < length (Args n) then ret (Args n ! i)
      else do { fail n (NoArgument (Head n) (i + 1)); ret (Atom []) })"

text \<open>\<open>args[1:]\<close>, which panics when there are none.\<close>

definition args_from1 :: "node \<Rightarrow> node list pm" where
  "args_from1 n =
     (case Args n of [] \<Rightarrow> do { halt Panicked; ret [] } | _ # xs \<Rightarrow> ret xs)"

subsection \<open>Text\<close>

definition Indent :: bytes where "Indent = ''    ''"

definition pad :: "nat \<Rightarrow> bytes" where
  "pad ind = concat (replicate ind Indent)"

definition line :: "nat \<Rightarrow> bytes \<Rightarrow> bytes" where
  "line ind s = (if s = [] then [newline] else pad ind @ s @ [newline])"

definition outdented :: "nat \<Rightarrow> bytes \<Rightarrow> bytes" where
  "outdented ind s = (if ind > 0 then line (ind - 1) s else line ind s)"

definition is_space :: "byte \<Rightarrow> bool" where
  "is_space c \<longleftrightarrow> c \<in> {CHR '' '', tabchar, newline, vtab, formfeed, retchar}"

definition TrimSpace :: "bytes \<Rightarrow> bytes" where
  "TrimSpace s = rev (dropWhile is_space (rev (dropWhile is_space s)))"

fun Join :: "bytes list \<Rightarrow> bytes \<Rightarrow> bytes" where
  "Join [] sep = []"
| "Join [x] sep = x"
| "Join (x # y # xs) sep = x @ sep @ Join (y # xs) sep"

definition join :: "bytes list \<Rightarrow> bytes" where
  "join parts = Join (filter (\<lambda>s. TrimSpace s \<noteq> []) parts) '' ''"

fun atom_text :: "node \<Rightarrow> bytes" where
  "atom_text (Atom a) = a"
| "atom_text (Lst _) = []"

fun unescape :: "bytes \<Rightarrow> bytes" where
  "unescape [] = []"
| "unescape [c] = [c]"
| "unescape (c # d # s) =
     (if c = backslash then (if d = CHR ''n'' then newline else d) # unescape s
      else c # unescape (d # s))"

definition unquote :: "node \<Rightarrow> bytes pm" where
  "unquote n =
     (let s = atom_text n in
      if IsList n \<or> length s < 2 \<or> hd s \<noteq> dquote \<or> last s \<noteq> dquote then
        do { fail n (Complaint ''a quoted text was expected''); ret [] }
      else ret (unescape (butlast (tl s))))"

definition TrimSuffix :: "bytes \<Rightarrow> bytes \<Rightarrow> bytes" where
  "TrimSuffix s suf = (if has_suffix s suf then take (length s - length suf) s else s)"

text \<open>\<open>cemit.Prefix\<close>.\<close>

definition Prefix :: "bytes \<Rightarrow> bytes \<Rightarrow> bytes" where
  "Prefix op operand =
     (if operand \<noteq> [] \<and> last op = hd operand \<and> hd operand \<in> set ''+-&''
      then op @ '' '' @ operand else op @ operand)"

definition space_before :: "bytes \<Rightarrow> bytes" where
  "space_before s = (if s = [] then [] else '' '' @ s)"

subsection \<open>Jobs\<close>

datatype job =
    JForm node
  | JSpec node
  | JParams node
  | JInit node
  | JItem node
  | JOtherwise node

type_synonym worker = "nat \<Rightarrow> job \<Rightarrow> bytes pm"

definition expr :: "worker \<Rightarrow> nat \<Rightarrow> node \<Rightarrow> nat \<Rightarrow> bytes pm" where
  "expr go ind n want = do {
     s \<leftarrow> go ind (JForm n);
     ret (if level n < want then ''('' @ s @ '')'' else s) }"

text \<open>An expression at an argument's place, and the texts of several.\<close>

definition expr_arg :: "worker \<Rightarrow> nat \<Rightarrow> node \<Rightarrow> nat \<Rightarrow> nat \<Rightarrow> bytes pm" where
  "expr_arg go ind n i want = do { a \<leftarrow> arg n i; expr go ind a want }"

subsection \<open>Attributes and specifiers\<close>

definition isAttr :: "node \<Rightarrow> bool" where
  "isAttr n \<longleftrightarrow> Is n ''attr'' \<or> Is n ''attr-text'' \<or> Is n ''std-attr''"

definition attrText :: "node \<Rightarrow> bytes" where
  "attrText n =
     (let vs = map (\<lambda>v. case v of
          Atom a \<Rightarrow> a
        | Lst _ \<Rightarrow> Head v @ ''('' @ Join (map atom_text (Args v)) '', '' @ '')'') (Args n) in
      if Is n ''std-attr'' then ''[['' @ Join vs '', '' @ '']]''
      else ''__attribute__(('' @ Join vs '', '' @ ''))'')"

definition attr :: "node \<Rightarrow> bytes pm" where
  "attr n =
     (if Is n ''attr-text'' then do { a \<leftarrow> arg n 0; unquote a }
      else if \<not> Is n ''attr'' \<and> \<not> Is n ''std-attr'' then
        do { fail n (Complaint ''not an attribute''); ret [] }
      else ret (attrText n))"

definition attrList :: "node list \<Rightarrow> bytes pm" where
  "attrList xs = do { parts \<leftarrow> each attr xs; ret (join parts) }"

definition specs :: "worker \<Rightarrow> nat \<Rightarrow> node list \<Rightarrow> bytes pm" where
  "specs go ind items = do { parts \<leftarrow> each (\<lambda>i. go ind (JSpec i)) items; ret (join parts) }"

definition base_heads :: "bytes list" where
  "base_heads = [''struct'', ''union'', ''enum'', ''typeof'', ''typeof-type'', ''__typeof__'', ''__typeof__-type'',
     ''__typeof'', ''__typeof-type'', ''atomic'', ''alignas'', ''alignas-type'', ''attr'', ''attr-text'',
     ''typeof_unqual'', ''typeof_unqual-type'', ''_BitInt'', ''std-attr'']"

definition baseItems :: "node \<Rightarrow> node list" where
  "baseItems t =
     (if \<not> IsList t then [t]
      else if Head t = ''spec'' then Args t
      else if Head t \<in> set base_heads then [t]
      else Kids t)"

subsection \<open>Declarators\<close>

record dcl =
  ptr :: bytes
  direct :: bytes

definition dcl_text :: "dcl \<Rightarrow> bytes" where
  "dcl_text d = ptr d @ direct d"

definition parenthesised :: "dcl \<Rightarrow> dcl" where
  "parenthesised d =
     (if ptr d = [] then d else \<lparr>ptr = [], direct = ''('' @ ptr d @ direct d @ '')''\<rparr>)"

definition arrayWords :: "bytes list" where
  "arrayWords = [''static'', ''const'', ''__const'', ''volatile'', ''__volatile'', ''__volatile__'', ''restrict'',
     ''__restrict'', ''__restrict__'', ''_Atomic'', ''_Nonnull'']"

fun is_word :: "bytes list \<Rightarrow> node \<Rightarrow> bool" where
  "is_word ws (Atom a) = (a \<in> set ws)"
| "is_word ws (Lst _) = False"

text \<open>The qualifiers of a pointer.\<close>

definition qualifiers :: "node list \<Rightarrow> bytes pm" where
  "qualifiers qs = do {
     ts \<leftarrow> each (\<lambda>q. if IsList q then attr q else ret (atom_text q)) qs;
     let q = Join ts '' '';
     ret (if q \<noteq> [] then q @ '' '' else q) }"

lemma size_list_member: "a \<in> set xs \<Longrightarrow> size a \<le> size_list size xs"
  by (induction xs) auto

lemma Args_size: "a \<in> set (Args t) \<Longrightarrow> size a < size t"
  by (cases t rule: Args.cases) (auto dest: size_list_member)

lemma Kids_size: "a \<in> set (Kids t) \<Longrightarrow> size a < size t"
  by (cases t) (auto dest: size_list_member)

lemma hd_Args_size: "Args t \<noteq> [] \<Longrightarrow> size (hd (Args t)) < size t"
  by (rule Args_size) simp

lemma nth_Args_size: "i < length (Args t) \<Longrightarrow> size (Args t ! i) < size t"
  by (rule Args_size) simp

lemma last_Args_size: "Args t \<noteq> [] \<Longrightarrow> size (last (Args t)) < size t"
  by (rule Args_size) simp

lemma hd_Args_size2: "\<not> length (Args t) < Suc k \<Longrightarrow> size (hd (Args t)) < size t"
  by (rule hd_Args_size) auto

lemma last_array_size:
  "length (dropWhile p (Args t)) = Suc k \<Longrightarrow> size (last (Args t)) < size t"
  by (rule last_Args_size) auto

text \<open>
  The loop of \<open>build\<close>, which writes a type around a declarator and stops at a failure; the
  type it goes on with is the first or the last of the arguments.
\<close>

function build :: "worker \<Rightarrow> nat \<Rightarrow> node \<Rightarrow> dcl \<Rightarrow> (node list \<times> dcl) pm" where
  "build go ind t d = do {
     fine \<leftarrow> ok;
     if \<not> fine then ret ([], d)
     else if Head t = ''ptr'' then
       (if Args t = [] then do { fail t (Complaint ''ptr of nothing''); ret ([], d) }
        else do {
          q \<leftarrow> qualifiers (tl (Args t));
          build go ind (hd (Args t)) (d\<lparr>ptr := ''*'' @ q @ ptr d\<rparr>) })
     else if Head t = ''array'' then
       (let d = parenthesised d;
            words = map atom_text (takeWhile (is_word arrayWords) (Args t));
            args = dropWhile (is_word arrayWords) (Args t) in
        if length args = 1 then
          build go ind (last (Args t)) (d\<lparr>direct := direct d @ ''['' @ Join words '' '' @ '']''\<rparr>)
        else if length args = 2 then do {
          e \<leftarrow> expr go ind (args ! 0) xlvAssign;
          build go ind (last (Args t)) (d\<lparr>direct := direct d @ ''['' @ join (words @ [e]) @ '']''\<rparr>) }
        else do {
          fail t (Complaint ''an array is (array WORD... T) or (array WORD... N T)'');
          ret ([], d) })
     else if Head t = ''fn'' then
       (if length (Args t) \<noteq> 2 then do {
          fail t (Complaint ''a function is (fn PARAMS RESULT)'');
          ret ([], d) }
        else (let d = parenthesised d in do {
          ps \<leftarrow> go ind (JParams (Args t ! 0));
          build go ind (Args t ! 1) (d\<lparr>direct := direct d @ ''('' @ ps @ '')''\<rparr>) }))
     else if Head t = ''fn-ids'' then
       (if length (Args t) \<noteq> 2 \<or> \<not> IsList (Args t ! 0) then do {
          fail t (Complaint ''an old-style function is (fn-ids (NAME...) RESULT)'');
          ret ([], d) }
        else (let d = parenthesised d in
          build go ind (Args t ! 1)
            (d\<lparr>direct := direct d @ ''('' @ Join (map atom_text (Kids (Args t ! 0))) '', '' @ '')''\<rparr>)))
     else if Head t = ''paren'' then do {
       a \<leftarrow> arg t 0;
       if Args t = [] then ret ([], \<lparr>ptr = [], direct = ''('' @ ptr d @ direct d @ '')''\<rparr>)
       else build go ind (hd (Args t)) \<lparr>ptr = [], direct = ''('' @ ptr d @ direct d @ '')''\<rparr> }
     else if Head t = ''name-attr'' then
       (if length (Args t) < 2 then do {
          fail t (Complaint ''a name's attributes are (name-attr T ATTR...)'');
          ret ([], d) }
        else do {
          as \<leftarrow> attrList (tl (Args t));
          build go ind (hd (Args t)) (d\<lparr>direct := join [direct d, as]\<rparr>) })
     else ret (baseItems t, d) }"
  by pat_completeness auto
termination
  by (relation "measure (\<lambda>(go, ind, t, d). size t)")
    (simp_all add: hd_Args_size hd_Args_size2 nth_Args_size last_array_size numeral_2_eq_2)

declare build.simps [simp del]

definition no_dcl :: dcl where
  "no_dcl = \<lparr>ptr = [], direct = []\<rparr>"

definition named :: "bytes \<Rightarrow> dcl" where
  "named name = \<lparr>ptr = [], direct = name\<rparr>"

definition typeName :: "worker \<Rightarrow> nat \<Rightarrow> node \<Rightarrow> bytes pm" where
  "typeName go ind t = do {
     (items, dc) \<leftarrow> build go ind t no_dcl;
     s \<leftarrow> specs go ind items;
     ret (join [s, dcl_text dc]) }"

text \<open>One parameter of \<open>params\<close>; \<open>None\<close> is the return from an empty one.\<close>

definition param :: "worker \<Rightarrow> nat \<Rightarrow> node \<Rightarrow> bytes pm" where
  "param go ind x =
     (if \<not> IsList x then ret (atom_text x)
      else if length (Kids x) \<ge> 2 \<and> \<not> isAttr (Kids x ! 1) then do {
        (items, dc) \<leftarrow> build go ind (Kids x ! 1) (named (atom_text (Kids x ! 0)));
        s \<leftarrow> specs go ind items;
        as \<leftarrow> attrList (drop 2 (Kids x));
        ret (join [s, dcl_text dc, as]) }
      else do {
        (items, dc) \<leftarrow> build go ind (Kids x ! 0) no_dcl;
        s \<leftarrow> specs go ind items;
        as \<leftarrow> attrList (drop 1 (Kids x));
        ret (join [s, dcl_text dc, as]) })"

fun param_list :: "worker \<Rightarrow> nat \<Rightarrow> node \<Rightarrow> node list \<Rightarrow> bytes list \<Rightarrow> bytes pm" where
  "param_list go ind l [] parts = ret (Join (rev parts) '', '')"
| "param_list go ind l (x # xs) parts =
     (if x = Lst [] then do { fail l (Complaint ''an empty parameter''); ret [] }
      else do { s \<leftarrow> param go ind x; param_list go ind l xs (s # parts) })"

definition params :: "worker \<Rightarrow> nat \<Rightarrow> node \<Rightarrow> bytes pm" where
  "params go ind l =
     (if \<not> IsList l then do { fail l (Complaint ''a parameter list was expected''); ret [] }
      else param_list go ind l (Kids l) [])"

subsection \<open>Structures and enumerations\<close>

definition staticAssert :: "worker \<Rightarrow> nat \<Rightarrow> node \<Rightarrow> bytes pm" where
  "staticAssert go ind f = do {
     e \<leftarrow> expr_arg go ind f 0 xlvCond;
     m \<leftarrow> (if length (Args f) > 1 then do { a \<leftarrow> arg f 1; ret ('', '' @ atom_text a) } else ret []);
     ret (''static_assert('' @ e @ m @ '');'') }"

text \<open>\<open>member\<close>: the declarator or the bare type, then the width, then the attributes.\<close>

definition member_width :: "worker \<Rightarrow> nat \<Rightarrow> node list \<Rightarrow> bytes \<Rightarrow> bytes pm" where
  "member_width go ind rest s = do {
     w \<leftarrow> (if rest \<noteq> [] \<and> Is (hd rest) ''bits''
          then do { e \<leftarrow> expr_arg go ind (hd rest) 0 xlvCond; ret ('' : '' @ e) } else ret []);
     let s = s @ w;
     let rest = (if rest \<noteq> [] \<and> Is (hd rest) ''bits'' then tl rest else rest);
     t \<leftarrow> (if rest \<noteq> [] then do { as \<leftarrow> attrList rest; ret (join [s, as]) } else ret s);
     ret (t @ '';'') }"

definition member_of :: "worker \<Rightarrow> nat \<Rightarrow> node \<Rightarrow> bytes pm" where
  "member_of go ind m =
     (if Is m ''static_assert'' then staticAssert go ind m
      else if \<not> IsList m \<or> Kids m = [] then do { fail m (Complaint ''not a member''); ret [] }
      else let args = Kids m in
        if length args \<ge> 2 \<and> \<not> Is (args ! 1) ''bits'' \<and> \<not> isAttr (args ! 1) then do {
          (items, dc) \<leftarrow> build go ind (args ! 1) (named (atom_text (args ! 0)));
          s \<leftarrow> specs go ind items;
          member_width go ind (drop 2 args) (join [s, dcl_text dc]) }
        else do {
          s \<leftarrow> specs go ind (baseItems (args ! 0));
          member_width go ind (drop 1 args) s })"

text \<open>A leading atom, and a leading list headed by a word, taken off the arguments.\<close>

definition take_tag :: "(bytes \<Rightarrow> bool) \<Rightarrow> node list \<Rightarrow> bytes \<times> node list" where
  "take_tag p args =
     (case args of Atom a # as \<Rightarrow> if p a then (a, as) else ([], args) | _ \<Rightarrow> ([], args))"

definition take_list :: "bytes \<Rightarrow> node list \<Rightarrow> node list option \<times> node list" where
  "take_list h args =
     (case args of x # as \<Rightarrow> if Is x h then (Some (Args x), as) else (None, args) | [] \<Rightarrow> (None, args))"

definition opt_attrs :: "node list option \<Rightarrow> bytes pm" where
  "opt_attrs xs = (case xs of None \<Rightarrow> ret [] | Some as \<Rightarrow> attrList as)"

definition structOrUnion :: "worker \<Rightarrow> nat \<Rightarrow> node \<Rightarrow> bytes pm" where
  "structOrUnion go ind n = do {
     let (tag, args) = take_tag (\<lambda>a. a \<noteq> ''{}'') (Args n);
     let (attrs, args) = take_list ''@'' args;
     before \<leftarrow> opt_attrs attrs;
     let head = join [Head n, before, tag];
     if args = [] then ret head
     else do {
       after \<leftarrow> (if Is (last args) ''@'' then attrList (Args (last args)) else ret []);
       let args = (if Is (last args) ''@'' then butlast args else args);
       let args = (if args = [Atom ''{}''] then [] else args);
       ms \<leftarrow> each (member_of go (ind + 1)) args;
       ret (head @ [newline] @ pad ind @ ''{'' @ [newline] @
         concat (map (\<lambda>m. pad (ind + 1) @ m @ [newline]) ms) @ pad ind @ ''}'' @
         (if after \<noteq> [] then '' '' @ after else [])) } }"

definition enumerator :: "worker \<Rightarrow> nat \<Rightarrow> node \<Rightarrow> bytes pm" where
  "enumerator go ind e =
     (if \<not> IsList e \<or> Kids e = [] \<or> IsList (hd (Kids e)) then
        do { fail e (Complaint ''not an enumerator''); ret [] }
      else do {
        let attrs = takeWhile isAttr (tl (Kids e));
        let rest = dropWhile isAttr (tl (Kids e));
        as \<leftarrow> attrList attrs;
        let name = join [atom_text (hd (Kids e)), as];
        if length rest = 0 then ret name
        else if length rest = 1 then do { v \<leftarrow> expr go ind (hd rest) xlvCond; ret (name @ '' = '' @ v) }
        else do { fail e (Complaint ''an enumerator is (NAME ATTR... VALUE)''); ret [] } })"

definition enum_spec :: "worker \<Rightarrow> nat \<Rightarrow> node \<Rightarrow> bytes pm" where
  "enum_spec go ind n = do {
     let (tag, args) = take_tag (\<lambda>_. True) (Args n);
     let (attrs, args) = take_list ''@'' args;
     as \<leftarrow> opt_attrs attrs;
     let (base, args) = take_list '':'' args;
     under \<leftarrow> (case base of None \<Rightarrow> ret [] | Some ts \<Rightarrow> do { s \<leftarrow> specs go ind ts; ret ('' : '' @ s) });
     let head = join [''enum'', as, tag] @ under;
     if length args = 0 then ret head
     else if length args = 1 then do { e \<leftarrow> enumerator go ind (hd args); ret (head @ '' { '' @ e @ '' }'') }
     else do {
       es \<leftarrow> each (enumerator go (ind + 1)) args;
       ret (head @ [newline] @ pad ind @ ''{'' @ [newline] @
         concat (map (\<lambda>e. pad (ind + 1) @ e @ '','' @ [newline]) es) @ pad ind @ ''}'') } }"

definition spec :: "worker \<Rightarrow> nat \<Rightarrow> node \<Rightarrow> bytes pm" where
  "spec go ind n =
     (if \<not> IsList n then ret (atom_text n)
      else let h = Head n in
        if h \<in> {''struct'', ''union''} then structOrUnion go ind n
        else if h = ''enum'' then enum_spec go ind n
        else if h \<in> {''typeof'', ''__typeof__'', ''__typeof'', ''typeof_unqual''} then
          do { e \<leftarrow> expr_arg go ind n 0 xlvComma; ret (h @ ''('' @ e @ '')'') }
        else if h \<in> {''typeof-type'', ''__typeof__-type'', ''__typeof-type'', ''typeof_unqual-type''} then
          do { a \<leftarrow> arg n 0; t \<leftarrow> typeName go ind a; ret (TrimSuffix h ''-type'' @ ''('' @ t @ '')'') }
        else if h = ''atomic'' then
          do { a \<leftarrow> arg n 0; t \<leftarrow> typeName go ind a; ret (''_Atomic('' @ t @ '')'') }
        else if h = ''_BitInt'' then do { e \<leftarrow> expr_arg go ind n 0 xlvCond; ret (''_BitInt('' @ e @ '')'') }
        else if h = ''alignas'' then do { e \<leftarrow> expr_arg go ind n 0 xlvCond; ret (''alignas('' @ e @ '')'') }
        else if h = ''alignas-type'' then
          do { a \<leftarrow> arg n 0; t \<leftarrow> typeName go ind a; ret (''alignas('' @ t @ '')'') }
        else if h \<in> {''attr'', ''attr-text'', ''std-attr''} then attr n
        else do { fail n (Complaint ''not a specifier''); ret [] })"


subsection \<open>Initializers\<close>

definition designator :: "worker \<Rightarrow> nat \<Rightarrow> node \<Rightarrow> bytes pm" where
  "designator go ind d =
     (if \<not> IsList d then ret (atom_text d)
      else if Is d ''idx'' \<and> length (Args d) = 1 then
        do { e \<leftarrow> expr_arg go ind d 0 xlvCond; ret (''['' @ e @ '']'') }
      else if Is d ''idx'' \<and> length (Args d) = 2 then do {
        e \<leftarrow> expr_arg go ind d 0 xlvCond;
        e' \<leftarrow> expr_arg go ind d 1 xlvCond;
        ret (''['' @ e @ '' ... '' @ e' @ '']'') }
      else do { fail d (Complaint ''not a designator''); ret [] })"

definition initList :: "worker \<Rightarrow> nat \<Rightarrow> node list \<Rightarrow> bytes pm" where
  "initList go ind items = do { parts \<leftarrow> each (\<lambda>i. go ind (JInit i)) items; ret (Join parts '', '') }"

definition inlineInit :: "worker \<Rightarrow> nat \<Rightarrow> node \<Rightarrow> bytes pm" where
  "inlineInit go ind n =
     (if Head n = ''at'' then
        (if length (Args n) < 2 then
           do { fail n (Complaint ''a designation is (at D... VALUE)''); ret [] }
         else do {
           v \<leftarrow> go ind (JInit (last (Args n)));
           ds \<leftarrow> each (designator go ind) (butlast (Args n));
           ret (concat ds @ '' = '' @ v) })
      else if Head n = ''init'' then do { s \<leftarrow> initList go ind (Args n); ret (''{'' @ s @ ''}'') }
      else expr go ind n xlvAssign)"

definition braced :: "worker \<Rightarrow> nat \<Rightarrow> node list \<Rightarrow> bytes pm" where
  "braced go ind items = do {
     ss \<leftarrow> each (\<lambda>i. go (ind + 1) (JInit i)) items;
     ret ([newline] @ pad ind @ ''{'' @ [newline] @
       concat (map (\<lambda>s. pad (ind + 1) @ s @ '','' @ [newline]) ss) @ pad ind @ ''}'') }"

definition initializer :: "worker \<Rightarrow> nat \<Rightarrow> node \<Rightarrow> bytes pm" where
  "initializer go ind n = (if Is n ''init'' then braced go ind (Args n) else expr go ind n xlvAssign)"

definition assign :: "worker \<Rightarrow> nat \<Rightarrow> node \<Rightarrow> bytes pm" where
  "assign go ind n = do {
     s \<leftarrow> initializer go ind n;
     ret (if s \<noteq> [] \<and> hd s = newline then ''='' @ s else ''= '' @ s) }"

subsection \<open>Declarations\<close>

record decl =
  prefix :: "node list"
  dname :: bytes
  dtype :: node
  attrs :: "node list"
  asm :: "node option"
  drest :: "node list"

definition prefixWords :: "bytes list" where
  "prefixWords = [''static'', ''extern'', ''typedef'', ''register'', ''auto'', ''inline'', ''__inline'', ''__inline__'',
     ''_Noreturn'', ''_Thread_local'', ''thread_local'', ''__thread'', ''constexpr'', ''__auto_type'']"

text \<open>
  After a failure the declaration has no type; nothing looks at it then, since \<open>build\<close>
  returns at once.
\<close>

definition in_prefix :: "node \<Rightarrow> bool" where
  "in_prefix a \<longleftrightarrow> is_word prefixWords a \<or> isAttr a"

definition def_prefix :: "node \<Rightarrow> node list" where
  "def_prefix f =
     (if Is f ''typedef'' then [Atom ''typedef''] else []) @ takeWhile in_prefix (Args f)"

definition take_label :: "node list \<Rightarrow> node option \<times> node list" where
  "take_label xs =
     (case xs of x # ys \<Rightarrow> if Is x ''asm-label'' then (Some x, ys) else (None, xs) | [] \<Rightarrow> (None, []))"

definition def_parts :: "node list \<Rightarrow> node list \<Rightarrow> decl" where
  "def_parts pre args =
     (let (label, xs) = take_label (dropWhile isAttr (drop 2 args)) in
      \<lparr>prefix = pre, dname = atom_text (args ! 0), dtype = args ! 1,
        attrs = takeWhile isAttr (drop 2 args), asm = label, drest = xs\<rparr>)"

definition parseDef :: "node \<Rightarrow> decl pm" where
  "parseDef f =
     (let args = dropWhile in_prefix (Args f) in
      if length args < 2 \<or> IsList (args ! 0) then do {
        fail f (Complaint ''a name and a type were expected'');
        ret \<lparr>prefix = def_prefix f, dname = [], dtype = Atom [], attrs = [], asm = None, drest = []\<rparr> }
      else ret (def_parts (def_prefix f) args))"

definition declLine :: "worker \<Rightarrow> nat \<Rightarrow> node \<Rightarrow> bytes pm" where
  "declLine go ind f =
     (if Head f \<in> {''macro-decl'', ''verbatim''} then do { a \<leftarrow> arg f 0; unquote a }
      else if Head f = ''static_assert'' then staticAssert go ind f
      else if Head f \<in> {''struct'', ''union'', ''enum''} then do { s \<leftarrow> spec go ind f; ret (s @ '';'') }
      else if Head f = ''declare'' then do { s \<leftarrow> specs go ind (Args f); ret (s @ '';'') }
      else do {
        d \<leftarrow> parseDef f;
        (items, dc) \<leftarrow> build go ind (dtype d) (named (dname d));
        p \<leftarrow> specs go ind (prefix d);
        i \<leftarrow> specs go ind items;
        let s = join [p, i, dcl_text dc];
        s \<leftarrow> (if attrs d \<noteq> [] then do { as \<leftarrow> attrList (attrs d); ret (join [s, as]) } else ret s);
        s \<leftarrow> (case asm d of
            None \<Rightarrow> ret s
          | Some l \<Rightarrow> do { a \<leftarrow> arg l 0; t \<leftarrow> unquote a; ret (join [s, t]) });
        s \<leftarrow> (case drest d of
            [] \<Rightarrow> ret s
          | [v] \<Rightarrow> do { t \<leftarrow> assign go ind v; ret (s @ '' '' @ t) }
          | _ \<Rightarrow> do { fail f (Complaint ''more than one value''); ret s });
        ret (s @ '';'') })"

subsection \<open>Statements\<close>

definition declHeads :: "bytes list" where
  "declHeads = [''def'', ''typedef'', ''declare'', ''struct'', ''union'', ''enum'', ''static_assert'',
     ''macro-decl'', ''verbatim'']"

definition compound :: "worker \<Rightarrow> nat \<Rightarrow> node list \<Rightarrow> bytes pm" where
  "compound go ind items = do {
     let (attrs, items) = take_list ''@'' items;
     a \<leftarrow> (case attrs of None \<Rightarrow> ret [] | Some xs \<Rightarrow> do { s \<leftarrow> attrList xs; ret (line ind s) });
     ss \<leftarrow> each (\<lambda>i. go (ind + 1) (JItem i)) items;
     ret (a @ line ind ''{'' @ concat ss @ line ind ''}'') }"

definition block :: "worker \<Rightarrow> nat \<Rightarrow> node \<Rightarrow> bytes pm" where
  "block go ind n =
     (if Is n ''block'' then compound go ind (Args n)
      else do {
        s \<leftarrow> go (ind + 1) (JItem n);
        ret (line ind ''{'' @ s @ line ind ''}'') })"

text \<open>A condition in parentheses after a keyword, with the block it governs.\<close>

definition governed :: "worker \<Rightarrow> nat \<Rightarrow> bytes \<Rightarrow> node \<Rightarrow> bytes pm" where
  "governed go ind kw f = do {
     c \<leftarrow> expr_arg go ind f 0 xlvComma;
     a \<leftarrow> arg f 1;
     b \<leftarrow> block go ind a;
     ret (line ind (kw @ '' ('' @ c @ '')'') @ b) }"

definition else_part :: "worker \<Rightarrow> nat \<Rightarrow> node \<Rightarrow> bytes pm" where
  "else_part go ind f =
     (if length (Args f) > 2 then do { a \<leftarrow> arg f 2; go ind (JOtherwise a) } else ret [])"

definition otherwise :: "worker \<Rightarrow> nat \<Rightarrow> node \<Rightarrow> bytes pm" where
  "otherwise go ind n =
     (if Is n ''if'' then do {
        s \<leftarrow> governed go ind ''else if'' n;
        e \<leftarrow> else_part go ind n;
        ret (s @ e) }
      else do { b \<leftarrow> block go ind n; ret (line ind ''else'' @ b) })"

definition clause :: "worker \<Rightarrow> nat \<Rightarrow> node \<Rightarrow> bytes pm" where
  "clause go ind n = (if n = Lst [] then ret [] else expr go ind n xlvComma)"

definition for_stmt :: "worker \<Rightarrow> nat \<Rightarrow> node \<Rightarrow> bytes pm" where
  "for_stmt go ind f = do {
     i \<leftarrow> arg f 0;
     head \<leftarrow> (if Head i \<in> set declHeads then declLine go ind i
             else do { s \<leftarrow> clause go ind i; ret (s @ '';'') });
     c \<leftarrow> arg f 1;
     cond \<leftarrow> clause go ind c;
     st \<leftarrow> arg f 2;
     step \<leftarrow> clause go ind st;
     b \<leftarrow> arg f 3;
     body \<leftarrow> block go ind b;
     ret (line ind (''for ('' @ head @ space_before cond @ '';'' @ space_before step @ '')'') @ body) }"

definition attributed :: "worker \<Rightarrow> nat \<Rightarrow> node \<Rightarrow> bytes pm" where
  "attributed go ind f =
     (let args = Args f; has_e = args \<noteq> [] \<and> \<not> isAttr (last args) in do {
        as \<leftarrow> each attr (if has_e then butlast args else args);
        let s = join as;
        if \<not> has_e then ret (line ind (s @ '';''))
        else do { e \<leftarrow> expr go ind (last args) xlvComma; ret (line ind (join [s, e] @ '';'')) } })"

definition expr_stmt :: "worker \<Rightarrow> nat \<Rightarrow> node \<Rightarrow> bytes pm" where
  "expr_stmt go ind f = do { e \<leftarrow> expr go ind f xlvComma; ret (line ind (e @ '';'')) }"

definition item_stmt :: "worker \<Rightarrow> nat \<Rightarrow> node \<Rightarrow> bytes pm" where
  "item_stmt go ind f =
     (let h = Head f in
      if h = ''block'' then compound go ind (Args f)
      else if h = ''label'' then do { a \<leftarrow> arg f 0; ret (outdented ind (atom_text a @ '':'')) }
      else if h = ''case'' then
        do { e \<leftarrow> expr_arg go ind f 0 xlvCond; ret (outdented ind (''case '' @ e @ '':'')) }
      else if h = ''case-range'' then do {
        e \<leftarrow> expr_arg go ind f 0 xlvCond;
        e' \<leftarrow> expr_arg go ind f 1 xlvCond;
        ret (outdented ind (''case '' @ e @ '' ... '' @ e' @ '':'')) }
      else if h = ''default'' then ret (outdented ind ''default:'')
      else if h = ''empty'' then ret (line ind '';'')
      else if h = ''stmt-attr'' then do { s \<leftarrow> attrList (Args f); ret (line ind s) }
      else if h = ''attributed'' then attributed go ind f
      else if h = ''if'' then
        do { s \<leftarrow> governed go ind ''if'' f; e \<leftarrow> else_part go ind f; ret (s @ e) }
      else if h = ''switch'' then governed go ind ''switch'' f
      else if h = ''while'' then governed go ind ''while'' f
      else if h = ''do'' then do {
        a \<leftarrow> arg f 0;
        b \<leftarrow> block go ind a;
        c \<leftarrow> expr_arg go ind f 1 xlvComma;
        ret (line ind ''do'' @ b @ line ind (''while ('' @ c @ '');'')) }
      else if h = ''for'' then for_stmt go ind f
      else if h = ''return'' then
        (if length (Args f) = 0 then ret (line ind ''return;'')
         else do { e \<leftarrow> expr_arg go ind f 0 xlvComma; ret (line ind (''return '' @ e @ '';'')) })
      else if h = ''break'' then ret (line ind ''break;'')
      else if h = ''continue'' then ret (line ind ''continue;'')
      else if h = ''goto'' then do { a \<leftarrow> arg f 0; ret (line ind (''goto '' @ atom_text a @ '';'')) }
      else if h = ''goto*'' then
        do { e \<leftarrow> expr_arg go ind f 0 xlvComma; ret (line ind (''goto *'' @ e @ '';'')) }
      else expr_stmt go ind f)"

definition item :: "worker \<Rightarrow> nat \<Rightarrow> node \<Rightarrow> bytes pm" where
  "item go ind f =
     (if \<not> IsList f then expr_stmt go ind f
      else if Head f \<in> set declHeads then do { s \<leftarrow> declLine go ind f; ret (line ind s) }
      else item_stmt go ind f)"


subsection \<open>Expressions\<close>

definition exprs :: "worker \<Rightarrow> nat \<Rightarrow> node list \<Rightarrow> nat \<Rightarrow> bytes list pm" where
  "exprs go ind ns want = each (\<lambda>a. expr go ind a want) ns"

definition binary_text :: "worker \<Rightarrow> nat \<Rightarrow> node \<Rightarrow> nat \<Rightarrow> bytes pm" where
  "binary_text go ind n lv =
     (let h = Head n; args = Args n in
      if lv = xlvAssign then do {
        l \<leftarrow> expr go ind (args ! 0) xlvUnary;
        r \<leftarrow> expr_arg go ind n 1 xlvAssign;
        ret (l @ '' '' @ h @ '' '' @ r) }
      else do {
        s \<leftarrow> expr go ind (args ! 0) lv;
        rs \<leftarrow> exprs go ind (tl args) (lv + 1);
        ret (s @ concat (map (\<lambda>r. '' '' @ h @ '' '' @ r) rs)) })"

text \<open>The associations of a generic selection; \<open>None\<close> is the return at one that is none.\<close>

fun associations :: "worker \<Rightarrow> nat \<Rightarrow> node list \<Rightarrow> bytes list option pm" where
  "associations go ind [] = ret (Some [])"
| "associations go ind (a # as) =
     (if Is a ''default'' then do {
        e \<leftarrow> expr_arg go ind a 0 xlvAssign;
        r \<leftarrow> associations go ind as;
        ret (map_option ((#) (''default: '' @ e)) r) }
      else if \<not> IsList a \<or> length (Kids a) \<noteq> 2 then do {
        fail a (Complaint ''a generic association is (TYPE VALUE)'');
        ret None }
      else do {
        t \<leftarrow> typeName go ind (Kids a ! 0);
        e \<leftarrow> expr go ind (Kids a ! 1) xlvAssign;
        r \<leftarrow> associations go ind as;
        ret (map_option ((#) (t @ '': '' @ e)) r) })"

definition generic_text :: "worker \<Rightarrow> nat \<Rightarrow> node \<Rightarrow> bytes pm" where
  "generic_text go ind n = do {
     as \<leftarrow> args_from1 n;
     r \<leftarrow> associations go ind as;
     (case r of
        None \<Rightarrow> ret []
      | Some parts \<Rightarrow> do {
          e \<leftarrow> expr_arg go ind n 0 xlvAssign;
          ret (''_Generic('' @ e @ '', '' @ Join parts '', '' @ '')'') }) }"

definition literal_text :: "worker \<Rightarrow> nat \<Rightarrow> node \<Rightarrow> bytes pm" where
  "literal_text go ind n =
     (let words = map atom_text (takeWhile (is_word prefixWords) (Args n));
          args = dropWhile (is_word prefixWords) (Args n) in
      if args = [] then do {
        fail n (Complaint ''a compound literal is (literal STORAGE... T ITEM...)'');
        ret [] }
      else do {
        t \<leftarrow> typeName go ind (hd args);
        s \<leftarrow> initList go ind (tl args);
        ret (''('' @ join (words @ [t]) @ ''){'' @ s @ ''}'') })"

definition postfix_text :: "worker \<Rightarrow> nat \<Rightarrow> node \<Rightarrow> bytes pm" where
  "postfix_text go ind n =
     (let h = Head n in
      if h = ''call'' then do {
        as \<leftarrow> args_from1 n;
        parts \<leftarrow> exprs go ind as xlvAssign;
        f \<leftarrow> expr_arg go ind n 0 xlvPostfix;
        ret (f @ ''('' @ Join parts '', '' @ '')'') }
      else if h = ''index'' then do {
        s \<leftarrow> expr_arg go ind n 0 xlvPostfix;
        as \<leftarrow> args_from1 n;
        is \<leftarrow> exprs go ind as xlvComma;
        ret (s @ concat (map (\<lambda>i. ''['' @ i @ '']'') is)) }
      else if h \<in> {''.'', ''->''} then do {
        s \<leftarrow> expr_arg go ind n 0 xlvPostfix;
        as \<leftarrow> args_from1 n;
        fs \<leftarrow> each (\<lambda>a. go ind (JForm a)) as;
        ret (s @ concat (map (\<lambda>f. h @ f) fs)) }
      else do {
        s \<leftarrow> expr_arg go ind n 0 xlvPostfix;
        ret (s @ (if h = ''post++'' then ''++'' else ''--'')) })"

definition unary_text :: "worker \<Rightarrow> nat \<Rightarrow> node \<Rightarrow> bytes pm" where
  "unary_text go ind n =
     (let h = Head n in
      if h = ''pre++'' then do { s \<leftarrow> expr_arg go ind n 0 xlvUnary; ret (''++'' @ s) }
      else if h = ''pre--'' then do { s \<leftarrow> expr_arg go ind n 0 xlvUnary; ret (''--'' @ s) }
      else if h = ''addr'' then do { s \<leftarrow> expr_arg go ind n 0 xlvCast; ret (Prefix ''&'' s) }
      else if h = ''deref'' then do { s \<leftarrow> expr_arg go ind n 0 xlvCast; ret (''*'' @ s) }
      else if h \<in> {''-'', ''+''} then do { s \<leftarrow> expr_arg go ind n 0 xlvCast; ret (Prefix h s) }
      else do { s \<leftarrow> expr_arg go ind n 0 xlvCast; ret (h @ s) })"

definition sizeof_text :: "worker \<Rightarrow> nat \<Rightarrow> node \<Rightarrow> bytes pm" where
  "sizeof_text go ind n =
     (let h = Head n in
      if h \<in> {''sizeof'', ''alignof''} then
        do { s \<leftarrow> expr_arg go ind n 0 xlvComma; ret (h @ ''('' @ s @ '')'') }
      else if h \<in> {''sizeof-bare'', ''alignof-bare''} then do {
        s \<leftarrow> expr_arg go ind n 0 xlvUnary;
        let kw = TrimSuffix h ''-bare'';
        ret (if s \<noteq> [] \<and> hd s = CHR ''('' then kw @ s else kw @ '' '' @ s) }
      else do {
        a \<leftarrow> arg n 0;
        t \<leftarrow> typeName go ind a;
        ret (TrimSuffix h ''-type'' @ ''('' @ t @ '')'') })"

text \<open>The \<open>switch h\<close> of \<open>form\<close>.\<close>

definition form_head :: "worker \<Rightarrow> nat \<Rightarrow> node \<Rightarrow> bytes pm" where
  "form_head go ind n =
     (let h = Head n in
      if h = ''paren'' then do { s \<leftarrow> expr_arg go ind n 0 xlvComma; ret (''('' @ s @ '')'') }
      else if h = ''macro'' then do { a \<leftarrow> arg n 0; unquote a }
      else if h = ''stmt-expr'' then do {
        s \<leftarrow> sub_printer (compound go ind (Args n));
        ret (''('' @ TrimSpace s @ '')'') }
      else if h = ''generic'' then generic_text go ind n
      else if h = ''label-addr'' then do { a \<leftarrow> arg n 0; ret (''&&'' @ atom_text a) }
      else if h \<in> {''call'', ''index'', ''.'', ''->'', ''post++'', ''post--''} then postfix_text go ind n
      else if h = ''literal'' then literal_text go ind n
      else if h \<in> {''pre++'', ''pre--'', ''addr'', ''deref'', ''-'', ''+'', ''!'', ''~''} then unary_text go ind n
      else if h \<in> {''sizeof'', ''alignof'', ''sizeof-bare'', ''alignof-bare'', ''sizeof-type'', ''alignof-type''}
        then sizeof_text go ind n
      else if h = ''cast'' then do {
        a \<leftarrow> arg n 0;
        t \<leftarrow> typeName go ind a;
        e \<leftarrow> expr_arg go ind n 1 xlvCast;
        ret (''('' @ t @ '')'' @ e) }
      else if h = ''?'' then do {
        c \<leftarrow> expr_arg go ind n 0 xlvLOr;
        a \<leftarrow> expr_arg go ind n 1 xlvComma;
        b \<leftarrow> expr_arg go ind n 2 xlvCond;
        ret (c @ '' ? '' @ a @ '' : '' @ b) }
      else if h = ''comma'' then do { parts \<leftarrow> exprs go ind (Args n) xlvAssign; ret (Join parts '', '') }
      else do { fail n (Complaint ''not an expression''); ret [] })"

definition form :: "worker \<Rightarrow> nat \<Rightarrow> node \<Rightarrow> bytes pm" where
  "form go ind n =
     (case n of
        Atom a \<Rightarrow> ret a
      | Lst _ \<Rightarrow>
          (case binaryLevel (Head n) of
             Some lv \<Rightarrow> if length (Args n) \<ge> 2 then binary_text go ind n lv else form_head go ind n
           | None \<Rightarrow> form_head go ind n))"

subsection \<open>The knot\<close>

fun step :: "worker \<Rightarrow> nat \<Rightarrow> job \<Rightarrow> bytes pm" where
  "step go ind (JForm n) = form go ind n"
| "step go ind (JSpec n) = spec go ind n"
| "step go ind (JParams l) = params go ind l"
| "step go ind (JInit n) = inlineInit go ind n"
| "step go ind (JItem n) = item go ind n"
| "step go ind (JOtherwise n) = otherwise go ind n"

primrec run :: "nat \<Rightarrow> worker" where
  "run 0 = (\<lambda>ind j. do { halt OutOfFuel; ret [] })"
| "run (Suc fuel) = step (run fuel)"

definition node_fuel :: "node \<Rightarrow> nat" where
  "node_fuel n = 2 * size n + 4"

subsection \<open>The top level\<close>

definition funcDef :: "worker \<Rightarrow> node \<Rightarrow> bytes pm" where
  "funcDef go f = do {
     d \<leftarrow> parseDef f;
     (items, dc) \<leftarrow> build go 0 (dtype d) (named (dname d));
     (if asm d \<noteq> None then fail f (Complaint ''an asm label after a definition's declarator'') else ret ());
     p \<leftarrow> specs go 0 (prefix d);
     i \<leftarrow> specs go 0 items;
     let head = join [p, i, ptr dc];
     as \<leftarrow> attrList (attrs d);
     let (krs, body) = take_list ''kr-params'' (drest d);
     ks \<leftarrow> each (\<lambda>x. do { s \<leftarrow> declLine go 1 x; ret (line 1 s) }) (case krs of None \<Rightarrow> [] | Some xs \<Rightarrow> xs);
     b \<leftarrow> compound go 0 body;
     ret ((if head \<noteq> [] then Indent @ head @ [newline] else []) @ join [direct dc, as] @ [newline] @
       concat ks @ b) }"

definition top :: "worker \<Rightarrow> node \<Rightarrow> bytes pm" where
  "top go f =
     (if Head f = ''include'' then
        do { a \<leftarrow> arg f 0; s \<leftarrow> unquote a; ret (''#include '' @ s @ [newline]) }
      else if Head f = ''directive'' then do { a \<leftarrow> arg f 0; s \<leftarrow> unquote a; ret (s @ [newline]) }
      else if Head f = ''defn'' then funcDef go f
      else if Head f \<notin> set declHeads then
        do { fail f (Complaint ''not a top-level form''); ret [] }
      else do { s \<leftarrow> declLine go 0 f; ret (line 0 s) })"

definition finish :: "'a pm \<Rightarrow> fault + 'a" where
  "finish m = (case run_state m Fine of (a, s) \<Rightarrow> if s = Fine then Inr a else Inl s)"

text \<open>The loop of \<open>Print\<close>; \<open>prev\<close> is the form before.\<close>

fun Print_from :: "node option \<Rightarrow> node list \<Rightarrow> fault + bytes" where
  "Print_from prev [] = Inr []"
| "Print_from prev (f # fs) =
     (case finish (top (run (node_fuel f)) f) of
        Inl e \<Rightarrow> Inl e
      | Inr s \<Rightarrow>
          (case Print_from (Some f) fs of
             Inl e \<Rightarrow> Inl e
           | Inr t \<Rightarrow>
               Inr ((case prev of
                   None \<Rightarrow> []
                 | Some p \<Rightarrow> if Is f ''include'' \<and> Is p ''include'' then [] else [newline]) @ s @ t)))"

definition Print :: "node list \<Rightarrow> fault + bytes" where
  "Print forms = Print_from None forms"

datatype toc_error = ReadFailed read_error | PrintFailed fault

definition ToC :: "bytes \<Rightarrow> (toc_error + bytes) option" where
  "ToC src =
     (case Read src of
        None \<Rightarrow> None
      | Some (Inl e) \<Rightarrow> Some (Inl (ReadFailed e))
      | Some (Inr forms) \<Rightarrow>
          Some (case Print forms of Inl e \<Rightarrow> Inl (PrintFailed e) | Inr t \<Rightarrow> Inr t))"

definition PrintExpr :: "node \<Rightarrow> fault + bytes" where
  "PrintExpr n = finish (expr (run (node_fuel n)) 0 n xlvComma)"

definition PrintItems :: "node list \<Rightarrow> fault + bytes" where
  "PrintItems items = finish (do { ss \<leftarrow> each (\<lambda>i. run (node_fuel i) 0 (JItem i)) items; ret (concat ss) })"

end
