(* ===== verification/CPrintRuns.thy ===== *)
theory CPrintRuns
  imports CPrint
begin

text \<open>
  The C printer returns, and when it panics.  A fault that a printer neither starts in nor
  reaches is kept away by every function of crefactor/clisp/toc.go, when it is by the calls
  into the elements of its form.  The locale \<open>printer_inv\<close> does that once, over a class of
  forms closed under elements, and is used twice: no form runs out of the fuel \<open>Print\<close>
  gives, and a form without the five bare heads does not panic.
\<close>

definition keeps :: "fault \<Rightarrow> 'a pm \<Rightarrow> bool" where
  "keeps b m \<longleftrightarrow> (\<forall>s. s \<noteq> b \<longrightarrow> snd (run_state m s) \<noteq> b)"

named_theorems keeps_rules

lemma keeps_ret [keeps_rules]: "keeps b (ret x)"
  by (simp add: keeps_def)

lemma keeps_bind: "keeps b m \<Longrightarrow> (\<And>x. keeps b (f x)) \<Longrightarrow> keeps b (State_Monad.bind m f)"
  by (auto simp: keeps_def split: prod.splits) (metis prod.sel(2))

lemma keeps_ok [keeps_rules]: "keeps b ok"
  by (simp add: keeps_def ok_def)

lemma keeps_fail: "b \<in> {Panicked, OutOfFuel} \<Longrightarrow> keeps b (fail n c)"
  by (auto simp: keeps_def fail_def)

lemma keeps_halt: "b \<noteq> f \<Longrightarrow> keeps b (halt f)"
  by (auto simp: keeps_def halt_def)

lemma keeps_sub_printer: "b \<in> {Panicked, OutOfFuel} \<Longrightarrow> keeps b m \<Longrightarrow> keeps b (sub_printer m)"
proof -
  assume b: "b \<in> {Panicked, OutOfFuel}" and m: "keeps b m"
  obtain a e where r: "run_state m Fine = (a, e)" by (rule prod.exhaust)
  with m b have "e \<noteq> b" by (force simp: keeps_def)
  with r show ?thesis by (simp add: keeps_def sub_printer_def)
qed

lemma keeps_each: "(\<And>x. x \<in> set xs \<Longrightarrow> keeps b (f x)) \<Longrightarrow> keeps b (each f xs)"
  by (induction xs) (auto intro!: keeps_bind keeps_ret)

lemma Head_IsList: "Head n = c # cs \<Longrightarrow> IsList n" "Is n (c # cs) \<Longrightarrow> IsList n"
  by (cases n; simp add: Is_def)+

lemma set_tl_subset: "set (tl xs) \<subseteq> set xs"
  by (cases xs) auto

lemma set_Args: "a \<in> set (Args n) \<Longrightarrow> a \<in> set (Kids n)"
  by (cases n rule: Args.cases) auto

fun job_node :: "job \<Rightarrow> node" where
  "job_node (JForm n) = n"
| "job_node (JSpec n) = n"
| "job_node (JParams n) = n"
| "job_node (JInit n) = n"
| "job_node (JItem n) = n"
| "job_node (JOtherwise n) = n"

fun weight :: "job \<Rightarrow> nat" where
  "weight (JForm n) = 2 * size n"
| "weight (JSpec n) = 2 * size n"
| "weight (JParams n) = 2 * size n"
| "weight (JInit n) = 2 * size n + 1"
| "weight (JItem n) = 2 * size n + 1"
| "weight (JOtherwise n) = 2 * size n + 2"

definition bare_heads :: "bytes list" where
  "bare_heads = [''call'', ''index'', ''.'', ''->'', ''generic'']"

locale printer_inv =
  fixes b :: fault and good :: "node \<Rightarrow> bool"
  assumes stop: "b \<in> {Panicked, OutOfFuel}"
    and good_atom: "good (Atom t)"
    and good_kid: "good n \<Longrightarrow> a \<in> set (Kids n) \<Longrightarrow> good a"
    and good_bare: "good n \<Longrightarrow> Head n \<in> set bare_heads \<Longrightarrow> b = Panicked \<Longrightarrow> Args n \<noteq> []"
begin

definition knows :: "nat \<Rightarrow> worker \<Rightarrow> bool" where
  "knows k go \<longleftrightarrow> (\<forall>ind j. good (job_node j) \<longrightarrow> weight j < k \<longrightarrow> keeps b (go ind j))"

definition fit :: "nat \<Rightarrow> node \<Rightarrow> bool" where
  "fit k n \<longleftrightarrow> good n \<and> 2 * size n < k"

lemma good_arg: "good n \<Longrightarrow> a \<in> set (Args n) \<Longrightarrow> good a"
  by (rule good_kid [OF _ set_Args])

lemma knows_job: "knows k go \<Longrightarrow> good (job_node j) \<Longrightarrow> weight j < k \<Longrightarrow> keeps b (go ind j)"
  by (simp add: knows_def)

lemma fail_keeps [keeps_rules]: "keeps b (fail n c)"
  by (rule keeps_fail [OF stop])

lemma fit_kid: "good n \<Longrightarrow> 2 * size n \<le> k + 1 \<Longrightarrow> a \<in> set (Kids n) \<Longrightarrow> fit k a"
  using good_kid [of n a] Kids_size [of a n] by (simp add: fit_def)

lemma fit_arg: "good n \<Longrightarrow> 2 * size n \<le> k + 1 \<Longrightarrow> a \<in> set (Args n) \<Longrightarrow> fit k a"
  by (rule fit_kid [OF _ _ set_Args])

lemma bind_arg:
  assumes "IsList n" "good n" "\<And>a. good a \<Longrightarrow> size a < size n \<Longrightarrow> keeps b (f a)"
  shows "keeps b (State_Monad.bind (arg n i) f)"
proof (cases "i < length (Args n)")
  case True
  then have "Args n ! i \<in> set (Args n)" by simp
  with assms good_arg [OF assms(2)] Args_size True show ?thesis by (simp add: arg_def)
next
  case False
  from assms(1) have "size (Atom []) < size n" by (cases n) auto
  with assms(3) [OF good_atom] False show ?thesis
    by (auto simp: arg_def intro!: keeps_bind fail_keeps)
qed

lemma unquote_keeps [keeps_rules]: "keeps b (unquote n)"
  by (auto simp: unquote_def Let_def intro!: keeps_bind keeps_rules)

lemma arg_unquote [keeps_rules]: "keeps b (State_Monad.bind (arg n i) unquote)"
  by (auto simp: arg_def intro!: keeps_bind keeps_rules)

lemma attr_keeps [keeps_rules]: "keeps b (attr n)"
  by (auto simp: attr_def intro!: keeps_bind keeps_rules arg_unquote)

lemma attrList_keeps [keeps_rules]: "keeps b (attrList xs)"
  by (auto simp: attrList_def intro!: keeps_bind keeps_rules keeps_each)

lemma expr_keeps: "knows k go \<Longrightarrow> fit k n \<Longrightarrow> keeps b (expr go ind n want)"
  by (auto simp: expr_def fit_def intro!: keeps_bind keeps_rules knows_job)

lemma expr_arg_keeps:
  "knows k go \<Longrightarrow> IsList n \<Longrightarrow> good n \<Longrightarrow> 2 * size n \<le> k + 1 \<Longrightarrow> keeps b (expr_arg go ind n i want)"
  unfolding expr_arg_def by (rule bind_arg) (auto simp: fit_def intro!: expr_keeps)

lemma specs_keeps: "knows k go \<Longrightarrow> (\<And>i. i \<in> set xs \<Longrightarrow> fit k i) \<Longrightarrow> keeps b (specs go ind xs)"
  by (auto simp: specs_def fit_def intro!: keeps_bind keeps_rules keeps_each knows_job)

lemma exprs_keeps: "knows k go \<Longrightarrow> (\<And>i. i \<in> set xs \<Longrightarrow> fit k i) \<Longrightarrow> keeps b (exprs go ind xs want)"
  by (auto simp: exprs_def intro!: keeps_each expr_keeps)

lemma qualifiers_keeps [keeps_rules]: "keeps b (qualifiers qs)"
  by (auto simp: qualifiers_def Let_def intro!: keeps_bind keeps_rules keeps_each)

lemma baseItems_good: "good t \<Longrightarrow> i \<in> set (baseItems t) \<Longrightarrow> good i \<and> size i \<le> size t"
proof -
  assume t: "good t" and i: "i \<in> set (baseItems t)"
  then have "i = t \<or> i \<in> set (Args t) \<or> i \<in> set (Kids t)" by (auto simp: baseItems_def split: if_splits)
  with t show ?thesis using good_arg [of t i] good_kid [of t i] Args_size [of i t] Kids_size [of i t]
    by auto
qed

text \<open>What a declarator's loop does: it keeps the fault away and its items are no larger.\<close>

definition builds :: "nat \<Rightarrow> (node list \<times> dcl) pm \<Rightarrow> bool" where
  "builds m r \<longleftrightarrow> keeps b r \<and> (\<forall>s. \<forall>i \<in> set (fst (fst (run_state r s))). good i \<and> size i \<le> m)"

lemma builds_ret: "(\<And>i. i \<in> set ts \<Longrightarrow> good i \<and> size i \<le> m) \<Longrightarrow> builds m (ret (ts, d))"
  by (simp add: builds_def keeps_ret)

lemma builds_bind: "keeps b r \<Longrightarrow> (\<And>x. builds m (f x)) \<Longrightarrow> builds m (State_Monad.bind r f)"
  unfolding builds_def
  by (intro conjI keeps_bind) (auto split: prod.splits)

lemma builds_mono: "builds m r \<Longrightarrow> m \<le> m' \<Longrightarrow> builds m' r"
  by (fastforce simp: builds_def)

lemma builds_nil: "builds m (ret ([], d))"
  by (rule builds_ret) simp

lemma arg_keeps [keeps_rules]: "keeps b (arg n i)"
  by (auto simp: arg_def intro!: keeps_bind keeps_rules)

lemma builds_fail: "builds m (do { fail t c; ret ([], d) })"
  by (intro builds_bind fail_keeps builds_ret) simp

lemma builds_if:
  "(c \<Longrightarrow> builds m x) \<Longrightarrow> (\<not> c \<Longrightarrow> builds m y) \<Longrightarrow> builds m (if c then x else y)"
  by simp

lemma array_args:
  "length (dropWhile p xs) = Suc k \<Longrightarrow> xs \<noteq> []"
  by auto

lemma build_builds:
  "knows k go \<Longrightarrow> good t \<Longrightarrow> 2 * size t \<le> k + 1 \<Longrightarrow> builds (size t) (build go ind t d)"
proof (induction "size t" arbitrary: t d rule: less_induct)
  case less
  note k = less.prems(1) and t = less.prems(2,3)
  have IH: "builds (size t) (build go ind a d)" if "a \<in> set (Args t)" for a d
  proof -
    have "size a < size t" using Args_size [OF that] .
    with less.hyps [OF this k good_arg [OF t(1) that], of d] t(2)
    have "builds (size a) (build go ind a d)" by simp
    then show ?thesis by (rule builds_mono) (use \<open>size a < size t\<close> in simp)
  qed
  have args: "builds (size t) (build go ind (hd (Args t)) d)"
    "builds (size t) (build go ind (last (Args t)) d)" if "Args t \<noteq> []" for d
    using that by (auto intro!: IH)
  have e: "keeps b (expr go ind a want)" if "a \<in> set (Args t)" for a want
    by (rule expr_keeps [OF k fit_arg [OF t that]])
  have e0: "keeps b (expr go ind (dropWhile p (Args t) ! 0) want)" if "length (dropWhile p (Args t)) = 2" for p want
  proof (rule e)
    have "dropWhile p (Args t) ! 0 \<in> set (dropWhile p (Args t))" using that by simp
    then show "dropWhile p (Args t) ! 0 \<in> set (Args t)" by (rule set_dropWhileD)
  qed
  have ps: "keeps b (go ind (JParams a))" if "a \<in> set (Args t)" for a
    by (rule knows_job [OF k]) (use fit_arg [OF t that] in \<open>simp_all add: fit_def\<close>)
  have base: "builds (size t) (ret (baseItems t, d))"
    by (rule builds_ret) (use baseItems_good [OF t(1)] in blast)
  have size: "builds (size t) (build go ind (last (Args t)) d')"
    if "length (dropWhile (is_word arrayWords) (Args t)) = Suc 0 \<or>
      length (dropWhile (is_word arrayWords) (Args t)) = 2" for d'
  proof (rule args(2))
    show "Args t \<noteq> []" using that by auto
  qed
  have hd2: "builds (size t) (build go ind (hd (Args t)) d')" if "\<not> length (Args t) < 2" for d'
    by (rule args(1)) (use that in auto)
  have two: "keeps b (go ind (JParams (Args t ! 0)))" "builds (size t) (build go ind (Args t ! Suc 0) d')"
    if "length (Args t) = 2" for d'
    using that by (auto intro!: ps IH)
  show ?case
    apply (subst build.simps, unfold Let_def)
    apply (intro builds_if builds_bind builds_fail keeps_rules base)
    apply (simp_all add: builds_nil args size hd2 two arg_keeps e0)
    done
qed

lemma keeps_if: "(c \<Longrightarrow> keeps b x) \<Longrightarrow> (\<not> c \<Longrightarrow> keeps b y) \<Longrightarrow> keeps b (if c then x else y)"
  by simp

lemma bind_build:
  assumes "builds m r" "\<And>items dc. (\<And>i. i \<in> set items \<Longrightarrow> good i \<and> size i \<le> m) \<Longrightarrow> keeps b (f items dc)"
  shows "keeps b (State_Monad.bind r (\<lambda>(items, dc). f items dc))"
proof -
  have "snd (run_state (f items dc) s') \<noteq> b" if "s \<noteq> b" "run_state r s = ((items, dc), s')" for s items dc s'
  proof -
    have "s' \<noteq> b" using assms(1) that by (force simp: builds_def keeps_def)
    moreover have "keeps b (f items dc)"
      using assms(1) that by (intro assms(2)) (force simp: builds_def dest: spec [of _ s])
    ultimately show ?thesis by (simp add: keeps_def)
  qed
  then show ?thesis by (auto simp: keeps_def split: prod.splits)
qed

lemma fit_D: "fit k n \<Longrightarrow> good n \<and> 2 * size n \<le> k + 1"
  by (simp add: fit_def)

lemma build_then:
  assumes k: "knows k go" and t: "fit k t"
    and f: "\<And>items dc. (\<And>i. i \<in> set items \<Longrightarrow> fit k i) \<Longrightarrow> keeps b (f items dc)"
  shows "keeps b (State_Monad.bind (build go ind t d) (\<lambda>(items, dc). f items dc))"
proof (rule bind_build [OF build_builds [OF k]])
  fix items dc
  assume i: "\<And>i. i \<in> set items \<Longrightarrow> good i \<and> size i \<le> size t"
  show "keeps b (f items dc)"
  proof (rule f)
    fix i
    assume "i \<in> set items"
    with i [of i] t show "fit k i" by (simp add: fit_def)
  qed
qed (use fit_D [OF t] in auto)

lemma typeName_keeps: "knows k go \<Longrightarrow> fit k t \<Longrightarrow> keeps b (typeName go ind t)"
  unfolding typeName_def
  by (rule build_then) (auto intro!: keeps_bind keeps_rules specs_keeps)

lemma arg_typeName:
  "knows k go \<Longrightarrow> IsList n \<Longrightarrow> good n \<Longrightarrow> 2 * size n \<le> k + 1 \<Longrightarrow>
     keeps b (State_Monad.bind (arg n i) (\<lambda>a. State_Monad.bind (typeName go ind a) (\<lambda>t. ret (g t))))"
  by (rule bind_arg) (auto simp: fit_def intro!: keeps_bind keeps_rules typeName_keeps)

lemma staticAssert_keeps:
  "knows k go \<Longrightarrow> IsList n \<Longrightarrow> good n \<Longrightarrow> 2 * size n \<le> k + 1 \<Longrightarrow> keeps b (staticAssert go ind n)"
  unfolding staticAssert_def by (intro keeps_bind expr_arg_keeps keeps_if keeps_rules)

lemma param_keeps:
  assumes "knows k go" "fit k x" "x \<noteq> Lst []"
  shows "keeps b (param go ind x)"
proof -
  have kid: "fit k a" if "a \<in> set (Kids x)" for a
    using fit_kid [of x k a] fit_D [OF assms(2)] that by blast
  have "Kids x \<noteq> []" if "IsList x" using assms(3) that by (cases x) auto
  then have first: "fit k (Kids x ! 0)" if "IsList x" using that by (intro kid) simp
  have second: "fit k (Kids x ! 1)" if "length (Kids x) \<ge> 2" using that by (intro kid) simp
  show ?thesis
    unfolding param_def
    by (intro keeps_if keeps_rules build_then [OF assms(1)] keeps_bind specs_keeps [OF assms(1)])
      (use first second in auto)
qed

lemma param_list_keeps:
  "knows k go \<Longrightarrow> (\<And>x. x \<in> set xs \<Longrightarrow> fit k x) \<Longrightarrow> keeps b (param_list go ind l xs parts)"
  by (induction xs arbitrary: parts) (auto intro!: keeps_bind keeps_rules param_keeps)

lemma params_keeps: "knows k go \<Longrightarrow> good l \<Longrightarrow> 2 * size l \<le> k + 1 \<Longrightarrow> keeps b (params go ind l)"
  by (auto simp: params_def intro!: keeps_bind keeps_rules param_list_keeps fit_kid)

lemma member_width_keeps:
  "knows k go \<Longrightarrow> (\<And>x. x \<in> set rest \<Longrightarrow> fit k x) \<Longrightarrow> keeps b (member_width go ind rest s)"
  unfolding member_width_def Let_def
  by (intro keeps_bind keeps_if keeps_rules expr_arg_keeps)
    (use fit_D [of k "hd rest"] in \<open>auto dest: Head_IsList\<close>)

lemma member_keeps: "knows k go \<Longrightarrow> fit k m \<Longrightarrow> keeps b (member_of go ind m)"
proof -
  assume k: "knows k go" and m: "fit k m"
  have kid: "fit k a" if "a \<in> set (Kids m)" for a
    using fit_kid [of m k a] fit_D [OF m] that by blast
  have base: "fit k i" if "i \<in> set (baseItems (Kids m ! 0))" "Kids m \<noteq> []" for i
    using baseItems_good [OF _ that(1)] kid [of "Kids m ! 0"] that(2) by (auto simp: fit_def)
  have "fit k (Kids m ! 1)" if "length (Kids m) \<ge> 2" using that by (intro kid) simp
  with k fit_D [OF m] base kid show ?thesis
    unfolding member_of_def Let_def
    by (intro keeps_if keeps_rules build_then [OF k] keeps_bind specs_keeps [OF k]
        staticAssert_keeps [OF k] member_width_keeps [OF k])
      (auto dest: Head_IsList in_set_dropD)
qed

lemma take_tag_kids: "set (snd (take_tag p args)) \<subseteq> set args"
  by (auto simp: take_tag_def split: list.splits node.splits)

lemma take_list_kids: "set (snd (take_list h args)) \<subseteq> set args"
  by (auto simp: take_list_def split: list.splits)

lemma opt_attrs_keeps [keeps_rules]: "keeps b (opt_attrs xs)"
  by (auto simp: opt_attrs_def intro!: keeps_rules split: option.splits)

lemma structOrUnion_keeps:
  assumes k: "knows k go" and n: "good n" "2 * size n \<le> k + 1"
  shows "keeps b (structOrUnion go ind n)"
proof -
  obtain tag args attrs args' where t: "take_tag (\<lambda>a. a \<noteq> ''{}'') (Args n) = (tag, args)"
      "take_list ''@'' args = (attrs, args')" by fastforce
  have "set args' \<subseteq> set (Args n)"
    using take_tag_kids [of "\<lambda>a. a \<noteq> ''{}''" "Args n"] take_list_kids [of "''@''" args] t by auto
  then have "fit k a" if "a \<in> set args'" for a using fit_arg [OF n] that by blast
  then show ?thesis
    unfolding structOrUnion_def Let_def t prod.case
    by (intro keeps_bind keeps_if keeps_rules keeps_each member_keeps [OF k])
      (auto dest: in_set_butlastD split: if_splits)
qed

lemma enumerator_keeps: "knows k go \<Longrightarrow> fit k e \<Longrightarrow> keeps b (enumerator go ind e)"
proof -
  assume k: "knows k go" and e: "fit k e"
  let ?rest = "dropWhile isAttr (tl (Kids e))"
  have "fit k (hd ?rest)" if "length ?rest = 1"
  proof -
    have "hd ?rest \<in> set ?rest" using that by (cases ?rest) auto
    then have "hd ?rest \<in> set (Kids e)" by (cases "Kids e") (auto dest: set_dropWhileD)
    with fit_kid [of e k] fit_D [OF e] show ?thesis by blast
  qed
  then show ?thesis
    unfolding enumerator_def Let_def
    by (intro keeps_bind keeps_if keeps_rules expr_keeps [OF k])
qed

lemma enum_keeps:
  assumes k: "knows k go" and n: "good n" "2 * size n \<le> k + 1"
  shows "keeps b (enum_spec go ind n)"
proof -
  obtain tag args attrs args1 base args2 where t: "take_tag (\<lambda>_. True) (Args n) = (tag, args)"
      "take_list ''@'' args = (attrs, args1)" "take_list '':'' args1 = (base, args2)" by fastforce
  have sub: "set args1 \<subseteq> set (Args n)" "set args2 \<subseteq> set (Args n)"
    using take_tag_kids [of "\<lambda>_. True" "Args n"] take_list_kids [of "''@''" args]
      take_list_kids [of "'':''" args1] t by auto
  have two: "fit k a" if "a \<in> set args2" for a using fit_arg [OF n] sub that by blast
  have one: "fit k a" if b: "base = Some ts" and a: "a \<in> set ts" for ts a
  proof -
    from b t(3) obtain x where x: "x \<in> set args1" "ts = Args x"
      by (auto simp: take_list_def split: list.splits if_splits)
    then have "fit k x" using fit_arg [OF n] sub by blast
    with a x(2) fit_arg [of x k a] fit_D [of k x] show ?thesis by blast
  qed
  have "keeps b (case base of None \<Rightarrow> ret [] | Some ts \<Rightarrow>
      State_Monad.bind (specs go ind ts) (\<lambda>s. ret ('' : '' @ s)))"
    using one by (auto split: option.splits intro!: keeps_bind keeps_rules specs_keeps [OF k])
  then show ?thesis
    unfolding enum_spec_def Let_def t prod.case
    by (intro keeps_bind keeps_if keeps_rules keeps_each enumerator_keeps [OF k] two)
      (cases args2; simp)+
qed

lemma spec_keeps:
  assumes k: "knows k go" and n: "good n" "2 * size n \<le> k + 1"
  shows "keeps b (spec go ind n)"
  unfolding spec_def Let_def
  by (intro keeps_if keeps_rules structOrUnion_keeps [OF k n] enum_keeps [OF k n] arg_typeName [OF k _ n]
      keeps_bind [OF expr_arg_keeps [OF k _ n]] keeps_bind [OF fail_keeps]) auto

lemma designator_keeps: "knows k go \<Longrightarrow> fit k d \<Longrightarrow> keeps b (designator go ind d)"
  unfolding designator_def
  by (intro keeps_if keeps_rules keeps_bind expr_arg_keeps) (auto dest: fit_D)

lemma initList_keeps:
  "knows k go \<Longrightarrow> (\<And>i. i \<in> set xs \<Longrightarrow> good i \<and> 2 * size i + 1 < k) \<Longrightarrow> keeps b (initList go ind xs)"
  unfolding initList_def by (intro keeps_bind keeps_rules keeps_each knows_job) auto

text \<open>The elements of a form as initializers and as items.\<close>

lemma deep_arg: "fit k n \<Longrightarrow> a \<in> set (Args n) \<Longrightarrow> good a \<and> 2 * size a + 1 < k"
  using good_arg [of n a] Args_size [of a n] by (auto simp: fit_def)

lemma inlineInit_keeps: "knows k go \<Longrightarrow> fit k n \<Longrightarrow> keeps b (inlineInit go ind n)"
proof -
  assume k: "knows k go" and n: "fit k n"
  have last: "keeps b (go ind (JInit (last (Args n))))" if "\<not> length (Args n) < 2"
  proof -
    have "last (Args n) \<in> set (Args n)" using that by (intro last_in_set) auto
    from deep_arg [OF n this] show ?thesis by (intro knows_job [OF k]) auto
  qed
  have kids: "fit k a" if "a \<in> set (butlast (Args n))" for a
    using deep_arg [OF n in_set_butlastD [OF that]] by (simp add: fit_def)
  show ?thesis
    unfolding inlineInit_def
    by (intro keeps_if keeps_rules keeps_bind keeps_each last initList_keeps [OF k] deep_arg [OF n]
        designator_keeps [OF k] expr_keeps [OF k n] kids)
qed

lemma assign_keeps: "knows k go \<Longrightarrow> fit k n \<Longrightarrow> keeps b (assign go ind n)"
proof -
  assume k: "knows k go" and n: "fit k n"
  have "keeps b (braced go ind (Args n))"
    unfolding braced_def
    by (intro keeps_bind keeps_rules keeps_each knows_job [OF k]) (use deep_arg [OF n] in auto)
  then show ?thesis
    unfolding assign_def initializer_def by (intro keeps_bind keeps_if keeps_rules expr_keeps [OF k n])
qed

definition deep :: "nat \<Rightarrow> node \<Rightarrow> bool" where
  "deep k a \<longleftrightarrow> good a \<and> 2 * size a + 1 < k"

lemma deep_fit: "deep k a \<Longrightarrow> fit k a"
  by (simp add: deep_def fit_def)

lemma deep_Args: "fit k n \<Longrightarrow> a \<in> set (Args n) \<Longrightarrow> deep k a"
  using deep_arg [of k n a] by (simp add: deep_def)

lemma fit_atom: "fit k n \<Longrightarrow> fit k (Atom t)"
  by (simp add: fit_def good_atom)

lemma take_label_kids: "set (snd (take_label xs)) \<subseteq> set xs"
  by (cases xs) (auto simp: take_label_def)

lemma bind_parseDef:
  assumes f: "fit k f"
    and g: "\<And>d. (\<And>a. a \<in> set (prefix d) \<Longrightarrow> fit k a) \<Longrightarrow> fit k (dtype d) \<Longrightarrow>
      (\<And>a. a \<in> set (drest d) \<Longrightarrow> deep k a) \<Longrightarrow> keeps b (g d)"
  shows "keeps b (State_Monad.bind (parseDef f) g)"
proof -
  let ?args = "dropWhile in_prefix (Args f)"
  have pre: "fit k a" if "a \<in> set (def_prefix f)" for a
    using that deep_fit [OF deep_Args [OF f]] fit_atom [OF f]
    by (auto simp: def_prefix_def split: if_splits dest: set_takeWhileD)
  have args: "deep k a" if "a \<in> set ?args" for a
    using that deep_Args [OF f] by (auto dest: set_dropWhileD)
  show ?thesis
  proof (cases "length ?args < 2 \<or> IsList (?args ! 0)")
    case True
    then have "keeps b (g \<lparr>prefix = def_prefix f, dname = [], dtype = Atom [], attrs = [], asm = None, drest = []\<rparr>)"
      by (intro g) (use pre fit_atom [OF f] in auto)
    with True show ?thesis by (simp add: parseDef_def Let_def keeps_bind [OF fail_keeps])
  next
    case False
    obtain l xs where t: "take_label (dropWhile isAttr (drop 2 ?args)) = (l, xs)" by fastforce
    then have "set xs \<subseteq> set (dropWhile isAttr (drop 2 ?args))"
      using take_label_kids [of "dropWhile isAttr (drop 2 ?args)"] by simp
    then have rest: "deep k a" if "a \<in> set xs" for a
      using that args by (blast dest: set_dropWhileD in_set_dropD)
    have "fit k (?args ! 1)" using False by (intro deep_fit args) simp
    then have "keeps b (g (def_parts (def_prefix f) ?args))"
      by (intro g) (use pre rest in \<open>simp_all add: def_parts_def t\<close>)
    with False show ?thesis by (simp add: parseDef_def Let_def)
  qed
qed

lemma declLine_keeps: "knows k go \<Longrightarrow> fit k f \<Longrightarrow> keeps b (declLine go ind f)"
proof -
  assume k: "knows k go" and f: "fit k f"
  note ff = fit_D [OF f, THEN conjunct1] fit_D [OF f, THEN conjunct2]
  have one: "keeps b (case xs of [] \<Rightarrow> ret s
      | [v] \<Rightarrow> State_Monad.bind (assign go ind v) (\<lambda>t. ret (s @ '' '' @ t))
      | _ \<Rightarrow> State_Monad.bind (fail f (Complaint ''more than one value'')) (\<lambda>_. ret s))"
    if "\<And>a. a \<in> set xs \<Longrightarrow> deep k a" for xs s
    using that by (auto intro!: keeps_bind keeps_rules assign_keeps [OF k] deep_fit split: list.splits)
  have label: "keeps b (case l of None \<Rightarrow> ret s
      | Some l \<Rightarrow> State_Monad.bind (arg l 0) (\<lambda>a. State_Monad.bind (unquote a) (\<lambda>t. ret (join [s, t]))))"
    for l s
    by (auto intro!: keeps_bind keeps_rules split: option.splits)
  show ?thesis
    unfolding declLine_def Let_def
    by (intro keeps_if bind_parseDef [OF f] build_then [OF k] staticAssert_keeps [OF k _ ff] one
        keeps_bind [OF spec_keeps [OF k ff]] keeps_bind [OF specs_keeps [OF k]] keeps_bind [OF attrList_keeps]
        keeps_rules keeps_bind [OF one] keeps_bind [OF label] keeps_bind [of b "if _ then _ else _"])
      (auto intro: deep_fit deep_Args [OF f] dest: Head_IsList)
qed

lemma compound_keeps: "knows k go \<Longrightarrow> (\<And>i. i \<in> set xs \<Longrightarrow> deep k i) \<Longrightarrow> keeps b (compound go ind xs)"
proof -
  assume k: "knows k go" and xs: "\<And>i. i \<in> set xs \<Longrightarrow> deep k i"
  obtain attrs items where t: "take_list ''@'' xs = (attrs, items)" by fastforce
  have items: "deep k i" if "i \<in> set items" for i
    using take_list_kids [of "''@''" xs] t xs that by auto
  have "keeps b (case attrs of None \<Rightarrow> ret [] | Some xs \<Rightarrow> State_Monad.bind (attrList xs) (\<lambda>s. ret (line ind s)))"
    by (auto intro!: keeps_bind keeps_rules split: option.splits)
  then show ?thesis
    unfolding compound_def Let_def t prod.case
    by (intro keeps_bind keeps_rules keeps_each knows_job [OF k]) (use items in \<open>auto simp: deep_def\<close>)
qed

lemma block_keeps: "knows k go \<Longrightarrow> deep k n \<Longrightarrow> keeps b (block go ind n)"
proof -
  assume k: "knows k go" and n: "deep k n"
  have "keeps b (compound go ind (Args n))"
    by (rule compound_keeps [OF k]) (rule deep_Args [OF deep_fit [OF n]])
  moreover have "keeps b (go (ind + 1) (JItem n))"
    by (rule knows_job [OF k]) (use n in \<open>simp_all add: deep_def\<close>)
  ultimately show ?thesis unfolding block_def by (intro keeps_if keeps_bind keeps_rules)
qed

lemma arg_block:
  assumes k: "knows k go" and n: "IsList n" "good n" "2 * size n \<le> k" and f: "\<And>t. keeps b (f t)"
  shows "keeps b (State_Monad.bind (arg n i) (\<lambda>a. State_Monad.bind (block go ind a) f))"
  by (rule bind_arg [OF n(1,2)]) (use n(3) in \<open>auto simp: deep_def intro!: keeps_bind block_keeps [OF k] f\<close>)

lemma governed_keeps:
  "knows k go \<Longrightarrow> IsList n \<Longrightarrow> good n \<Longrightarrow> 2 * size n \<le> k \<Longrightarrow> keeps b (governed go ind kw n)"
  unfolding governed_def
  by (intro keeps_bind [OF expr_arg_keeps] arg_block keeps_rules) auto

lemma else_part_keeps: "knows k go \<Longrightarrow> fit k n \<Longrightarrow> IsList n \<Longrightarrow> keeps b (else_part go ind n)"
  unfolding else_part_def
  by (intro keeps_if bind_arg knows_job keeps_rules) (auto simp: fit_def)

lemma otherwise_keeps: "knows k go \<Longrightarrow> deep k n \<Longrightarrow> keeps b (otherwise go ind n)"
  unfolding otherwise_def
  by (intro keeps_if keeps_bind governed_keeps else_part_keeps block_keeps keeps_rules)
    (auto simp: deep_def fit_def dest: Head_IsList)

lemma clause_keeps: "knows k go \<Longrightarrow> fit k n \<Longrightarrow> keeps b (clause go ind n)"
  unfolding clause_def by (intro keeps_if keeps_rules expr_keeps)

lemma for_keeps:
  assumes k: "knows k go" and n: "fit k n" "IsList n"
  shows "keeps b (for_stmt go ind n)"
proof -
  have n': "good n" "2 * size n \<le> k" using n(1) by (auto simp: fit_def)
  have fit: "good a \<Longrightarrow> size a < size n \<Longrightarrow> fit k a" for a using n'(2) by (simp add: fit_def)
  show ?thesis
    unfolding for_stmt_def
    by (intro bind_arg [OF n(2) n'(1)] keeps_bind [of b "if _ then _ else _"] keeps_if declLine_keeps [OF k]
        keeps_bind [OF clause_keeps [OF k]] keeps_bind [OF block_keeps [OF k]] keeps_rules fit)
      (use n'(2) in \<open>auto simp: deep_def\<close>)
qed

lemma expr_stmt_keeps: "knows k go \<Longrightarrow> fit k n \<Longrightarrow> keeps b (expr_stmt go ind n)"
  unfolding expr_stmt_def by (intro keeps_bind keeps_rules expr_keeps)

lemma attributed_keeps: "knows k go \<Longrightarrow> fit k n \<Longrightarrow> keeps b (attributed go ind n)"
proof -
  assume k: "knows k go" and n: "fit k n"
  have "fit k (last (Args n))" if "Args n \<noteq> []"
    by (rule deep_fit [OF deep_Args [OF n]]) (use that in simp)
  with k show ?thesis
    unfolding attributed_def Let_def
    by (intro keeps_bind keeps_if keeps_rules keeps_each expr_keeps) auto
qed

lemma item_stmt_keeps:
  assumes k: "knows k go" and n: "fit k n"
  shows "keeps b (item_stmt go ind n)"
proof -
  have n': "good n" "2 * size n \<le> k" "2 * size n \<le> k + 1" using n by (auto simp: fit_def)
  show ?thesis
    unfolding item_stmt_def Let_def
    by (intro keeps_if keeps_rules compound_keeps [OF k deep_Args [OF n]] arg_block [OF k _ n'(1,2)]
        keeps_bind [OF expr_arg_keeps [OF k _ n'(1,3)]] keeps_bind [OF attrList_keeps]
        attributed_keeps [OF k n] governed_keeps [OF k _ n'(1,2)] for_keeps [OF k n]
        keeps_bind [OF governed_keeps [OF k _ n'(1,2)]] keeps_bind [OF else_part_keeps [OF k n]]
        expr_stmt_keeps [OF k n] keeps_bind [OF arg_keeps])
      (auto dest: Head_IsList)
qed

lemma item_keeps: "knows k go \<Longrightarrow> fit k n \<Longrightarrow> keeps b (item go ind n)"
  unfolding item_def
  by (intro keeps_if keeps_bind keeps_rules expr_stmt_keeps declLine_keeps item_stmt_keeps)

text \<open>Expressions.\<close>

lemma bind_args_from1:
  assumes "good n" "Head n \<in> set bare_heads" "\<And>xs. set xs \<subseteq> set (Args n) \<Longrightarrow> keeps b (f xs)"
  shows "keeps b (State_Monad.bind (args_from1 n) f)"
proof (cases "Args n")
  case Nil
  with good_bare [OF assms(1,2)] have "keeps b (halt Panicked)" by (intro keeps_halt) auto
  with Nil assms(3) show ?thesis by (auto simp: args_from1_def intro: keeps_bind)
next
  case (Cons x xs)
  then have "set xs \<subseteq> set (Args n)" by auto
  with assms(3) Cons show ?thesis by (simp add: args_from1_def)
qed

lemma binary_keeps:
  assumes k: "knows k go" and n: "good n" "2 * size n \<le> k + 1" and l: "length (Args n) \<ge> 2"
  shows "keeps b (binary_text go ind n lv)"
proof -
  have "IsList n" using l by (cases n) auto
  moreover have "Args n ! 0 \<in> set (Args n)" by (rule nth_mem) (use l in linarith)
  moreover have "set (tl (Args n)) \<subseteq> set (Args n)" by (cases "Args n") auto
  ultimately show ?thesis
    unfolding binary_text_def Let_def
    by (intro keeps_if keeps_bind expr_keeps [OF k] exprs_keeps [OF k] expr_arg_keeps [OF k _ n] keeps_rules
        fit_arg [OF n]) auto
qed

lemma associations_keeps:
  "knows k go \<Longrightarrow> (\<And>a. a \<in> set xs \<Longrightarrow> fit k a) \<Longrightarrow> keeps b (associations go ind xs)"
proof (induction xs)
  case (Cons a xs)
  have a: "fit k a" using Cons.prems(2) by simp
  have kids: "fit k (Kids a ! 0)" "fit k (Kids a ! 1)" if "length (Kids a) = 2"
    using that fit_D [OF a] by (auto intro!: fit_kid [of a])
  have "IsList a \<Longrightarrow> keeps b (expr_arg go ind a 0 want)" for want
    using fit_D [OF a] by (intro expr_arg_keeps [OF Cons.prems(1)]) auto
  with kids Cons show ?case
    by (auto simp del: bind_assoc intro!: keeps_bind keeps_rules typeName_keeps expr_keeps dest: Head_IsList)
qed (simp add: keeps_rules)

lemma postfix_keeps:
  assumes k: "knows k go" and n: "good n" "2 * size n \<le> k + 1"
    and h: "Head n \<in> {''call'', ''index'', ''.'', ''->'', ''post++'', ''post--''}"
  shows "keeps b (postfix_text go ind n)"
proof -
  have l: "IsList n" using h Head_IsList by auto
  have sub: "fit k a" if "set xs \<subseteq> set (Args n)" "a \<in> set xs" for xs a using that fit_arg [OF n] by blast
  have each: "keeps b (each (\<lambda>a. go ind (JForm a)) xs)" if "set xs \<subseteq> set (Args n)" for xs
    by (intro keeps_each knows_job [OF k]) (use sub [OF that] in \<open>auto simp: fit_def\<close>)
  show ?thesis
    unfolding postfix_text_def Let_def
    by (intro keeps_if keeps_bind [OF expr_arg_keeps [OF k l n]] bind_args_from1 [OF n(1)] keeps_rules
        keeps_bind [OF exprs_keeps [OF k]] keeps_bind [OF each] sub)
      (auto simp: bare_heads_def)
qed

lemma generic_keeps:
  assumes k: "knows k go" and n: "good n" "2 * size n \<le> k + 1" and h: "Head n = ''generic''"
  shows "keeps b (generic_text go ind n)"
proof -
  have sub: "fit k a" if "set xs \<subseteq> set (Args n)" "a \<in> set xs" for xs a using that fit_arg [OF n] by blast
  have "IsList n" using h Head_IsList by simp
  then have "keeps b (case r of None \<Rightarrow> ret [] | Some parts \<Rightarrow>
      State_Monad.bind (expr_arg go ind n 0 xlvAssign)
        (\<lambda>e. ret (''_Generic('' @ e @ '', '' @ Join parts '', '' @ '')'')))" for r
    by (auto intro!: keeps_rules keeps_bind expr_arg_keeps [OF k _ n] split: option.splits)
  with h show ?thesis
    unfolding generic_text_def
    by (intro bind_args_from1 [OF n(1)] keeps_bind [OF associations_keeps [OF k]] sub)
      (auto simp: bare_heads_def)
qed

lemma literal_keeps:
  assumes k: "knows k go" and n: "fit (k + 1) n"
  shows "keeps b (literal_text go ind n)"
proof -
  let ?args = "dropWhile (is_word prefixWords) (Args n)"
  have sub: "good a \<and> 2 * size a + 1 < k" if "a \<in> set ?args" for a
    using good_arg [of n a] Args_size [of a n] n set_dropWhileD [OF that] by (auto simp: fit_def)
  have "set (tl ?args) \<subseteq> set ?args" by (rule set_tl_subset)
  then have tl: "good a \<and> 2 * size a + 1 < k" if "a \<in> set (tl ?args)" for a using that sub by blast
  have "fit k (hd ?args)" if "?args \<noteq> []" using sub [OF hd_in_set [OF that]] by (simp add: fit_def)
  then show ?thesis
    unfolding literal_text_def Let_def
    by (intro keeps_if keeps_bind keeps_rules typeName_keeps [OF k] initList_keeps [OF k tl])
qed

lemma unary_keeps:
  "knows k go \<Longrightarrow> IsList n \<Longrightarrow> good n \<Longrightarrow> 2 * size n \<le> k + 1 \<Longrightarrow> keeps b (unary_text go ind n)"
  unfolding unary_text_def Let_def by (intro keeps_if keeps_bind keeps_rules expr_arg_keeps)

lemma sizeof_keeps:
  "knows k go \<Longrightarrow> IsList n \<Longrightarrow> good n \<Longrightarrow> 2 * size n \<le> k + 1 \<Longrightarrow> keeps b (sizeof_text go ind n)"
  unfolding sizeof_text_def Let_def
  by (intro keeps_if keeps_bind [OF expr_arg_keeps] keeps_rules arg_typeName)

lemma form_head_keeps:
  assumes k: "knows k go" and n: "fit (k + 1) n"
  shows "keeps b (form_head go ind n)"
proof -
  have n': "good n" "2 * size n \<le> k + 1" and n2: "2 * size n \<le> k" using n by (auto simp: fit_def)
  have deep: "deep k a" if "a \<in> set (Args n)" for a
    using that n2 good_arg [OF n'(1)] Args_size [of a n] by (auto simp: deep_def)
  have cast: "keeps b (State_Monad.bind (arg n 0) (\<lambda>a. State_Monad.bind (typeName go ind a) (\<lambda>t.
      State_Monad.bind (expr_arg go ind n 1 xlvCast) (\<lambda>e. ret (''('' @ t @ '')'' @ e)))))" if "IsList n"
    by (rule bind_arg [OF that n'(1)])
      (use n2 that in \<open>auto simp: fit_def intro!: keeps_bind keeps_rules typeName_keeps [OF k] expr_arg_keeps [OF k _ n']\<close>)
  show ?thesis
    unfolding form_head_def Let_def
    by (intro keeps_if keeps_rules keeps_bind [OF expr_arg_keeps [OF k _ n']] keeps_bind [OF arg_keeps] cast
        keeps_bind [OF keeps_sub_printer [OF stop compound_keeps [OF k deep]]] generic_keeps [OF k n']
        postfix_keeps [OF k n'] literal_keeps [OF k n] unary_keeps [OF k _ n'] sizeof_keeps [OF k _ n']
        keeps_bind [OF exprs_keeps [OF k deep_fit [OF deep]]] keeps_bind [OF fail_keeps])
      (auto dest: Head_IsList)
qed

lemma form_keeps:
  assumes k: "knows k go" and n: "fit (k + 1) n"
  shows "keeps b (form go ind n)"
proof -
  have "good n" "2 * size n \<le> k + 1" using n by (auto simp: fit_def)
  then show ?thesis
    using binary_keeps [OF k] form_head_keeps [OF k n]
    by (auto simp: form_def keeps_ret split: node.splits option.splits)
qed

lemma step_keeps:
  assumes "knows (weight j) go" "good (job_node j)"
  shows "keeps b (step go ind j)"
proof (cases j)
  case (JForm n)
  with assms show ?thesis by (auto simp: fit_def intro!: form_keeps)
next
  case (JSpec n)
  with assms show ?thesis by (auto intro!: spec_keeps)
next
  case (JParams n)
  with assms show ?thesis by (auto intro!: params_keeps)
next
  case (JInit n)
  with assms show ?thesis by (auto simp: fit_def intro!: inlineInit_keeps)
next
  case (JItem n)
  with assms show ?thesis by (auto simp: fit_def intro!: item_keeps)
next
  case (JOtherwise n)
  with assms show ?thesis by (auto simp: deep_def intro!: otherwise_keeps)
qed

lemma knows_mono: "knows k go \<Longrightarrow> k' \<le> k \<Longrightarrow> knows k' go"
  by (auto simp: knows_def)

lemma funcDef_keeps: "knows k go \<Longrightarrow> fit k f \<Longrightarrow> keeps b (funcDef go f)"
proof -
  assume k: "knows k go" and f: "fit k f"
  have label: "keeps b (if asm d \<noteq> None then fail f c else ret ())" for d c
    by (intro keeps_if keeps_rules)
  have rest: "keeps b (State_Monad.bind (each (\<lambda>x. State_Monad.bind (declLine go 1 x) (\<lambda>s. ret (line 1 s)))
        (case krs of None \<Rightarrow> [] | Some xs \<Rightarrow> xs)) (\<lambda>ks. State_Monad.bind (compound go 0 body) (\<lambda>b. ret (g ks b))))"
    if xs: "\<And>a. a \<in> set xs \<Longrightarrow> deep k a" and t: "take_list ''kr-params'' xs = (krs, body)" for xs krs body g
  proof -
    have body: "deep k a" if "a \<in> set body" for a
      using take_list_kids [of "''kr-params''" xs] t xs that by auto
    have kr: "fit k a" if "a \<in> set (case krs of None \<Rightarrow> [] | Some xs \<Rightarrow> xs)" for a
    proof -
      from that obtain x where x: "x \<in> set xs" "a \<in> set (Args x)"
        using t by (auto simp: take_list_def split: list.splits if_splits option.splits)
      from deep_fit [OF deep_Args [OF deep_fit [OF xs [OF x(1)]] x(2)]] show ?thesis .
    qed
    show ?thesis
      by (intro keeps_bind keeps_each keeps_rules declLine_keeps [OF k] compound_keeps [OF k] kr body)
  qed
  show ?thesis
    unfolding funcDef_def Let_def
    by (intro bind_parseDef [OF f] build_then [OF k] keeps_bind [OF label] keeps_bind [OF specs_keeps [OF k]]
        keeps_bind [OF attrList_keeps])
      (auto simp del: One_nat_def split: prod.splits intro!: rest)
qed

lemma top_keeps: "knows k go \<Longrightarrow> fit k f \<Longrightarrow> keeps b (top go f)"
  unfolding top_def
  by (intro keeps_if keeps_bind [OF arg_keeps] keeps_bind [OF unquote_keeps] keeps_rules funcDef_keeps
      keeps_bind [OF declLine_keeps] keeps_bind [OF fail_keeps])

end

subsection \<open>Fuel\<close>

interpretation fuel: printer_inv OutOfFuel "\<lambda>_. True"
  by unfold_locales auto

lemma run_returns: "weight j < n \<Longrightarrow> keeps OutOfFuel (run n ind j)"
proof (induction n arbitrary: ind j)
  case (Suc n)
  then have "fuel.knows (weight j) (run n)" by (auto simp: fuel.knows_def)
  then show ?case by (simp add: fuel.step_keeps)
qed simp

lemma knows_run: "fuel.knows n (run n)"
  by (simp add: fuel.knows_def run_returns)

lemma fit_fuel: "fuel.fit (node_fuel f) f"
  by (simp add: fuel.fit_def node_fuel_def)

lemma finish_keeps: "keeps b m \<Longrightarrow> b \<noteq> Fine \<Longrightarrow> finish m \<noteq> Inl b"
proof -
  assume m: "keeps b m" and b: "b \<noteq> Fine"
  obtain a e where r: "run_state m Fine = (a, e)" by (rule prod.exhaust)
  with m b have "e \<noteq> b" by (auto simp: keeps_def dest!: HOL.spec [of _ Fine])
  with r show ?thesis by (simp add: finish_def)
qed

lemma Print_from_fault: "Print_from prev fs \<noteq> Inl Fine"
  by (induction fs arbitrary: prev) (auto simp: finish_def split: sum.splits prod.splits if_splits)

lemma Print_from_returns: "Print_from prev fs \<noteq> Inl OutOfFuel"
proof (induction fs arbitrary: prev)
  case (Cons f fs)
  have "finish (top (run (node_fuel f)) f) \<noteq> Inl OutOfFuel"
    by (intro finish_keeps fuel.top_keeps [OF knows_run fit_fuel]) simp
  with Cons show ?case by (auto split: sum.splits)
qed simp

subsection \<open>Panics\<close>

fun no_bare :: "node \<Rightarrow> bool" where
  "no_bare (Atom a) = True"
| "no_bare (Lst xs) = ((Head (Lst xs) \<in> set bare_heads \<longrightarrow> length xs \<ge> 2) \<and> (\<forall>x \<in> set xs. no_bare x))"

interpretation panics: printer_inv Panicked no_bare
proof
  fix n a
  show "no_bare n \<Longrightarrow> a \<in> set (Kids n) \<Longrightarrow> no_bare a" by (cases n) auto
next
  fix n
  assume n: "no_bare n" "Head n \<in> set bare_heads"
  then obtain xs where "n = Lst xs" by (cases n) (auto simp: bare_heads_def)
  with n show "Args n \<noteq> []" by (cases n rule: Args.cases) (auto simp: bare_heads_def)
qed simp_all

lemma run_no_panic: "no_bare (job_node j) \<Longrightarrow> keeps Panicked (run n ind j)"
proof (induction n arbitrary: ind j)
  case 0
  show ?case by (auto intro!: keeps_bind keeps_halt keeps_ret)
next
  case (Suc n)
  have "panics.knows (weight j) (run n)" using Suc.IH by (simp add: panics.knows_def)
  then show ?case using Suc.prems by (simp add: panics.step_keeps)
qed

lemma Print_from_no_panic: "\<forall>f \<in> set fs. no_bare f \<Longrightarrow> Print_from prev fs \<noteq> Inl Panicked"
proof (induction fs arbitrary: prev)
  case (Cons f fs)
  have "panics.knows (node_fuel f) (run (node_fuel f))" by (simp add: panics.knows_def run_no_panic)
  moreover have "panics.fit (node_fuel f) f" using Cons.prems by (simp add: panics.fit_def node_fuel_def)
  ultimately have "finish (top (run (node_fuel f)) f) \<noteq> Inl Panicked"
    by (intro finish_keeps panics.top_keeps) simp_all
  with Cons show ?case by (auto split: sum.splits)
qed simp

subsection \<open>Properties\<close>

text \<open>
  C7. The C printer returns on every list of forms: with two calls for a node and four more it
  gives a text, a failure or a panic.
\<close>

theorem Print_total: "Print forms \<noteq> Inl OutOfFuel"
  unfolding Print_def by (rule Print_from_returns)

text \<open>
  C6. The C printer panics only on a bare \<open>(call)\<close>, \<open>(index)\<close>, \<open>(.)\<close>, \<open>(->)\<close> or \<open>(generic)\<close>:
  forms without one, at any depth, are printed or refused with a failure that names a node.
\<close>

theorem Print_no_panic:
  assumes "\<forall>f \<in> set forms. no_bare f"
  shows "(\<exists>text. Print forms = Inr text) \<or> (\<exists>c n. Print forms = Inl (Failed c n))"
proof (cases "Print forms")
  case (Inl e)
  have "e \<noteq> Fine" using Inl Print_from_fault by (auto simp: Print_def)
  moreover have "e \<noteq> Panicked" using Inl Print_from_no_panic [OF assms] by (auto simp: Print_def)
  moreover have "e \<noteq> OutOfFuel" using Inl Print_from_returns by (auto simp: Print_def)
  ultimately show ?thesis using Inl by (cases e) auto
qed simp

theorem Print_no_panic_witness:
  "(\<exists>text. Print [Lst [Atom ''def'', Atom ''x'', Atom ''int'', Lst [Atom ''call'', Atom ''f'']]] = Inr text) \<or>
   (\<exists>c n. Print [Lst [Atom ''def'', Atom ''x'', Atom ''int'', Lst [Atom ''call'', Atom ''f'']]] = Inl (Failed c n))"
  by (rule Print_no_panic) (simp add: bare_heads_def)

text \<open>A bare form, under any of the operators that print one operand.\<close>

definition one_operand :: "bytes \<Rightarrow> bool" where
  "one_operand u \<longleftrightarrow> u \<in> {''paren'', ''pre++'', ''pre--'', ''addr'', ''deref'', ''-'', ''+'', ''!'', ''~'', ''sizeof'',
     ''alignof'', ''sizeof-bare'', ''alignof-bare'', ''post++'', ''post--''}"

definition under :: "bytes list \<Rightarrow> bytes \<Rightarrow> node" where
  "under us h = foldr (\<lambda>u n. Lst [Atom u, n]) us (Lst [Atom h])"

lemma run_atom: "run (Suc k) ind (JForm (Atom a)) = State_Monad.return a"
  by (simp add: form_def)

text \<open>A missing argument is refused, and what is printed in its place is nothing.\<close>

lemma missing_operand:
  "run_state (expr_arg (run (Suc k)) ind (Lst [Atom h]) 0 want) s =
     (if level (Atom []) < want then ''()'' else [],
      if s = Fine then Failed (NoArgument (Head (Lst [Atom h])) 1) (Lst [Atom h]) else s)"
  by (simp add: expr_arg_def arg_def fail_def expr_def run_atom del: run.simps)

lemma no_arguments: "run_state (args_from1 (Lst [Atom h])) s = ([], if s = OutOfFuel then s else Panicked)"
  by (simp add: args_from1_def halt_def)

lemma run_bare:
  assumes "h \<in> set bare_heads"
  shows "snd (run_state (run (Suc (Suc k)) ind (JForm (Lst [Atom h]))) Fine) = Panicked"
proof -
  note defs = form_def form_head_def binaryLevel_def Let_def missing_operand no_arguments exprs_def
  from assms have "h = ''call'' \<or> h = ''index'' \<or> h = ''.'' \<or> h = ''->'' \<or> h = ''generic''" by (simp add: bare_heads_def)
  then have f: "snd (run_state (form (run (Suc k)) ind (Lst [Atom h])) Fine) = Panicked"
  proof (elim disjE)
    assume "h = ''call''"
    then show ?thesis by (simp add: defs postfix_text_def del: run.simps)
  next
    assume "h = ''index''"
    then show ?thesis by (simp add: defs postfix_text_def del: run.simps)
  next
    assume "h = ''.''"
    then show ?thesis by (simp add: defs postfix_text_def del: run.simps)
  next
    assume "h = ''->''"
    then show ?thesis by (simp add: defs postfix_text_def del: run.simps)
  next
    assume "h = ''generic''"
    then show ?thesis by (simp add: defs generic_text_def del: run.simps)
  qed
  have "run (Suc (Suc k)) ind (JForm (Lst [Atom h])) = form (run (Suc k)) ind (Lst [Atom h])" by (simp only: run.simps(2) step.simps)
  with f show ?thesis by (simp only:)
qed

lemma run_under:
  "h \<in> set bare_heads \<Longrightarrow> list_all one_operand us \<Longrightarrow> length us + 2 \<le> k \<Longrightarrow>
     snd (run_state (run k ind (JForm (under us h))) Fine) = Panicked"
proof (induction us arbitrary: k)
  case Nil
  then obtain j where "k = 2 + j" using le_Suc_ex [of 2 k] by auto
  then have "k = Suc (Suc j)" by simp
  with run_bare [OF Nil.prems(1)] show ?case by (simp add: under_def)
next
  case (Cons u us)
  then obtain j where k: "k = Suc j" "length us + 2 \<le> j" by (cases k) auto
  have IH: "snd (run_state (run j ind (JForm (under us h))) Fine) = Panicked" using Cons k(2) by simp
  have n: "under (u # us) h = Lst [Atom u, under us h]" by (simp add: under_def)
  have "one_operand u" using Cons.prems(2) by simp
  then show ?case unfolding n k(1) one_operand_def
    by (elim insertE emptyE)
      (use IH in \<open>simp_all add: form_def form_head_def postfix_text_def unary_text_def sizeof_text_def expr_arg_def expr_def
        arg_def binaryLevel_def Let_def split_def\<close>)
qed

text \<open>
  C11. Each of these bare forms is such a panic, alone and under any number of operators of one
  operand: \<open>form\<close> slices \<open>args[1:]\<close> of no arguments before \<open>arg\<close> could refuse the form, or
  though it has.
\<close>

theorem Print_bare_panics:
  assumes "h \<in> set bare_heads" "list_all one_operand us"
  shows "PrintExpr (under us h) = Inl Panicked"
proof -
  have "length us \<le> size (under us h)" by (induction us) (auto simp: under_def)
  then have "length us + 2 \<le> node_fuel (under us h)" by (simp add: node_fuel_def)
  from run_under [OF assms this, of 0] show ?thesis
    by (simp add: PrintExpr_def finish_def expr_def split_def)
qed

theorem Print_bare_panics_witness:
  "PrintExpr (Lst [Atom ''!'', Lst [Atom ''paren'', Lst [Atom ''call'']]]) = Inl Panicked"
  using Print_bare_panics [of "''call''" "[''!'', ''paren'']"] by (simp add: under_def bare_heads_def one_operand_def)

end
