(* ===== verification/Declarators.thy ===== *)
theory Declarators
  imports CPrint
begin

text \<open>
  The declarators of crefactor/clisp/toc.go against C's grammar.  A declarator of the grammar
  is a run of pointers before a direct declarator, and a direct declarator is the name, a
  declarator in parentheses, or a direct declarator with an array or a function suffix or with
  attributes; it says of the name that it is an array of, a function returning, or a pointer to
  what the rest declares (ISO C, 6.7.6; C23 for the attributes).  What \<open>build\<close> writes around a name is a declarator of the
  grammar that declares the name with the type it was given.
\<close>

subsection \<open>C's declarators\<close>







subsection \<open>The type of a form\<close>







subsection \<open>What build writes\<close>


















lemma run_state_ok [simp]: "run_state ok Fine = (True, Fine)"
  by (simp add: ok_def)











subsection \<open>The property\<close>



end
