(* ===== verification/ConstText.thy ===== *)
theory ConstText
  imports GraphEval CPrintRuns
begin

text \<open>
  The C text of a constant form and its value: what the printer of crefactor/clisp/toc.go
  writes for a form of the constant operators, parentheses and spaces included, is lexed,
  parsed and evaluated by crefactor/sweep/eval.go to what crefactor/graph/eval.go computes
  from the form.  \<open>const_text\<close> is the text as a function of the form; it lexes as
  \<open>c_tokens\<close>.
\<close>

subsection \<open>One table of levels\<close>

lemma binaryLevel_eq: "binaryLevel h = xBinaryLevel h"
  by (simp only: binaryLevel_def xBinaryLevel_def)

lemma level_eq: "level n = formLevel n"
  by (simp add: level_def formLevel_def unaryHeads_def postfixHeads_def binaryLevel_eq Let_def
      split: option.splits)

text \<open>
  C12. crefactor/graph and crefactor/clisp keep the C precedence table twice; the two give every
  form the same level.
\<close>

theorem level_formLevel: "level n = formLevel n"
  by (rule level_eq)

subsection \<open>The text of a constant form\<close>

definition in_place :: "node \<Rightarrow> nat \<Rightarrow> node \<Rightarrow> bytes \<Rightarrow> bytes" where
  "in_place p i a s = (if formLevel a < placeLevel p i then ''('' @ s @ '')'' else s)"

definition prefixed :: "bytes \<Rightarrow> bytes \<Rightarrow> bytes" where
  "prefixed h s = (if h \<in> {''-'', ''+''} then Prefix h s else h @ s)"

function (sequential) const_text :: "node \<Rightarrow> bytes" where
  "const_text (Atom a) = a"
| "const_text (Lst []) = []"
| "const_text (Lst (h0 # args)) =
     (let p = Lst (h0 # args); h = Head p in
      if h = ''paren'' \<and> length args = 1 then ''('' @ in_place p 1 (args ! 0) (const_text (args ! 0)) @ '')''
      else if h = ''cast'' \<and> length args = 2 then
        ''('' @ Join (words_of (args ! 0)) '' '' @ '')'' @ in_place p 2 (args ! 1) (const_text (args ! 1))
      else if length args = 1 \<and> h \<in> {''-'', ''+'', ''~'', ''!''} then
        prefixed h (in_place p 1 (args ! 0) (const_text (args ! 0)))
      else if h = ''?'' \<and> length args = 3 then
        in_place p 1 (args ! 0) (const_text (args ! 0)) @ '' ? '' @
        in_place p 2 (args ! 1) (const_text (args ! 1)) @ '' : '' @
        in_place p 3 (args ! 2) (const_text (args ! 2))
      else if length args \<ge> 2 \<and> binaryOps h then
        in_place p 1 (args ! 0) (const_text (args ! 0)) @
        concat (map (\<lambda>a. '' '' @ h @ '' '' @ in_place p 2 a (const_text a)) (tl args))
      else [])"
  by pat_completeness auto
termination
  by (relation "measure size") (auto simp: size_simps)

lemma const_text_simps:
  "const_text (Lst [Atom ''paren'', a]) =
     ''('' @ in_place (Lst [Atom ''paren'', a]) 1 a (const_text a) @ '')''"
  "const_text (Lst [Atom ''cast'', t, a]) =
     ''('' @ Join (words_of t) '' '' @ '')'' @ in_place (Lst [Atom ''cast'', t, a]) 2 a (const_text a)"
  "const_text (Lst [Atom ''?'', c, a, b]) =
     in_place (Lst [Atom ''?'', c, a, b]) 1 c (const_text c) @ '' ? '' @
     in_place (Lst [Atom ''?'', c, a, b]) 2 a (const_text a) @ '' : '' @
     in_place (Lst [Atom ''?'', c, a, b]) 3 b (const_text b)"
  by (simp_all add: Let_def)

lemma const_text_unary:
  "h \<in> {''-'', ''+'', ''~'', ''!''} \<Longrightarrow>
     const_text (Lst [Atom h, a]) = prefixed h (in_place (Lst [Atom h, a]) 1 a (const_text a))"
  by (elim insertE emptyE) (simp_all add: Let_def)

lemma const_text_binary:
  "binaryOps h \<Longrightarrow> const_text (Lst (Atom h # a # b # bs)) =
     in_place (Lst (Atom h # a # b # bs)) 1 a (const_text a) @
     concat (map (\<lambda>x. '' '' @ h @ '' '' @ in_place (Lst (Atom h # a # b # bs)) 2 x (const_text x)) (b # bs))"
  using binaryOps_plain [of h] by (simp add: Let_def)

declare const_text.simps(3) [simp del]

subsection \<open>The printer writes it\<close>

definition gives :: "'a pm \<Rightarrow> 'a \<Rightarrow> bool" where
  "gives m x \<longleftrightarrow> run_state m Fine = (x, Fine)"

lemma gives_ret: "gives (ret x) x"
  by (simp add: gives_def)

lemma gives_ret': "x = y \<Longrightarrow> gives (ret x) y"
  by (simp add: gives_def)

lemma gives_bind: "gives m x \<Longrightarrow> gives (f x) y \<Longrightarrow> gives (State_Monad.bind m f) y"
  by (simp add: gives_def)

lemma gives_each: "(\<And>x. x \<in> set xs \<Longrightarrow> gives (f x) (g x)) \<Longrightarrow> gives (each f xs) (map g xs)"
  by (induction xs) (auto intro!: gives_ret gives_bind)

lemma gives_expr:
  "gives (go ind (JForm n)) s \<Longrightarrow> gives (expr go ind n want) (if formLevel n < want then ''('' @ s @ '')'' else s)"
  unfolding expr_def level_eq by (rule gives_bind) (assumption, rule gives_ret)

lemma gives_place:
  "gives (go ind (JForm a)) s \<Longrightarrow> placeLevel p i = want \<Longrightarrow> gives (expr go ind a want) (in_place p i a s)"
  using gives_expr [of go ind a s want] by (simp add: in_place_def)

lemma gives_expr_arg:
  "k < length (Args p) \<Longrightarrow> gives (go ind (JForm (Args p ! k))) s \<Longrightarrow> placeLevel p i = want \<Longrightarrow>
     gives (expr_arg go ind p k want) (in_place p i (Args p ! k) s)"
  using gives_place [of go ind "Args p ! k" s p i want] by (simp add: expr_arg_def arg_def)

text \<open>The type of a cast.\<close>

lemma keyword_head: "intKeyword w \<Longrightarrow> w \<noteq> [] \<and> \<not> is_space (hd w) \<and> \<not> is_space (last w)"
proof -
  have "list_all (\<lambda>w. w \<noteq> [] \<and> \<not> is_space (hd w) \<and> \<not> is_space (last w))
      [''int'', ''unsigned'', ''signed'', ''long'', ''short'']" by code_simp
  then show "intKeyword w \<Longrightarrow> ?thesis" by (auto simp: intKeyword_def list_all_iff)
qed

lemma TrimSpace_word: "w \<noteq> [] \<Longrightarrow> \<not> is_space (hd w) \<Longrightarrow> TrimSpace w \<noteq> []"
proof -
  assume w: "w \<noteq> []" "\<not> is_space (hd w)"
  then have d: "dropWhile is_space w = w" by (cases w) auto
  have "\<exists>c \<in> set (rev w). \<not> is_space c" using w by (cases w) auto
  then have "dropWhile is_space (rev w) \<noteq> []" by (simp add: dropWhile_eq_Nil_conv)
  with d show ?thesis by (simp add: TrimSpace_def)
qed

lemma Join_head: "ws \<noteq> [] \<Longrightarrow> hd ws \<noteq> [] \<Longrightarrow> Join ws sep \<noteq> [] \<and> hd (Join ws sep) = hd (hd ws)"
  by (cases "(ws, sep)" rule: Join.cases) auto

lemma join_words:
  assumes "\<forall>w \<in> set ws. intKeyword w"
  shows "join ws = Join ws '' ''"
proof -
  have "filter (\<lambda>s. TrimSpace s \<noteq> []) ws = ws"
    using assms keyword_head TrimSpace_word by (simp add: filter_id_conv)
  then show ?thesis by (simp add: join_def)
qed

lemma join_only: "TrimSpace s \<noteq> [] \<Longrightarrow> join [s, []] = s"
  by (simp add: join_def TrimSpace_def)

lemma cast_items:
  assumes "intCast t"
  shows "baseItems t = map Atom (words_of t)" "Head t \<notin> {''ptr'', ''array'', ''fn'', ''fn-ids'', ''paren'', ''name-attr''}"
proof -
  have "baseItems t = map Atom (words_of t) \<and>
      Head t \<notin> {''ptr'', ''array'', ''fn'', ''fn-ids'', ''paren'', ''name-attr''}"
  proof (cases t)
    case (Atom a)
    then show ?thesis by (simp add: baseItems_def words_of_def)
  next
    case (Lst ks)
    have ks: "\<exists>a. w = Atom a \<and> intKeyword a" if "w \<in> set ks" for w
      using assms Lst that by (cases w) (force simp: intCast_def intKeyword_def)+
    have "ks \<noteq> []" using assms Lst by (simp add: intCast_def)
    with ks obtain a as where k: "ks = Atom a # as" "intKeyword a" by (cases ks) auto
    have "Atom (case w of Atom a \<Rightarrow> a | Lst _ \<Rightarrow> []) = w" if "w \<in> set ks" for w using ks [OF that] by auto
    then have "map (\<lambda>w. Atom (case w of Atom a \<Rightarrow> a | Lst _ \<Rightarrow> [])) ks = ks" by (simp add: map_idI)
    moreover have "a \<noteq> ''spec'' \<and> a \<notin> set base_heads \<and>
        a \<notin> {''ptr'', ''array'', ''fn'', ''fn-ids'', ''paren'', ''name-attr''}"
      using k(2) unfolding intKeyword_def by (elim insertE emptyE) (simp_all add: base_heads_def)
    ultimately show ?thesis using Lst k(1) by (simp add: baseItems_def words_of_def comp_def)
  qed
  then show "baseItems t = map Atom (words_of t)"
    "Head t \<notin> {''ptr'', ''array'', ''fn'', ''fn-ids'', ''paren'', ''name-attr''}" by blast+
qed

lemma gives_typeName:
  assumes t: "intCast t" and go: "\<And>w. gives (go ind (JSpec (Atom w))) w"
  shows "gives (typeName go ind t) (Join (words_of t) '' '')"
proof -
  note w = words_of_cast [OF t]
  have "gives (build go ind t no_dcl) (map Atom (words_of t), no_dcl)"
    using cast_items [OF t] by (subst build.simps) (simp add: gives_def ok_def)
  moreover have "gives (specs go ind (map Atom (words_of t))) (Join (words_of t) '' '')"
  proof -
    have "gives (each (\<lambda>i. go ind (JSpec i)) (map Atom (words_of t))) (map atom_text (map Atom (words_of t)))"
      by (rule gives_each) (auto simp: go)
    then show ?thesis
      unfolding specs_def by (rule gives_bind) (simp add: comp_def join_words w gives_ret)
  qed
  moreover have "TrimSpace (Join (words_of t) '' '') \<noteq> []"
  proof (rule TrimSpace_word)
    have "hd (words_of t) \<noteq> []" "\<not> is_space (hd (hd (words_of t)))"
      using w keyword_head [of "hd (words_of t)"] by auto
    with Join_head [of "words_of t" "'' ''"] w
    show "Join (words_of t) '' '' \<noteq> []" "\<not> is_space (hd (Join (words_of t) '' ''))" by auto
  qed
  ultimately show ?thesis
    unfolding typeName_def
    by (intro gives_bind [of _ "(map Atom (words_of t), no_dcl)"])
      (auto intro!: gives_bind simp: no_dcl_def dcl_text_def join_only gives_ret)
qed

lemma gives_atom_spec: "0 < f \<Longrightarrow> gives (run f ind (JSpec (Atom w))) w"
  by (cases f) (simp_all add: spec_def gives_ret)

lemma gives_binary:
  assumes h: "binaryOps h" "xBinaryLevel h = Some (q + 3)" "1 \<le> q"
    and p: "p = Lst (Atom h # a # b # bs)"
    and go: "\<And>x. x \<in> set (a # b # bs) \<Longrightarrow> gives (go ind (JForm x)) (const_text x)"
  shows "gives (form go ind p) (const_text p)"
proof -
  have place: "placeLevel p 1 = q + 3" "placeLevel p 2 = q + 4"
    using placeLevel_binary [OF h(2)] h(3) p by simp_all
  let ?f = "\<lambda>x. in_place p 2 x (const_text x)"
  have "gives (exprs go ind (b # bs) (q + 4)) (map ?f (b # bs))"
    unfolding exprs_def by (rule gives_each, rule gives_place) (use go place(2) in auto)
  moreover have "gives (expr go ind a (q + 3)) (in_place p 1 a (const_text a))"
    by (rule gives_place) (use go place(1) in auto)
  moreover have "binary_text go ind p (q + 3) = State_Monad.bind (expr go ind a (q + 3)) (\<lambda>s.
      State_Monad.bind (exprs go ind (b # bs) (q + 4)) (\<lambda>rs.
        ret (s @ concat (map (\<lambda>r. '' '' @ h @ '' '' @ r) rs))))"
    using h(3) p by (simp add: binary_text_def add.commute)
  moreover have "const_text p = in_place p 1 a (const_text a) @
      concat (map (\<lambda>r. '' '' @ h @ '' '' @ r) (map ?f (b # bs)))"
    using p const_text_binary [OF h(1), of a b bs] by (simp add: comp_def)
  ultimately have "gives (binary_text go ind p (q + 3)) (const_text p)"
    by (simp only:) (rule gives_bind, assumption, rule gives_bind, assumption, rule gives_ret)
  with h(2) p show ?thesis by (simp add: form_def binaryLevel_eq)
qed

text \<open>\<open>form\<close> of each of the other constant operators.\<close>

lemma form_unary:
  "h \<in> {''-'', ''+'', ''~'', ''!''} \<Longrightarrow> form go ind (Lst [Atom h, a]) =
     State_Monad.bind (expr_arg go ind (Lst [Atom h, a]) 0 14) (\<lambda>s. ret (prefixed h s))"
  by (elim insertE emptyE)
    (simp_all add: form_def form_head_def binaryLevel_def unary_text_def prefixed_def Let_def)

lemma form_paren:
  "form go ind (Lst [Atom ''paren'', a]) =
     State_Monad.bind (expr_arg go ind (Lst [Atom ''paren'', a]) 0 1) (\<lambda>s. ret (''('' @ s @ '')''))"
  by (simp add: form_def form_head_def binaryLevel_def Let_def)

lemma form_cast:
  "form go ind (Lst [Atom ''cast'', t, a]) =
     State_Monad.bind (typeName go ind t) (\<lambda>t'. State_Monad.bind
       (expr_arg go ind (Lst [Atom ''cast'', t, a]) 1 14) (\<lambda>e. ret (''('' @ t' @ '')'' @ e)))"
  by (simp add: form_def form_head_def binaryLevel_def arg_def Let_def)

lemma form_cond:
  "form go ind (Lst [Atom ''?'', c, a, b]) =
     State_Monad.bind (expr_arg go ind (Lst [Atom ''?'', c, a, b]) 0 4) (\<lambda>c'. State_Monad.bind
       (expr_arg go ind (Lst [Atom ''?'', c, a, b]) 1 1) (\<lambda>a'. State_Monad.bind
         (expr_arg go ind (Lst [Atom ''?'', c, a, b]) 2 3) (\<lambda>b'. ret (c' @ '' ? '' @ a' @ '' : '' @ b'))))"
  by (simp add: form_def form_head_def binaryLevel_def Let_def)

lemma gives_unary:
  assumes h: "h \<in> {''-'', ''+'', ''~'', ''!''}" and p: "p = Lst [Atom h, a]"
    and go: "gives (go ind (JForm a)) (const_text a)"
  shows "gives (form go ind p) (const_text p)"
proof -
  have "gives (expr_arg go ind p 0 14) (in_place p 1 (Args p ! 0) (const_text a))"
    by (rule gives_expr_arg) (use go p placeLevel_unary [OF h] in auto)
  then show ?thesis
    unfolding p form_unary [OF h] const_text_unary [OF h]
    by (rule gives_bind) (rule gives_ret', simp)
qed

lemma gives_const_text: "const_form n \<Longrightarrow> 2 * size n < f \<Longrightarrow> gives (run f ind (JForm n)) (const_text n)"
proof (induction "size n" arbitrary: n f rule: less_induct)
  case less
  then obtain g where f: "f = Suc g" by (cases f) auto
  have IH: "gives (run g ind (JForm a)) (const_text a)" if "const_form a" "size a < size n" for a
    using less.hyps [OF that(2,1)] that(2) less.prems(2) f by simp
  from less.prems(1) have "gives (form (run g) ind n) (const_text n)"
  proof (cases rule: const_form_cases)
    case (atom t)
    then show ?thesis by (simp add: form_def gives_ret)
  next
    case (paren a)
    have "gives (expr_arg (run g) ind n 0 1) (in_place n 1 (Args n ! 0) (const_text a))"
      by (rule gives_expr_arg) (use paren IH [of a] placeLevel_simps(1) in auto)
    then show ?thesis
      unfolding paren(1) form_paren const_text_simps(1) by (rule gives_bind) (rule gives_ret', simp)
  next
    case (cast t a)
    have "0 < g" using less.prems(2) f cast(1) by simp
    then have "gives (typeName (run g) ind t) (Join (words_of t) '' '')"
      by (intro gives_typeName [OF cast(2)] gives_atom_spec)
    moreover have "gives (expr_arg (run g) ind n 1 14) (in_place n 2 (Args n ! 1) (const_text a))"
      by (rule gives_expr_arg) (use cast IH [of a] placeLevel_simps(2) in auto)
    ultimately show ?thesis
      unfolding cast(1) form_cast const_text_simps(2)
      by - (rule gives_bind, assumption, rule gives_bind, assumption, rule gives_ret', simp)
  next
    case (unop h a)
    show ?thesis by (rule gives_unary [OF unop(2,1)]) (use unop IH [of a] in auto)
  next
    case (cond c a b)
    have "gives (expr_arg (run g) ind n 0 4) (in_place n 1 (Args n ! 0) (const_text c))"
      "gives (expr_arg (run g) ind n 1 1) (in_place n 2 (Args n ! 1) (const_text a))"
      "gives (expr_arg (run g) ind n 2 3) (in_place n 3 (Args n ! 2) (const_text b))"
      by (rule gives_expr_arg; use cond IH [of a] IH [of b] IH [of c] placeLevel_simps(3) in \<open>auto simp: numeral_2_eq_2\<close>)+
    then show ?thesis
      unfolding cond(1) form_cond const_text_simps(3)
      by - (rule gives_bind, assumption, rule gives_bind, assumption, rule gives_bind, assumption,
        rule gives_ret', simp add: numeral_2_eq_2)
  next
    case (binop h a b bs)
    obtain q where "xBinaryLevel h = Some (q + 3)" "1 \<le> q" using binaryOps_level [OF binop(2)] by blast
    then show ?thesis
    proof (rule gives_binary [OF binop(2) _ _ binop(1)])
      fix x
      assume x: "x \<in> set (a # b # bs)"
      then have "size x < size n" using operand_size [of x b bs] binop(1) by auto
      with x binop(3,4) IH [of x] show "gives (run g ind (JForm x)) (const_text x)" by auto
    qed
  qed
  then show ?case by (simp add: f)
qed

lemma PrintExpr_const: "const_form n \<Longrightarrow> PrintExpr n = Inr (const_text n)"
proof -
  assume n: "const_form n"
  have "gives (run (node_fuel n) 0 (JForm n)) (const_text n)"
    by (rule gives_const_text [OF n]) (simp add: node_fuel_def)
  from gives_expr [of "run (node_fuel n)" 0, OF this, of 1] const_form_level [OF n]
  show ?thesis by (simp add: PrintExpr_def finish_def gives_def)
qed

subsection \<open>The text lexes as the form's tokens\<close>

definition cuts :: "bytes \<Rightarrow> bool" where
  "cuts s \<longleftrightarrow> s = [] \<or> \<not> isIdent (hd s)"

definition lex_as :: "bytes \<Rightarrow> bytes list \<Rightarrow> bool" where
  "lex_as t ts \<longleftrightarrow> (\<forall>rest. cuts rest \<longrightarrow> lexConst (t @ rest) = map_option ((@) ts) (lexConst rest))"

lemma lex_asD: "lex_as t ts \<Longrightarrow> cuts rest \<Longrightarrow> lexConst (t @ rest) = map_option ((@) ts) (lexConst rest)"
  by (simp add: lex_as_def)

lemma cuts_simps [simp]: "cuts []" "cuts (CHR '' '' # s)" "cuts (CHR '')'' # s)"
proof -
  have "\<not> isIdent (CHR '')'')" by code_simp
  then show "cuts []" "cuts (CHR '' '' # s)" "cuts (CHR '')'' # s)" by (simp_all add: cuts_def)
qed

lemma lex_as_ident:
  assumes "t \<noteq> []" "\<forall>c \<in> set t. isIdent c"
  shows "lex_as t [t]"
proof -
  obtain c s where t: "t = c # s" using assms(1) by (cases t) auto
  have "takeWhile isIdent (s @ rest) = s" "dropWhile isIdent (s @ rest) = rest" if "cuts rest" for rest
    using assms(2) t that by (cases rest; simp add: cuts_def takeWhile_append2 dropWhile_append2)+
  with t assms(2) ident_not_space [of c] show ?thesis
    by (simp add: lex_as_def)
qed

lemma lex_as_char:
  assumes "t \<noteq> []" "hd t = squote" "lex_char (tl t) = Some (tl t, [])"
  shows "lex_as t [t]"
proof -
  obtain s where t: "t = squote # s" using assms(1,2) by (cases t) auto
  with assms(3) have "lex_char (s @ rest) = Some (s, rest)" for rest
    using lex_char_append [of s s "[]"] by simp
  with t squote_class show ?thesis by (simp add: lex_as_def)
qed

lemma lex_as_atom: "const_atom a \<Longrightarrow> lex_as a [a]"
  using lex_as_ident lex_as_char by (auto simp: const_atom_def)

text \<open>An operator of one byte before anything it does not make a longer one with.\<close>

lemma lexConst_op:
  "c \<in> set one_ops \<Longrightarrow> take 2 (c # rest) \<notin> set two_ops \<Longrightarrow>
     lexConst (c # rest) = map_option ((#) [c]) (lexConst rest)"
  using op_class [of c] by simp

lemma lexConst_open: "lexConst (CHR ''('' # rest) = map_option ((#) ''('') (lexConst rest)"
  "lexConst (CHR '')'' # rest) = map_option ((#) '')'') (lexConst rest)"
  "lexConst (CHR ''?'' # rest) = map_option ((#) ''?'') (lexConst rest)"
  "lexConst (CHR '':'' # rest) = map_option ((#) '':'') (lexConst rest)"
  "lexConst (CHR ''-'' # rest) = map_option ((#) ''-'') (lexConst rest)"
  "lexConst (CHR ''+'' # rest) = map_option ((#) ''+'') (lexConst rest)"
  "lexConst (CHR ''~'' # rest) = map_option ((#) ''~'') (lexConst rest)"
  by (rule lexConst_op; simp add: one_ops_def two_ops_def)+

lemma lexConst_not:
  "rest \<noteq> [] \<Longrightarrow> hd rest \<noteq> CHR ''='' \<Longrightarrow> lexConst (CHR ''!'' # rest) = map_option ((#) ''!'') (lexConst rest)"
  by (rule lexConst_op) (cases rest; simp add: one_ops_def two_ops_def)+

declare lexConst.simps(2) [simp del]

lemma map_option_append: "map_option ((#) t) (map_option ((@) ts) r) = map_option ((@) (t # ts)) r"
  "map_option ((@) ts) (map_option ((#) t) r) = map_option ((@) (ts @ [t])) r"
  "map_option ((@) ts) (map_option ((@) us) r) = map_option ((@) (ts @ us)) r"
  by (cases r; simp)+

lemma lex_as_parens: "lex_as s ts \<Longrightarrow> lex_as (''('' @ s @ '')'') (''('' # ts @ ['')''])"
  by (simp add: lex_as_def lexConst_open map_option_append)

lemma lex_as_place: "lex_as s ts \<Longrightarrow> lex_as (in_place p i a s) (placed p i a ts)"
  using lex_as_parens [of s ts] by (auto simp: in_place_def placed_def)

lemma lex_as_append: "lex_as s ts \<Longrightarrow> (\<And>rest. cuts rest \<Longrightarrow> cuts (u @ rest)) \<Longrightarrow> lex_as u us \<Longrightarrow> lex_as (s @ u) (ts @ us)"
  by (simp add: lex_as_def map_option_append)

lemma lex_as_Join: "\<forall>w \<in> set ws. intKeyword w \<Longrightarrow> lex_as (Join ws '' '') ws"
proof (induction ws "'' ''" rule: Join.induct)
  case 1
  then show ?case by (simp add: lex_as_def option.map_ident_strong)
next
  case (2 w)
  then have "lexes w" using lexes_cast by simp
  have "list_all (list_all isIdent) [''int'', ''unsigned'', ''signed'', ''long'', ''short'']" by code_simp
  then have "\<forall>c \<in> set w. isIdent c" "w \<noteq> []" using 2 by (auto simp: intKeyword_def list_all_iff)
  then show ?case by (simp add: lex_as_ident)
next
  case (3 w v ws)
  then have "lexes w" using lexes_cast by simp
  with 3 show ?case by (simp add: lex_as_def lexes_def map_option_append)
qed

text \<open>What a constant form's text starts with is never taken for part of the operator before it.\<close>

lemma in_place_head: "s \<noteq> [] \<and> hd s \<noteq> CHR ''='' \<Longrightarrow> in_place p i a s \<noteq> [] \<and> hd (in_place p i a s) \<noteq> CHR ''=''"
  by (simp add: in_place_def)

lemma atom_head: "const_atom a \<Longrightarrow> a \<noteq> [] \<and> hd a \<noteq> CHR ''=''"
proof -
  have "\<not> isIdent (CHR ''='')" by code_simp
  then show "const_atom a \<Longrightarrow> ?thesis" by (cases a) (auto simp: const_atom_def)
qed

lemma const_text_head: "const_form n \<Longrightarrow> const_text n \<noteq> [] \<and> hd (const_text n) \<noteq> CHR ''=''"
proof (induction "size n" arbitrary: n rule: less_induct)
  case less
  from less.prems show ?case
  proof (cases rule: const_form_cases)
    case (atom t)
    then show ?thesis by (simp add: atom_head)
  next
    case (unop h a)
    then show ?thesis
      unfolding unop(1) const_text_unary [OF unop(2)]
      by (elim insertE emptyE) (simp_all add: prefixed_def Prefix_def)
  next
    case (cond c a b)
    with less.hyps [of c] in_place_head [of "const_text c"] show ?thesis
      by (simp add: const_text_simps)
  next
    case (binop h a b bs)
    with less.hyps [of a] in_place_head [of "const_text a"] show ?thesis
      by (simp add: const_text_binary)
  qed (simp_all add: const_text_simps)
qed

lemma lex_as_binary:
  "binaryOps h \<Longrightarrow> lex_as s ts \<Longrightarrow> lex_as ('' '' @ h @ '' '' @ s) (h # ts)"
  using lexes_binary [of h] by (simp add: lex_as_def lexes_def map_option_append)

lemma lex_as_operands:
  assumes "binaryOps h" "\<And>x. x \<in> set xs \<Longrightarrow> lex_as (f x) (g x)"
  shows "lex_as (concat (map (\<lambda>x. '' '' @ h @ '' '' @ f x) xs)) (concat (map (\<lambda>x. h # g x) xs))"
  using assms(2)
proof (induction xs)
  case Nil
  then show ?case by (simp add: lex_as_def option.map_ident_strong)
next
  case (Cons x xs)
  have "lex_as (concat (map (\<lambda>x. '' '' @ h @ '' '' @ f x) xs)) (concat (map (\<lambda>x. h # g x) xs))"
    using Cons by simp
  then have "lex_as (('' '' @ h @ '' '' @ f x) @ concat (map (\<lambda>x. '' '' @ h @ '' '' @ f x) xs))
      ((h # g x) @ concat (map (\<lambda>x. h # g x) xs))"
    by (intro lex_as_append lex_as_binary [OF assms(1)] Cons.prems) (cases xs; simp)+
  then show ?case by simp
qed

lemma lex_as_unary:
  assumes "h \<in> {''-'', ''+'', ''~'', ''!''}" "lex_as s ts" "s \<noteq> []" "hd s \<noteq> CHR ''=''"
  shows "lex_as (prefixed h s) (h # ts)"
proof (cases "h = ''!''")
  case True
  with assms show ?thesis by (simp add: prefixed_def lex_as_def lexConst_not map_option_append)
next
  case False
  have "prefixed h s = h @ s \<or> prefixed h s = h @ '' '' @ s" by (simp add: prefixed_def Prefix_def)
  moreover have "lex_as (h @ s) (h # ts)" "lex_as (h @ '' '' @ s) (h # ts)"
    using assms(1,2) False by (auto simp: lex_as_def lexConst_open map_option_append)
  ultimately show ?thesis by (elim disjE) simp_all
qed

lemma const_text_lexes: "const_form n \<Longrightarrow> lex_as (const_text n) (c_tokens n)"
proof (induction "size n" arbitrary: n rule: less_induct)
  case less
  from less.prems show ?case
  proof (cases rule: const_form_cases)
    case (atom t)
    then show ?thesis by (simp add: lex_as_atom)
  next
    case (paren a)
    with less.hyps [of a] show ?thesis
      by (simp add: const_text_simps c_tokens_simps lex_as_parens [simplified] lex_as_place)
  next
    case (cast t a)
    let ?s = "in_place n 2 a (const_text a)" and ?ts = "placed n 2 a (c_tokens a)"
    have "lex_as ?s ?ts" using less.hyps [of a] cast by (simp add: lex_as_place)
    moreover have "lex_as (Join (words_of t) '' '') (words_of t)"
      using words_of_cast [OF cast(2)] lex_as_Join by blast
    ultimately show ?thesis
      using cast(1) by (simp add: const_text_simps c_tokens_simps lex_as_def lexConst_open map_option_append)
  next
    case (unop h a)
    have "lex_as (in_place n 1 a (const_text a)) (placed n 1 a (c_tokens a))"
      using less.hyps [of a] unop by (simp add: lex_as_place)
    moreover have "in_place n 1 a (const_text a) \<noteq> []" "hd (in_place n 1 a (const_text a)) \<noteq> CHR ''=''"
      using const_text_head [OF unop(3)] by (auto simp: in_place_def)
    ultimately show ?thesis
      using lex_as_unary [OF unop(2)] unop(1) by (simp add: const_text_unary [OF unop(2)] c_tokens_unary [OF unop(2)])
  next
    case (cond c a b)
    have "lex_as (in_place n 1 c (const_text c)) (placed n 1 c (c_tokens c))"
      "lex_as (in_place n 2 a (const_text a)) (placed n 2 a (c_tokens a))"
      "lex_as (in_place n 3 b (const_text b)) (placed n 3 b (c_tokens b))"
      using less.hyps [of a] less.hyps [of b] less.hyps [of c] cond by (simp_all add: lex_as_place)
    with cond(1) show ?thesis
      by (simp add: const_text_simps c_tokens_simps lex_as_def lexConst_open map_option_append)
  next
    case (binop h a b bs)
    have sub: "lex_as (in_place n i x (const_text x)) (placed n i x (c_tokens x))"
      if "x \<in> set (a # b # bs)" for i x
    proof -
      have "size x < size n" using that operand_size [of x b bs] binop(1) by auto
      with that binop(3,4) less.hyps [of x] show ?thesis by (auto intro: lex_as_place)
    qed
    have "lex_as (in_place n 1 a (const_text a) @
        concat (map (\<lambda>x. '' '' @ h @ '' '' @ in_place n 2 x (const_text x)) (b # bs)))
      (placed n 1 a (c_tokens a) @ concat (map (\<lambda>x. h # placed n 2 x (c_tokens x)) (b # bs)))"
      by (intro lex_as_append lex_as_operands [OF binop(2)] sub) simp_all
    then show ?thesis
      using binop(1) const_text_binary [OF binop(2), of a b bs] c_tokens_binary [OF binop(2), of a b bs] by simp
  qed
qed

lemma lexConst_const_text: "const_form n \<Longrightarrow> lexConst (const_text n) = Some (c_tokens n)"
  using lex_asD [OF const_text_lexes, of n "[]"] by simp

subsection \<open>The value of the printed text\<close>

text \<open>
  C1. The value of a constant form is the value of its C text: the printer writes a form of the
  constant operators (crefactor/clisp/toc.go, with the parentheses and spaces it decides on),
  and the evaluator of enumerators' texts (crefactor/sweep/eval.go) makes of that text what the
  evaluator of forms (crefactor/graph/eval.go) makes of the form, the same 64-bit number or
  the same refusal, whatever the environment gives the names.
\<close>

theorem evalConst_PrintExpr:
  assumes "const_form n"
  shows "\<exists>text. PrintExpr n = Inr text \<and> evalConst text env = Some (evalForm env n)"
proof -
  have "closed_by []" by (simp add: closed_by_def peek_def precedence_def)
  with const_form_reads [OF assms] have "condT env (c_tokens n @ []) = value_then env n []"
    unfolding reads_def reads_cond_def by blast
  with evalConst_toks [OF lexConst_const_text [OF assms], of env]
  have "evalConst (const_text n) env = Some (evalForm env n)"
    by (cases "evalForm env n") (simp_all add: value_then_def)
  with PrintExpr_const [OF assms] show ?thesis by blast
qed

theorem evalConst_PrintExpr_witness:
  "\<exists>text. PrintExpr (Lst [Atom ''*'', Lst [Atom ''+'', Atom ''a'', Atom ''2''], Lst [Atom ''-'', Lst [Atom ''-'', Atom ''3'']]])
      = Inr text \<and> evalConst text [''a'' \<mapsto> 5] = Some (Some 21)"
proof -
  let ?n = "Lst [Atom ''*'', Lst [Atom ''+'', Atom ''a'', Atom ''2''], Lst [Atom ''-'', Lst [Atom ''-'', Atom ''3'']]]"
  have "const_form ?n" by code_simp
  moreover have "evalForm [''a'' \<mapsto> 5] ?n = Some 21"
    by (simp add: evalForm_binary evalForm_unary binaryOps_def form_binary_def unary_op_def eval_atom_def
        is_digit_def parseInt_def TrimRight_def ParseUint_def digit_value_def has_prefix_def)
  ultimately show ?thesis using evalConst_PrintExpr [of ?n "[''a'' \<mapsto> 5]"] by (simp only:)
qed

end
