(* ===== verification/TreeApi.thy ===== *)
theory TreeApi
  imports CPrint
begin

text \<open>
  The tree API of crefactor/clisp/tree.go: cursors and walks that edit forms in place.  Nodes
  and cursors are objects of a heap, named by numbers, because the code shares and changes
  them: a cursor remembers its node, the list that holds it and the place it last had there,
  and finds the place again when an edit has moved the node.  The list of a node is a list of
  node names; every list has a backing array of its own, which is what \<open>L\<close>, the reader and
  the edits of this file give it.  The chains of \<open>up\<close> end, since a cursor is made after the
  one above it, and a walk's recursion is given fuel.
\<close>

subsection \<open>Nodes and cursors\<close>

record nobj =
  natom :: bytes
  nlist :: bool
  nkids :: "nat list"

record cobj =
  cnode :: nat
  cin :: "nat option"
  cpos :: nat
  cup :: "nat option"
  cgone :: bool
  cafter :: nat

type_synonym store = "nat \<Rightarrow> nobj"

record heap =
  nodes :: store
  curs :: "nat \<Rightarrow> cobj"
  cnext :: nat

definition set_cur :: "nat \<Rightarrow> cobj \<Rightarrow> heap \<Rightarrow> heap" where
  "set_cur c k h = h\<lparr>curs := (curs h)(c := k)\<rparr>"

definition new_cur :: "cobj \<Rightarrow> heap \<Rightarrow> nat \<times> heap" where
  "new_cur k h = (cnext h, h\<lparr>curs := (curs h)(cnext h := k), cnext := cnext h + 1\<rparr>)"

definition set_kids :: "nat \<Rightarrow> nat list \<Rightarrow> heap \<Rightarrow> heap" where
  "set_kids l xs h = h\<lparr>nodes := (nodes h)(l := (nodes h l)\<lparr>nkids := xs\<rparr>)\<rparr>"

text \<open>The list a cursor's node is in; a root is in none.\<close>

definition in_list :: "heap \<Rightarrow> nat \<Rightarrow> nat list" where
  "in_list h c = (case cin (curs h c) of Some l \<Rightarrow> nkids (nodes h l) | None \<Rightarrow> [])"

definition hHead :: "store \<Rightarrow> nat \<Rightarrow> bytes" where
  "hHead N n =
     (if nlist (N n) then
        (case nkids (N n) of
           [] \<Rightarrow> []
         | x # _ \<Rightarrow> if nlist (N x) then [] else natom (N x))
      else [])"

definition hIs :: "store \<Rightarrow> nat \<Rightarrow> bytes \<Rightarrow> bool" where
  "hIs N n s \<longleftrightarrow> hHead N n = s"

definition hArgs :: "store \<Rightarrow> nat \<Rightarrow> nat list" where
  "hArgs N n = (if nlist (N n) then tl (nkids (N n)) else [])"

subsection \<open>Index\<close>

fun find_pos :: "nat \<Rightarrow> nat list \<Rightarrow> nat option" where
  "find_pos x [] = None"
| "find_pos x (y # ys) = (if y = x then Some 0 else map_option Suc (find_pos x ys))"

text \<open>\<open>None\<close> is the code's \<open>-1\<close>.\<close>

definition Index :: "nat \<Rightarrow> heap \<Rightarrow> nat option \<times> heap" where
  "Index c h =
     (let k = curs h c; xs = in_list h c in
      if cin k = None \<or> cgone k then (None, h)
      else if cpos k < length xs \<and> xs ! cpos k = cnode k then (Some (cpos k), h)
      else (case find_pos (cnode k) xs of
          Some j \<Rightarrow> (Some j, set_cur c (k\<lparr>cpos := j\<rparr>) h)
        | None \<Rightarrow> (None, set_cur c (k\<lparr>cgone := True\<rparr>) h)))"

definition Sibling :: "nat \<Rightarrow> int \<Rightarrow> heap \<Rightarrow> nat option \<times> heap" where
  "Sibling c d h =
     (case Index c h of
        (None, h1) \<Rightarrow> (None, h1)
      | (Some i, h1) \<Rightarrow>
          (if int i + d < 0 \<or> int i + d \<ge> int (length (in_list h1 c)) then (None, h1)
           else (Some (in_list h1 c ! nat (int i + d)), h1)))"

definition SiblingCursor :: "nat \<Rightarrow> int \<Rightarrow> heap \<Rightarrow> nat option \<times> heap" where
  "SiblingCursor c d h =
     (case Sibling c d h of
        (None, h1) \<Rightarrow> (None, h1)
      | (Some n, h1) \<Rightarrow>
          let k = curs h1 c;
              (c', h2) = new_cur \<lparr>cnode = n, cin = cin k, cpos = nat (int (cpos k) + d), cup = cup k,
                cgone = False, cafter = 0\<rparr> h1
          in (Some c', h2))"

subsection \<open>Definitions\<close>

definition hisAttr :: "store \<Rightarrow> nat \<Rightarrow> bool" where
  "hisAttr N n \<longleftrightarrow> hIs N n ''attr'' \<or> hIs N n ''attr-text'' \<or> hIs N n ''std-attr''"

text \<open>The loop of \<open>defNameAt\<close> over the elements from index \<open>i\<close> on.\<close>

fun name_from :: "store \<Rightarrow> nat \<Rightarrow> nat list \<Rightarrow> nat option" where
  "name_from N i [] = None"
| "name_from N i (a # as) =
     (if nlist (N a) then (if hisAttr N a then name_from N (i + 1) as else None)
      else if natom (N a) \<in> set prefixWords then name_from N (i + 1) as
      else Some i)"

definition defNameAt :: "store \<Rightarrow> nat \<Rightarrow> nat option" where
  "defNameAt N f =
     (if hHead N f \<in> {''def'', ''typedef'', ''defn''} then name_from N 1 (drop 1 (nkids (N f))) else None)"

definition DefName :: "store \<Rightarrow> nat \<Rightarrow> bytes" where
  "DefName N f = (case defNameAt N f of Some i \<Rightarrow> natom (N (nkids (N f) ! i)) | None \<Rightarrow> [])"

definition DefPrefix :: "store \<Rightarrow> nat \<Rightarrow> nat list" where
  "DefPrefix N f =
     (case defNameAt N f of
        Some i \<Rightarrow> if i > 0 then drop 1 (take i (nkids (N f))) else []
      | None \<Rightarrow> [])"

definition HasPrefix :: "store \<Rightarrow> nat \<Rightarrow> bytes \<Rightarrow> bool" where
  "HasPrefix N f w \<longleftrightarrow> (\<exists>a \<in> set (DefPrefix N f). \<not> nlist (N a) \<and> natom (N a) = w)"

definition DefType :: "store \<Rightarrow> nat \<Rightarrow> nat option" where
  "DefType N f =
     (case defNameAt N f of
        Some i \<Rightarrow> if i + 1 < length (nkids (N f)) then Some (nkids (N f) ! (i + 1)) else None
      | None \<Rightarrow> None)"

definition defRest :: "store \<Rightarrow> nat \<Rightarrow> nat list" where
  "defRest N f =
     (let xs = nkids (N f) in
      case defNameAt N f of
        None \<Rightarrow> []
      | Some i \<Rightarrow>
          if i + 1 \<ge> length xs then []
          else let r = dropWhile (hisAttr N) (drop (i + 2) xs) in
            (case r of a # as \<Rightarrow> if hIs N a ''asm-label'' then as else r | [] \<Rightarrow> []))"

definition DefValue :: "store \<Rightarrow> nat \<Rightarrow> nat option" where
  "DefValue N f =
     (if hIs N f ''defn'' then None
      else (case defRest N f of [v] \<Rightarrow> Some v | _ \<Rightarrow> None))"

definition Body :: "store \<Rightarrow> nat \<Rightarrow> nat list" where
  "Body N f =
     (if \<not> hIs N f ''defn'' then []
      else (case defRest N f of a # as \<Rightarrow> if hIs N a ''kr-params'' then as else a # as | [] \<Rightarrow> []))"

subsection \<open>Going up\<close>

text \<open>The first cursor from \<open>u\<close> up that \<open>p\<close> accepts; the chain is no longer than the fuel.\<close>

fun climb :: "nat \<Rightarrow> (nat \<Rightarrow> bool) \<Rightarrow> heap \<Rightarrow> nat option \<Rightarrow> nat option" where
  "climb 0 p h u = None"
| "climb (Suc fuel) p h None = None"
| "climb (Suc fuel) p h (Some u) = (if p u then Some u else climb fuel p h (cup (curs h u)))"

definition Enclosing :: "nat \<Rightarrow> bytes \<Rightarrow> heap \<Rightarrow> nat option" where
  "Enclosing c head h = climb (cnext h + 1) (\<lambda>u. hIs (nodes h) (cnode (curs h u)) head) h (cup (curs h c))"

definition Function :: "nat \<Rightarrow> heap \<Rightarrow> bytes" where
  "Function c h =
     (case Enclosing c ''defn'' h of
        Some d \<Rightarrow> DefName (nodes h) (cnode (curs h d))
      | None \<Rightarrow> if hIs (nodes h) (cnode (curs h c)) ''defn'' then DefName (nodes h) (cnode (curs h c)) else [])"

definition IsItem :: "nat \<Rightarrow> heap \<Rightarrow> bool \<times> heap" where
  "IsItem c h =
     (case cin (curs h c) of
        None \<Rightarrow> (False, h)
      | Some l \<Rightarrow>
          if hHead (nodes h) l \<in> {''block'', ''stmt-expr''} then
            (case Index c h of (Some i, h1) \<Rightarrow> (i > 0, h1) | (None, h1) \<Rightarrow> (False, h1))
          else if hHead (nodes h) l = ''defn'' then
            (case Index c h of
               (Some i, h1) \<Rightarrow> (i > 0 \<and> i + length (Body (nodes h1) l) \<ge> length (nkids (nodes h1 l)), h1)
             | (None, h1) \<Rightarrow> (False, h1))
          else (False, h))"

fun live_from :: "nat \<Rightarrow> nat option \<Rightarrow> heap \<Rightarrow> bool \<times> heap" where
  "live_from 0 u h = (True, h)"
| "live_from (Suc fuel) None h = (True, h)"
| "live_from (Suc fuel) (Some u) h =
     (if cin (curs h u) = None then (True, h)
      else (case Index u h of
          (None, h1) \<Rightarrow> (False, h1)
        | (Some _, h1) \<Rightarrow> live_from fuel (cup (curs h1 u)) h1))"

definition Live :: "nat \<Rightarrow> heap \<Rightarrow> bool \<times> heap" where
  "Live c h = live_from (cnext h + 1) (Some c) h"

fun item_from :: "nat \<Rightarrow> nat option \<Rightarrow> heap \<Rightarrow> nat option \<times> heap" where
  "item_from 0 u h = (None, h)"
| "item_from (Suc fuel) None h = (None, h)"
| "item_from (Suc fuel) (Some u) h =
     (case IsItem u h of
        (True, h1) \<Rightarrow> (Some u, h1)
      | (False, h1) \<Rightarrow> item_from fuel (cup (curs h1 u)) h1)"

definition Item :: "nat \<Rightarrow> heap \<Rightarrow> nat option \<times> heap" where
  "Item c h = item_from (cnext h + 1) (Some c) h"

subsection \<open>Edits\<close>

text \<open>An edit at the cursor's place in its list, and what the edit notes in the cursor.\<close>

definition edit_at :: "nat \<Rightarrow> (nat \<Rightarrow> nat list \<Rightarrow> nat list) \<Rightarrow> (cobj \<Rightarrow> cobj) \<Rightarrow> heap \<Rightarrow> heap" where
  "edit_at c f note h =
     (case Index c h of
        (None, h1) \<Rightarrow> h1
      | (Some i, h1) \<Rightarrow>
          (case cin (curs h1 c) of
             None \<Rightarrow> h1
           | Some l \<Rightarrow> set_cur c (note (curs h1 c)) (set_kids l (f i (nkids (nodes h1 l))) h1)))"

definition splice :: "nat \<Rightarrow> nat list \<Rightarrow> nat list \<Rightarrow> nat list" where
  "splice at ns xs = take at xs @ ns @ drop at xs"

definition Delete :: "nat \<Rightarrow> heap \<Rightarrow> heap" where
  "Delete c = edit_at c (\<lambda>i xs. take i xs @ drop (i + 1) xs) (\<lambda>k. k\<lparr>cgone := True\<rparr>)"

definition Replace :: "nat \<Rightarrow> nat list \<Rightarrow> heap \<Rightarrow> heap" where
  "Replace c ns = edit_at c (\<lambda>i xs. take i xs @ ns @ drop (i + 1) xs)
     (\<lambda>k. k\<lparr>cgone := True, cafter := cafter k + length ns\<rparr>)"

definition InsertBefore :: "nat \<Rightarrow> nat list \<Rightarrow> heap \<Rightarrow> heap" where
  "InsertBefore c ns = edit_at c (\<lambda>i. splice i ns) (\<lambda>k. k\<lparr>cpos := cpos k + length ns\<rparr>)"

definition InsertAfter :: "nat \<Rightarrow> nat list \<Rightarrow> heap \<Rightarrow> heap" where
  "InsertAfter c ns = edit_at c (\<lambda>i. splice (i + 1) ns) (\<lambda>k. k\<lparr>cafter := cafter k + length ns\<rparr>)"

text \<open>\<open>FoldNever\<close> panics, \<open>None\<close>, on an \<open>if\<close> of fewer than two arguments.\<close>

definition FoldNever :: "nat \<Rightarrow> heap \<Rightarrow> (bool \<times> heap) option" where
  "FoldNever c h =
     (let n = cnode (curs h c); args = hArgs (nodes h) n in
      if \<not> hIs (nodes h) n ''if'' then Some (False, h)
      else if length args = 2 then Some (True, Delete c h)
      else if length args < 2 then None
      else if hIs (nodes h) (args ! 2) ''block'' then Some (True, Replace c (hArgs (nodes h) (args ! 2)) h)
      else Some (True, Replace c [args ! 2] h))"

subsection \<open>Walks\<close>

text \<open>
  The callbacks get and return what they keep between calls.  \<open>walk_kids\<close> is the loop over
  the list of \<open>l\<close>; it reads the list again at every turn, as the code does.
\<close>

type_synonym 's pre = "nat \<Rightarrow> 's \<Rightarrow> heap \<Rightarrow> bool \<times> 's \<times> heap"
type_synonym 's post = "nat \<Rightarrow> 's \<Rightarrow> heap \<Rightarrow> 's \<times> heap"

definition next_pos :: "nat \<Rightarrow> heap \<Rightarrow> nat \<times> heap" where
  "next_pos k h =
     (if cgone (curs h k) then (cpos (curs h k) + cafter (curs h k), h)
      else (case Index k h of
          (Some i, h1) \<Rightarrow> (i + 1 + cafter (curs h1 k), h1)
        | (None, h1) \<Rightarrow> (cafter (curs h1 k), h1)))"

definition goes_in :: "nat \<Rightarrow> heap \<Rightarrow> bool" where
  "goes_in c h \<longleftrightarrow> \<not> cgone (curs h c) \<and> nlist (nodes h (cnode (curs h c)))"

fun walk :: "nat \<Rightarrow> 's pre option \<Rightarrow> 's post option \<Rightarrow> nat \<Rightarrow> 's \<Rightarrow> heap \<Rightarrow> ('s \<times> heap) option"
  and walk_kids :: "nat \<Rightarrow> 's pre option \<Rightarrow> 's post option \<Rightarrow> nat \<Rightarrow> nat \<Rightarrow> nat \<Rightarrow> 's \<Rightarrow> heap \<Rightarrow> ('s \<times> heap) option" where
  "walk 0 pre post c s h = None"
| "walk (Suc fuel) pre post c s h =
     (case (case pre of None \<Rightarrow> (True, s, h) | Some f \<Rightarrow> f c s h) of
        (False, s1, h1) \<Rightarrow> Some (s1, h1)
      | (True, s1, h1) \<Rightarrow>
          (case (if goes_in c h1 then walk_kids fuel pre post c (cnode (curs h1 c)) 0 s1 h1 else Some (s1, h1)) of
             None \<Rightarrow> None
           | Some (s2, h2) \<Rightarrow>
               (case post of
                  Some g \<Rightarrow> if cgone (curs h2 c) then Some (s2, h2) else Some (g c s2 h2)
                | None \<Rightarrow> Some (s2, h2))))"
| "walk_kids 0 pre post c l i s h = None"
| "walk_kids (Suc fuel) pre post c l i s h =
     (if i \<ge> length (nkids (nodes h l)) then Some (s, h)
      else
        let (k, h1) = new_cur \<lparr>cnode = nkids (nodes h l) ! i, cin = Some l, cpos = i, cup = Some c,
          cgone = False, cafter = 0\<rparr> h in
        (case walk fuel pre post k s h1 of
           None \<Rightarrow> None
         | Some (s2, h2) \<Rightarrow> (let (i', h3) = next_pos k h2 in walk_kids fuel pre post c l i' s2 h3)))"

definition root_cur :: "nat \<Rightarrow> cobj" where
  "root_cur n = \<lparr>cnode = n, cin = None, cpos = 0, cup = None, cgone = False, cafter = 0\<rparr>"

definition Walk :: "nat \<Rightarrow> nat \<Rightarrow> 's pre option \<Rightarrow> 's post option \<Rightarrow> 's \<Rightarrow> heap \<Rightarrow> ('s \<times> heap) option" where
  "Walk fuel root pre post s h = (let (c, h1) = new_cur (root_cur root) h in walk fuel pre post c s h1)"

subsection \<open>Searches\<close>

definition collect :: "(store \<Rightarrow> nat \<Rightarrow> bool) \<Rightarrow> nat list pre" where
  "collect accept c out h = (True, (if accept (nodes h) (cnode (curs h c)) then out @ [c] else out), h)"

definition Find :: "nat \<Rightarrow> nat \<Rightarrow> (store \<Rightarrow> nat \<Rightarrow> bool) \<Rightarrow> heap \<Rightarrow> (nat list \<times> heap) option" where
  "Find fuel root accept h = Walk fuel root (Some (collect accept)) None [] h"

definition Heads :: "nat \<Rightarrow> nat \<Rightarrow> bytes \<Rightarrow> heap \<Rightarrow> (nat list \<times> heap) option" where
  "Heads fuel root s h = Find fuel root (\<lambda>N n. hIs N n s) h"

definition Atoms :: "nat \<Rightarrow> nat \<Rightarrow> bytes \<Rightarrow> heap \<Rightarrow> (nat list \<times> heap) option" where
  "Atoms fuel root s h = Find fuel root (\<lambda>N n. \<not> nlist (N n) \<and> natom (N n) = s) h"

fun definition_at :: "heap \<Rightarrow> bytes \<Rightarrow> nat \<Rightarrow> nat list \<Rightarrow> (nat \<times> nat) option" where
  "definition_at h name i [] = None"
| "definition_at h name i (f # fs) =
     (if hIs (nodes h) f ''defn'' \<and> DefName (nodes h) f = name then Some (i, f) else definition_at h name (i + 1) fs)"

definition Definition :: "nat \<Rightarrow> bytes \<Rightarrow> heap \<Rightarrow> nat option \<times> heap" where
  "Definition root name h =
     (let (rc, h1) = new_cur (root_cur root) h in
      case definition_at h1 name 0 (nkids (nodes h1 root)) of
        None \<Rightarrow> (None, h1)
      | Some (i, f) \<Rightarrow>
          let (c, h2) = new_cur \<lparr>cnode = f, cin = Some root, cpos = i, cup = Some rc, cgone = False, cafter = 0\<rparr> h1
          in (Some c, h2))"

definition FindIn :: "nat \<Rightarrow> nat \<Rightarrow> bytes \<Rightarrow> (store \<Rightarrow> nat \<Rightarrow> bool) \<Rightarrow> heap \<Rightarrow> (nat list option \<times> heap) option" where
  "FindIn fuel root name accept h =
     (case Definition root name h of
        (None, h1) \<Rightarrow> Some (None, h1)
      | (Some d, h1) \<Rightarrow> map_option (map_prod Some id) (walk fuel (Some (collect accept)) None d [] h1))"

subsection \<open>Mentions\<close>

definition identByte :: "byte \<Rightarrow> bool" where
  "identByte c \<longleftrightarrow> c = CHR ''_'' \<or> is_lower c \<or> is_upper c \<or> is_digit c"

text \<open>\<open>strings.Index\<close>.\<close>

fun find_sub :: "bytes \<Rightarrow> bytes \<Rightarrow> nat option" where
  "find_sub w [] = (if w = [] then Some 0 else None)"
| "find_sub w (c # s) = (if has_prefix (c # s) w then Some 0 else map_option Suc (find_sub w s))"

definition whole_word :: "bytes \<Rightarrow> bytes \<Rightarrow> nat \<Rightarrow> bool" where
  "whole_word s w i \<longleftrightarrow>
     \<not> ((i > 0 \<and> identByte (s ! (i - 1))) \<or> (i + length w < length s \<and> identByte (s ! (i + length w))))"

text \<open>The loop of \<open>wordsIn\<close>; \<open>None\<close> is the panic at a slice past the end.\<close>

function words_from :: "bytes \<Rightarrow> bytes \<Rightarrow> nat \<Rightarrow> nat option" where
  "words_from s w pos =
     (if pos > length s then None
      else (case find_sub w (drop pos s) of
          None \<Rightarrow> Some 0
        | Some k \<Rightarrow>
            map_option (\<lambda>n. if whole_word s w (pos + k) then n + 1 else n) (words_from s w (pos + k + 1))))"
  by pat_completeness auto
termination
  by (relation "measure (\<lambda>(s, w, pos). length s + 1 - pos)") auto

declare words_from.simps [simp del]

definition wordsIn :: "bytes \<Rightarrow> bytes \<Rightarrow> nat option" where
  "wordsIn s w = words_from s w 0"

definition quoted :: "bytes \<Rightarrow> bool" where
  "quoted a \<longleftrightarrow> dquote \<in> set a \<or> squote \<in> set a"

definition mention :: "bytes \<Rightarrow> bool \<Rightarrow> bytes \<Rightarrow> nat option" where
  "mention name inLiterals a =
     (if a = name \<or> a = CHR ''.'' # name then Some 1
      else if inLiterals \<and> quoted a \<and> find_sub name a \<noteq> None then wordsIn a name
      else Some 0)"

definition count_mention :: "bytes \<Rightarrow> bool \<Rightarrow> nat option pre" where
  "count_mention name inLiterals c n h =
     (True,
      (let x = nodes h (cnode (curs h c)) in
       if nlist x then n
       else case n of
          None \<Rightarrow> None
        | Some m \<Rightarrow> map_option (\<lambda>d. m + d) (mention name inLiterals (natom x))),
      h)"

text \<open>The count, \<open>None\<close> inside for a panic of \<open>wordsIn\<close>.\<close>

definition Mentions :: "nat \<Rightarrow> nat \<Rightarrow> bytes \<Rightarrow> bool \<Rightarrow> heap \<Rightarrow> (nat option \<times> heap) option" where
  "Mentions fuel root name inLiterals h =
     Walk fuel root (Some (count_mention name inLiterals)) None (Some 0) h"

subsection \<open>The index\<close>

record index =
  atoms :: "bytes \<Rightarrow> nat list"
  quoteds :: "nat list"

definition index_atom :: "index pre" where
  "index_atom c ix h =
     (True,
      (let x = nodes h (cnode (curs h c)) in
       if nlist x then ix
       else if quoted (natom x) then ix\<lparr>quoteds := quoteds ix @ [c]\<rparr>
       else ix\<lparr>atoms := (atoms ix)(natom x := atoms ix (natom x) @ [c])\<rparr>),
      h)"

definition NewIndex :: "nat \<Rightarrow> nat \<Rightarrow> heap \<Rightarrow> (index \<times> heap) option" where
  "NewIndex fuel root h = Walk fuel root (Some index_atom) None \<lparr>atoms = (\<lambda>_. []), quoteds = []\<rparr> h"

fun live_only :: "nat list \<Rightarrow> heap \<Rightarrow> nat list \<times> heap" where
  "live_only [] h = ([], h)"
| "live_only (c # cs) h =
     (case Live c h of (v, h1) \<Rightarrow>
      case live_only cs h1 of (out, h2) \<Rightarrow> (if v then c # out else out, h2))"

definition IndexAtoms :: "index \<Rightarrow> bytes \<Rightarrow> heap \<Rightarrow> nat list \<times> heap" where
  "IndexAtoms ix s h = live_only (atoms ix s) h"

fun quoted_mentions :: "bytes \<Rightarrow> nat list \<Rightarrow> heap \<Rightarrow> nat option \<times> heap" where
  "quoted_mentions name [] h = (Some 0, h)"
| "quoted_mentions name (c # cs) h =
     (let a = natom (nodes h (cnode (curs h c))) in
      if find_sub name a = None then quoted_mentions name cs h
      else (case Live c h of (v, h1) \<Rightarrow>
        case quoted_mentions name cs h1 of (n, h2) \<Rightarrow>
          (if v then
             (case wordsIn a name of None \<Rightarrow> None | Some d \<Rightarrow> map_option (\<lambda>m. d + m) n)
           else n, h2)))"

definition IndexMentions :: "index \<Rightarrow> bytes \<Rightarrow> bool \<Rightarrow> heap \<Rightarrow> nat option \<times> heap" where
  "IndexMentions ix name inLiterals h =
     (case IndexAtoms ix name h of (as, h1) \<Rightarrow>
      case IndexAtoms ix (CHR ''.'' # name) h1 of (ds, h2) \<Rightarrow>
        (if inLiterals then
           (case quoted_mentions name (quoteds ix) h2 of
              (n, h3) \<Rightarrow> (map_option (\<lambda>m. length as + length ds + m) n, h3))
         else (Some (length as + length ds), h2)))"

end
