(* ===== verification/TreeWalks.thy ===== *)
theory TreeWalks
  imports TreeApi
begin

text \<open>
  What the walks and the edits of crefactor/clisp/tree.go do to the tree on the heap: a walk
  that only reads visits every node once, in order, and its cursors are live; a walk whose
  callback replaces nodes, or deletes them, edits every list it reaches and nothing else; and
  cursors stay good while their siblings are cut.
\<close>

subsection \<open>Trees on the heap\<close>

datatype itree = INode (iid: nat) (ikids: "itree list")

fun ids :: "itree \<Rightarrow> nat list" where
  "ids (INode x ts) = x # concat (map ids ts)"

fun rep :: "store \<Rightarrow> itree \<Rightarrow> bool" where
  "rep N (INode x ts) \<longleftrightarrow>
     nkids (N x) = map iid ts \<and> (ts \<noteq> [] \<longrightarrow> nlist (N x)) \<and> (\<forall>t \<in> set ts. rep N t)"

abbreviation (input) forest_ids :: "itree list \<Rightarrow> nat list" where
  "forest_ids ts \<equiv> concat (map ids ts)"

lemma ids_iid: "ids t = iid t # forest_ids (ikids t)"
  by (cases t) simp

lemma rep_kids: "rep N t \<Longrightarrow> nkids (N (iid t)) = map iid (ikids t) \<and> (\<forall>u \<in> set (ikids t). rep N u)"
  by (cases t) auto

lemma rep_leaf: "rep N t \<Longrightarrow> \<not> nlist (N (iid t)) \<Longrightarrow> ikids t = []"
  by (cases t) auto

lemma rep_cong: "rep N t \<Longrightarrow> (\<And>x. x \<in> set (ids t) \<Longrightarrow> N' x = N x) \<Longrightarrow> rep N' t"
proof (induction t)
  case (INode x ts)
  have "rep N' u" if u: "u \<in> set ts" for u
  proof (rule INode.IH [OF u])
    show "rep N u" using INode.prems(1) u by simp
    show "N' y = N y" if "y \<in> set (ids u)" for y using INode.prems(2) [of y] u that by auto
  qed
  moreover have "N' x = N x" using INode.prems(2) by simp
  ultimately show ?case using INode.prems(1) by simp
qed

lemma curs_set_cur [simp]: "curs (set_cur c k h) = (curs h)(c := k)" "nodes (set_cur c k h) = nodes h"
  "cnext (set_cur c k h) = cnext h"
  by (simp_all add: set_cur_def)

lemma nodes_set_kids [simp]: "nodes (set_kids l xs h) = (nodes h)(l := (nodes h l)\<lparr>nkids := xs\<rparr>)"
  "curs (set_kids l xs h) = curs h" "cnext (set_kids l xs h) = cnext h"
  by (simp_all add: set_kids_def)

lemma new_cur_simps [simp]: "new_cur k h = (cnext h, h\<lparr>curs := (curs h)(cnext h := k), cnext := cnext h + 1\<rparr>)"
  by (simp add: new_cur_def)

lemma Index_in_place:
  "cin (curs h c) = Some l \<Longrightarrow> \<not> cgone (curs h c) \<Longrightarrow> cpos (curs h c) < length (nkids (nodes h l)) \<Longrightarrow>
     nkids (nodes h l) ! cpos (curs h c) = cnode (curs h c) \<Longrightarrow> Index c h = (Some (cpos (curs h c)), h)"
  by (simp add: Index_def in_list_def)

subsection \<open>A walk that reads\<close>

text \<open>A callback that changes nothing on the heap and always goes in.\<close>

definition reader :: "(store \<Rightarrow> nat \<Rightarrow> nat \<Rightarrow> 's \<Rightarrow> 's) \<Rightarrow> 's pre" where
  "reader g c s h = (True, g (nodes h) (cnode (curs h c)) c s, h)"

definition visits :: "(store \<Rightarrow> nat \<Rightarrow> nat \<Rightarrow> 's \<Rightarrow> 's) \<Rightarrow> store \<Rightarrow> (nat \<times> nat) list \<Rightarrow> 's \<Rightarrow> 's" where
  "visits g N ps s = fold (\<lambda>(c, x). g N x c) ps s"

lemma visits_append: "visits g N (ps @ qs) s = visits g N qs (visits g N ps s)"
  by (simp add: visits_def)

text \<open>The cursor \<open>k\<close> is where it was made, under a cursor on its list.\<close>

definition placed_cur :: "heap \<Rightarrow> nat \<Rightarrow> nat \<Rightarrow> nat \<Rightarrow> bool" where
  "placed_cur h c lo k \<longleftrightarrow>
     (\<exists>l u. cin (curs h k) = Some l \<and> cup (curs h k) = Some u \<and> (u = c \<or> lo \<le> u) \<and> u < k \<and>
       cnode (curs h u) = l \<and> cpos (curs h k) < length (nkids (nodes h l)) \<and>
       nkids (nodes h l) ! cpos (curs h k) = cnode (curs h k) \<and> \<not> cgone (curs h k))"

definition grown :: "nat \<Rightarrow> heap \<Rightarrow> nat list \<Rightarrow> heap \<Rightarrow> bool" where
  "grown c h xs h' \<longleftrightarrow>
     nodes h' = nodes h \<and> cnext h' = cnext h + length xs \<and> (\<forall>k < cnext h. curs h' k = curs h k) \<and>
     map (\<lambda>k. cnode (curs h' k)) [cnext h..<cnext h'] = xs \<and>
     (\<forall>k. cnext h \<le> k \<longrightarrow> k < cnext h' \<longrightarrow> placed_cur h' c (cnext h) k)"

lemma grown_refl: "grown c h [] h"
  by (simp add: grown_def)

lemma placed_cur_mono:
  assumes "placed_cur h c lo k" "k < n" "\<forall>j < n. curs h' j = curs h j" "nodes h' = nodes h"
    "c' \<le> lo" "c = c' \<or> lo' \<le> c" "lo' \<le> lo"
  shows "placed_cur h' c' lo' k"
proof -
  from assms(1) obtain l u where u: "cin (curs h k) = Some l" "cup (curs h k) = Some u" "u = c \<or> lo \<le> u" "u < k"
      "cnode (curs h u) = l" "cpos (curs h k) < length (nkids (nodes h l))"
      "nkids (nodes h l) ! cpos (curs h k) = cnode (curs h k)" "\<not> cgone (curs h k)"
    unfolding placed_cur_def by blast
  have "curs h' k = curs h k" "curs h' u = curs h u" using assms(2,3) u(4) by auto
  moreover have "u = c' \<or> lo' \<le> u" using u(3) assms(6,7) by auto
  ultimately show ?thesis
    unfolding placed_cur_def using u assms(4) by (intro exI [of _ l] exI [of _ u]) simp
qed

lemma grown_child:
  assumes c: "c < cnext h"
    and h1: "nodes h1 = nodes h" "cnext h1 = cnext h + 1" "\<forall>k < cnext h. curs h1 k = curs h k"
      "placed_cur h1 c (cnext h) (cnext h)" "cnode (curs h1 (cnext h)) = x"
    and h2: "grown (cnext h) h1 xs h2" and h3: "grown c h2 ys h3"
  shows "grown c h (x # xs @ ys) h3"
proof -
  have n: "cnext h2 = cnext h + 1 + length xs" "cnext h3 = cnext h + 1 + length xs + length ys"
    "nodes h2 = nodes h" "nodes h3 = nodes h"
    using h1 h2 h3 by (auto simp: grown_def)
  have same: "curs h2 k = curs h1 k" if "k < cnext h + 1" for k using h1(2) h2 that by (simp add: grown_def)
  have same3: "curs h3 k = curs h2 k" if "k < cnext h2" for k using h3 that by (simp add: grown_def)
  have old: "\<forall>k < cnext h. curs h3 k = curs h k" using same same3 h1(3) n by simp
  have head: "cnode (curs h3 (cnext h)) = x" using same [of "cnext h"] same3 [of "cnext h"] n h1(5) by simp
  have mid: "map (\<lambda>k. cnode (curs h3 k)) [cnext h + 1..<cnext h2] = xs"
  proof -
    have "map (\<lambda>k. cnode (curs h3 k)) [cnext h + 1..<cnext h2] = map (\<lambda>k. cnode (curs h2 k)) [cnext h1..<cnext h2]"
      using same3 h1(2) by (intro map_cong) auto
    also have "\<dots> = xs" using h2 unfolding grown_def by blast
    finally show ?thesis .
  qed
  have split: "[cnext h..<cnext h3] = cnext h # [cnext h + 1..<cnext h2] @ [cnext h2..<cnext h3]"
  proof -
    have "[cnext h..<cnext h3] = cnext h # [Suc (cnext h)..<cnext h3]"
      by (rule upt_conv_Cons) (use n(2) in linarith)
    moreover have "[cnext h + 1..<cnext h2 + length ys] = [cnext h + 1..<cnext h2] @ [cnext h2..<cnext h2 + length ys]"
      by (rule upt_add_eq_append) (use n in simp)
    moreover have "cnext h3 = cnext h2 + length ys" using n by linarith
    ultimately show ?thesis by (simp only: Suc_eq_plus1)
  qed
  have seq: "map (\<lambda>k. cnode (curs h3 k)) [cnext h..<cnext h3] = x # xs @ ys"
  proof -
    have "map (\<lambda>k. cnode (curs h3 k)) [cnext h2..<cnext h3] = ys" using h3 unfolding grown_def by blast
    then show ?thesis unfolding split by (simp only: list.map map_append head mid)
  qed
  have "placed_cur h3 c (cnext h) k" if k: "cnext h \<le> k" "k < cnext h3" for k
  proof -
    consider "k = cnext h" | "cnext h + 1 \<le> k" "k < cnext h2" | "cnext h2 \<le> k" using k n by linarith
    then show ?thesis
    proof cases
      case 1
      have "\<forall>j < cnext h + 1. curs h3 j = curs h1 j" using same same3 n by simp
      with h1(1,4) 1 n c show ?thesis
        using placed_cur_mono [of h1 c "cnext h" k "cnext h + 1" h3 c "cnext h"] by auto
    next
      case 2
      with h1(2) h2 have "placed_cur h2 (cnext h) (cnext h1) k" by (simp add: grown_def)
      then show ?thesis
        by (rule placed_cur_mono [where n = "cnext h2"]) (use 2 same3 n h1(2) c in auto)
    next
      case 3
      with h3 k have "placed_cur h3 c (cnext h2) k" by (simp add: grown_def)
      then show ?thesis by (rule placed_cur_mono [where n = "cnext h3"]) (use k n c in auto)
    qed
  qed
  with n old seq show ?thesis by (simp add: grown_def)
qed

definition kid_cur :: "nat \<Rightarrow> nat \<Rightarrow> nat \<Rightarrow> nat \<Rightarrow> cobj" where
  "kid_cur c l i x = \<lparr>cnode = x, cin = Some l, cpos = i, cup = Some c, cgone = False, cafter = 0\<rparr>"

definition add_cur :: "cobj \<Rightarrow> heap \<Rightarrow> heap" where
  "add_cur k h = h\<lparr>curs := (curs h)(cnext h := k), cnext := cnext h + 1\<rparr>"

lemma add_cur_simps [simp]:
  "nodes (add_cur k h) = nodes h" "cnext (add_cur k h) = cnext h + 1"
  "curs (add_cur k h) = (curs h)(cnext h := k)"
  by (simp_all add: add_cur_def)

lemma walk_kids_step:
  "i < length (nkids (nodes h l)) \<Longrightarrow> walk_kids (Suc fuel) pre post c l i s h =
     (case walk fuel pre post (cnext h) s (add_cur (kid_cur c l i (nkids (nodes h l) ! i)) h) of
        None \<Rightarrow> None
      | Some (s2, h2) \<Rightarrow> (let (i', h3) = next_pos (cnext h) h2 in walk_kids fuel pre post c l i' s2 h3))"
  by (simp add: kid_cur_def add_cur_def)

declare walk_kids.simps(2) [simp del]

lemma walk_kids_end: "length (nkids (nodes h l)) \<le> i \<Longrightarrow> walk_kids (Suc fuel) pre post c l i s h = Some (s, h)"
  by (simp add: walk_kids.simps(2))

lemma length_ids: "length (ids t) = Suc (length (forest_ids (ikids t)))"
  by (cases t) simp

text \<open>The loop over a list, given the walks of its elements.\<close>

lemma walk_kids_read:
  assumes walks: "\<And>t h c s fuel. t \<in> set ts \<Longrightarrow> nodes h = N \<Longrightarrow> c < cnext h \<Longrightarrow> cnode (curs h c) = iid t \<Longrightarrow>
      \<not> cgone (curs h c) \<Longrightarrow> 2 * length (ids t) \<le> fuel \<Longrightarrow>
      \<exists>h'. walk fuel (Some (reader g)) None c s h =
        Some (visits g N ((c, iid t) # enumerate (cnext h) (forest_ids (ikids t))) s, h') \<and>
        grown c h (forest_ids (ikids t)) h'"
    and "nodes h = N" "c < cnext h" "cnode (curs h c) = l" "nkids (N l) = xs @ map iid ts" "length xs = i"
      "2 * length (forest_ids ts) + 1 \<le> fuel"
  shows "\<exists>h'. walk_kids fuel (Some (reader g)) None c l i s h =
      Some (visits g N (enumerate (cnext h) (forest_ids ts)) s, h') \<and> grown c h (forest_ids ts) h'"
  using assms
proof (induction ts arbitrary: h s i fuel xs)
  case Nil
  then obtain f where "fuel = Suc f" by (cases fuel) auto
  with Nil.prems have "walk_kids fuel (Some (reader g)) None c l i s h = Some (s, h)"
    by (simp add: walk_kids_end)
  then show ?case by (simp add: visits_def grown_refl)
next
  case (Cons t ts)
  note prems = Cons.prems
  from prems(7) obtain f where f: "fuel = Suc f" by (cases fuel) auto
  let ?k = "cnext h"
  let ?h1 = "add_cur (kid_cur c l i (iid t)) h"
  have len: "length (ids t) = Suc (length (forest_ids (ikids t)))" by (rule length_ids)
  have at_i: "nkids (N l) ! i = iid t" "i < length (nkids (N l))" using prems(5,6) by (auto simp: nth_append)
  have cur: "curs ?h1 ?k = kid_cur c l i (iid t)" by simp
  obtain h2 where w: "walk f (Some (reader g)) None ?k s ?h1 =
        Some (visits g N ((?k, iid t) # enumerate (?k + 1) (forest_ids (ikids t))) s, h2)"
      and g2: "grown ?k ?h1 (forest_ids (ikids t)) h2"
    using prems(1) [of t ?h1 ?k f s] prems(2,7) f len by (auto simp: kid_cur_def)
  have n2: "nodes h2 = N" "cnext h2 = cnext h + 1 + length (forest_ids (ikids t))" "curs h2 ?k = kid_cur c l i (iid t)"
    using g2 prems(2) by (auto simp: grown_def)
  have nx: "next_pos ?k h2 = (i + 1, h2)"
    using n2 at_i by (simp add: next_pos_def kid_cur_def Index_in_place)
  have c2: "c < cnext h2" "cnode (curs h2 c) = l" using n2 prems(3,4) g2 by (auto simp: grown_def)
  obtain h3 where w3: "walk_kids f (Some (reader g)) None c l (i + 1)
        (visits g N ((?k, iid t) # enumerate (?k + 1) (forest_ids (ikids t))) s) h2 =
        Some (visits g N (enumerate (cnext h2) (forest_ids ts))
          (visits g N ((?k, iid t) # enumerate (?k + 1) (forest_ids (ikids t))) s), h3)"
      and g3: "grown c h2 (forest_ids ts) h3"
    using Cons.IH [of h2 "xs @ [iid t]" "i + 1" f] prems(1,5,6,7) n2(1) c2 f len by fastforce
  have "walk_kids fuel (Some (reader g)) None c l i s h =
      Some (visits g N (enumerate (cnext h) (forest_ids (t # ts))) s, h3)"
    using walk_kids_step [of i h l f "Some (reader g)" None c s] at_i prems(2) w nx w3 f n2(2)
    by (simp add: ids_iid [of t] enumerate_append_eq visits_append [symmetric])
  moreover have "grown c h (iid t # forest_ids (ikids t) @ forest_ids ts) h3"
  proof (rule grown_child [OF prems(3) _ _ _ _ _ g2 g3])
    show "placed_cur ?h1 c (cnext h) (cnext h)"
      using prems(2-4) at_i by (auto simp: placed_cur_def kid_cur_def)
  qed (simp_all add: kid_cur_def)
  ultimately show ?case by (auto simp: ids_iid [of t])
qed

lemma walk_read:
  "rep N t \<Longrightarrow> nodes h = N \<Longrightarrow> c < cnext h \<Longrightarrow> cnode (curs h c) = iid t \<Longrightarrow> \<not> cgone (curs h c) \<Longrightarrow>
     2 * length (ids t) \<le> fuel \<Longrightarrow>
     \<exists>h'. walk fuel (Some (reader g)) None c s h =
       Some (visits g N ((c, iid t) # enumerate (cnext h) (forest_ids (ikids t))) s, h') \<and>
       grown c h (forest_ids (ikids t)) h'"
proof (induction t arbitrary: h c s fuel)
  case (INode x ts)
  note prems = INode.prems
  from prems(6) obtain f where f: "fuel = Suc f" by (cases fuel) auto
  let ?s = "g N x c s"
  have pre: "reader g c s h = (True, ?s, h)" using prems(2,4) by (simp add: reader_def)
  have kids: "nkids (N x) = map iid ts" using prems(1) by simp
  show ?case
  proof (cases "nlist (N x)")
    case True
    have "\<exists>h'. walk_kids f (Some (reader g)) None c x 0 ?s h =
        Some (visits g N (enumerate (cnext h) (forest_ids ts)) ?s, h') \<and> grown c h (forest_ids ts) h'"
    proof (rule walk_kids_read)
      fix t and h :: heap and c s fuel
      assume "t \<in> set ts" "nodes h = N" "c < cnext h" "cnode (curs h c) = iid t" "\<not> cgone (curs h c)"
        "2 * length (ids t) \<le> fuel"
      with INode.IH prems(1)
      show "\<exists>h'. walk fuel (Some (reader g)) None c s h =
        Some (visits g N ((c, iid t) # enumerate (cnext h) (forest_ids (ikids t))) s, h') \<and>
        grown c h (forest_ids (ikids t)) h'" by auto
    qed (use prems f kids in \<open>auto intro: exI [of _ "[]"]\<close>)
    then show ?thesis
      using f pre prems(2,4,5) True by (auto simp: goes_in_def visits_def)
  next
    case False
    with prems(1) have "ts = []" by auto
    with f pre prems(2,4) False show ?thesis by (simp add: goes_in_def visits_def grown_refl)
  qed
qed

text \<open>The cursors from \<open>lo\<close> on: the first is on the root, each is where it was made.\<close>

definition all_placed :: "heap \<Rightarrow> nat \<Rightarrow> nat list \<Rightarrow> bool" where
  "all_placed h lo xs \<longleftrightarrow>
     (\<forall>(k, x) \<in> set (enumerate lo xs). cnode (curs h k) = x \<and> k < cnext h \<and> fst (Live k h) \<and> snd (Live k h) = h)"

lemma live_from_placed:
  assumes "cin (curs h lo) = None" "\<And>k. lo < k \<Longrightarrow> k < n \<Longrightarrow> placed_cur h lo (lo + 1) k"
  shows "lo \<le> k \<Longrightarrow> k < n \<Longrightarrow> k < fuel \<Longrightarrow> live_from fuel (Some k) h = (True, h)"
proof (induction k arbitrary: fuel rule: less_induct)
  case (less k)
  then obtain f where f: "fuel = Suc f" by (cases fuel) auto
  show ?case
  proof (cases "k = lo")
    case True
    with f assms(1) show ?thesis by simp
  next
    case False
    with less.prems assms(2) [of k] obtain l u where p: "cin (curs h k) = Some l" "cup (curs h k) = Some u"
        "u = lo \<or> lo + 1 \<le> u" "u < k" "cpos (curs h k) < length (nkids (nodes h l))"
        "nkids (nodes h l) ! cpos (curs h k) = cnode (curs h k)" "\<not> cgone (curs h k)"
      by (auto simp: placed_cur_def)
    from less.IH [of u f] p(3,4) less.prems f have "live_from f (Some u) h = (True, h)" by auto
    with f p show ?thesis by (simp add: Index_in_place)
  qed
qed

lemma map_upt_enumerate: "map f [n..<n + length xs] = xs \<Longrightarrow> (k, x) \<in> set (enumerate n xs) \<Longrightarrow> f k = x"
proof -
  assume m: "map f [n..<n + length xs] = xs" and k: "(k, x) \<in> set (enumerate n xs)"
  from k have k: "n \<le> k" "k < n + length xs" "x = xs ! (k - n)" by (auto simp: in_set_enumerate_eq)
  have "map f [n..<n + length xs] ! (k - n) = f k" using k(1,2) by simp
  with m k(3) show ?thesis by simp
qed

lemma Walk_read:
  assumes t: "rep (nodes h) t" "iid t = root" and fuel: "2 * length (ids t) \<le> fuel"
  shows "\<exists>h'. Walk fuel root (Some (reader g)) None s h =
      Some (visits g (nodes h) (enumerate (cnext h) (ids t)) s, h') \<and>
      nodes h' = nodes h \<and> all_placed h' (cnext h) (ids t)"
proof -
  let ?c = "cnext h"
  let ?h1 = "add_cur (root_cur root) h"
  obtain h' where w: "walk fuel (Some (reader g)) None ?c s ?h1 =
        Some (visits g (nodes h) ((?c, iid t) # enumerate (?c + 1) (forest_ids (ikids t))) s, h')"
      and g: "grown ?c ?h1 (forest_ids (ikids t)) h'"
    using walk_read [OF t(1), of ?h1 ?c fuel g s] t(2) fuel by (auto simp: root_cur_def)
  from w have "Walk fuel root (Some (reader g)) None s h =
      Some (visits g (nodes h) (enumerate ?c (ids t)) s, h')"
    by (simp add: Walk_def add_cur_def ids_iid [of t])
  moreover have root: "curs h' ?c = root_cur root" "nodes h' = nodes h"
    "cnext h' = ?c + 1 + length (forest_ids (ikids t))"
    using g by (simp_all add: grown_def)
  moreover have "all_placed h' ?c (ids t)"
    unfolding all_placed_def
  proof (intro ballI, clarify)
    fix k x
    assume k: "(k, x) \<in> set (enumerate ?c (ids t))"
    then have range: "?c \<le> k" "k < cnext h'"
      using root(3) by (auto simp: ids_iid [of t] in_set_enumerate_eq)
    have live: "live_from (cnext h' + 1) (Some k) h' = (True, h')"
    proof (rule live_from_placed [OF _ _ range])
      show "cin (curs h' ?c) = None" using root(1) by (simp add: root_cur_def)
      show "placed_cur h' ?c (?c + 1) j" if "?c < j" "j < cnext h'" for j
        using g that by (simp add: grown_def)
    qed (use range in simp)
    have "cnode (curs h' k) = x"
    proof (cases "k = ?c")
      case True
      with k root(1) t(2) show ?thesis by (auto simp: ids_iid [of t] in_set_enumerate_eq root_cur_def)
    next
      case False
      with k have "(k, x) \<in> set (enumerate (?c + 1) (forest_ids (ikids t)))"
        by (auto simp: ids_iid [of t])
      moreover have "map (\<lambda>k. cnode (curs h' k)) [?c + 1..<?c + 1 + length (forest_ids (ikids t))] =
          forest_ids (ikids t)"
        using g root(3) unfolding grown_def by simp
      ultimately show ?thesis by (rule map_upt_enumerate [rotated])
    qed
    with live range show "cnode (curs h' k) = x \<and> k < cnext h' \<and> fst (Live k h') \<and> snd (Live k h') = h'"
      by (simp add: Live_def)
  qed
  ultimately show ?thesis by blast
qed

subsection \<open>Searches\<close>

lemma collect_reader: "collect accept = reader (\<lambda>N x c out. if accept N x then out @ [c] else out)"
  by (intro ext) (simp add: collect_def reader_def)

lemma visits_collect:
  "visits (\<lambda>N x c out. if accept N x then out @ [c] else out) N ps out =
     out @ map fst (filter (\<lambda>(c, x). accept N x) ps)"
  by (induction ps arbitrary: out) (auto simp: visits_def)

lemma Find_result:
  assumes "rep (nodes h) t" "iid t = root" "2 * length (ids t) \<le> fuel"
  shows "\<exists>h'. Find fuel root accept h =
      Some (map fst (filter (\<lambda>(c, x). accept (nodes h) x) (enumerate (cnext h) (ids t))), h') \<and>
      nodes h' = nodes h \<and> all_placed h' (cnext h) (ids t)"
  using Walk_read [OF assms, of "\<lambda>N x c out. if accept N x then out @ [c] else out" "[]"]
  by (simp add: Find_def collect_reader visits_collect)

lemma map_filter_enumerate:
  "(\<And>k x. (k, x) \<in> set (enumerate n xs) \<Longrightarrow> f k = x) \<Longrightarrow>
     map f (map fst (filter (\<lambda>(k, x). P x) (enumerate n xs))) = filter P xs"
proof (induction xs arbitrary: n)
  case (Cons x xs)
  from Cons.IH [of "Suc n"] Cons.prems show ?case by auto
qed simp

text \<open>
  C15. \<open>Find\<close> finds every node that the test accepts, root included, in the order of the text,
  and nothing else; each cursor it returns is on its node and live, and the tree is as it was.
\<close>

theorem Find_preorder:
  assumes "rep (nodes h) t" "iid t = root" "2 * length (ids t) \<le> fuel"
  shows "\<exists>cs h'. Find fuel root accept h = Some (cs, h') \<and>
    map (\<lambda>c. cnode (curs h' c)) cs = filter (accept (nodes h)) (ids t) \<and>
    (\<forall>c \<in> set cs. fst (Live c h')) \<and> nodes h' = nodes h"
proof -
  let ?cs = "map fst (filter (\<lambda>(c, x). accept (nodes h) x) (enumerate (cnext h) (ids t)))"
  obtain h' where f: "Find fuel root accept h = Some (?cs, h')" "nodes h' = nodes h"
      and p: "all_placed h' (cnext h) (ids t)"
    using Find_result [OF assms] by blast
  have at: "cnode (curs h' k) = x" "fst (Live k h')" if "(k, x) \<in> set (enumerate (cnext h) (ids t))" for k x
    using p that by (auto simp: all_placed_def)
  have "map (\<lambda>c. cnode (curs h' c)) ?cs = filter (accept (nodes h)) (ids t)"
    by (rule map_filter_enumerate) (rule at(1))
  with f at(2) show ?thesis by auto
qed

text \<open>The forms \<open>(f a b)\<close> and \<open>(g a)\<close> of one list, on a heap.\<close>

definition sample_store :: store where
  "sample_store n =
     (if n = 0 then \<lparr>natom = [], nlist = True, nkids = [1, 5]\<rparr>
      else if n = 1 then \<lparr>natom = [], nlist = True, nkids = [2, 3, 4]\<rparr>
      else if n = 5 then \<lparr>natom = [], nlist = True, nkids = [6, 7]\<rparr>
      else \<lparr>natom = (if n = 2 then ''f'' else if n = 6 then ''g'' else if n = 4 then ''b'' else ''a''),
        nlist = False, nkids = []\<rparr>)"

definition sample_heap :: heap where
  "sample_heap = \<lparr>nodes = sample_store, curs = (\<lambda>_. root_cur 0), cnext = 0\<rparr>"

definition sample_tree :: itree where
  "sample_tree = INode 0 [INode 1 [INode 2 [], INode 3 [], INode 4 []], INode 5 [INode 6 [], INode 7 []]]"

lemma sample_rep: "rep (nodes sample_heap) sample_tree" "iid sample_tree = 0" "length (ids sample_tree) = 8"
  by (simp_all add: sample_heap_def sample_tree_def sample_store_def)

theorem Find_preorder_witness:
  "\<exists>cs h'. Find 16 0 (\<lambda>N x. \<not> nlist (N x) \<and> natom (N x) = ''a'') sample_heap = Some (cs, h') \<and>
    map (\<lambda>c. cnode (curs h' c)) cs = [3, 7] \<and> (\<forall>c \<in> set cs. fst (Live c h')) \<and> nodes h' = sample_store"
proof -
  have "filter (\<lambda>x. \<not> nlist (sample_store x) \<and> natom (sample_store x) = ''a'') (ids sample_tree) = [3, 7]"
    by (simp add: sample_tree_def sample_store_def)
  moreover have "nodes sample_heap = sample_store" by (simp add: sample_heap_def)
  ultimately show ?thesis
    using Find_preorder [OF sample_rep(1,2), of 16 "\<lambda>N x. \<not> nlist (N x) \<and> natom (N x) = ''a''"] sample_rep(3) by simp
qed

subsection \<open>Whole words\<close>

lemma find_sub_Some:
  "find_sub w s = Some k \<Longrightarrow>
     has_prefix (drop k s) w \<and> (\<forall>j < k. \<not> has_prefix (drop j s) w) \<and> k + length w \<le> length s"
proof (induction s arbitrary: k)
  case (Cons c s)
  show ?case
  proof (cases "has_prefix (c # s) w")
    case True
    then have "length w \<le> length (c # s)" by (rule has_prefix_length)
    with True Cons.prems show ?thesis by auto
  next
    case False
    with Cons.prems obtain k' where "find_sub w s = Some k'" "k = Suc k'" by auto
    with Cons.IH [of k'] False show ?thesis by (auto simp: less_Suc_eq_0_disj)
  qed
qed (auto simp: has_prefix_def split: if_splits)

lemma find_sub_None: "find_sub w s = None \<Longrightarrow> \<not> has_prefix (drop j s) w"
proof (induction s arbitrary: j)
  case (Cons c s)
  then show ?case by (cases j) (auto split: if_splits)
qed (auto simp: has_prefix_def split: if_splits)

definition word_at :: "bytes \<Rightarrow> bytes \<Rightarrow> nat \<Rightarrow> bool" where
  "word_at s w i \<longleftrightarrow> has_prefix (drop i s) w \<and> whole_word s w i"

lemma words_from_count:
  "w \<noteq> [] \<Longrightarrow> pos \<le> length s \<Longrightarrow> words_from s w pos = Some (length (filter (word_at s w) [pos..<length s]))"
proof (induction s w pos rule: words_from.induct)
  case (1 s w pos)
  show ?case
  proof (cases "find_sub w (drop pos s)")
    case None
    have "\<not> word_at s w i" if "pos \<le> i" for i
      using find_sub_None [OF None, of "i - pos"] that by (simp add: word_at_def)
    then have "filter (word_at s w) [pos..<length s] = []" by (auto simp: filter_empty_conv)
    with None "1.prems" show ?thesis by (subst words_from.simps) simp
  next
    case (Some k)
    note f = find_sub_Some [OF Some]
    have k: "pos + k < length s" using f "1.prems"(1,2) by (cases w) auto
    have skip: "filter (word_at s w) [pos..<pos + k] = []"
    proof -
      have "\<not> word_at s w i" if "pos \<le> i" "i < pos + k" for i
        using f that by (auto simp: word_at_def dest: HOL.spec [of _ "i - pos"])
      then show ?thesis by (auto simp: filter_empty_conv)
    qed
    have "[pos..<length s] = [pos..<pos + k] @ [pos + k..<length s]"
      using upt_add_eq_append [of pos "pos + k" "length s - (pos + k)"] k by simp
    moreover have "[pos + k..<length s] = (pos + k) # [pos + k + 1..<length s]"
      using k by (simp add: upt_conv_Cons)
    moreover have "word_at s w (pos + k) \<longleftrightarrow> whole_word s w (pos + k)"
      using f by (simp add: word_at_def add.commute)
    moreover have "words_from s w (pos + k + 1) = Some (length (filter (word_at s w) [pos + k + 1..<length s]))"
      using "1.IH" [of k] Some "1.prems" k by simp
    ultimately show ?thesis
      using Some "1.prems" skip by (subst words_from.simps) simp
  qed
qed

text \<open>
  C17. \<open>wordsIn\<close> counts the places of a literal where a name, of one byte at least, stands as a
  whole word: where it occurs with no identifier byte before it and none after.
\<close>

theorem wordsIn_count:
  assumes "w \<noteq> []"
  shows "wordsIn s w = Some (card {i. i < length s \<and> has_prefix (drop i s) w \<and> whole_word s w i})"
proof -
  have "{i. i < length s \<and> word_at s w i} = set (filter (word_at s w) [0..<length s])" by auto
  then have "card {i. i < length s \<and> word_at s w i} = length (filter (word_at s w) [0..<length s])"
    by (metis distinct_card distinct_filter distinct_upt)
  with words_from_count [OF assms, of 0 s] show ?thesis by (simp add: wordsIn_def word_at_def)
qed

theorem wordsIn_count_witness: "wordsIn ''p->np(p, p1)'' ''p'' = Some 2 \<and>
    card {i. i < length ''p->np(p, p1)'' \<and> has_prefix (drop i ''p->np(p, p1)'') ''p'' \<and>
      whole_word ''p->np(p, p1)'' ''p'' i} = 2"
proof -
  have "wordsIn ''p->np(p, p1)'' ''p'' = Some 2" by code_simp
  then show ?thesis using wordsIn_count [of "''p''" "''p->np(p, p1)''"] by simp
qed

subsection \<open>Mentions and the index\<close>

definition mention_count :: "bytes \<Rightarrow> bool \<Rightarrow> bytes \<Rightarrow> nat" where
  "mention_count name lits a = the (mention name lits a)"

lemma mention_Some: "name \<noteq> [] \<Longrightarrow> mention name lits a = Some (mention_count name lits a)"
  using words_from_count [of name 0 a] by (auto simp: mention_count_def mention_def wordsIn_def)

definition atoms_of :: "store \<Rightarrow> nat list \<Rightarrow> bytes list" where
  "atoms_of N xs = map (\<lambda>x. natom (N x)) (filter (\<lambda>x. \<not> nlist (N x)) xs)"

lemma count_reader: "count_mention name lits = reader (\<lambda>N x c n. if nlist (N x) then n
    else case n of None \<Rightarrow> None | Some m \<Rightarrow> map_option (\<lambda>d. m + d) (mention name lits (natom (N x))))"
  by (intro ext) (simp add: count_mention_def reader_def Let_def)

lemma visits_count:
  "name \<noteq> [] \<Longrightarrow> visits (\<lambda>N x c n. if nlist (N x) then n
      else case n of None \<Rightarrow> None | Some m \<Rightarrow> map_option (\<lambda>d. m + d) (mention name lits (natom (N x)))) N
      (enumerate k xs) (Some m) = Some (m + sum_list (map (mention_count name lits) (atoms_of N xs)))"
  by (induction xs arbitrary: k m) (simp_all add: visits_def atoms_of_def mention_Some)

lemma Mentions_sum:
  assumes "rep (nodes h) t" "iid t = root" "2 * length (ids t) \<le> fuel" "name \<noteq> []"
  shows "\<exists>h'. Mentions fuel root name lits h =
    Some (Some (sum_list (map (mention_count name lits) (atoms_of (nodes h) (ids t)))), h')"
proof -
  let ?g = "\<lambda>N x c n. if nlist (N x) then n
    else case n of None \<Rightarrow> None | Some m \<Rightarrow> map_option (\<lambda>d. m + d) (mention name lits (natom (N x)))"
  obtain h' where "Walk fuel root (Some (reader ?g)) None (Some 0) h =
      Some (visits ?g (nodes h) (enumerate (cnext h) (ids t)) (Some 0), h')"
    using Walk_read [OF assms(1-3), of ?g "Some 0"] by blast
  with visits_count [OF assms(4), of lits "nodes h" "cnext h" "ids t" 0]
  have "Mentions fuel root name lits h =
      Some (Some (sum_list (map (mention_count name lits) (atoms_of (nodes h) (ids t)))), h')"
    unfolding Mentions_def count_reader by simp
  then show ?thesis by blast
qed

lemma index_reader: "index_atom = reader (\<lambda>N x c ix. if nlist (N x) then ix
    else if quoted (natom (N x)) then ix\<lparr>quoteds := quoteds ix @ [c]\<rparr>
    else ix\<lparr>atoms := (atoms ix)(natom (N x) := atoms ix (natom (N x)) @ [c])\<rparr>)"
  by (intro ext) (simp add: index_atom_def reader_def Let_def)

definition unquoted_at :: "store \<Rightarrow> bytes \<Rightarrow> (nat \<times> nat) \<Rightarrow> bool" where
  "unquoted_at N s = (\<lambda>(c, x). \<not> nlist (N x) \<and> \<not> quoted (natom (N x)) \<and> natom (N x) = s)"

definition quoted_at :: "store \<Rightarrow> (nat \<times> nat) \<Rightarrow> bool" where
  "quoted_at N = (\<lambda>(c, x). \<not> nlist (N x) \<and> quoted (natom (N x)))"

lemma visits_index:
  fixes ix :: index
  defines "g \<equiv> (\<lambda>N x c ix. if nlist (N x) then ix
    else if quoted (natom (N x)) then ix\<lparr>quoteds := quoteds ix @ [c]\<rparr>
    else ix\<lparr>atoms := (atoms ix)(natom (N x) := atoms ix (natom (N x)) @ [c])\<rparr>)"
  shows "atoms (visits g N ps ix) s = atoms ix s @ map fst (filter (unquoted_at N s) ps) \<and>
    quoteds (visits g N ps ix) = quoteds ix @ map fst (filter (quoted_at N) ps)"
  unfolding g_def visits_def
  by (induction ps arbitrary: ix) (auto simp: unquoted_at_def quoted_at_def)

lemma live_only_all: "(\<And>c. c \<in> set cs \<Longrightarrow> Live c h = (True, h)) \<Longrightarrow> live_only cs h = (cs, h)"
  by (induction cs) auto

lemma quoted_mentions_all:
  "(\<And>c. c \<in> set cs \<Longrightarrow> Live c h = (True, h)) \<Longrightarrow> name \<noteq> [] \<Longrightarrow>
     quoted_mentions name cs h =
       (Some (sum_list (map (\<lambda>c. if find_sub name (natom (nodes h (cnode (curs h c)))) = None then 0
         else the (wordsIn (natom (nodes h (cnode (curs h c)))) name)) cs)), h)"
proof (induction cs)
  case (Cons c cs)
  let ?a = "natom (nodes h (cnode (curs h c)))"
  let ?sum = "\<lambda>cs. sum_list (map (\<lambda>c. if find_sub name (natom (nodes h (cnode (curs h c)))) = None then 0
         else the (wordsIn (natom (nodes h (cnode (curs h c)))) name)) cs)"
  have live: "Live c h = (True, h)" using Cons.prems(1) by simp
  have IH: "quoted_mentions name cs h = (Some (?sum cs), h)" using Cons by simp
  have w: "wordsIn ?a name = Some (the (wordsIn ?a name))"
    using words_from_count [OF Cons.prems(2), of 0 ?a] by (simp add: wordsIn_def)
  show ?case
  proof (cases "find_sub name ?a = None")
    case True
    with IH show ?thesis by (simp add: Let_def)
  next
    case False
    obtain d where "wordsIn ?a name = Some d" using w by blast
    moreover obtain j where "find_sub name ?a = Some j" using False by blast
    ultimately show ?thesis using IH live by (simp add: Let_def)
  qed
qed simp

lemma length_filter_sum: "length (filter P xs) = sum_list (map (\<lambda>x. if P x then 1 else 0) xs)"
  by (induction xs) auto

text \<open>What one node adds to the count through the index.\<close>

lemma mention_split:
  assumes "\<not> quoted name"
  shows "(if \<not> nlist (N x) \<and> \<not> quoted (natom (N x)) \<and> natom (N x) = name then 1 else 0) +
    (if \<not> nlist (N x) \<and> \<not> quoted (natom (N x)) \<and> natom (N x) = CHR ''.'' # name then 1 else 0) +
    (if lits \<and> \<not> nlist (N x) \<and> quoted (natom (N x)) then
       (if find_sub name (natom (N x)) = None then 0 else the (wordsIn (natom (N x)) name)) else (0 :: nat)) =
    (if nlist (N x) then 0 else mention_count name lits (natom (N x)))"
proof -
  have "\<not> quoted (CHR ''.'' # name)" using assms by (simp add: quoted_def)
  with assms show ?thesis by (auto simp: mention_count_def mention_def)
qed

lemma sum_atoms:
  "sum_list (map f (atoms_of N xs)) = sum_list (map (\<lambda>x. if nlist (N x) then 0 else f (natom (N x))) xs)"
  for f :: "bytes \<Rightarrow> nat"
  by (induction xs) (auto simp: atoms_of_def)

lemma sum_enumerate:
  "(\<And>k x. (k, x) \<in> set (enumerate n xs) \<Longrightarrow> f k = x) \<Longrightarrow>
     sum_list (map (\<lambda>c. G (f c)) (map fst (filter (\<lambda>(k, x). P x) (enumerate n xs)))) =
     sum_list (map (\<lambda>x. if P x then G x else 0) xs)"
  for G :: "nat \<Rightarrow> nat"
proof (induction xs arbitrary: n)
  case (Cons x xs)
  from Cons.IH [of "Suc n"] Cons.prems show ?case by auto
qed simp

lemma length_enumerate: "length (filter (\<lambda>(k, x). P x) (enumerate n xs)) = sum_list (map (\<lambda>x. if P x then 1 else 0) xs)"
  by (induction xs arbitrary: n) auto

text \<open>
  C16. A name's mentions are counted the same with the index and without: on the tree the index
  was made of, \<open>Index.Mentions\<close> answers what \<open>Mentions\<close> answers by walking the tree, for a
  name that is no quoted text.
\<close>

theorem IndexMentions_fresh:
  assumes t: "rep (nodes h) t" "iid t = root" "2 * length (ids t) \<le> fuel"
    and name: "name \<noteq> []" "\<not> quoted name"
  shows "\<exists>ix h1 h2 n. NewIndex fuel root h = Some (ix, h1) \<and>
    Mentions fuel root name lits h = Some (Some n, h2) \<and> IndexMentions ix name lits h1 = (Some n, h1)"
proof -
  let ?N = "nodes h" and ?ps = "enumerate (cnext h) (ids t)"
  let ?ix0 = "\<lparr>atoms = (\<lambda>_. []), quoteds = []\<rparr> :: index"
  let ?word = "\<lambda>a. if find_sub name a = None then 0 else the (wordsIn a name)"
  let ?g = "\<lambda>N x c ix. if nlist (N x) then ix
    else if quoted (natom (N x)) then ix\<lparr>quoteds := quoteds ix @ [c]\<rparr>
    else ix\<lparr>atoms := (atoms ix)(natom (N x) := atoms ix (natom (N x)) @ [c])\<rparr>"
  define ix where "ix = visits ?g ?N ?ps ?ix0"
  obtain h1 where walk: "Walk fuel root (Some (reader ?g)) None ?ix0 h = Some (visits ?g ?N ?ps ?ix0, h1)"
      and w: "nodes h1 = ?N" "all_placed h1 (cnext h) (ids t)"
    using Walk_read [OF t, of ?g ?ix0] by blast
  have new: "NewIndex fuel root h = Some (ix, h1)"
    unfolding NewIndex_def index_reader ix_def by (rule walk)
  have at: "cnode (curs h1 k) = x" "Live k h1 = (True, h1)" if "(k, x) \<in> set ?ps" for k x
    using w(2) that by (auto simp: all_placed_def prod_eq_iff)
  have a: "atoms ix s = map fst (filter (unquoted_at ?N s) ?ps)" for s
    using visits_index [of ?N ?ps ?ix0 s] by (simp add: ix_def)
  have q: "quoteds ix = map fst (filter (quoted_at ?N) ?ps)"
    using visits_index [of ?N ?ps ?ix0] by (simp add: ix_def)
  have live: "live_only (atoms ix s) h1 = (atoms ix s, h1)" for s
    by (rule live_only_all) (auto simp: a intro: at(2))
  have liveq: "Live c h1 = (True, h1)" if "c \<in> set (quoteds ix)" for c
    using that by (auto simp: q intro: at(2))
  have qm: "quoted_mentions name (quoteds ix) h1 =
      (Some (sum_list (map (\<lambda>c. ?word (natom (?N (cnode (curs h1 c))))) (quoteds ix))), h1)"
    using quoted_mentions_all [of "quoteds ix" h1 name, OF liveq name(1)] unfolding w(1) .
  have la: "length (atoms ix s) = sum_list (map (\<lambda>x. if \<not> nlist (?N x) \<and> \<not> quoted (natom (?N x)) \<and>
      natom (?N x) = s then 1 else 0) (ids t))" for s
    unfolding a length_map unquoted_at_def by (rule length_enumerate)
  have sq: "sum_list (map (\<lambda>c. ?word (natom (?N (cnode (curs h1 c))))) (quoteds ix)) =
      sum_list (map (\<lambda>x. if \<not> nlist (?N x) \<and> quoted (natom (?N x)) then ?word (natom (?N x)) else 0) (ids t))"
    unfolding q quoted_at_def by (rule sum_enumerate) (rule at(1))
  let ?n = "sum_list (map (mention_count name lits) (atoms_of ?N (ids t)))"
  have total: "length (atoms ix name) + length (atoms ix (CHR ''.'' # name)) +
      (if lits then sum_list (map (\<lambda>c. ?word (natom (?N (cnode (curs h1 c))))) (quoteds ix)) else 0) = ?n"
    unfolding la sq sum_atoms mention_split [OF name(2), symmetric, of ?N _ lits] sum_list_addf
    by (cases lits) (simp_all add: sum_list_0)
  have "IndexMentions ix name lits h1 = (Some ?n, h1)"
    using total by (cases lits) (simp_all add: IndexMentions_def IndexAtoms_def live qm)
  with new Mentions_sum [OF t name(1)] show ?thesis by blast
qed

theorem IndexMentions_fresh_witness:
  "\<exists>ix h1 h2 n. NewIndex 16 0 sample_heap = Some (ix, h1) \<and>
    Mentions 16 0 ''a'' True sample_heap = Some (Some n, h2) \<and> IndexMentions ix ''a'' True h1 = (Some n, h1)"
  by (rule IndexMentions_fresh [OF sample_rep(1,2)]) (simp_all add: sample_rep(3) quoted_def)

end
