(* ===== verification/TreeEdits.thy ===== *)
theory TreeEdits
  imports TreeWalks "HOL-Library.Multiset"
begin

text \<open>
  The edits of crefactor/clisp/tree.go: what a run of edits through cursors on one list leaves
  there, whatever their order; and what a walk whose callback edits the node at hand leaves of
  the tree.
\<close>

subsection \<open>One edit\<close>

datatype edit = Cut | Swap "nat list" | Before "nat list" | After "nat list"

fun do_edit :: "edit option \<Rightarrow> nat \<Rightarrow> heap \<Rightarrow> heap" where
  "do_edit None c = id"
| "do_edit (Some Cut) c = Delete c"
| "do_edit (Some (Swap ns)) c = Replace c ns"
| "do_edit (Some (Before ns)) c = InsertBefore c ns"
| "do_edit (Some (After ns)) c = InsertAfter c ns"

text \<open>What stands for the node \<open>x\<close> after the edit, and what the edit notes in its cursor.\<close>

fun expand :: "edit option \<Rightarrow> nat \<Rightarrow> nat list" where
  "expand None x = [x]"
| "expand (Some Cut) x = []"
| "expand (Some (Swap ns)) x = ns"
| "expand (Some (Before ns)) x = ns @ [x]"
| "expand (Some (After ns)) x = x # ns"

fun noted :: "edit option \<Rightarrow> cobj \<Rightarrow> cobj" where
  "noted None k = k"
| "noted (Some Cut) k = k\<lparr>cgone := True\<rparr>"
| "noted (Some (Swap ns)) k = k\<lparr>cgone := True, cafter := cafter k + length ns\<rparr>"
| "noted (Some (Before ns)) k = k\<lparr>cpos := cpos k + length ns\<rparr>"
| "noted (Some (After ns)) k = k\<lparr>cafter := cafter k + length ns\<rparr>"

definition cuts :: "edit option \<Rightarrow> bool" where
  "cuts e \<longleftrightarrow> (case e of Some Cut \<Rightarrow> True | Some (Swap _) \<Rightarrow> True | _ \<Rightarrow> False)"

fun new_nodes :: "edit option \<Rightarrow> nat list" where
  "new_nodes (Some (Swap ns)) = ns"
| "new_nodes (Some (Before ns)) = ns"
| "new_nodes (Some (After ns)) = ns"
| "new_nodes e = []"

lemma noted_simps [simp]: "cnode (noted e k) = cnode k" "cin (noted e k) = cin k" "cup (noted e k) = cup k"
  "cgone (noted e k) \<longleftrightarrow> cgone k \<or> cuts e"
  by (cases "(e, k)" rule: noted.cases; simp add: cuts_def)+

lemma tree_cuts_simps [simp]: "\<not> cuts None" "cuts (Some Cut)" "cuts (Some (Swap ns))" "\<not> cuts (Some (Before ns))"
  "\<not> cuts (Some (After ns))"
  by (simp_all add: cuts_def)

text \<open>The cursor finds its node, wherever its place says it is.\<close>

lemma find_pos_at: "distinct xs \<Longrightarrow> i < length xs \<Longrightarrow> find_pos (xs ! i) xs = Some i"
proof (induction xs arbitrary: i)
  case (Cons y ys)
  then show ?case by (cases i) auto
qed simp

lemma Index_found:
  assumes "cin (curs h c) = Some l" "\<not> cgone (curs h c)" "distinct (nkids (nodes h l))"
    "i < length (nkids (nodes h l))" "nkids (nodes h l) ! i = cnode (curs h c)"
  shows "Index c h = (Some i, set_cur c ((curs h c)\<lparr>cpos := i\<rparr>) h)"
proof -
  let ?k = "curs h c" and ?xs = "nkids (nodes h l)"
  show ?thesis
  proof (cases "cpos ?k < length ?xs \<and> ?xs ! cpos ?k = cnode ?k")
    case True
    with assms(3-5) have "cpos ?k = i" by (metis nth_eq_iff_index_eq)
    then have "set_cur c (?k\<lparr>cpos := i\<rparr>) h = h" by (auto simp: set_cur_def)
    with True \<open>cpos ?k = i\<close> assms(1,2) show ?thesis by (simp add: Index_def in_list_def)
  next
    case False
    with assms find_pos_at [of ?xs i] show ?thesis by (auto simp: Index_def in_list_def)
  qed
qed

lemma edit_there:
  assumes "Index c h = (Some i, h1)" "nodes h1 = nodes h" "cnext h1 = cnext h" "curs h1 = (curs h)(c := k)"
    "cin k = Some l" "nkids (nodes h l) = ys @ x # zs" "i = length ys"
  shows "nodes (do_edit e c h) = (nodes h)(l := (nodes h l)\<lparr>nkids := ys @ expand e x @ zs\<rparr>)"
    and "curs (do_edit e c h) = (if e = None then curs h else (curs h)(c := noted e k))"
    and "cnext (do_edit e c h) = cnext h"
proof -
  have at: "nodes (edit_at c f g h) = (nodes h)(l := (nodes h l)\<lparr>nkids := f i (ys @ x # zs)\<rparr>)"
    "curs (edit_at c f g h) = (curs h)(c := g k)" "cnext (edit_at c f g h) = cnext h" for f g
    using assms by (simp_all add: edit_at_def)
  have same: "(nodes h)(l := (nodes h l)\<lparr>nkids := ys @ x # zs\<rparr>) = nodes h"
    using assms(6) by (intro ext) auto
  show "nodes (do_edit e c h) = (nodes h)(l := (nodes h l)\<lparr>nkids := ys @ expand e x @ zs\<rparr>)"
    using assms(7) same by (cases "(e, x)" rule: expand.cases)
      (simp_all add: Delete_def Replace_def InsertBefore_def InsertAfter_def at splice_def)
  show "curs (do_edit e c h) = (if e = None then curs h else (curs h)(c := noted e k))"
    by (cases "(e, x)" rule: expand.cases)
      (simp_all add: Delete_def Replace_def InsertBefore_def InsertAfter_def at)
  show "cnext (do_edit e c h) = cnext h"
    by (cases "(e, x)" rule: expand.cases)
      (simp_all add: Delete_def Replace_def InsertBefore_def InsertAfter_def at)
qed

lemma edit_nowhere: "cin (curs h c) = None \<Longrightarrow> do_edit e c h = h"
  by (cases "(e, c)" rule: expand.cases)
    (simp_all add: Delete_def Replace_def InsertBefore_def InsertAfter_def edit_at_def Index_def)

subsection \<open>Edits of one list, in any order\<close>

definition on_list :: "heap \<Rightarrow> nat \<Rightarrow> nat \<Rightarrow> bool" where
  "on_list h l c \<longleftrightarrow>
     cin (curs h c) = Some l \<and> \<not> cgone (curs h c) \<and> cnode (curs h c) \<in> set (nkids (nodes h l))"

definition node_edit :: "heap \<Rightarrow> (nat \<times> edit) list \<Rightarrow> nat \<Rightarrow> edit option" where
  "node_edit h es = map_of (map (\<lambda>(c, e). (cnode (curs h c), e)) es)"

definition run_edits :: "(nat \<times> edit) list \<Rightarrow> heap \<Rightarrow> heap" where
  "run_edits es h = fold (\<lambda>(c, e). do_edit (Some e) c) es h"

lemma set_expand: "set (expand e x) \<subseteq> insert x (set (new_nodes e))"
  by (cases "(e, x)" rule: expand.cases) auto

lemma expand_others: "x \<notin> set xs \<Longrightarrow> concat (map (\<lambda>y. expand ((m(x \<mapsto> e)) y) y) xs) = concat (map (\<lambda>y. expand (m y) y) xs)"
  by (induction xs) auto

lemma expand_none: "(\<And>y. y \<in> set xs \<Longrightarrow> m y = None) \<Longrightarrow> concat (map (\<lambda>y. expand (m y) y) xs) = xs"
  by (induction xs) auto

lemma distinct_expand: "distinct (x # new_nodes e) \<Longrightarrow> distinct (expand e x)"
  by (cases "(e, x)" rule: expand.cases) auto

lemma on_listE:
  assumes "on_list h l c"
  obtains ys zs where "nkids (nodes h l) = ys @ cnode (curs h c) # zs"
  using assms by (auto simp: on_list_def dest: split_list)

lemma edit_on_list:
  assumes c: "on_list h l c" "distinct (nkids (nodes h l))"
    and kids: "nkids (nodes h l) = ys @ cnode (curs h c) # zs"
  shows "nodes (do_edit e c h) = (nodes h)(l := (nodes h l)\<lparr>nkids := ys @ expand e (cnode (curs h c)) @ zs\<rparr>)"
    and "curs (do_edit e c h) =
      (if e = None then curs h else (curs h)(c := noted e ((curs h c)\<lparr>cpos := length ys\<rparr>)))"
proof -
  have "Index c h = (Some (length ys), set_cur c ((curs h c)\<lparr>cpos := length ys\<rparr>) h)"
    using c kids by (intro Index_found [of h c l]) (auto simp: on_list_def)
  note at = edit_there [OF this _ _ _ _ kids, of "(curs h c)\<lparr>cpos := length ys\<rparr>" e]
  show "nodes (do_edit e c h) = (nodes h)(l := (nodes h l)\<lparr>nkids := ys @ expand e (cnode (curs h c)) @ zs\<rparr>)"
    using c by (intro at(1)) (simp_all add: on_list_def)
  show "curs (do_edit e c h) =
      (if e = None then curs h else (curs h)(c := noted e ((curs h c)\<lparr>cpos := length ys\<rparr>)))"
    using c by (intro at(2)) (simp_all add: on_list_def)
qed

definition all_new :: "(nat \<times> edit) list \<Rightarrow> nat list" where
  "all_new es = concat (map (\<lambda>(c, e). new_nodes (Some e)) es)"

text \<open>A run of edits that may be done: each through a cursor of its own node of the list \<open>l\<close>.\<close>

definition editable :: "heap \<Rightarrow> nat \<Rightarrow> (nat \<times> edit) list \<Rightarrow> bool" where
  "editable h l es \<longleftrightarrow>
     (\<forall>(c, e) \<in> set es. on_list h l c) \<and> distinct (map (\<lambda>(c, e). cnode (curs h c)) es) \<and>
     distinct (nkids (nodes h l) @ all_new es)"

lemma editable_step:
  assumes ed: "editable h l ((c, e) # es)"
    and kids: "nkids (nodes h l) = ys @ x # zs" and x: "x = cnode (curs h c)"
    and h': "nodes h' = (nodes h)(l := (nodes h l)\<lparr>nkids := ys @ expand (Some e) x @ zs\<rparr>)"
      "\<forall>d. d \<noteq> c \<longrightarrow> curs h' d = curs h d" "cnode (curs h' c) = x"
  shows "editable h' l es" and "node_edit h' es = node_edit h es"
proof -
  have same: "cnode (curs h' d) = cnode (curs h d)" for d using h'(2,3) x by (cases "d = c") auto
  from ed have "x \<notin> (\<lambda>(c, e). cnode (curs h c)) ` set es" by (auto simp: editable_def x)
  then have other: "d \<noteq> c" "cnode (curs h d) \<noteq> x" if "(d, e') \<in> set es" for d e' using that x by force+
  have dist: "distinct ((ys @ x # zs) @ new_nodes (Some e) @ all_new es)"
    using ed kids by (simp add: editable_def all_new_def)
  have "on_list h' l d" if d: "(d, e') \<in> set es" for d e'
  proof -
    from ed d have "on_list h l d" by (auto simp: editable_def)
    with other [OF d] h' kids show ?thesis by (auto simp: on_list_def)
  qed
  moreover have "distinct (nkids (nodes h' l) @ all_new es)"
    using dist distinct_expand [of x "Some e"] set_expand [of "Some e" x] by (auto simp: h'(1))
  ultimately show "editable h' l es" using ed by (auto simp: editable_def same)
  show "node_edit h' es = node_edit h es" by (simp add: node_edit_def same)
qed

lemma editable_do: "editable h l ((c, e) # es) \<Longrightarrow> editable (do_edit (Some e) c h) l es"
proof -
  assume ed: "editable h l ((c, e) # es)"
  then have on: "on_list h l c" "distinct (nkids (nodes h l))" by (simp_all add: editable_def)
  then obtain ys zs where kids: "nkids (nodes h l) = ys @ cnode (curs h c) # zs" by (blast elim: on_listE)
  with ed show ?thesis
    by (auto simp: edit_on_list [OF on kids] intro!: editable_step [OF ed kids refl])
qed

lemma run_edits_distinct: "editable h l es \<Longrightarrow> distinct (nkids (nodes (run_edits es h) l))"
proof (induction es arbitrary: h)
  case (Cons ce es)
  then show ?case using editable_do [of h l "fst ce" "snd ce" es] by (simp add: run_edits_def split_def)
qed (simp add: run_edits_def editable_def)

lemma run_edits_nodes:
  "editable h l es \<Longrightarrow>
     nodes (run_edits es h) = (nodes h)(l := (nodes h l)\<lparr>nkids :=
       concat (map (\<lambda>x. expand (node_edit h es x) x) (nkids (nodes h l)))\<rparr>)"
proof (induction es arbitrary: h)
  case Nil
  then show ?case by (simp add: run_edits_def node_edit_def)
next
  case (Cons ce es)
  obtain c e where ce: "ce = (c, e)" by (cases ce)
  let ?x = "cnode (curs h c)" and ?h = "do_edit (Some e) c h"
  have on: "on_list h l c" "distinct (nkids (nodes h l))" using Cons.prems by (simp_all add: editable_def ce)
  then obtain ys zs where kids: "nkids (nodes h l) = ys @ ?x # zs" by (blast elim: on_listE)
  note ed = edit_on_list [OF on kids, of "Some e"]
  have step: "editable ?h l es" "node_edit ?h es = node_edit h es"
    using Cons.prems kids
    by (auto simp: ce ed intro!: editable_step [of h l c e es ys ?x zs ?h])
  have m: "node_edit h (ce # es) = (node_edit h es)(?x \<mapsto> e)" by (simp add: ce node_edit_def)
  have none: "node_edit h es y = None" if "y \<in> set (expand (Some e) ?x)" for y
  proof -
    have "y \<notin> (\<lambda>(c, e). cnode (curs h c)) ` set es"
    proof
      assume y: "y \<in> (\<lambda>(c, e). cnode (curs h c)) ` set es"
      have "?x \<notin> (\<lambda>(c, e). cnode (curs h c)) ` set es" using Cons.prems by (simp add: ce editable_def)
      with y have "y \<noteq> ?x" by blast
      moreover from y have "y \<in> set (nkids (nodes h l))"
        using Cons.prems by (auto simp: editable_def on_list_def)
      ultimately show False
        using that set_expand [of "Some e" ?x] Cons.prems by (auto simp: ce editable_def all_new_def)
    qed
    then show ?thesis by (force simp: node_edit_def map_of_eq_None_iff)
  qed
  have notin: "?x \<notin> set ys" "?x \<notin> set zs" using on(2) kids by auto
  have new: "concat (map (\<lambda>y. expand (node_edit h es y) y) (ys @ expand (Some e) ?x @ zs)) =
      concat (map (\<lambda>y. expand (node_edit h (ce # es) y) y) (nkids (nodes h l)))"
    using expand_none [of "expand (Some e) ?x" "node_edit h es"] none
    by (simp add: m kids expand_others [OF notin(1)] expand_others [OF notin(2)] fun_upd_same del: fun_upd_apply)
  have "nkids (nodes ?h l) = ys @ expand (Some e) ?x @ zs" by (simp add: ed(1))
  with Cons.IH [OF step(1)] have "nodes (run_edits es ?h) =
      (nodes ?h)(l := (nodes ?h l)\<lparr>nkids := concat (map (\<lambda>y. expand (node_edit h (ce # es) y) y) (nkids (nodes h l)))\<rparr>)"
    by (simp only: step(2) new)
  then show ?case by (simp add: run_edits_def ce ed(1))
qed

lemma run_edits_curs: "\<forall>(c, e) \<in> set es. d \<noteq> c \<Longrightarrow> editable h l es \<Longrightarrow> curs (run_edits es h) d = curs h d"
proof (induction es arbitrary: h)
  case (Cons ce es)
  obtain c e where ce: "ce = (c, e)" by (cases ce)
  have on: "on_list h l c" "distinct (nkids (nodes h l))" using Cons.prems by (simp_all add: editable_def ce)
  then obtain ys zs where kids: "nkids (nodes h l) = ys @ cnode (curs h c) # zs" by (blast elim: on_listE)
  have "editable (do_edit (Some e) c h) l es" using Cons.prems(2) by (simp add: ce editable_do)
  with Cons.IH [of "do_edit (Some e) c h"] Cons.prems(1) edit_on_list(2) [OF on kids, of "Some e"]
  show ?case by (simp add: run_edits_def ce)
qed (simp add: run_edits_def)

text \<open>
  C14. Cursors stay good while their siblings are edited, in any order.  Any run of deletions,
  replacements and insertions through cursors that are on nodes of one list whose nodes differ,
  each node edited once and each inserted node new to the list, leaves every node's edit in its
  place, whatever order the edits come in and wherever the cursors last had their nodes; no other
  list changes.  Every cursor of the list whose node the run does not edit still finds its node:
  its \<open>Index\<close> is where the node now is.
\<close>

theorem edits_any_order:
  assumes "editable h l es" and "mset es' = mset es"
  shows "nodes (run_edits es' h) = (nodes h)(l := (nodes h l)\<lparr>nkids :=
       concat (map (\<lambda>x. expand (node_edit h es x) x) (nkids (nodes h l)))\<rparr>) \<and>
     (\<forall>d. on_list h l d \<longrightarrow> cnode (curs h d) \<notin> (\<lambda>(c, e). cnode (curs h c)) ` set es \<longrightarrow>
       (\<exists>i. fst (Index d (run_edits es' h)) = Some i \<and> i < length (nkids (nodes (run_edits es' h) l)) \<and>
         nkids (nodes (run_edits es' h) l) ! i = cnode (curs h d)))"
proof -
  let ?h = "run_edits es' h" and ?new = "concat (map (\<lambda>x. expand (node_edit h es x) x) (nkids (nodes h l)))"
  have set: "set es' = set es" using assms(2) by (rule mset_eq_setD)
  have "mset (map (\<lambda>(c, e). cnode (curs h c)) es') = mset (map (\<lambda>(c, e). cnode (curs h c)) es)"
    using assms(2) by simp
  then have dist: "distinct (map (\<lambda>(c, e). cnode (curs h c)) es')"
    using assms(1) mset_eq_imp_distinct_iff unfolding editable_def by blast
  have perm: "mset (map f es') = mset (map f es)" for f :: "nat \<times> edit \<Rightarrow> nat multiset"
    using assms(2) by simp
  have "mset (all_new es') = mset (all_new es)"
    unfolding all_new_def mset_concat map_map sum_mset_sum_list [symmetric] by (simp only: perm)
  then have ed: "editable h l es'"
    using assms(1) set dist mset_eq_imp_distinct_iff [of "all_new es'" "all_new es"] mset_eq_setD [of "all_new es'" "all_new es"]
    by (simp add: editable_def)
  have "node_edit h es' = node_edit h es"
    unfolding node_edit_def using dist assms(1) set
    by (intro map_of_inject_set [THEN iffD2]) (simp_all add: editable_def comp_def split_def)
  with run_edits_nodes [OF ed] have nodes: "nodes ?h = (nodes h)(l := (nodes h l)\<lparr>nkids := ?new\<rparr>)" by simp
  have "\<exists>i. fst (Index d ?h) = Some i \<and> i < length (nkids (nodes ?h l)) \<and> nkids (nodes ?h l) ! i = cnode (curs h d)"
    if d: "on_list h l d" "cnode (curs h d) \<notin> (\<lambda>(c, e). cnode (curs h c)) ` set es" for d
  proof -
    have none: "node_edit h es (cnode (curs h d)) = None"
      using d(2) by (force simp: node_edit_def map_of_eq_None_iff)
    have "cnode (curs h d) \<in> set ?new" using d(1) none by (force simp: on_list_def)
    then obtain i where i: "i < length ?new" "?new ! i = cnode (curs h d)" unfolding in_set_conv_nth by blast
    have same: "curs ?h d = curs h d"
      using run_edits_curs [OF _ ed, of d] d(2) set by fastforce
    have "distinct ?new" using run_edits_distinct [OF ed] nodes by simp
    then have "fst (Index d ?h) = Some i"
      using Index_found [of ?h d l i] d(1) i nodes same by (simp add: on_list_def)
    with i nodes show ?thesis by simp
  qed
  with nodes show ?thesis by blast
qed

text \<open>Three cursors on the list of the node 1 of the sample tree; two have lost their node's place.\<close>

definition cursed_heap :: heap where
  "cursed_heap = sample_heap\<lparr>curs := (\<lambda>c. if c = 0 then kid_cur 9 1 2 2 else if c = 1 then kid_cur 9 1 0 3
     else kid_cur 9 1 2 4), cnext := 3\<rparr>"

theorem edits_any_order_witness:
  "nkids (nodes (run_edits [(1, Before [8]), (0, Cut)] cursed_heap) 1) = [8, 3, 4] \<and>
     (\<exists>i. fst (Index 2 (run_edits [(1, Before [8]), (0, Cut)] cursed_heap)) = Some i)"
proof -
  have "editable cursed_heap 1 [(0, Cut), (1, Before [8])]" "on_list cursed_heap 1 2"
    "mset [(1, Before [8]), (0, Cut)] = mset [(0, Cut), (1, Before [8])]"
    "cnode (curs cursed_heap 2) \<notin> (\<lambda>(c, e). cnode (curs cursed_heap c)) ` set [(0, Cut), (1, Before [8])]"
    by (simp_all add: editable_def on_list_def all_new_def cursed_heap_def sample_heap_def sample_store_def kid_cur_def)
  note edits_any_order [OF this(1,3), THEN conjunct1] edits_any_order [OF this(1,3), THEN conjunct2, rule_format, OF this(2,4)]
  then show ?thesis
    by (simp add: cursed_heap_def sample_heap_def sample_store_def kid_cur_def node_edit_def) blast
qed

subsection \<open>A walk that edits\<close>

text \<open>
  The callback edits the node at hand as \<open>R\<close> says and goes on in; it notes the node.
\<close>

definition editor :: "(nat \<Rightarrow> edit option) \<Rightarrow> nat list pre" where
  "editor R c s h = (True, s @ [cnode (curs h c)], do_edit (R (cnode (curs h c))) c h)"

text \<open>The nodes the walk visits, and those it goes into.\<close>

fun seen :: "(nat \<Rightarrow> edit option) \<Rightarrow> itree \<Rightarrow> nat list" where
  "seen R (INode x ts) = x # concat (map (\<lambda>t. if cuts (R (iid t)) then [iid t] else seen R t) ts)"

fun entered :: "(nat \<Rightarrow> edit option) \<Rightarrow> itree \<Rightarrow> nat list" where
  "entered R (INode x ts) = x # concat (map (\<lambda>t. if cuts (R (iid t)) then [] else entered R t) ts)"

definition ekids :: "(nat \<Rightarrow> edit option) \<Rightarrow> nat list \<Rightarrow> nat list" where
  "ekids R xs = concat (map (\<lambda>x. expand (R x) x) xs)"

definition edited :: "(nat \<Rightarrow> edit option) \<Rightarrow> nat list \<Rightarrow> store \<Rightarrow> store" where
  "edited R xs N = (\<lambda>x. if x \<in> set xs then (N x)\<lparr>nkids := ekids R (nkids (N x))\<rparr> else N x)"

lemma entered_ids: "set (entered R t) \<subseteq> set (ids t)"
  by (induction t) auto

abbreviation (input) forest_entered :: "(nat \<Rightarrow> edit option) \<Rightarrow> itree list \<Rightarrow> nat list" where
  "forest_entered R ts \<equiv> concat (map (\<lambda>t. if cuts (R (iid t)) then [] else entered R t) ts)"

abbreviation (input) forest_seen :: "(nat \<Rightarrow> edit option) \<Rightarrow> itree list \<Rightarrow> nat list" where
  "forest_seen R ts \<equiv> concat (map (\<lambda>t. if cuts (R (iid t)) then [iid t] else seen R t) ts)"

text \<open>The old cursors are as they were.\<close>

definition kept :: "heap \<Rightarrow> heap \<Rightarrow> bool" where
  "kept h h' \<longleftrightarrow> cnext h \<le> cnext h' \<and> (\<forall>d < cnext h. curs h' d = curs h d)"

lemma keptD: "kept h h' \<Longrightarrow> d < cnext h \<Longrightarrow> curs h' d = curs h d \<and> d < cnext h'"
  by (auto simp: kept_def)

text \<open>A walk's way into the node of the cursor \<open>c\<close>.\<close>

definition enters :: "(nat \<Rightarrow> edit option) \<Rightarrow> itree \<Rightarrow> bool" where
  "enters R t \<longleftrightarrow> (\<forall>h c s fuel. rep (nodes h) t \<longrightarrow> distinct (ids t) \<longrightarrow> cnode (curs h c) = iid t \<longrightarrow>
     \<not> cgone (curs h c) \<longrightarrow> c < cnext h \<longrightarrow> 2 * length (ids t) \<le> Suc fuel \<longrightarrow>
     (\<exists>h'. (if goes_in c h then walk_kids fuel (Some (editor R)) None c (cnode (curs h c)) 0 s h else Some (s, h)) =
         Some (s @ tl (seen R t), h') \<and>
       nodes h' = edited R (entered R t) (nodes h) \<and> kept h h'))"

lemma next_pos_noted:
  assumes "curs h k = noted e (kid_cur c l (length ys) x)" "nkids (nodes h l) = ys @ expand e x @ zs"
  shows "next_pos k h = (length (ys @ expand e x), h)"
proof (cases "cuts e")
  case True
  with assms(1) show ?thesis by (cases "(e, x)" rule: expand.cases) (simp_all add: next_pos_def kid_cur_def)
next
  case False
  let ?i = "cpos (curs h k)"
  have "nkids (nodes h l) ! ?i = x \<and> ?i < length (nkids (nodes h l)) \<and>
      ?i + 1 + cafter (curs h k) = length (ys @ expand e x)"
    using False assms by (cases "(e, x)" rule: expand.cases) (auto simp: kid_cur_def nth_append)
  moreover have "cin (curs h k) = Some l" "\<not> cgone (curs h k)" "cnode (curs h k) = x"
    using False assms(1) by (simp_all add: kid_cur_def)
  ultimately show ?thesis by (simp add: next_pos_def Index_in_place)
qed

lemma edit_kid:
  assumes "curs h k = kid_cur c l (length ys) x" "nkids (nodes h l) = ys @ x # zs"
  shows "nodes (do_edit e k h) = (nodes h)(l := (nodes h l)\<lparr>nkids := ys @ expand e x @ zs\<rparr>)"
    and "curs (do_edit e k h) = (curs h)(k := noted e (kid_cur c l (length ys) x))"
    and "cnext (do_edit e k h) = cnext h"
proof -
  have "Index k h = (Some (length ys), h)" using assms Index_in_place [of h k l] by (simp add: kid_cur_def)
  note at = edit_there [OF this refl refl _ _ assms(2) refl, of "kid_cur c l (length ys) x" e]
  show "nodes (do_edit e k h) = (nodes h)(l := (nodes h l)\<lparr>nkids := ys @ expand e x @ zs\<rparr>)"
    by (rule at(1)) (simp_all add: assms(1) [symmetric] kid_cur_def [symmetric], simp add: assms(1) kid_cur_def)
  show "curs (do_edit e k h) = (curs h)(k := noted e (kid_cur c l (length ys) x))"
    using at(2) assms(1) by (auto simp: kid_cur_def fun_eq_iff)
  show "cnext (do_edit e k h) = cnext h"
    by (rule at(3)) (simp_all add: assms(1) [symmetric] kid_cur_def [symmetric], simp add: assms(1) kid_cur_def)
qed

lemma walk_kid_edit:
  assumes E: "enters R t" and t: "rep (nodes h) t" "distinct (ids t)" "l \<notin> set (ids t)"
    and k: "curs h k = kid_cur c l (length ys) (iid t)" "k < cnext h"
    and kids: "nkids (nodes h l) = ys @ iid t # zs" and fuel: "2 * length (ids t) \<le> fuel"
  shows "\<exists>h'. walk fuel (Some (editor R)) None k s h =
      Some (s @ (if cuts (R (iid t)) then [iid t] else seen R t), h') \<and>
    nodes h' = edited R (if cuts (R (iid t)) then [] else entered R t)
      ((nodes h)(l := (nodes h l)\<lparr>nkids := ys @ expand (R (iid t)) (iid t) @ zs\<rparr>)) \<and>
    curs h' k = noted (R (iid t)) (kid_cur c l (length ys) (iid t)) \<and>
    cnext h \<le> cnext h' \<and> (\<forall>d < cnext h. d \<noteq> k \<longrightarrow> curs h' d = curs h d)"
proof -
  let ?x = "iid t"
  let ?h = "do_edit (R ?x) k h"
  note ed = edit_kid [OF k(1) kids, of "R ?x"]
  from fuel obtain f where f: "fuel = Suc f" by (cases fuel) (auto simp: length_ids)
  have pre: "editor R k s h = (True, s @ [?x], ?h)" using k(1) by (simp add: editor_def kid_cur_def)
  show ?thesis
  proof (cases "cuts (R ?x)")
    case True
    then have "\<not> goes_in k ?h" by (simp add: goes_in_def ed)
    with True f pre show ?thesis by (auto simp: ed edited_def)
  next
    case False
    have "rep (nodes ?h) t" using t(1) by (rule rep_cong) (use t(3) in \<open>auto simp: ed(1)\<close>)
    moreover have "cnode (curs ?h k) = ?x" "\<not> cgone (curs ?h k)" using False by (simp_all add: ed kid_cur_def)
    ultimately obtain h' where
      "(if goes_in k ?h then walk_kids f (Some (editor R)) None k (cnode (curs ?h k)) 0 (s @ [?x]) ?h
        else Some (s @ [?x], ?h)) = Some ((s @ [?x]) @ tl (seen R t), h')"
      "nodes h' = edited R (entered R t) (nodes ?h)" "kept ?h h'"
      using E t(2) k(2) fuel f unfolding enters_def ed(3)
      by (metis (no_types, lifting) ed(3))
    moreover have "seen R t = ?x # tl (seen R t)" by (cases t) simp
    ultimately show ?thesis using False f pre k(2)
      by (auto simp: ed kept_def)
  qed
qed

lemma entered_forest: "set (forest_entered R ts) \<subseteq> set (forest_ids ts)"
  using entered_ids by fastforce

lemma edited_outside: "x \<notin> set xs \<Longrightarrow> edited R xs N x = N x"
  by (simp add: edited_def)

lemma edited_append: "set xs \<inter> set ys = {} \<Longrightarrow> edited R xs (edited R ys N) = edited R (ys @ xs) N"
  by (intro ext) (auto simp: edited_def)

lemma edited_update: "l \<notin> set xs \<Longrightarrow> (edited R xs N)(l := n) = edited R xs (N(l := n))"
  by (intro ext) (auto simp: edited_def)

lemma walk_kids_edit:
  assumes "\<And>t. t \<in> set ts \<Longrightarrow> enters R t" "\<And>t. t \<in> set ts \<Longrightarrow> rep (nodes h) t" "distinct (forest_ids ts)"
    "l \<notin> set (forest_ids ts)" "nkids (nodes h l) = ys @ map iid ts" "c < cnext h"
    "2 * length (forest_ids ts) + 1 \<le> fuel"
  shows "\<exists>h'. walk_kids fuel (Some (editor R)) None c l (length ys) s h = Some (s @ forest_seen R ts, h') \<and>
    nodes h' = edited R (forest_entered R ts) ((nodes h)(l := (nodes h l)\<lparr>nkids := ys @ ekids R (map iid ts)\<rparr>)) \<and>
    kept h h'"
  using assms
proof (induction ts arbitrary: h s ys fuel)
  case Nil
  then obtain f where "fuel = Suc f" by (cases fuel) auto
  moreover have "(nodes h)(l := (nodes h l)\<lparr>nkids := ys\<rparr>) = nodes h" using Nil.prems(5) by (intro ext) auto
  ultimately show ?case using Nil.prems(5)
    by (auto simp: walk_kids_end kept_def edited_def ekids_def)
next
  case (Cons t ts)
  note prems = Cons.prems
  from prems(7) obtain f where f: "fuel = Suc f" by (cases fuel) auto
  let ?x = "iid t" and ?k = "cnext h"
  let ?h1 = "add_cur (kid_cur c l (length ys) ?x) h"
  let ?mid = "if cuts (R ?x) then [] else entered R t"
  let ?ys = "ys @ expand (R ?x) ?x"
  let ?N1 = "(nodes h)(l := (nodes h l)\<lparr>nkids := ?ys @ map iid ts\<rparr>)"
  have "enters R t" "rep (nodes ?h1) t" "distinct (ids t)" "l \<notin> set (ids t)" "curs ?h1 ?k = kid_cur c l (length ys) ?x"
    "?k < cnext ?h1" "nkids (nodes ?h1 l) = ys @ ?x # map iid ts" "2 * length (ids t) \<le> f"
    using prems f by simp_all
  from walk_kid_edit [OF this, of s] obtain h2 where
      w: "walk f (Some (editor R)) None ?k s ?h1 =
        Some (s @ (if cuts (R ?x) then [?x] else seen R t), h2)"
      and n2: "nodes h2 = edited R ?mid ?N1"
      and k2: "curs h2 ?k = noted (R ?x) (kid_cur c l (length ys) ?x)"
      and c2: "?k + 1 \<le> cnext h2" "\<forall>d < ?k. curs h2 d = curs h d"
    by fastforce
  have mid: "set ?mid \<subseteq> set (ids t)" using entered_ids by auto
  then have l2: "nodes h2 l = (nodes h l)\<lparr>nkids := ?ys @ map iid ts\<rparr>"
    using prems(4) by (auto simp: n2 edited_def)
  have nx: "next_pos ?k h2 = (length ?ys, h2)"
    using next_pos_noted [OF k2, of "map iid ts"] l2 by simp
  have "rep (nodes h2) u" if u: "u \<in> set ts" for u
  proof (rule rep_cong)
    show "rep (nodes h) u" using prems(2) u by simp
    show "nodes h2 y = nodes h y" if y: "y \<in> set (ids u)" for y
    proof -
      have "y \<notin> set (ids t)" "y \<noteq> l" using y u prems(3,4) by auto
      with mid have "y \<notin> set ?mid" by blast
      with \<open>y \<noteq> l\<close> show ?thesis unfolding n2 edited_def by simp
    qed
  qed
  moreover have "2 * length (forest_ids ts) + 1 \<le> f" using prems(7) f by (simp add: length_ids)
  ultimately obtain h3 where
      w3: "walk_kids f (Some (editor R)) None c l (length ?ys) (s @ (if cuts (R ?x) then [?x] else seen R t)) h2 =
        Some ((s @ (if cuts (R ?x) then [?x] else seen R t)) @ forest_seen R ts, h3)"
      and n3: "nodes h3 = edited R (forest_entered R ts)
        ((nodes h2)(l := (nodes h2 l)\<lparr>nkids := ?ys @ ekids R (map iid ts)\<rparr>))"
      and k3: "kept h2 h3"
    using Cons.IH [of h2 ?ys f "s @ (if cuts (R ?x) then [?x] else seen R t)"] prems c2 l2 by fastforce
  have step: "walk_kids fuel (Some (editor R)) None c l (length ys) s h = Some (s @ forest_seen R (t # ts), h3)"
    using walk_kids_step [of "length ys" h l f "Some (editor R)" None c s] prems(5) w nx w3 f by simp
  have disj: "set (forest_entered R ts) \<inter> set ?mid = {}"
    using entered_forest [of R ts] prems(3) mid by fastforce
  have "l \<notin> set ?mid" using mid prems(4) by auto
  then have "nodes h3 = edited R (forest_entered R ts)
      (edited R ?mid ((nodes h)(l := (nodes h l)\<lparr>nkids := ?ys @ ekids R (map iid ts)\<rparr>)))"
    unfolding n3 l2 unfolding n2 by (subst edited_update) simp_all
  then have "nodes h3 = edited R (forest_entered R (t # ts))
      ((nodes h)(l := (nodes h l)\<lparr>nkids := ys @ ekids R (map iid (t # ts))\<rparr>))"
    unfolding edited_append [OF disj] by (simp add: ekids_def)
  moreover have "kept h h3" using c2 k3 by (auto simp: kept_def)
  ultimately show ?case using step by blast
qed

lemma enters_all: "enters R t"
proof (induction t)
  case (INode x ts)
  show ?case
    unfolding enters_def
  proof (intro allI impI)
    fix h :: heap and c s fuel
    assume a: "rep (nodes h) (INode x ts)" "distinct (ids (INode x ts))" "cnode (curs h c) = iid (INode x ts)"
      "\<not> cgone (curs h c)" "c < cnext h" "2 * length (ids (INode x ts)) \<le> Suc fuel"
    obtain h' where h': "walk_kids fuel (Some (editor R)) None c x (length []) s h = Some (s @ forest_seen R ts, h')"
      "nodes h' = edited R (forest_entered R ts) ((nodes h)(x := (nodes h x)\<lparr>nkids := [] @ ekids R (map iid ts)\<rparr>))"
      "kept h h'"
      using walk_kids_edit [of ts R h x "[]" c fuel s] INode.IH a by auto
    have "x \<notin> set (forest_entered R ts)" using entered_forest [of R ts] a(2) by auto
    with h'(2) a(1) have n: "nodes h' = edited R (entered R (INode x ts)) (nodes h)"
      by (intro ext) (auto simp: edited_def)
    show "\<exists>h'. (if goes_in c h then walk_kids fuel (Some (editor R)) None c (cnode (curs h c)) 0 s h else Some (s, h)) =
         Some (s @ tl (seen R (INode x ts)), h') \<and>
       nodes h' = edited R (entered R (INode x ts)) (nodes h) \<and> kept h h'"
    proof (cases "goes_in c h")
      case True
      with h' n a(3) show ?thesis by auto
    next
      case False
      with a have "ts = []" by (auto simp: goes_in_def)
      moreover have "edited R [x] (nodes h) = nodes h" using a(1) \<open>ts = []\<close>
        by (intro ext) (auto simp: edited_def ekids_def)
      ultimately show ?thesis using False by (auto simp: kept_def)
    qed
  qed
qed

text \<open>
  C13. A walk whose callback edits the node at hand -- deletes it, replaces it, inserts beside it
  -- goes on with the node after it: it calls back once, in order, for every node of the tree
  that is not under a deleted or replaced one, never for a node it inserted, and the list of
  every node it goes into becomes its elements with their edits in their places.  All other
  nodes are left alone; an edit asked of the root does nothing.
\<close>

theorem Walk_edits:
  assumes "rep (nodes h) t" "iid t = root" "distinct (ids t)" "2 * length (ids t) \<le> fuel"
  shows "\<exists>h'. Walk fuel root (Some (editor R)) None [] h = Some (seen R t, h') \<and>
    nodes h' = (\<lambda>x. if x \<in> set (entered R t)
      then (nodes h x)\<lparr>nkids := concat (map (\<lambda>y. expand (R y) y) (nkids (nodes h x)))\<rparr> else nodes h x)"
proof -
  let ?c = "cnext h" and ?h = "add_cur (root_cur root) h"
  from assms(4) obtain f where f: "fuel = Suc f" by (cases fuel) (auto simp: length_ids)
  have pre: "editor R ?c [] ?h = (True, [root], ?h)"
    by (simp add: editor_def edit_nowhere root_cur_def)
  have at: "rep (nodes ?h) t" "cnode (curs ?h ?c) = iid t" "\<not> cgone (curs ?h ?c)" "?c < cnext ?h"
    "2 * length (ids t) \<le> Suc f"
    using assms f by (simp_all add: root_cur_def)
  obtain h' where
    "(if goes_in ?c ?h then walk_kids f (Some (editor R)) None ?c (cnode (curs ?h ?c)) 0 [root] ?h
      else Some ([root], ?h)) = Some ([root] @ tl (seen R t), h')"
    "nodes h' = edited R (entered R t) (nodes ?h)"
    using enters_all [of R t, unfolded enters_def, rule_format, OF at(1) assms(3) at(2-5), of "[root]"] by blast
  moreover have "seen R t = root # tl (seen R t)" using assms(2) by (cases t) simp
  moreover have "Walk fuel root (Some (editor R)) None [] h = walk (Suc f) (Some (editor R)) None ?c [] ?h"
    by (simp add: Walk_def add_cur_def f)
  ultimately show ?thesis using pre by (auto simp: edited_def ekids_def)
qed

theorem Walk_edits_witness:
  "\<exists>h'. Walk 16 0 (Some (editor ((\<lambda>_. None)(2 := Some Cut, 3 := Some (After [9]), 5 := Some (Swap [6]))))) None [] sample_heap =
      Some ([0, 1, 2, 3, 4, 5], h') \<and> nkids (nodes h' 1) = [3, 9, 4] \<and> nkids (nodes h' 0) = [1, 6]"
  using Walk_edits [OF sample_rep(1,2), of 16 "(\<lambda>_. None)(2 := Some Cut, 3 := Some (After [9]), 5 := Some (Swap [6]))"]
  by (auto simp: sample_rep(3)) (auto simp: sample_tree_def sample_heap_def sample_store_def)

end
