(* ===== verification/Graph.thy ===== *)
theory Graph
  imports CPrint Consts
begin

text \<open>
  The program graph of crefactor/graph: the node of graph.go as an object of a store, with its
  elements, its refers edges, its typed edge and its container, and the questions forms.go,
  build.go and collect.go ask of a form.  A node is named by a number, as the code shares nodes
  and changes them; \<open>None\<close> is Go's \<open>nil\<close>.
\<close>

subsection \<open>Nodes\<close>

type_synonym id = "32 word"

record gnode =
  gid :: id
  gatom :: bytes
  gkids :: "nat list"
  grefs :: "nat list"
  gtype :: "nat option"
  glist :: bool
  gup :: "nat option"

type_synonym gstore = "nat \<Rightarrow> gnode"

definition gHead :: "gstore \<Rightarrow> nat \<Rightarrow> bytes" where
  "gHead N n =
     (if glist (N n) then
        (case gkids (N n) of [] \<Rightarrow> [] | x # _ \<Rightarrow> if glist (N x) then [] else gatom (N x))
      else [])"

definition gIs :: "gstore \<Rightarrow> nat \<Rightarrow> bytes \<Rightarrow> bool" where
  "gIs N n h \<longleftrightarrow> gHead N n = h"

text \<open>The same of a node that may be \<open>nil\<close>: its head is then empty.\<close>

definition oIs :: "gstore \<Rightarrow> nat option \<Rightarrow> bytes \<Rightarrow> bool" where
  "oIs N t h \<longleftrightarrow> (case t of None \<Rightarrow> h = [] | Some n \<Rightarrow> gIs N n h)"

definition gArgs :: "gstore \<Rightarrow> nat \<Rightarrow> nat list" where
  "gArgs N n = (if glist (N n) then tl (gkids (N n)) else [])"

definition Ref :: "gstore \<Rightarrow> nat \<Rightarrow> nat option" where
  "Ref N n = (case grefs (N n) of [] \<Rightarrow> None | r # _ \<Rightarrow> Some r)"

subsection \<open>Forms\<close>

definition isAttrForm :: "gstore \<Rightarrow> nat \<Rightarrow> bool" where
  "isAttrForm N n \<longleftrightarrow> gIs N n ''attr'' \<or> gIs N n ''attr-text'' \<or> gIs N n ''std-attr''"

text \<open>The loop of \<open>defNameAt\<close> from the element \<open>i\<close> on.\<close>

fun gname_from :: "gstore \<Rightarrow> nat \<Rightarrow> nat list \<Rightarrow> nat" where
  "gname_from N i [] = 0"
| "gname_from N i (k # ks) =
     (if \<not> glist (N k) \<and> gatom (N k) \<in> set prefixWords \<or> isAttrForm N k then gname_from N (i + 1) ks
      else if glist (N k) then 0
      else i)"

definition gdefNameAt :: "gstore \<Rightarrow> nat \<Rightarrow> nat" where
  "gdefNameAt N f = gname_from N 1 (drop 1 (gkids (N f)))"

definition prefixOf :: "gstore \<Rightarrow> nat \<Rightarrow> nat list" where
  "prefixOf N f = (let i = gdefNameAt N f in if i = 0 then [] else drop 1 (take i (gkids (N f))))"

definition hasPrefix :: "gstore \<Rightarrow> nat \<Rightarrow> bytes \<Rightarrow> bool" where
  "hasPrefix N f w \<longleftrightarrow>
     w = ''typedef'' \<and> gIs N f ''typedef'' \<or> (\<exists>p \<in> set (prefixOf N f). \<not> glist (N p) \<and> gatom (N p) = w)"

definition defType :: "gstore \<Rightarrow> nat \<Rightarrow> nat option" where
  "defType N f =
     (let i = gdefNameAt N f in
      if i > 0 \<and> i + 1 < length (gkids (N f)) then Some (gkids (N f) ! (i + 1)) else None)"

definition tagOf :: "gstore \<Rightarrow> nat \<Rightarrow> bytes" where
  "tagOf N n =
     (case gkids (N n) of
        _ # k # _ \<Rightarrow> if \<not> glist (N k) \<and> gatom (N k) \<noteq> ''{}'' then gatom (N k) else []
      | _ \<Rightarrow> [])"

text \<open>Dropping the first element when it is as \<open>p\<close> says.\<close>

definition drop_if :: "('a \<Rightarrow> bool) \<Rightarrow> 'a list \<Rightarrow> 'a list" where
  "drop_if p xs = (case xs of x # xs' \<Rightarrow> if p x then xs' else xs | [] \<Rightarrow> [])"

definition gbody :: "gstore \<Rightarrow> nat \<Rightarrow> nat list" where
  "gbody N n =
     (let args = drop_if (\<lambda>a. \<not> glist (N a) \<and> gatom (N a) \<noteq> ''{}'') (gArgs N n);
          args' = drop_if (\<lambda>a. gIs N a ''@'') args
      in if gIs N n ''enum'' then drop_if (\<lambda>a. gIs N a '':'') args' else args')"

definition isDefForm :: "gstore \<Rightarrow> nat \<Rightarrow> bool" where
  "isDefForm N n \<longleftrightarrow> (gIs N n ''struct'' \<or> gIs N n ''union'' \<or> gIs N n ''enum'') \<and> gbody N n \<noteq> []"

definition members :: "gstore \<Rightarrow> nat \<Rightarrow> nat list" where
  "members N n = filter (\<lambda>m. \<not> (gIs N m ''@'' \<or> \<not> glist (N m) \<and> gatom (N m) = ''{}'')) (gbody N n)"

definition declName :: "gstore \<Rightarrow> nat \<Rightarrow> bytes" where
  "declName N t =
     (let i = gdefNameAt N t; ks = gkids (N t) in
      if gHead N t \<in> {''def'', ''typedef'', ''defn''} \<and> i > 0 then gatom (N (ks ! i))
      else if glist (N t) \<and> ks \<noteq> [] \<and> \<not> glist (N (hd ks)) then gatom (N (hd ks))
      else [])"

definition enumValue :: "gstore \<Rightarrow> nat \<Rightarrow> nat option" where
  "enumValue N n =
     (let ks = gkids (N n) in
      if length ks < 2 then None else if isAttrForm N (last ks) then None else Some (last ks))"

subsection \<open>Type nodes\<close>

definition pointee :: "gstore \<Rightarrow> nat option \<Rightarrow> nat option" where
  "pointee N t =
     (case t of
        Some n \<Rightarrow>
          if (gIs N n ''pointer'' \<or> gIs N n ''array'') \<and> gkids (N n) \<noteq> [] then gtype (N (last (gkids (N n))))
          else None
      | None \<Rightarrow> None)"

definition resultType :: "gstore \<Rightarrow> nat option \<Rightarrow> nat option" where
  "resultType N t =
     (case (if oIs N t ''pointer'' then pointee N t else t) of
        Some f \<Rightarrow> if gIs N f ''function'' \<and> length (gkids (N f)) = 3 then gtype (N (gkids (N f) ! 2)) else None
      | None \<Rightarrow> None)"

lemma gname_from_bound: "gname_from N i ks \<noteq> 0 \<Longrightarrow> i \<le> gname_from N i ks \<and> gname_from N i ks < i + length ks"
  by (induction N i ks rule: gname_from.induct) (auto split: if_splits)

lemma gdefNameAt_bound: "gdefNameAt N f > 0 \<Longrightarrow> gdefNameAt N f < length (gkids (N f))"
  using gname_from_bound [of N 1 "drop 1 (gkids (N f))"] by (auto simp: gdefNameAt_def)

subsection \<open>The graph\<close>

text \<open>
  A graph is its nodes, its three sections and the last id given (\<open>Sequential\<close>), with the
  journals begun on it and the one being kept.  The nodes 0, 1 and 2 are the sentinels an
  \<open>Editor\<close> puts above the sections; every other node of the graph has a name from 3 on and
  below \<open>gnext\<close>.
\<close>

record node_state =
  sn :: nat
  satom :: bytes
  skids :: "nat list"
  srefs :: "nat list"
  stype :: "nat option"
  sid :: id

record journal =
  jsaved :: "nat set"
  jnodes :: "node_state list"
  jforms :: "nat list"
  jtypes :: "nat list"
  jexterns :: "nat list"
  jids :: id
  jdone :: bool

record graph =
  gnodes :: gstore
  gnext :: nat
  gforms :: "nat list"
  gtypes :: "nat list"
  gexterns :: "nat list"
  glast :: id
  journals :: "nat \<Rightarrow> journal"
  jnext :: nat
  recording :: "nat option"

definition isTop :: "nat \<Rightarrow> bool" where
  "isTop x \<longleftrightarrow> x < 3"

definition set_node :: "nat \<Rightarrow> gnode \<Rightarrow> graph \<Rightarrow> graph" where
  "set_node n k G = G\<lparr>gnodes := (gnodes G)(n := k)\<rparr>"

definition NextId :: "graph \<Rightarrow> id \<times> graph" where
  "NextId G = (glast G + 1, G\<lparr>glast := glast G + 1\<rparr>)"

definition SawId :: "id \<Rightarrow> graph \<Rightarrow> graph" where
  "SawId i G = (if i > glast G then G\<lparr>glast := i\<rparr> else G)"

definition Fresh :: "nat \<Rightarrow> graph \<Rightarrow> graph" where
  "Fresh n G = (let (i, G1) = NextId G in set_node n ((gnodes G1 n)\<lparr>gid := i\<rparr>) G1)"

text \<open>
  The containers above a node, up to a sentinel.  The code follows \<open>up\<close> until \<open>nil\<close>; here the
  chain is given fuel, one more than the nodes there are.
\<close>

fun live_up :: "nat \<Rightarrow> gstore \<Rightarrow> nat option \<Rightarrow> bool" where
  "live_up fuel N None = False"
| "live_up 0 N (Some x) = False"
| "live_up (Suc fuel) N (Some x) = (isTop x \<or> live_up fuel N (gup (N x)))"

definition gLive :: "graph \<Rightarrow> nat \<Rightarrow> bool" where
  "gLive G n = live_up (gnext G + 1) (gnodes G) (Some n)"

definition Parent :: "graph \<Rightarrow> nat \<Rightarrow> nat option" where
  "Parent G n =
     (if \<not> gLive G n then None
      else (case gup (gnodes G n) of Some p \<Rightarrow> if isTop p then None else Some p | None \<Rightarrow> None))"

text \<open>A node's elements and everything under them, a node before its elements.\<close>

fun walk_nodes :: "nat \<Rightarrow> gstore \<Rightarrow> nat \<Rightarrow> nat list option" where
  "walk_nodes 0 N n = None"
| "walk_nodes (Suc fuel) N n =
     map_option (\<lambda>xss. n # concat xss) (those (map (walk_nodes fuel N) (gkids (N n))))"

end
