(* ===== verification/ConstFold.thy ===== *)
theory ConstFold
  imports Graph GraphEval
begin

text \<open>
  The constants of crefactor/graph/foldx_eval.go: a C constant expression's value and type, on
  the forms of the program graph, as the compiler's own check computes them.  An integer is an
  \<open>int64\<close>, a 64-bit word, whatever its type; a type has its size in bytes.
\<close>

subsection \<open>Types and values\<close>

record xtype =
  xsize :: nat
  xsigned :: bool
  xptr :: bool
  xbool :: bool
  xfloat :: bool

definition no_type :: xtype where
  "no_type = \<lparr>xsize = 0, xsigned = False, xptr = False, xbool = False, xfloat = False\<rparr>"

definition xInt :: xtype where "xInt = no_type\<lparr>xsize := 4, xsigned := True\<rparr>"
definition xUInt :: xtype where "xUInt = no_type\<lparr>xsize := 4\<rparr>"
definition xLong :: xtype where "xLong = no_type\<lparr>xsize := 8, xsigned := True\<rparr>"
definition xULong :: xtype where "xULong = no_type\<lparr>xsize := 8\<rparr>"
definition xPtr :: xtype where "xPtr = no_type\<lparr>xsize := 8, xptr := True\<rparr>"
definition xBool :: xtype where "xBool = no_type\<lparr>xsize := 1, xbool := True\<rparr>"
definition xChar :: xtype where "xChar = no_type\<lparr>xsize := 1, xsigned := True\<rparr>"

definition integer :: "xtype \<Rightarrow> bool" where
  "integer t \<longleftrightarrow> xsize t > 0 \<and> \<not> xptr t"

definition arithmetic :: "xtype \<Rightarrow> bool" where
  "arithmetic t \<longleftrightarrow> integer t \<or> xfloat t"

record xvalue =
  xv :: int64
  xunsigned :: bool

definition plain :: "int64 \<Rightarrow> xvalue" where
  "plain v = \<lparr>xv = v, xunsigned = False\<rparr>"

text \<open>\<open>convert\<close>, with the sign bit's extension and the mask as the code writes them.\<close>

definition extend :: "nat \<Rightarrow> int64 \<Rightarrow> int64" where
  "extend w x =
     (if w < 8 then
        (let sbit = push_bit (w * 8 - 1) 1 in
         if x AND sbit \<noteq> 0 then x OR NOT (push_bit 1 sbit - 1) else x AND (sbit - 1))
      else x)"

definition mask_to :: "nat \<Rightarrow> int64 \<Rightarrow> int64" where
  "mask_to w x = x AND (if w < 8 then push_bit (8 * w) 1 - 1 else NOT 0)"

definition convert :: "xvalue \<Rightarrow> xtype \<Rightarrow> xvalue option" where
  "convert v t =
     (if xbool t then Some (plain (b2i (xv v \<noteq> 0)))
      else if xptr t then Some \<lparr>xv = xv v, xunsigned = True\<rparr>
      else if \<not> integer t \<or> xsize t > 8 then None
      else if xsigned t then Some (plain (extend (xsize t) (xv v)))
      else Some \<lparr>xv = mask_to (xsize t) (xv v), xunsigned = True\<rparr>)"

definition zero :: "xvalue \<Rightarrow> bool" where
  "zero v \<longleftrightarrow> xv v = 0"

definition promote :: "xtype \<Rightarrow> xtype" where
  "promote t = (if integer t \<and> xsize t < 4 then xInt else t)"

definition usual :: "xtype \<Rightarrow> xtype \<Rightarrow> xtype" where
  "usual a0 b0 =
     (let a = promote a0; b = promote b0 in
      if a = b then a
      else if xsigned a = xsigned b then (if xsize a \<ge> xsize b then a else b)
      else let (u, s) = (if xsigned a then (b, a) else (a, b)) in
        if xsize u \<ge> xsize s then u else s)"

subsection \<open>Literals\<close>

definition lit_digit :: "byte \<Rightarrow> nat option" where
  "lit_digit c =
     (if is_digit c then Some (byte_val c - 48)
      else if 97 \<le> byte_val c \<and> byte_val c \<le> (102::nat) then Some (byte_val c - 97 + 10)
      else if 65 \<le> byte_val c \<and> byte_val c \<le> (70::nat) then Some (byte_val c - 65 + 10)
      else None)"

text \<open>The literal's digits: \<open>bits.Mul64\<close> refuses a product past 64 bits; the sum wraps.\<close>

fun lit_digits :: "nat \<Rightarrow> int64 \<Rightarrow> bytes \<Rightarrow> int64 option" where
  "lit_digits base u [] = Some u"
| "lit_digits base u (c # s) =
     (case lit_digit c of
        None \<Rightarrow> None
      | Some d \<Rightarrow>
          if d \<ge> base then None
          else if unat u * base \<ge> 2 ^ 64 then None
          else lit_digits base (u * of_nat base + of_nat d) s)"

fun bit_len :: "nat \<Rightarrow> nat" where
  "bit_len n = (if n = 0 then 0 else Suc (bit_len (n div 2)))"

declare bit_len.simps [simp del]

text \<open>\<open>strings.ToLower\<close> on the suffix, whose letters are of \<open>uUlL\<close>.\<close>

definition lower_suffix :: "bytes \<Rightarrow> bytes" where
  "lower_suffix s = map (\<lambda>c. if c = CHR ''U'' then CHR ''u'' else if c = CHR ''L'' then CHR ''l'' else c) s"

definition lit_types :: "nat \<Rightarrow> bytes \<Rightarrow> xtype list option" where
  "lit_types base suffix =
     (if suffix = [] then Some (if base = 10 then [xInt, xLong, xLong] else [xInt, xUInt, xLong, xULong])
      else if suffix = ''u'' then Some [xUInt, xULong]
      else if suffix = ''l'' \<or> suffix = ''ll'' then Some (if base = 10 then [xLong] else [xLong, xULong])
      else if suffix \<in> {''lu'', ''ul'', ''llu'', ''ull''} then Some [xULong]
      else None)"

definition lit_base :: "bytes \<Rightarrow> nat \<times> bytes" where
  "lit_base s =
     (if has_prefix s ''0x'' \<or> has_prefix s ''0X'' then (16, drop 2 s)
      else if has_prefix s ''0b'' \<or> has_prefix s ''0B'' then (2, drop 2 s)
      else if has_prefix s ''0'' then (8, s)
      else (10, s))"

definition fits_bits :: "nat \<Rightarrow> xtype \<Rightarrow> bool" where
  "fits_bits b t \<longleftrightarrow> xsize t * 8 \<ge> b + (if xsigned t then 1 else 0)"

definition litType :: "bytes \<Rightarrow> (xvalue \<times> xtype) option" where
  "litType tok =
     (let s0 = filter (\<lambda>c. c \<noteq> squote) tok;
          s = TrimRight s0 ''uUlL'';
          suffix = lower_suffix (drop (length s) s0);
          (base, digits) = lit_base s
      in if digits = [] \<and> base \<noteq> 8 then None
         else (case lit_digits base 0 digits of
             None \<Rightarrow> None
           | Some u \<Rightarrow>
               (case lit_types base suffix of
                  None \<Rightarrow> None
                | Some ts \<Rightarrow>
                    map_option (\<lambda>t. (\<lparr>xv = u, xunsigned = \<not> xsigned t\<rparr>, t))
                      (List.find (fits_bits (bit_len (unat u))) ts))))"

subsection \<open>Types of words and forms\<close>

definition basicXType :: "bytes list \<Rightarrow> xtype" where
  "basicXType words =
     (let has = (\<lambda>w. w \<in> set words) in
      if has ''float'' \<or> has ''double'' \<or> has ''_Complex'' \<or> has ''_Float128'' then no_type\<lparr>xfloat := True\<rparr>
      else if has ''void'' then no_type
      else if has ''_Bool'' \<or> has ''bool'' then xBool
      else let t = no_type\<lparr>xsize := 4, xsigned := \<not> has ''unsigned''\<rparr> in
        if has ''char'' then t\<lparr>xsize := 1\<rparr>
        else if has ''short'' then t\<lparr>xsize := 2\<rparr>
        else if has ''long'' then t\<lparr>xsize := 8\<rparr>
        else if \<not> has ''int'' \<and> \<not> has ''unsigned'' \<and> \<not> has ''signed'' then no_type
        else t)"

text \<open>A node past its head is read as it is; a type node is a list with a head.\<close>

definition xtypeOfType :: "gstore \<Rightarrow> nat option \<Rightarrow> xtype" where
  "xtypeOfType N t =
     (if oIs N t ''pointer'' then xPtr
      else if oIs N t ''basic'' then
        basicXType (case t of Some n \<Rightarrow> map (\<lambda>k. gatom (N k)) (tl (gkids (N n))) | None \<Rightarrow> [])
      else if oIs N t ''enum'' \<or> oIs N t ''extern-enum'' then xInt
      else no_type)"

definition kid :: "gstore \<Rightarrow> nat \<Rightarrow> nat \<Rightarrow> nat ans" where
  "kid N n i = (if i < length (gkids (N n)) then Ans (gkids (N n) ! i) else Panic)"

definition type_qualifiers :: "bytes list" where
  "type_qualifiers = [''const'', ''volatile'', ''restrict'', ''register'', ''static'']"

text \<open>The words of a list of specifiers and the last named type among its elements.\<close>

fun specifiers :: "gstore \<Rightarrow> nat list \<Rightarrow> bytes list \<times> nat option" where
  "specifiers N [] = ([], None)"
| "specifiers N (k # ks) =
     (case specifiers N ks of (ws, nm) \<Rightarrow>
        (if glist (N k) then (ws, if nm = None \<and> \<not> isAttrForm N k then Some k else nm)
         else if gatom (N k) \<in> set type_qualifiers then (ws, nm)
         else if Ref N k \<noteq> None then (ws, if nm = None then Some k else nm)
         else (gatom (N k) # ws, nm)))"

fun xtype_from :: "nat \<Rightarrow> gstore \<Rightarrow> nat option \<Rightarrow> xtype ans" where
  "xtype_from 0 N t = Ans no_type"
| "xtype_from (Suc left) N None = Ans no_type"
| "xtype_from (Suc left) N (Some t) =
     (if \<not> glist (N t) then
        (case Ref N t of
           Some d \<Rightarrow>
             if (gIs N d ''typedef'' \<or> gIs N d ''def'' \<and> hasPrefix N d ''typedef'') \<and> gtype (N d) \<noteq> None then
               Ans (xtypeOfType N (gtype (N d)))
             else if gIs N d ''typedef'' \<or> gIs N d ''def'' \<and> hasPrefix N d ''typedef'' then
               xtype_from left N (defType N d)
             else if gIs N d ''extern-typedef'' then Ans (xtypeOfType N (gtype (N d)))
             else Ans (basicXType [gatom (N t)])
         | None \<Rightarrow> Ans (basicXType [gatom (N t)]))
      else if gHead N t \<in> {''ptr'', ''array'', ''fn'', ''fn-ids''} then Ans xPtr
      else if gHead N t \<in> {''paren'', ''name-attr'', ''spec''} then
        abind (kid N t 1) (\<lambda>k. xtype_from left N (Some k))
      else if gHead N t = ''enum'' then Ans xInt
      else if gHead N t \<in> {''struct'', ''union'', ''typeof'', ''typeof-type'', ''__typeof__'', ''__typeof__-type'',
          ''atomic''} then Ans no_type
      else (case specifiers N (gkids (N t)) of (ws, nm) \<Rightarrow>
        if ws = [] \<and> nm \<noteq> None then xtype_from left N nm else Ans (basicXType ws)))"

definition xtypeOfForm :: "gstore \<Rightarrow> nat option \<Rightarrow> xtype ans" where
  "xtypeOfForm N t = xtype_from 64 N t"

subsection \<open>Binary operations\<close>

definition compare_op :: "bytes \<Rightarrow> int \<Rightarrow> int \<Rightarrow> bool" where
  "compare_op op a b \<longleftrightarrow>
     op = ''<'' \<and> a < b \<or> op = ''>'' \<and> a > b \<or> op = ''<='' \<and> a \<le> b \<or> op = ''>='' \<and> a \<ge> b"

definition xcompare :: "bytes \<Rightarrow> xvalue \<Rightarrow> xtype \<Rightarrow> xvalue \<Rightarrow> xtype \<Rightarrow> (xvalue \<times> xtype) option" where
  "xcompare op l lt r rt =
     (if arithmetic lt \<and> arithmetic rt \<and> (xfloat lt \<or> xfloat rt) then None
      else let t1 = (if arithmetic lt \<and> arithmetic rt then usual lt rt else lt);
               t2 = (if arithmetic lt \<and> arithmetic rt then usual lt rt else rt) in
        if xsize t1 = 0 \<or> xsize t2 = 0 then None
        else (case (convert l t1, convert r t2) of
            (Some x, Some y) \<Rightarrow>
              if op = ''=='' \<or> op = ''!='' then Some (plain (b2i ((xv x = xv y) = (op = ''==''))), xInt)
              else if xunsigned x \<noteq> xunsigned y then None
              else if xunsigned x then Some (plain (b2i (compare_op op (uint (xv x)) (uint (xv y)))), xInt)
              else Some (plain (b2i (compare_op op (sint (xv x)) (sint (xv y)))), xInt)
          | _ \<Rightarrow> None))"

definition xshift :: "bytes \<Rightarrow> xvalue \<Rightarrow> xtype \<Rightarrow> xvalue \<Rightarrow> xtype \<Rightarrow> (xvalue \<times> xtype) option" where
  "xshift op l lt r rt =
     (if \<not> integer lt \<or> \<not> integer rt then None
      else let t = promote lt in
        case convert l t of
          None \<Rightarrow> None
        | Some x \<Rightarrow>
            if \<not> xunsigned r \<and> sint (xv r) < 0 then None
            else let s = unat (xv r);
                     v = (if s \<ge> 64 then 0
                          else if op = ''<<'' then push_bit s (xv x)
                          else if xunsigned x then drop_bit s (xv x)
                          else signed_drop_bit s (xv x))
              in map_option (\<lambda>x. (x, t)) (convert (x\<lparr>xv := v\<rparr>) t))"

definition arith_op :: "bytes \<Rightarrow> bool \<Rightarrow> int64 \<Rightarrow> int64 \<Rightarrow> int64 option" where
  "arith_op op sg x y =
     (if op = ''+'' then Some (x + y)
      else if op = ''-'' then Some (x - y)
      else if op = ''*'' then Some (x * y)
      else if op = ''/'' \<or> op = ''%'' then
        (if y = 0 then None
         else if sg then Some (if op = ''/'' then quot64 x y else rem64 x y)
         else Some (if op = ''/'' then x div y else x mod y))
      else if op = ''&'' then Some (x AND y)
      else if op = ''|'' then Some (x OR y)
      else if op = ''^'' then Some (x XOR y)
      else None)"

definition xbinary :: "bytes \<Rightarrow> xvalue \<Rightarrow> xtype \<Rightarrow> xvalue \<Rightarrow> xtype \<Rightarrow> (xvalue \<times> xtype) option" where
  "xbinary op l lt r rt =
     (if op \<in> {''=='', ''!='', ''<'', ''>'', ''<='', ''>=''} then xcompare op l lt r rt
      else if op \<in> {''<<'', ''>>''} then xshift op l lt r rt
      else if \<not> integer lt \<or> \<not> integer rt then None
      else let t = usual lt rt in
        case (convert l t, convert r t) of
          (Some x, Some y) \<Rightarrow>
            Option.bind (arith_op op (xsigned t) (xv x) (xv y))
              (\<lambda>v. map_option (\<lambda>x. (x, t)) (convert \<lparr>xv = v, xunsigned = \<not> xsigned t\<rparr> t))
        | _ \<Rightarrow> None)"

subsection \<open>The constants of the standard headers\<close>

definition min_max :: "bytes list \<Rightarrow> bytes \<Rightarrow> bytes \<Rightarrow> bool" where
  "min_max ps suffix name \<longleftrightarrow> (\<exists>p \<in> set ps. name = p @ suffix)"

definition header_value :: "bytes \<Rightarrow> (int \<times> xtype) option" where
  "header_value name =
     (let longs = [''LONG'', ''LLONG'', ''PTRDIFF'', ''INTPTR'', ''INTMAX'', ''INT64'', ''SSIZE''];
          ulongs = [''ULONG'', ''ULLONG'', ''SIZE'', ''UINTPTR'', ''UINTMAX'', ''UINT64''] in
      if name = ''CHAR_BIT'' then Some (8, xInt)
      else if name \<in> {''SCHAR_MIN'', ''CHAR_MIN'', ''INT8_MIN''} then Some (- 128, xInt)
      else if name \<in> {''SCHAR_MAX'', ''CHAR_MAX'', ''INT8_MAX''} then Some (127, xInt)
      else if name \<in> {''UCHAR_MAX'', ''UINT8_MAX''} then Some (255, xInt)
      else if name \<in> {''SHRT_MIN'', ''INT16_MIN''} then Some (- 32768, xInt)
      else if name \<in> {''SHRT_MAX'', ''INT16_MAX''} then Some (32767, xInt)
      else if name \<in> {''USHRT_MAX'', ''UINT16_MAX''} then Some (65535, xInt)
      else if name \<in> {''INT_MIN'', ''INT32_MIN''} then Some (- (2 ^ 31), xInt)
      else if name \<in> {''INT_MAX'', ''INT32_MAX''} then Some (2 ^ 31 - 1, xInt)
      else if name \<in> {''UINT_MAX'', ''UINT32_MAX''} then Some (2 ^ 32 - 1, xUInt)
      else if min_max longs ''_MIN'' name then Some (- (2 ^ 63), xLong)
      else if min_max longs ''_MAX'' name then Some (2 ^ 63 - 1, xLong)
      else if min_max ulongs ''_MAX'' name then Some (- 1, xULong)
      else if name = ''EOF'' then Some (- 1, xInt)
      else None)"

definition headerConstants :: "bytes \<Rightarrow> (xvalue \<times> xtype) option" where
  "headerConstants name =
     (case header_value name of
        None \<Rightarrow> None
      | Some (v, t) \<Rightarrow>
          map_option (\<lambda>x. (x, t)) (convert \<lparr>xv = word_of_int v, xunsigned = \<not> xsigned t\<rparr> t))"

subsection \<open>Type nodes, their sizes and members\<close>

definition assignOps :: "bytes list" where
  "assignOps = [''='', ''+='', ''-='', ''*='', ''/='', ''%='', ''<<='', ''>>='', ''&='', ''^='', ''|='']"

definition incDec :: "bytes list" where
  "incDec = [''pre++'', ''pre--'', ''post++'', ''post--'']"

text \<open>An expression's type node; the recursion into the form is given fuel.\<close>

primrec typeNode :: "nat \<Rightarrow> gstore \<Rightarrow> nat \<Rightarrow> nat option ans" where
  "typeNode 0 N n = NoFuel"
| "typeNode (Suc fuel) N n =
     (let h = gHead N n; args = gArgs N n; go = typeNode fuel N in
      if \<not> glist (N n) then Ans (case Ref N n of Some d \<Rightarrow> gtype (N d) | None \<Rightarrow> None)
      else if gtype (N n) \<noteq> None then Ans (gtype (N n))
      else if h = ''paren'' \<and> length args = 1 then go (args ! 0)
      else if h = ''?'' \<and> length args = 3 then
        abind (go (args ! 1)) (\<lambda>t. if t \<noteq> None then Ans t else go (args ! 2))
      else if h = ''comma'' \<and> args \<noteq> [] then go (last args)
      else if (h \<in> set assignOps \<or> h \<in> set incDec) \<and> args \<noteq> [] then go (args ! 0)
      else if h = ''call'' \<and> args \<noteq> [] then abind (go (args ! 0)) (\<lambda>t. Ans (resultType N t))
      else if (h = ''deref'' \<or> h = ''index'') \<and> args \<noteq> [] then abind (go (args ! 0)) (\<lambda>t. Ans (pointee N t))
      else if (h = ''->'' \<or> h = ''.'') \<and> length args > 1 then
        Ans (case Ref N (last args) of Some d \<Rightarrow> gtype (N d) | None \<Rightarrow> None)
      else Ans None)"

fun contains :: "bytes \<Rightarrow> bytes \<Rightarrow> bool" where
  "contains w [] = (w = [])"
| "contains w (c # s) = (has_prefix (c # s) w \<or> contains w s)"

text \<open>\<open>strconv.ParseInt\<close> in base ten.\<close>

definition ParseInt64 :: "bytes \<Rightarrow> int64 option" where
  "ParseInt64 s =
     (if s = [] then None
      else let neg = (hd s = CHR ''-'');
               u = ParseUint (if neg \<or> hd s = CHR ''+'' then tl s else s) 10 64 in
        case u of
          None \<Rightarrow> None
        | Some v \<Rightarrow>
            if neg then (if v \<le> 2 ^ 63 then Some (- of_nat v) else None)
            else if v < 2 ^ 63 then Some (of_nat v) else None)"

definition basic_layout :: "bytes \<Rightarrow> (int64 \<times> int64) option" where
  "basic_layout w =
     (if w = ''void'' \<or> w = ''_Bool'' \<or> has_suffix w ''char'' then Some (1, 1)
      else if has_suffix w ''short'' then Some (2, 2)
      else if w = ''long double'' then Some (16, 16)
      else if contains ''long'' w \<or> w = ''double'' then Some (8, 8)
      else if has_suffix w ''int'' \<or> w = ''unsigned'' \<or> w = ''float'' then Some (4, 4)
      else None)"

text \<open>\<open>n\<close> rounded up to a multiple of \<open>a\<close>, in \<open>int64\<close> as the code divides.\<close>

definition round_up :: "int64 \<Rightarrow> int64 \<Rightarrow> int64" where
  "round_up n a = quot64 (n + a - 1) a * a"

definition max64 :: "int64 \<Rightarrow> int64 \<Rightarrow> int64" where
  "max64 a b = (if sint b > sint a then b else a)"

text \<open>
  The loop over a struct's or union's members: \<open>lay\<close> is \<open>typeLayout\<close> one level down, and the
  pair is the size and the alignment so far.
\<close>

fun layout_members ::
  "gstore \<Rightarrow> (nat option \<Rightarrow> (int64 \<times> int64) option) \<Rightarrow> bool \<Rightarrow> nat list \<Rightarrow> int64 \<times> int64 \<Rightarrow> (int64 \<times> int64) option" where
  "layout_members N lay un [] sa = Some sa"
| "layout_members N lay un (m # ms) sa =
     (if gIs N m ''static_assert'' then layout_members N lay un ms sa
      else if (\<exists>k \<in> set (gkids (N m)). gIs N k ''bits'') then None
      else (case lay (gtype (N m)) of
          None \<Rightarrow> None
        | Some (s, a) \<Rightarrow>
            layout_members N lay un ms
              (if un then max64 (fst sa) s else round_up (fst sa) a + s, max64 (snd sa) a)))"

text \<open>\<open>layout_at\<close> has as many levels left as the code's depth leaves below 33.\<close>

primrec layout_at :: "nat \<Rightarrow> gstore \<Rightarrow> nat option \<Rightarrow> (int64 \<times> int64) option" where
  "layout_at 0 N t = None"
| "layout_at (Suc left) N t =
     (case t of
        None \<Rightarrow> None
      | Some n \<Rightarrow>
          if gIs N n ''pointer'' then Some (8, 8)
          else if gIs N n ''enum'' \<or> gIs N n ''extern-enum'' then Some (4, 4)
          else if gIs N n ''function'' then Some (1, 1)
          else if gIs N n ''basic'' then
            basic_layout (Join (map (\<lambda>k. gatom (N k)) (tl (gkids (N n)))) '' '')
          else if gIs N n ''array'' then
            (let ks = gkids (N n) in
             if length ks \<noteq> 3 \<or> glist (N (ks ! 1)) then None
             else (case ParseInt64 (gatom (N (ks ! 1))) of
                 None \<Rightarrow> None
               | Some c \<Rightarrow> map_option (\<lambda>(s, a). (c * s, a)) (layout_at left N (pointee N t))))
          else if gIs N n ''struct'' \<or> gIs N n ''union'' then
            map_option (\<lambda>(s, a). (round_up s a, a))
              (layout_members N (layout_at left N) (gIs N n ''union'') (members N n) (0, 1))
          else None)"

definition typeLayout :: "gstore \<Rightarrow> nat option \<Rightarrow> nat \<Rightarrow> (int64 \<times> int64) option" where
  "typeLayout N t depth = layout_at (33 - depth) N t"

fun offset_from :: "gstore \<Rightarrow> bytes \<Rightarrow> int64 \<Rightarrow> nat list \<Rightarrow> int64 option" where
  "offset_from N name off [] = None"
| "offset_from N name off (m # ms) =
     (if gIs N m ''static_assert'' then offset_from N name off ms
      else (case typeLayout N (gtype (N m)) 1 of
          None \<Rightarrow>
            (case gtype (N m) of
               Some t \<Rightarrow>
                 if gIs N t ''array'' \<and> length (gkids (N t)) = 2 \<and> declName N m = name then
                   map_option (\<lambda>(_, a). round_up off a) (typeLayout N (pointee N (Some t)) 1)
                 else None
             | None \<Rightarrow> None)
        | Some (s, a) \<Rightarrow>
            if declName N m = name then Some (round_up off a)
            else offset_from N name (round_up off a + s) ms))"

definition offsetOf :: "gstore \<Rightarrow> nat \<Rightarrow> bytes \<Rightarrow> int64 option" where
  "offsetOf N s name = (if gIs N s ''struct'' then offset_from N name 0 (members N s) else None)"

text \<open>The last element that names a type.\<close>

definition named_kid :: "gstore \<Rightarrow> nat list \<Rightarrow> nat option" where
  "named_kid N ks =
     (case filter (\<lambda>k. if glist (N k) then \<not> isAttrForm N k else Ref N k \<noteq> None) ks of
        [] \<Rightarrow> None
      | xs \<Rightarrow> Some (last xs))"

fun form_type_from :: "nat \<Rightarrow> gstore \<Rightarrow> nat option \<Rightarrow> nat option ans" where
  "form_type_from 0 N t = Ans None"
| "form_type_from (Suc left) N None = Ans None"
| "form_type_from (Suc left) N (Some t) =
     (if \<not> glist (N t) then Ans (case Ref N t of Some d \<Rightarrow> gtype (N d) | None \<Rightarrow> None)
      else if gHead N t \<in> {''struct'', ''union'', ''enum''} then Ans (Ref N t)
      else if gHead N t \<in> {''paren'', ''spec''} then abind (kid N t 1) (\<lambda>k. form_type_from left N (Some k))
      else (case named_kid N (gkids (N t)) of
          None \<Rightarrow> Ans None
        | Some k \<Rightarrow> form_type_from left N (Some k)))"

definition formTypeNode :: "gstore \<Rightarrow> nat option \<Rightarrow> nat option ans" where
  "formTypeNode N t = form_type_from 64 N t"

definition sizeofValue :: "nat \<Rightarrow> gstore \<Rightarrow> nat \<Rightarrow> int64 ans" where
  "sizeofValue fuel N n =
     (let h = gHead N n;
          pick = (\<lambda>t. answer (map_option (\<lambda>(s, a). if has_prefix h ''alignof'' then a else s) (typeLayout N t 0)))
      in abind (kid N n 1) (\<lambda>k.
        if has_suffix h ''-type'' then
          abind (xtypeOfForm N (Some k)) (\<lambda>w.
            if integer w \<or> xptr w then (if xsize w > 0 then Ans (of_nat (xsize w)) else Unknown)
            else abind (formTypeNode N (Some k)) pick)
        else abind (typeNode fuel N k) pick))"

definition trim_quotes :: "bytes \<Rightarrow> bytes" where
  "trim_quotes s = rev (dropWhile (\<lambda>c. c = dquote) (rev (dropWhile (\<lambda>c. c = dquote) s)))"

text \<open>The member name of \<open>offsetof(T, m)\<close>: two parts at one comma.\<close>

definition offsetof_member :: "bytes \<Rightarrow> bytes option" where
  "offsetof_member s =
     (if \<not> has_prefix s ''offsetof('' \<or> \<not> has_suffix s '')'' then None
      else let inner = drop 9 (butlast s) in
        (if length (filter (\<lambda>c. c = CHR '','') inner) \<noteq> 1 then None
         else Some (TrimSpace (tl (dropWhile (\<lambda>c. c \<noteq> CHR '','') inner)))))"

definition isMember :: "graph \<Rightarrow> nat \<Rightarrow> bool" where
  "isMember G r = (case Parent G r of Some p \<Rightarrow> gIs (gnodes G) p ''struct'' \<or> gIs (gnodes G) p ''union'' | None \<Rightarrow> False)"

definition offsetofValue :: "graph \<Rightarrow> nat \<Rightarrow> int64 ans" where
  "offsetofValue G n =
     (let N = gnodes G; ks = gkids (N n) in
      if length ks \<noteq> 2 \<or> glist (N (ks ! 1)) then Unknown
      else (case offsetof_member (trim_quotes (gatom (N (ks ! 1)))) of
          None \<Rightarrow> Unknown
        | Some member \<Rightarrow>
            (case List.find (\<lambda>r. declName N r = member \<and> isMember G r) (grefs (N n)) of
               None \<Rightarrow> Unknown
             | Some r \<Rightarrow>
                 (case Parent G r of Some p \<Rightarrow> answer (offsetOf N p member) | None \<Rightarrow> Unknown))))"

subsection \<open>The evaluator\<close>

text \<open>
  The evaluator keeps the enumerators' values it has found (\<open>enumVals\<close>).  \<open>ev\<close> in the pieces
  below is the evaluator itself, one call down.
\<close>

type_synonym memo = "nat \<rightharpoonup> int64"
type_synonym 'a ev = "memo \<Rightarrow> 'a ans \<times> memo"
type_synonym xconstant = "xvalue \<times> xtype"

definition give :: "'a ans \<Rightarrow> 'a ev" where
  "give a m = (a, m)"

definition ebind :: "'a ev \<Rightarrow> ('a \<Rightarrow> 'b ev) \<Rightarrow> 'b ev" where
  "ebind e f m = (case e m of (Ans x, m1) \<Rightarrow> f x m1 | (Unknown, m1) \<Rightarrow> (Unknown, m1)
     | (Panic, m1) \<Rightarrow> (Panic, m1) | (NoFuel, m1) \<Rightarrow> (NoFuel, m1))"

text \<open>The answer if there is one; having none does not stop what follows.\<close>

definition attempt :: "'a ev \<Rightarrow> 'a option ev" where
  "attempt e m = (case e m of (Ans x, m1) \<Rightarrow> (Ans (Some x), m1) | (Unknown, m1) \<Rightarrow> (Ans None, m1)
     | (Panic, m1) \<Rightarrow> (Panic, m1) | (NoFuel, m1) \<Rightarrow> (NoFuel, m1))"

definition as_type :: "xvalue \<Rightarrow> xtype \<Rightarrow> xconstant ev" where
  "as_type v t = give (answer (map_option (\<lambda>x. (x, t)) (convert v t)))"

text \<open>The enumerators of an enum up to \<open>d\<close>, each one more than the last or as it says.\<close>

fun enum_from :: "graph \<Rightarrow> (nat \<Rightarrow> xconstant ev) \<Rightarrow> nat \<Rightarrow> nat list \<Rightarrow> int64 \<Rightarrow> int64 ev" where
  "enum_from G ev d [] prev m = (Unknown, m)"
| "enum_from G ev d (e # es) prev m =
     (if \<not> glist (gnodes G e) \<or> gIs (gnodes G) e ''@'' then enum_from G ev d es prev m
      else ebind (case enumValue (gnodes G) e of
            Some v \<Rightarrow> ebind (ev v) (\<lambda>(c, _). give (Ans (xv c)))
          | None \<Rightarrow> give (Ans (prev + 1)))
        (\<lambda>p m1. let m2 = m1(e \<mapsto> p) in if e = d then (Ans p, m2) else enum_from G ev d es p m2) m)"

definition enumerator :: "graph \<Rightarrow> (nat \<Rightarrow> xconstant ev) \<Rightarrow> nat \<Rightarrow> int64 ev" where
  "enumerator G ev d m =
     (case m d of
        Some v \<Rightarrow> (Ans v, m)
      | None \<Rightarrow>
          (case Parent G d of
             Some p \<Rightarrow> if gIs (gnodes G) p ''enum'' then enum_from G ev d (gbody (gnodes G) p) (- 1) m else (Unknown, m)
           | None \<Rightarrow> (Unknown, m)))"

definition float_text :: "bytes \<Rightarrow> bool" where
  "float_text t \<longleftrightarrow>
     (\<exists>c \<in> set t. c \<in> set ''.pP'') \<or>
     (\<exists>c \<in> set t. c \<in> set ''eE'') \<and> \<not> has_prefix t ''0x'' \<and> \<not> has_prefix t ''0X''"

definition xatom :: "graph \<Rightarrow> (nat \<Rightarrow> xconstant ev) \<Rightarrow> nat \<Rightarrow> xconstant ev" where
  "xatom G ev n =
     (let t = gatom (gnodes G n); r = Ref (gnodes G) n;
          declared = (case r of
              Some d \<Rightarrow> ebind (enumerator G ev d) (\<lambda>v. give (Ans (plain v, xInt)))
            | None \<Rightarrow> give Unknown)
      in if t = [] then give Unknown
         else if is_digit (hd t) then give (if float_text t then Unknown else answer (litType t))
         else if hd t = squote then
           (if length t = 1 then give Panic
            else give (answer (Option.bind (parseChar (butlast (tl t)))
              (\<lambda>c. map_option (\<lambda>v. (v, xInt)) (convert (plain c) xChar)))))
         else if t = ''nullptr'' \<and> r = None then give (Ans (\<lparr>xv = 0, xunsigned = True\<rparr>, xPtr))
         else if (t = ''true'' \<or> t = ''false'') \<and> r = None then give (Ans (plain (b2i (t = ''true'')), xBool))
         else (case (if r = None then headerConstants t else None) of
             Some c \<Rightarrow> give (Ans c)
           | None \<Rightarrow> declared))"

definition unary_value :: "bytes \<Rightarrow> xconstant \<Rightarrow> xconstant ans" where
  "unary_value h = (\<lambda>(v, t).
     if \<not> integer t then Unknown
     else let p = promote t in
       answer (Option.bind (convert v p) (\<lambda>x.
         map_option (\<lambda>y. (y, p))
           (convert (x\<lparr>xv := (if h = ''-'' then - xv x else if h = ''~'' then NOT (xv x) else xv x)\<rparr>) p))))"

text \<open>The operands of \<open>&&\<close> and \<open>||\<close> after the first: those not decided are passed over.\<close>

fun logic_from :: "bytes \<Rightarrow> (nat \<Rightarrow> xconstant ev) \<Rightarrow> bool \<Rightarrow> nat list \<Rightarrow> bool ev" where
  "logic_from h ev acc [] = give (Ans acc)"
| "logic_from h ev acc (a # as) =
     (if h = ''&&'' \<and> \<not> acc \<or> h = ''||'' \<and> acc then logic_from h ev acc as
      else ebind (ev a) (\<lambda>(r, rt). if xsize rt = 0 then give Unknown else logic_from h ev (\<not> zero r) as))"

fun chain_from :: "bytes \<Rightarrow> (nat \<Rightarrow> xconstant ev) \<Rightarrow> xconstant \<Rightarrow> nat list \<Rightarrow> xconstant ev" where
  "chain_from h ev l [] = give (Ans l)"
| "chain_from h ev l (a # as) =
     ebind (ev a) (\<lambda>(r, rt).
       case xbinary h (fst l) (snd l) r rt of
         None \<Rightarrow> give Unknown
       | Some l' \<Rightarrow> chain_from h ev l' as)"

definition conditional :: "(nat \<Rightarrow> xconstant ev) \<Rightarrow> nat \<Rightarrow> nat \<Rightarrow> nat \<Rightarrow> xconstant ev" where
  "conditional ev c a b =
     ebind (ev c) (\<lambda>(cv, ct).
       if xsize ct = 0 then give Unknown
       else ebind (ev (if zero cv then b else a)) (\<lambda>(v, t).
         ebind (attempt (ev a)) (\<lambda>ra.
           ebind (attempt (ev b)) (\<lambda>rb.
             let t' = (case (ra, rb) of
                 (Some (_, ta), Some (_, tb)) \<Rightarrow> if integer ta \<and> integer tb then usual ta tb else t
               | _ \<Rightarrow> t)
             in as_type v t'))))"

definition const_form_step :: "nat \<Rightarrow> graph \<Rightarrow> (nat \<Rightarrow> xconstant ev) \<Rightarrow> bytes \<Rightarrow> nat \<Rightarrow> nat list \<Rightarrow> xconstant ev" where
  "const_form_step fuel G ev h n args =
     (let N = gnodes G; word = (\<lambda>a. abind a (\<lambda>v. Ans (\<lparr>xv = v, xunsigned = True\<rparr>, xULong))) in
      if h = ''paren'' \<and> length args = 1 then ev (args ! 0)
      else if has_prefix h ''sizeof'' \<or> has_prefix h ''alignof'' then
        (if length args \<noteq> 1 then give Unknown else give (word (sizeofValue fuel N n)))
      else if h = ''macro'' then give (word (offsetofValue G n))
      else if h = ''comma'' \<and> args \<noteq> [] then ev (last args)
      else if h = ''='' \<and> length args = 2 then
        ebind (give (typeNode fuel N (args ! 0))) (\<lambda>tn.
          ebind (ev (args ! 1)) (\<lambda>(v, _).
            let t = xtypeOfType N tn in if xsize t = 0 then give Unknown else as_type v t))
      else if h = ''cast'' \<and> length args = 2 then
        ebind (give (xtypeOfForm N (Some (args ! 0)))) (\<lambda>t.
          if xsize t = 0 then give Unknown else ebind (ev (args ! 1)) (\<lambda>(v, _). as_type v t))
      else if length args = 1 \<and> h \<in> {''-'', ''+'', ''~''} then
        ebind (ev (args ! 0)) (\<lambda>c. give (unary_value h c))
      else if length args = 1 \<and> h = ''!'' then
        ebind (ev (args ! 0)) (\<lambda>(v, t). if xsize t = 0 then give Unknown else give (Ans (plain (b2i (zero v)), xInt)))
      else if h = ''?'' \<and> length args = 3 then conditional ev (args ! 0) (args ! 1) (args ! 2)
      else if (h = ''&&'' \<or> h = ''||'') \<and> length args \<ge> 2 then
        ebind (ev (args ! 0)) (\<lambda>(l, lt).
          if xsize lt = 0 then give Unknown
          else ebind (logic_from h ev (\<not> zero l) (tl args)) (\<lambda>b. give (Ans (plain (b2i b), xInt))))
      else if length args \<ge> 2 \<and> binaryOps h then
        ebind (ev (args ! 0)) (\<lambda>l. chain_from h ev l (tl args))
      else give Unknown)"

text \<open>\<open>xconst\<close>; the fuel is what the recursion, into a form and through enumerators, may use.\<close>

primrec xconst :: "nat \<Rightarrow> graph \<Rightarrow> nat \<Rightarrow> xconstant ev" where
  "xconst 0 G n = give NoFuel"
| "xconst (Suc fuel) G n =
     (if \<not> glist (gnodes G n) then xatom G (xconst fuel G) n
      else const_form_step fuel G (xconst fuel G) (gHead (gnodes G) n) n (gArgs (gnodes G) n))"

end
