(* ===== verification/ConstMeaning.thy ===== *)
theory ConstMeaning
  imports ConstFold
begin

text \<open>
  What a C constant expression means, as the C standard says it for the LP64 types, and that the
  evaluator of crefactor/graph/foldx_eval.go answers it: conversions, the usual arithmetic
  conversions, literals, the operators, and the layout of structures.
\<close>

subsection \<open>Integers and types\<close>

definition itype :: "xtype \<Rightarrow> bool" where
  "itype t \<longleftrightarrow> \<not> xptr t \<and> \<not> xfloat t \<and>
     (if xbool t then xsize t = 1 \<and> \<not> xsigned t else xsize t \<in> {1, 2, 4, 8})"

definition in_type :: "xtype \<Rightarrow> int \<Rightarrow> bool" where
  "in_type t z \<longleftrightarrow>
     (if xbool t then z = 0 \<or> z = 1
      else if xsigned t then - (2 ^ (8 * xsize t - 1)) \<le> z \<and> z < 2 ^ (8 * xsize t - 1)
      else 0 \<le> z \<and> z < 2 ^ (8 * xsize t))"

definition c_convert :: "xtype \<Rightarrow> int \<Rightarrow> int" where
  "c_convert t z =
     (if xbool t then (if z = 0 then 0 else 1)
      else if xsigned t then wrap_s (8 * xsize t) z
      else wrap_u (8 * xsize t) z)"

text \<open>The value \<open>v\<close> of the type \<open>t\<close> is the integer \<open>z\<close>.\<close>

definition holds :: "xvalue \<Rightarrow> xtype \<Rightarrow> int \<Rightarrow> bool" where
  "holds v t z \<longleftrightarrow>
     in_type t z \<and> xv v = word_of_int z \<and> (xunsigned v \<longleftrightarrow> \<not> xsigned t \<and> \<not> xbool t)"

definition word_range :: "int \<Rightarrow> bool" where
  "word_range z \<longleftrightarrow> - (2 ^ 63) \<le> z \<and> z < 2 ^ 64"

lemma xtype_simps [simp]:
  "xsize no_type = 0" "xsigned no_type = False" "xptr no_type = False" "xbool no_type = False" "xfloat no_type = False"
  "xsize xInt = 4" "xsigned xInt" "\<not> xptr xInt" "\<not> xbool xInt" "\<not> xfloat xInt"
  "xsize xUInt = 4" "\<not> xsigned xUInt" "\<not> xptr xUInt" "\<not> xbool xUInt" "\<not> xfloat xUInt"
  "xsize xLong = 8" "xsigned xLong" "\<not> xptr xLong" "\<not> xbool xLong" "\<not> xfloat xLong"
  "xsize xULong = 8" "\<not> xsigned xULong" "\<not> xptr xULong" "\<not> xbool xULong" "\<not> xfloat xULong"
  by (simp_all add: no_type_def xInt_def xUInt_def xLong_def xULong_def)

lemma itype_simps [simp]: "itype xInt" "itype xUInt" "itype xLong" "itype xULong"
  by (simp_all add: itype_def)

lemma itype_integer: "itype t \<Longrightarrow> integer t \<and> xsize t \<le> 8 \<and> xsize t > 0 \<and> arithmetic t \<and> \<not> xptr t \<and> \<not> xfloat t"
  by (auto simp: itype_def integer_def arithmetic_def split: if_splits)

lemma wrap_s_signed: "0 < w \<Longrightarrow> wrap_s w z = signed_take_bit (w - 1) z"
  by (cases w) (simp_all add: wrap_s_def signed_take_bit_eq_take_bit_shift take_bit_eq_mod)

lemma wrap_u_take: "wrap_u w z = take_bit w z"
  by (simp add: wrap_u_def take_bit_eq_mod)

lemma in_type_word: "itype t \<Longrightarrow> in_type t z \<Longrightarrow> word_range z"
  by (auto simp: itype_def in_type_def word_range_def split: if_splits)

lemma in_convert: "itype t \<Longrightarrow> in_type t (c_convert t z)"
  using wrap_s_range [of "8 * xsize t" z] wrap_u_range [of "8 * xsize t" z]
  by (auto simp: in_type_def c_convert_def itype_def split: if_splits)

lemma convert_in: "itype t \<Longrightarrow> in_type t z \<Longrightarrow> c_convert t z = z"
  by (auto simp: in_type_def c_convert_def itype_def wrap_s_id wrap_u_id split: if_splits)

subsection \<open>Words\<close>

lemma extend_word: "w \<in> {1, 2, 4} \<Longrightarrow> extend w x = signed_take_bit (8 * w - 1) x"
proof -
  assume w: "w \<in> {1, 2, 4}"
  let ?k = "w * 8 - 1"
  have k: "?k < 63" "w < 8" using w by auto
  have m: "push_bit 1 (push_bit ?k 1) - 1 = (mask (Suc ?k) :: int64)"
    by (simp add: push_bit_eq_mult mask_eq_exp_minus_1)
  have m': "push_bit ?k 1 - 1 = (mask ?k :: int64)" by (simp add: push_bit_eq_mult mask_eq_exp_minus_1)
  have s: "x AND push_bit ?k 1 \<noteq> 0 \<longleftrightarrow> bit x ?k"
    by (simp add: push_bit_eq_mult and_exp_eq_0_iff_not_bit)
  have "(if bit x ?k then x OR NOT (mask (Suc ?k)) else x AND mask ?k) = signed_take_bit ?k x"
    by (rule bit_word_eqI) (use k in \<open>auto simp: bit_simps less_Suc_eq min_def\<close>)
  then show ?thesis
    unfolding extend_def Let_def m m' s using k by (simp add: mult.commute)
qed

lemma extend_of_int: "w \<in> {1, 2, 4, 8} \<Longrightarrow> extend w (word_of_int z) = word_of_int (wrap_s (8 * w) z)"
proof -
  assume w: "w \<in> {1, 2, 4, 8}"
  have *: "signed_take_bit n (word_of_int z :: int64) = word_of_int (signed_take_bit n z)" if "n < 64" for n
    using that by transfer (simp add: signed_take_bit_take_bit)
  show ?thesis
  proof (cases "w = 8")
    case True
    have "word_of_int z = (word_of_int (signed_take_bit 63 z) :: int64)" by transfer (simp add: take_bit_signed_take_bit)
    with True show ?thesis by (simp add: extend_def wrap_s_signed)
  next
    case False
    with w have "w \<in> {1, 2, 4}" by simp
    then show ?thesis using * [of "8 * w - 1"] by (auto simp: extend_word wrap_s_signed)
  qed
qed

lemma mask_of_int: "w \<in> {1, 2, 4, 8} \<Longrightarrow> mask_to w (word_of_int z) = word_of_int (wrap_u (8 * w) z)"
proof -
  assume w: "w \<in> {1, 2, 4, 8}"
  have *: "word_of_int z AND (push_bit n 1 - 1) = (word_of_int (take_bit n z) :: int64)" if "n < 64" for n
  proof -
    have "push_bit n 1 - 1 = (mask n :: int64)" by (simp add: push_bit_eq_mult mask_eq_exp_minus_1)
    then have "word_of_int z AND (push_bit n 1 - 1) = (take_bit n (word_of_int z) :: int64)"
      by (simp add: take_bit_eq_mask)
    also have "\<dots> = word_of_int (take_bit n z)" by transfer (simp add: ac_simps)
    finally show ?thesis .
  qed
  show ?thesis
  proof (cases "w = 8")
    case True
    have "word_of_int z = (word_of_int (take_bit 64 z) :: int64)" by transfer simp
    with True show ?thesis by (simp add: mask_to_def wrap_u_take)
  next
    case False
    with w * [of "8 * w"] show ?thesis by (auto simp: mask_to_def wrap_u_take)
  qed
qed

lemma word_zero: "word_range z \<Longrightarrow> word_of_int z = (0 :: int64) \<longleftrightarrow> z = 0"
proof -
  assume "word_range z"
  then have "\<bar>z\<bar> < 2 ^ 64" by (auto simp: word_range_def)
  moreover have "word_of_int z = (0 :: int64) \<longleftrightarrow> 2 ^ 64 dvd z"
    by transfer (simp add: take_bit_eq_mod dvd_eq_mod_eq_0)
  ultimately show ?thesis using dvd_imp_le_int [of z "2 ^ 64"] by auto
qed

lemma convert_int:
  assumes "itype t" "xv v = word_of_int z" "xbool t \<longrightarrow> word_range z"
  shows "\<exists>v'. convert v t = Some v' \<and> holds v' t (c_convert t z)"
proof (cases "xbool t")
  case True
  with assms show ?thesis
    by (auto simp: convert_def holds_def plain_def b2i_def in_type_def c_convert_def word_zero itype_def)
next
  case False
  then have size: "xsize t \<in> {1, 2, 4, 8}" using assms(1) by (simp add: itype_def)
  show ?thesis
    using False assms itype_integer [OF assms(1)] in_convert [OF assms(1), of z]
    by (cases "xsigned t")
      (simp_all add: convert_def holds_def plain_def c_convert_def extend_of_int [OF size] mask_of_int [OF size])
qed

lemma holds_convert: "itype t \<Longrightarrow> itype t0 \<Longrightarrow> holds v t0 z \<Longrightarrow> \<exists>v'. convert v t = Some v' \<and> holds v' t (c_convert t z)"
  using convert_int in_type_word by (auto simp: holds_def)

subsection \<open>The standard's conversions\<close>

definition c_promote :: "xtype \<Rightarrow> xtype" where
  "c_promote t = (if xsize t < 4 then xInt else t)"

definition ranked :: "xtype list" where
  "ranked = [xInt, xUInt, xLong, xULong]"

definition c_rank :: "xtype \<Rightarrow> nat" where
  "c_rank t = (if xsize t = 8 then 2 else 0) + (if xsigned t then 0 else 1)"

text \<open>The common type of an operation: the greater of the promoted types, in the standard's order.\<close>

definition c_common :: "xtype \<Rightarrow> xtype \<Rightarrow> xtype" where
  "c_common a b = ranked ! max (c_rank (c_promote a)) (c_rank (c_promote b))"

lemma itype_wide: "itype t \<Longrightarrow> xsize t \<ge> 4 \<Longrightarrow> t \<in> {xInt, xUInt, xLong, xULong}"
proof -
  assume t: "itype t" "xsize t \<ge> 4"
  have e: "t = u" if "xsize t = xsize u" "xsigned t = xsigned u" "xptr t = xptr u" "xbool t = xbool u"
      "xfloat t = xfloat u" for u
    using that by (intro xtype.equality) auto
  from t consider "xsize t = 4" "xsigned t" | "xsize t = 4" "\<not> xsigned t" | "xsize t = 8" "xsigned t"
      | "xsize t = 8" "\<not> xsigned t"
    by (auto simp: itype_def split: if_splits)
  then show ?thesis
    using t e [of xInt] e [of xUInt] e [of xLong] e [of xULong]
    by cases (auto simp: itype_def split: if_splits)
qed

lemma promote_meaning: "itype t \<Longrightarrow> promote t = c_promote t"
  by (auto simp: promote_def c_promote_def dest: itype_integer)

lemma c_promote_wide: "itype t \<Longrightarrow> c_promote t \<in> {xInt, xUInt, xLong, xULong}"
  using itype_wide [of t] by (auto simp: c_promote_def)

lemma wide_distinct [simp]: "xInt \<noteq> xUInt" "xInt \<noteq> xLong" "xInt \<noteq> xULong" "xUInt \<noteq> xLong" "xUInt \<noteq> xULong" "xLong \<noteq> xULong"
  "xUInt \<noteq> xInt" "xLong \<noteq> xInt" "xULong \<noteq> xInt" "xLong \<noteq> xUInt" "xULong \<noteq> xUInt" "xULong \<noteq> xLong"
  by (simp_all add: xInt_def xUInt_def xLong_def xULong_def no_type_def)

lemma usual_meaning: "itype a \<Longrightarrow> itype b \<Longrightarrow> usual a b = c_common a b"
proof -
  assume "itype a" "itype b"
  then have "promote a = c_promote a" "c_promote a \<in> {xInt, xUInt, xLong, xULong}"
    "promote b = c_promote b" "c_promote b \<in> {xInt, xUInt, xLong, xULong}"
    by (simp_all only: promote_meaning c_promote_wide)
  then show ?thesis
    by (elim insertE emptyE) (simp_all add: usual_def c_common_def ranked_def c_rank_def Let_def)
qed

lemma c_common_wide: "itype a \<Longrightarrow> itype b \<Longrightarrow> c_common a b \<in> {xInt, xUInt, xLong, xULong}"
proof -
  assume "itype a" "itype b"
  then have "c_promote a \<in> {xInt, xUInt, xLong, xULong}" "c_promote b \<in> {xInt, xUInt, xLong, xULong}"
    by (simp_all only: c_promote_wide)
  then show ?thesis by (elim insertE emptyE) (simp_all add: c_common_def ranked_def c_rank_def)
qed

lemma wide_itype: "t \<in> {xInt, xUInt, xLong, xULong} \<Longrightarrow> itype t \<and> \<not> xbool t"
  by auto

lemma promote_in: "itype t \<Longrightarrow> in_type t z \<Longrightarrow> in_type (c_promote t) z"
  by (auto simp: c_promote_def in_type_def itype_def split: if_splits)

subsection \<open>The standard's operations\<close>

text \<open>\<open>None\<close> is what the standard leaves undefined.\<close>

definition c_result :: "xtype \<Rightarrow> int \<Rightarrow> int option" where
  "c_result t z = (if \<not> xsigned t then Some (wrap_u (8 * xsize t) z) else if in_type t z then Some z else None)"

definition c_arith :: "bytes \<Rightarrow> xtype \<Rightarrow> int \<Rightarrow> int \<Rightarrow> int option" where
  "c_arith op t x y =
     (if op = ''+'' then c_result t (x + y)
      else if op = ''-'' then c_result t (x - y)
      else if op = ''*'' then c_result t (x * y)
      else if op = ''/'' then (if y = 0 then None else c_result t (x sdiv y))
      else if op = ''%'' then (if y = 0 \<or> \<not> in_type t (x sdiv y) then None else Some (x smod y))
      else if op = ''&'' then Some (x AND y)
      else if op = ''|'' then Some (x OR y)
      else if op = ''^'' then Some (x XOR y)
      else None)"

definition c_shift :: "bytes \<Rightarrow> xtype \<Rightarrow> int \<Rightarrow> int \<Rightarrow> int option" where
  "c_shift op t x y =
     (if y < 0 \<or> y \<ge> 8 * int (xsize t) then None
      else if op = ''>>'' then Some (x div 2 ^ nat y)
      else if xsigned t \<and> x < 0 then None
      else c_result t (x * 2 ^ nat y))"

definition c_compare :: "bytes \<Rightarrow> int \<Rightarrow> int \<Rightarrow> bool" where
  "c_compare op x y \<longleftrightarrow> op = ''=='' \<and> x = y \<or> op = ''!='' \<and> x \<noteq> y \<or> compare_op op x y"

definition c_binary :: "bytes \<Rightarrow> int \<times> xtype \<Rightarrow> int \<times> xtype \<Rightarrow> (int \<times> xtype) option" where
  "c_binary op = (\<lambda>(x, tx) (y, ty).
     if op \<in> {''=='', ''!='', ''<'', ''>'', ''<='', ''>=''} then
       (let t = c_common tx ty in Some (of_bool (c_compare op (c_convert t x) (c_convert t y)), xInt))
     else if op \<in> {''<<'', ''>>''} then map_option (\<lambda>z. (z, c_promote tx)) (c_shift op (c_promote tx) x y)
     else let t = c_common tx ty in
       map_option (\<lambda>z. (z, t)) (c_arith op t (c_convert t x) (c_convert t y)))"

lemma in_type_iff: "itype t \<Longrightarrow> in_type t z \<longleftrightarrow> c_convert t z = z"
  using in_convert convert_in by metis

lemma holds_sint: "itype t \<Longrightarrow> \<not> xbool t \<Longrightarrow> xsigned t \<Longrightarrow> holds v t z \<Longrightarrow> sint (xv v) = z"
proof -
  assume a: "itype t" "\<not> xbool t" "xsigned t" "holds v t z"
  then have "- (2 ^ 63) \<le> z \<and> z < 2 ^ 63" by (auto simp: holds_def in_type_def itype_def)
  then have "signed_take_bit 63 z = z" by (intro signed_take_bit_int_eq_self) simp_all
  with a(4) show ?thesis by (simp add: holds_def sint_sbintrunc')
qed

lemma holds_uint: "itype t \<Longrightarrow> \<not> xbool t \<Longrightarrow> \<not> xsigned t \<Longrightarrow> holds v t z \<Longrightarrow> uint (xv v) = z \<and> 0 \<le> z"
proof -
  assume a: "itype t" "\<not> xbool t" "\<not> xsigned t" "holds v t z"
  then have z: "0 \<le> z \<and> z < 2 ^ 64" by (auto simp: holds_def in_type_def itype_def)
  then have "take_bit 64 z = z" by (intro take_bit_int_eq_self) simp_all
  with a(4) z show ?thesis by (simp add: holds_def uint_word_of_int_eq)
qed

lemma result_convert: "itype t \<Longrightarrow> \<not> xbool t \<Longrightarrow> c_result t r = Some z \<Longrightarrow> c_convert t r = z"
  by (auto simp: c_result_def c_convert_def convert_in split: if_splits) (metis c_convert_def convert_in)

lemma sdiv_nonneg: "0 \<le> x \<Longrightarrow> 0 \<le> y \<Longrightarrow> x sdiv y = x div y \<and> x smod y = x mod y" for x y :: int
  by (cases "x = 0"; cases "y = 0") (simp_all add: signed_divide_int_def signed_modulo_int_def)

lemma and_word: "word_of_int a AND word_of_int b = (word_of_int (a AND b) :: int64)"
  by transfer simp

lemma or_word: "word_of_int a OR word_of_int b = (word_of_int (a OR b) :: int64)"
  by transfer simp

lemma xor_word: "word_of_int a XOR word_of_int b = (word_of_int (a XOR b) :: int64)"
  by transfer simp

lemma signed_take_bitwise:
  "signed_take_bit n (x AND y) = signed_take_bit n x AND signed_take_bit n y"
  "signed_take_bit n (x OR y) = signed_take_bit n x OR signed_take_bit n y"
  "signed_take_bit n (x XOR y) = signed_take_bit n x XOR signed_take_bit n y" for x y :: int
  by (rule bit_eqI, simp add: bit_simps)+

text \<open>Bitwise operations and remainders stay in the type.\<close>

lemma bitwise_in:
  assumes "itype t" "\<not> xbool t" "in_type t x" "in_type t y"
  shows "in_type t (x AND y)" "in_type t (x OR y)" "in_type t (x XOR y)"
proof -
  let ?w = "8 * xsize t"
  have w: "0 < ?w" using assms(1) itype_integer by simp
  have c: "c_convert t z = (if xsigned t then signed_take_bit (?w - 1) z else take_bit ?w z)" for z
    using assms(2) by (simp add: c_convert_def wrap_s_signed [OF w] wrap_u_take)
  have "c_convert t x = x" "c_convert t y = y" using assms convert_in by auto
  then show "in_type t (x AND y)" "in_type t (x OR y)" "in_type t (x XOR y)"
    unfolding in_type_iff [OF assms(1)] c
    by (simp_all add: signed_take_bitwise split: if_splits)
qed

lemma smod_in:
  assumes "itype t" "\<not> xbool t" "in_type t x" "in_type t y" "y \<noteq> 0"
  shows "in_type t (x smod y)"
proof (cases "xsigned t")
  case True
  have "x smod y \<in> {- \<bar>y\<bar> + 1 .. \<bar>y\<bar> - 1}" using assms(5) by (rule smod_int_range)
  with True assms show ?thesis by (auto simp: in_type_def)
next
  case False
  with assms have "0 \<le> x" "0 < y" "y < 2 ^ (8 * xsize t)" by (auto simp: in_type_def)
  then have "0 \<le> x mod y \<and> x mod y < 2 ^ (8 * xsize t)"
    using pos_mod_bound [of y x] by (auto simp del: pos_mod_bound)
  with False assms(2) \<open>0 \<le> x\<close> \<open>0 < y\<close> show ?thesis by (simp add: in_type_def sdiv_nonneg)
qed

lemma c_arith_ops: "c_arith op t x y = Some z \<Longrightarrow> op \<in> {''+'', ''-'', ''*'', ''/'', ''%'', ''&'', ''|'', ''^''}"
  by (rule ccontr) (simp add: c_arith_def)

lemma arith_meaning:
  assumes t: "itype t" "\<not> xbool t" and x: "holds l t x" and y: "holds r t y" and z: "c_arith op t x y = Some z"
  shows "\<exists>v q. arith_op op (xsigned t) (xv l) (xv r) = Some v \<and> v = word_of_int q \<and> c_convert t q = z"
proof -
  have xy: "xv l = word_of_int x" "xv r = word_of_int y" "in_type t x" "in_type t y"
    using x y by (simp_all add: holds_def)
  have y0: "xv r = 0 \<longleftrightarrow> y = 0" using xy in_type_word [OF t(1)] word_zero by simp
  have div: "xv l div xv r = word_of_int (x sdiv y)" "xv l mod xv r = word_of_int (x smod y)" if "\<not> xsigned t"
    using that holds_uint [OF t that x] holds_uint [OF t that y] by (simp_all add: word_div_def word_mod_def sdiv_nonneg)
  have sdiv: "quot64 (xv l) (xv r) = word_of_int (x sdiv y)" "rem64 (xv l) (xv r) = word_of_int (x smod y)" if "xsigned t"
    using holds_sint [OF t that x] holds_sint [OF t that y] by (simp_all add: quot64_def rem64_def)
  note bits = bitwise_in [OF t xy(3,4)]
  from c_arith_ops [OF z] show ?thesis
  proof (elim insertE emptyE)
    assume op: "op = ''+''"
    with op z result_convert [OF t] xy show ?thesis
      by (intro exI [of _ "xv l + xv r"] exI [of _ "x + y"]) (simp add: arith_op_def c_arith_def)
  next
    assume op: "op = ''-''"
    with op z result_convert [OF t] xy show ?thesis
      by (intro exI [of _ "xv l - xv r"] exI [of _ "x - y"]) (simp add: arith_op_def c_arith_def)
  next
    assume op: "op = ''*''"
    with op z result_convert [OF t] xy show ?thesis
      by (intro exI [of _ "xv l * xv r"] exI [of _ "x * y"]) (simp add: arith_op_def c_arith_def)
  next
    assume op: "op = ''/''"
    with op z have r: "y \<noteq> 0" "c_result t (x sdiv y) = Some z" by (simp_all add: c_arith_def split: if_splits)
    have "arith_op op (xsigned t) (xv l) (xv r) = Some (word_of_int (x sdiv y))"
      using op r(1) y0 div(1) sdiv(1) by (cases "xsigned t") (simp_all add: arith_op_def)
    with result_convert [OF t r(2)] show ?thesis by blast
  next
    assume op: "op = ''%''"
    with op z have r: "y \<noteq> 0" "z = x smod y" by (simp_all add: c_arith_def split: if_splits)
    have "arith_op op (xsigned t) (xv l) (xv r) = Some (word_of_int z)"
      using op r y0 div(2) sdiv(2) by (cases "xsigned t") (simp_all add: arith_op_def)
    moreover have "c_convert t z = z" using smod_in [OF t xy(3,4) r(1)] r(2) convert_in [OF t(1)] by simp
    ultimately show ?thesis by blast
  next
    assume op: "op = ''&''"
    with op z have r: "z = x AND y" by (simp add: c_arith_def)
    with op xy bits(1) convert_in [OF t(1)] show ?thesis
      by (intro exI [of _ "xv l AND xv r"] exI [of _ z]) (simp add: arith_op_def and_word)
  next
    assume op: "op = ''|''"
    with op z have r: "z = x OR y" by (simp add: c_arith_def)
    with op xy bits(2) convert_in [OF t(1)] show ?thesis
      by (intro exI [of _ "xv l OR xv r"] exI [of _ z]) (simp add: arith_op_def or_word)
  next
    assume op: "op = ''^''"
    with op z have r: "z = x XOR y" by (simp add: c_arith_def)
    with op xy bits(3) convert_in [OF t(1)] show ?thesis
      by (intro exI [of _ "xv l XOR xv r"] exI [of _ z]) (simp add: arith_op_def xor_word)
  qed
qed

lemma shift_in: "itype t \<Longrightarrow> \<not> xbool t \<Longrightarrow> in_type t x \<Longrightarrow> in_type t (x div 2 ^ s)"
proof -
  assume t: "itype t" "\<not> xbool t" and x: "in_type t x"
  have "0 \<le> x \<Longrightarrow> 0 \<le> x div 2 ^ s \<and> x div 2 ^ s \<le> x"
    by (simp add: pos_imp_zdiv_nonneg_iff) (metis div_by_1 one_le_power one_le_numeral zdiv_mono2 zero_less_one)
  moreover have "x \<le> x div 2 ^ s \<and> x div 2 ^ s < 0" if "x < 0"
    using zdiv_mono2_neg [of x 1 "2 ^ s"] that by (simp add: div_neg_pos_less0)
  ultimately show ?thesis using t x by (auto simp: in_type_def) (force+)?
qed

lemma shift_meaning:
  assumes "itype lt" "itype rt" "holds l lt x" "holds r rt y" "op \<in> {''<<'', ''>>''}"
    "c_shift op (c_promote lt) x y = Some z"
  shows "\<exists>v. xshift op l lt r rt = Some (v, c_promote lt) \<and> holds v (c_promote lt) z"
proof -
  let ?t = "c_promote lt" and ?s = "nat y"
  have t: "itype ?t" "\<not> xbool ?t" using wide_itype [OF c_promote_wide [OF assms(1)]] by simp_all
  have y: "0 \<le> y" "y < 8 * int (xsize ?t)" using assms(6) by (auto simp: c_shift_def split: if_splits)
  then have y64: "y < 64" using itype_integer [OF t(1)] by linarith
  have xr: "xv r = word_of_int y" using assms(4) by (simp add: holds_def)
  have s: "unat (xv r) = ?s"
    using y y64 by (simp add: xr unsigned_of_int take_bit_int_eq_self)
  have ns: "xunsigned r \<or> 0 \<le> sint (xv r)" and big: "\<not> 64 \<le> ?s"
    using y y64 by (simp_all add: xr sint_sbintrunc' signed_take_bit_int_eq_self)
  have inx: "in_type lt x" using assms(3) by (simp add: holds_def)
  then obtain k where k: "convert l ?t = Some k" "holds k ?t x"
    using holds_convert [OF t(1) assms(1,3)] convert_in [OF t(1) promote_in [OF assms(1)]] by auto
  have ints: "integer lt" "integer rt" using itype_integer assms(1,2) by auto
  have sh: "xshift op l lt r rt = map_option (\<lambda>x. (x, ?t)) (convert (k\<lparr>xv :=
      (if op = ''<<'' then push_bit ?s (xv k) else if xunsigned k then drop_bit ?s (xv k)
       else signed_drop_bit ?s (xv k))\<rparr>) ?t)"
    using k(1) ints ns big by (cases "xunsigned r") (simp_all add: xshift_def promote_meaning [OF assms(1)] s Let_def)
  have fin: "\<exists>v. xshift op l lt r rt = Some (v, ?t) \<and> holds v ?t z"
    if "(if op = ''<<'' then push_bit ?s (xv k) else if xunsigned k then drop_bit ?s (xv k)
       else signed_drop_bit ?s (xv k)) = word_of_int q" "c_convert ?t q = z" for q
  proof -
    have "\<exists>v. convert (k\<lparr>xv := word_of_int q\<rparr>) ?t = Some v \<and> holds v ?t (c_convert ?t q)"
      by (rule convert_int) (simp_all add: t)
    then show ?thesis unfolding sh that(1) that(2) by auto
  qed
  have xk: "xv k = word_of_int x" "xunsigned k = (\<not> xsigned ?t)" using k(2) t by (simp_all add: holds_def)
  from assms(5) show ?thesis
  proof (elim insertE emptyE)
    assume op: "op = ''<<''"
    with assms(6) y have "c_result ?t (x * 2 ^ ?s) = Some z" by (auto simp: c_shift_def split: if_splits)
    then have "c_convert ?t (x * 2 ^ ?s) = z" by (rule result_convert [OF t])
    moreover have "push_bit ?s (xv k) = word_of_int (x * 2 ^ ?s)" by (simp add: xk push_bit_eq_mult)
    ultimately show ?thesis using op by (intro fin) simp_all
  next
    assume op: "op = ''>>''"
    with assms(6) y have z: "z = x div 2 ^ ?s" by (auto simp: c_shift_def split: if_splits)
    have "drop_bit ?s (xv k) = word_of_int z" if u: "\<not> xsigned ?t"
    proof -
      have "uint (drop_bit ?s (xv k)) = drop_bit ?s (uint (xv k))"
        using uint_lt2p [of "xv k"] unfolding unsigned_drop_bit_eq by (simp add: take_bit_int_eq_self)
      then have "uint (drop_bit ?s (xv k)) = z"
        using holds_uint [OF t u k(2)] by (simp add: z drop_bit_eq_div)
      then show ?thesis by (metis word_of_int_uint)
    qed
    moreover have "signed_drop_bit ?s (xv k) = word_of_int z" if u: "xsigned ?t"
    proof -
      have "sint (signed_drop_bit ?s (xv k)) = z"
        using holds_sint [OF t u k(2)] by (simp add: sint_signed_drop_bit_eq z drop_bit_eq_div)
      then show ?thesis by (metis of_int_sint scast_id)
    qed
    moreover have "c_convert ?t z = z"
      using shift_in [OF t] k(2) convert_in [OF t(1)] by (simp add: holds_def z)
    ultimately show ?thesis using op xk(2) by (intro fin [of z]) simp_all
  qed
qed

lemma truth_holds: "holds (plain (b2i b)) xInt (of_bool b)"
  by (auto simp: holds_def plain_def b2i_def in_type_def)

lemma compare_meaning:
  assumes "itype lt" "itype rt" "holds l lt x" "holds r rt y" "op \<in> {''=='', ''!='', ''<'', ''>'', ''<='', ''>=''}"
  defines "t \<equiv> c_common lt rt"
  shows "xcompare op l lt r rt = Some (plain (b2i (c_compare op (c_convert t x) (c_convert t y))), xInt)"
proof -
  have t: "itype t" "\<not> xbool t" using wide_itype [OF c_common_wide [OF assms(1,2)]] by (simp_all add: t_def)
  obtain k q where k: "convert l t = Some k" "holds k t (c_convert t x)"
      and q: "convert r t = Some q" "holds q t (c_convert t y)"
    using holds_convert [OF t(1) assms(1,3)] holds_convert [OF t(1) assms(2,4)] by blast
  have un: "xunsigned k = (\<not> xsigned t)" "xunsigned q = (\<not> xsigned t)" using k q t by (simp_all add: holds_def)
  have i: "arithmetic lt" "arithmetic rt" "\<not> xfloat lt" "\<not> xfloat rt" "xsize t > 0"
    using itype_integer assms(1,2) t by simp_all
  have vals: "xsigned t \<Longrightarrow> sint (xv k) = c_convert t x \<and> sint (xv q) = c_convert t y"
    "\<not> xsigned t \<Longrightarrow> uint (xv k) = c_convert t x \<and> uint (xv q) = c_convert t y"
    using holds_sint [OF t _ k(2)] holds_sint [OF t _ q(2)] holds_uint [OF t _ k(2)] holds_uint [OF t _ q(2)] by auto
  have same: "xv k = xv q \<longleftrightarrow> c_convert t x = c_convert t y"
  proof
    assume "xv k = xv q"
    then show "c_convert t x = c_convert t y" using vals by (cases "xsigned t") simp_all
  next
    assume "c_convert t x = c_convert t y"
    then show "xv k = xv q" using k(2) q(2) by (simp add: holds_def)
  qed
  have c: "xcompare op l lt r rt =
      (if op = ''=='' \<or> op = ''!='' then Some (plain (b2i ((xv k = xv q) = (op = ''==''))), xInt)
       else if xsigned t then Some (plain (b2i (compare_op op (sint (xv k)) (sint (xv q)))), xInt)
       else Some (plain (b2i (compare_op op (uint (xv k)) (uint (xv q)))), xInt))"
    using i k(1) q(1) un by (simp add: xcompare_def usual_meaning [OF assms(1,2)] t_def [symmetric])
  from assms(5) show ?thesis
    unfolding c same
    by (elim insertE emptyE) (use vals in \<open>cases "xsigned t"; simp add: c_compare_def compare_op_def\<close>)+
qed

theorem xbinary_meaning:
  assumes "itype lt" "itype rt" "holds l lt x" "holds r rt y" "c_binary op (x, lt) (y, rt) = Some (z, t)"
  shows "\<exists>v. xbinary op l lt r rt = Some (v, t) \<and> holds v t z \<and> itype t"
proof -
  consider (cmp) "op \<in> {''=='', ''!='', ''<'', ''>'', ''<='', ''>=''}"
    | (shift) "op \<notin> {''=='', ''!='', ''<'', ''>'', ''<='', ''>=''}" "op \<in> {''<<'', ''>>''}"
    | (arith) "op \<notin> {''=='', ''!='', ''<'', ''>'', ''<='', ''>=''}" "op \<notin> {''<<'', ''>>''}" by blast
  then show ?thesis
  proof cases
    case cmp
    with assms(5) compare_meaning [OF assms(1-4) cmp] show ?thesis
      by (auto simp: xbinary_def c_binary_def Let_def truth_holds simp del: insert_iff)
  next
    case shift
    with assms(5) have "c_shift op (c_promote lt) x y = Some z" "t = c_promote lt"
      by (simp_all only: c_binary_def prod.case if_False if_True map_option_eq_Some) auto
    with shift shift_meaning [OF assms(1-4) shift(2)] wide_itype [OF c_promote_wide [OF assms(1)]] show ?thesis
      by (simp only: xbinary_def if_False if_True) auto
  next
    case arith
    with assms(5) have z: "c_arith op t (c_convert t x) (c_convert t y) = Some z" and t: "t = c_common lt rt"
      by (auto simp: c_binary_def Let_def simp del: insert_iff)
    have it: "itype t" "\<not> xbool t" using wide_itype [OF c_common_wide [OF assms(1,2)]] by (simp_all add: t)
    obtain k q where k: "convert l t = Some k" "holds k t (c_convert t x)"
        and q: "convert r t = Some q" "holds q t (c_convert t y)"
      using holds_convert [OF it(1) assms(1,3)] holds_convert [OF it(1) assms(2,4)] by blast
    obtain v p where v: "arith_op op (xsigned t) (xv k) (xv q) = Some v" "v = word_of_int p" "c_convert t p = z"
      using arith_meaning [OF it k(2) q(2) z] by blast
    obtain w where "convert \<lparr>xv = v, xunsigned = \<not> xsigned t\<rparr> t = Some w" "holds w t z"
      using convert_int [OF it(1), of "\<lparr>xv = v, xunsigned = \<not> xsigned t\<rparr>" p] v it by auto
    moreover have "integer lt" "integer rt" using itype_integer assms(1,2) by simp_all
    ultimately show ?thesis
      using arith k(1) q(1) v(1) it(1)
      by (simp only: xbinary_def if_False usual_meaning [OF assms(1,2)] t [symmetric] Let_def) simp
  qed
qed

subsection \<open>Literals\<close>

text \<open>
  C's integer literals: a prefix that gives the base, digits in either case, separators among
  them, a suffix.  An octal literal starts with a zero, a decimal one with another digit.
\<close>

definition c_digit :: "byte \<Rightarrow> nat option" where
  "c_digit = map_of (zip ''0123456789abcdef'' [0..<16] @ zip ''ABCDEF'' [10..<16])"

definition c_value_from :: "nat \<Rightarrow> nat \<Rightarrow> bytes \<Rightarrow> nat" where
  "c_value_from base v ds = foldl (\<lambda>v c. v * base + the (c_digit c)) v ds"

definition c_value :: "nat \<Rightarrow> bytes \<Rightarrow> nat" where
  "c_value base ds = c_value_from base 0 ds"

definition c_prefixes :: "nat \<Rightarrow> bytes list" where
  "c_prefixes base = (if base = 16 then [''0x'', ''0X''] else if base = 2 then [''0b'', ''0B''] else [[]])"

definition in_base :: "nat \<Rightarrow> byte \<Rightarrow> bool" where
  "in_base base c \<longleftrightarrow> (case c_digit c of Some d \<Rightarrow> d < base | None \<Rightarrow> False)"

definition c_digits :: "nat \<Rightarrow> bytes \<Rightarrow> bool" where
  "c_digits base ds \<longleftrightarrow> ds \<noteq> [] \<and> list_all (in_base base) ds \<and>
     (base = 8 \<longrightarrow> hd ds = CHR ''0'') \<and> (base = 10 \<longrightarrow> hd ds \<noteq> CHR ''0'')"

text \<open>The text \<open>tok\<close> is a literal of the base, of the value \<open>k\<close> and with the suffix.\<close>

definition c_literal :: "nat \<Rightarrow> nat \<Rightarrow> bytes \<Rightarrow> bytes \<Rightarrow> bool" where
  "c_literal base k suffix tok \<longleftrightarrow>
     (\<exists>pre body ds. tok = pre @ body \<and> pre \<in> set (c_prefixes base) \<and> hd body \<noteq> squote \<and>
       filter (\<lambda>c. c \<noteq> squote) body = ds @ suffix \<and> c_digits base ds \<and> k = c_value base ds)"

lemma c_literalI:
  "tok = pre @ body \<Longrightarrow> pre \<in> set (c_prefixes base) \<Longrightarrow> hd body \<noteq> squote \<Longrightarrow>
     filter (\<lambda>c. c \<noteq> squote) body = ds @ suffix \<Longrightarrow> c_digits base ds \<Longrightarrow> k = c_value base ds \<Longrightarrow> c_literal base k suffix tok"
  unfolding c_literal_def by blast

lemma c_literalE:
  assumes "c_literal base k suffix tok"
  obtains pre body ds where "tok = pre @ body" "pre \<in> set (c_prefixes base)" "hd body \<noteq> squote"
    "filter (\<lambda>c. c \<noteq> squote) body = ds @ suffix" "c_digits base ds" "k = c_value base ds"
  using assms unfolding c_literal_def by blast

definition c_suffixes :: "bytes list" where
  "c_suffixes = [[], ''u'', ''l'', ''ll'', ''ul'', ''lu'', ''ull'', ''llu'']"

text \<open>The standard's candidates, in order; the value takes the first it fits.\<close>

definition c_lit_types :: "nat \<Rightarrow> bytes \<Rightarrow> xtype list" where
  "c_lit_types base suffix = filter (\<lambda>t.
     (CHR ''u'' \<in> set suffix \<longrightarrow> \<not> xsigned t) \<and> (CHR ''l'' \<in> set suffix \<longrightarrow> xsize t = 8) \<and>
     (base = 10 \<and> CHR ''u'' \<notin> set suffix \<longrightarrow> xsigned t)) ranked"

definition c_lit_type :: "nat \<Rightarrow> nat \<Rightarrow> bytes \<Rightarrow> xtype option" where
  "c_lit_type base k suffix = List.find (\<lambda>t. in_type t (int k)) (c_lit_types base suffix)"

lemma find_twice: "List.find p [a, b, b] = List.find p [a, b]"
  by simp

lemma lit_types_meaning:
  assumes "suffix \<in> set c_suffixes"
  shows "\<exists>ts. lit_types base suffix = Some ts \<and> List.find p ts = List.find p (c_lit_types base suffix)"
  using assms unfolding c_suffixes_def
  by (simp, elim disjE) (simp_all add: lit_types_def c_lit_types_def ranked_def)

lemma bit_len_fits: "bit_len n \<le> b \<longleftrightarrow> n < 2 ^ b"
proof (induction b arbitrary: n)
  case 0
  then show ?case by (simp add: bit_len.simps [of n])
next
  case (Suc b)
  have "n div 2 < 2 ^ b \<longleftrightarrow> n < 2 ^ Suc b" by (simp add: div_less_iff_less_mult mult.commute)
  with Suc [of "n div 2"] show ?case by (subst bit_len.simps) simp
qed

lemma fits_bits_in: "t \<in> set ranked \<Longrightarrow> fits_bits (bit_len k) t \<longleftrightarrow> in_type t (int k)"
proof -
  assume t: "t \<in> set ranked"
  have size: "xsize t > 0" using t by (auto simp: ranked_def)
  have "fits_bits (bit_len k) t \<longleftrightarrow> bit_len k \<le> (if xsigned t then 8 * xsize t - 1 else 8 * xsize t)"
    using size by (auto simp: fits_bits_def)
  also have "\<dots> \<longleftrightarrow> k < 2 ^ (if xsigned t then 8 * xsize t - 1 else 8 * xsize t)" by (rule bit_len_fits)
  also have "\<dots> \<longleftrightarrow> in_type t (int k)"
  proof -
    have "\<not> xbool t" using t by (auto simp: ranked_def)
    moreover have "k < 2 ^ n \<longleftrightarrow> int k < 2 ^ n" for n
      using of_nat_less_iff [of k "2 ^ n", where 'a = int] by simp
    moreover have "- (2 ^ n) \<le> int k" for n by (rule order_trans [of _ 0]) simp_all
    ultimately show ?thesis by (simp add: in_type_def)
  qed
  finally show ?thesis .
qed

lemma find_cong: "(\<And>x. x \<in> set xs \<Longrightarrow> p x = q x) \<Longrightarrow> List.find p xs = List.find q xs"
  by (induction xs) auto

lemma c_digit_cases:
  "c_digit c = Some d \<Longrightarrow> d < 16 \<and> (c = ''0123456789abcdef'' ! d \<or> 10 \<le> d \<and> c = ''ABCDEF'' ! (d - 10))"
  by (auto simp: c_digit_def zip_append1 upt_conv_Cons dest!: map_of_SomeD split: if_splits)

lemma c_digit_lit: "c_digit c = Some d \<Longrightarrow> lit_digit c = Some d"
  by (auto simp: c_digit_def lit_digit_def is_digit_def upt_conv_Cons split: if_splits)

lemma in_baseE:
  assumes "in_base base c"
  obtains d where "c_digit c = Some d" "d < base"
  using assms by (auto simp: in_base_def split: option.splits)

lemma in_base_sixteen: "in_base 16 c \<Longrightarrow> c \<in> set ''0123456789abcdefABCDEF''"
  by (auto simp: in_base_def c_digit_def upt_conv_Cons split: if_splits option.splits)

lemma in_base_ten: "in_base 10 c \<Longrightarrow> c \<in> set ''0123456789''"
  by (auto simp: in_base_def c_digit_def upt_conv_Cons split: if_splits option.splits)

lemma in_base_mono: "in_base b c \<Longrightarrow> b \<le> b' \<Longrightarrow> in_base b' c"
  by (auto simp: in_base_def split: option.splits)

lemma digit_plain: "in_base b c \<Longrightarrow> b \<le> 16 \<Longrightarrow> c \<noteq> squote \<and> c \<notin> set ''uUlLxX''"
  using in_base_sixteen [OF in_base_mono [of b c 16]] by auto

lemma lit_digits_append:
  "lit_digits b u (s @ s') = Option.bind (lit_digits b u s) (\<lambda>v. lit_digits b v s')"
  by (induction b u s rule: lit_digits.induct) (auto simp: Let_def split: option.splits)

lemma c_value_from_append: "c_value_from b v (ds @ es) = c_value_from b (c_value_from b v ds) es"
  by (simp add: c_value_from_def)

lemma c_value_from_ge: "0 < b \<Longrightarrow> v \<le> c_value_from b v ds"
proof (induction ds arbitrary: v)
  case (Cons c ds)
  have "v \<le> v * b + the (c_digit c)" using Cons.prems by (cases b) auto
  also have "\<dots> \<le> c_value_from b (v * b + the (c_digit c)) ds" by (rule Cons.IH [OF Cons.prems])
  finally show ?case by (simp add: c_value_from_def)
qed (simp add: c_value_from_def)

lemma small_unat: "u < 2 ^ 64 \<Longrightarrow> unat (of_nat u :: int64) = u"
  by (simp add: unsigned_of_nat take_bit_nat_eq_self)

text \<open>The digits' value, as long as it stays under 2^64.\<close>

lemma lit_digits_value:
  "0 < b \<Longrightarrow> list_all (in_base b) ds \<Longrightarrow> c_value_from b v ds < 2 ^ 64 \<Longrightarrow>
     lit_digits b (of_nat v) ds = Some (of_nat (c_value_from b v ds))"
proof (induction ds arbitrary: v)
  case (Cons c ds)
  obtain d where d: "c_digit c = Some d" "d < b" using Cons.prems(2) by (auto elim: in_baseE)
  have step: "c_value_from b v (c # ds) = c_value_from b (v * b + d) ds" by (simp add: c_value_from_def d(1))
  have "v * b + d < 2 ^ 64" using c_value_from_ge [OF Cons.prems(1), of "v * b + d" ds] Cons.prems(3) step by linarith
  moreover have "v \<le> v * b" using Cons.prems(1) by (cases b) auto
  ultimately have lt: "v * b < 2 ^ 64" "v < 2 ^ 64" by linarith+
  have "lit_digits b (of_nat v) (c # ds) = lit_digits b (of_nat (v * b + d)) ds"
    using d lt by (simp add: c_digit_lit small_unat)
  with Cons.IH [OF Cons.prems(1), of "v * b + d"] Cons.prems(2,3) step show ?case by simp
qed (simp add: c_value_from_def)

lemma TrimRight_append:
  "set suf \<subseteq> set cs \<Longrightarrow> xs \<noteq> [] \<Longrightarrow> last xs \<notin> set cs \<Longrightarrow> TrimRight (xs @ suf) cs = xs"
proof -
  assume suf: "set suf \<subseteq> set cs" and xs: "xs \<noteq> []" "last xs \<notin> set cs"
  have "dropWhile (\<lambda>c. c \<in> set cs) (rev suf @ rev xs) = dropWhile (\<lambda>c. c \<in> set cs) (rev xs)"
    using suf by (intro dropWhile_append2) auto
  with xs show ?thesis by (cases xs rule: rev_cases) (simp_all add: TrimRight_def)
qed

text \<open>The base is found again in the digits and their prefix.\<close>

lemma lit_base_literal:
  assumes "base \<in> {2, 8, 10, 16}" "pre \<in> set (c_prefixes base)" "c_digits base ds"
  shows "lit_base (pre @ ds) = (base, ds)"
proof -
  obtain c cs where ds: "ds = c # cs" using assms(3) by (cases ds) (auto simp: c_digits_def)
  from assms(1) show ?thesis
  proof (elim insertE emptyE)
    assume b: "base = 8"
    have "cs = [] \<or> hd cs \<in> set ''0123456789''"
      using assms(3) b in_base_ten [OF in_base_mono [of 8 "hd cs" 10]] by (cases cs) (auto simp: c_digits_def ds)
    then have "cs = [] \<or> hd cs \<notin> set ''xXbB''" by auto
    then show ?thesis using assms(2,3) b
      by (cases cs) (auto simp: lit_base_def c_prefixes_def has_prefix_def ds c_digits_def)
  next
    assume b: "base = 10"
    then show ?thesis using assms(2,3) by (simp add: lit_base_def c_prefixes_def has_prefix_def ds c_digits_def)
  qed (use assms(2) in \<open>auto simp: lit_base_def c_prefixes_def has_prefix_def\<close>)
qed

text \<open>A token whose digits the loop reads as \<open>k\<close> has that value and the type of \<open>k\<close>.\<close>

lemma litType_read:
  assumes base: "base \<in> {2, 8, 10, 16}" and tok: "filter (\<lambda>c. c \<noteq> squote) tok = pre @ ds @ suffix"
    and pre: "pre \<in> set (c_prefixes base)" and ds: "c_digits base ds"
    and k: "lit_digits base 0 ds = Some (of_nat k)" "k < 2 ^ 64"
    and suffix: "set suffix \<subseteq> set ''uUlL''" "lower_suffix suffix \<in> set c_suffixes"
  shows "litType tok = map_option (\<lambda>t. (\<lparr>xv = of_nat k, xunsigned = \<not> xsigned t\<rparr>, t)) (c_lit_type base k (lower_suffix suffix))"
proof -
  let ?s = "pre @ ds"
  have ne: "ds \<noteq> []" using ds by (simp add: c_digits_def)
  have "last ds \<in> set ds" using ne by simp
  then have last: "in_base base (last ds)" using ds unfolding c_digits_def list_all_iff by blast
  have "base \<le> 16" using base by auto
  from digit_plain [OF last this] have "last ds \<notin> set ''uUlLxX''" by blast
  then have "last ?s \<notin> set ''uUlL''" using ne by simp
  with suffix(1) have trim: "TrimRight (?s @ suffix) ''uUlL'' = ?s"
    by (intro TrimRight_append) (simp_all add: ne)
  obtain ts where ts: "lit_types base (lower_suffix suffix) = Some ts"
      "List.find (fits_bits (bit_len k)) ts = List.find (fits_bits (bit_len k)) (c_lit_types base (lower_suffix suffix))"
    using lit_types_meaning [OF suffix(2)] by blast
  have "List.find (fits_bits (bit_len k)) (c_lit_types base (lower_suffix suffix)) = c_lit_type base k (lower_suffix suffix)"
    unfolding c_lit_type_def by (rule find_cong) (auto simp: c_lit_types_def fits_bits_in)
  moreover have "filter (\<lambda>c. c \<noteq> squote) tok = ?s @ suffix" using tok by simp
  ultimately show ?thesis
    using k(1) small_unat [OF k(2)] ts ne unfolding litType_def Let_def
    by (simp only: trim lit_base_literal [OF base pre ds] append_eq_conv_conj) simp
qed

lemma prefix_plain: "pre \<in> set (c_prefixes base) \<Longrightarrow> filter (\<lambda>c. c \<noteq> squote) pre = pre"
  by (auto simp: c_prefixes_def split: if_splits)

lemma litType_known:
  assumes base: "base \<in> {2, 8, 10, 16}" and lit: "c_literal base k suffix tok" and k: "k < 2 ^ 64"
    and suffix: "set suffix \<subseteq> set ''uUlL''" "lower_suffix suffix \<in> set c_suffixes"
  shows "litType tok =
    map_option (\<lambda>t. (\<lparr>xv = of_nat k, xunsigned = \<not> xsigned t\<rparr>, t)) (c_lit_type base k (lower_suffix suffix))"
proof -
  from lit obtain pre body ds where tok: "tok = pre @ body" "pre \<in> set (c_prefixes base)"
      "filter (\<lambda>c. c \<noteq> squote) body = ds @ suffix" "c_digits base ds" "k = c_value base ds"
    by (rule c_literalE)
  have "0 < base" using base by auto
  moreover have "list_all (in_base base) ds" using tok(4) by (simp add: c_digits_def)
  ultimately have "lit_digits base 0 ds = Some (of_nat k)"
    using lit_digits_value [of base ds 0] k tok(5) by (simp add: c_value_def)
  then show ?thesis
    by (intro litType_read [OF base _ tok(2,4) _ k suffix]) (simp_all add: tok(1,3) prefix_plain [OF tok(2)])
qed

text \<open>
  C20. An integer literal below 2^64 -- binary, octal, decimal or hexadecimal, its prefix and its
  digits in either case, with leading zeros and separators, the literal 0 among them, and with any
  suffix -- has the value it spells and the type the standard gives it: the first of its
  candidates that holds the value; it has none when none does.
\<close>

theorem litType_meaning:
  assumes base: "base \<in> {2, 8, 10, 16}" and lit: "c_literal base k suffix tok" and k: "k < 2 ^ 64"
    and suffix: "set suffix \<subseteq> set ''uUlL''" "lower_suffix suffix \<in> set c_suffixes"
  shows "litType tok =
    map_option (\<lambda>t. (\<lparr>xv = of_nat k, xunsigned = \<not> xsigned t\<rparr>, t)) (c_lit_type base k (lower_suffix suffix))"
  using assms by (rule litType_known)

lemmas c_literal_simps = c_prefixes_def c_digits_def in_base_def c_digit_def c_value_def c_value_from_def upt_conv_Cons

theorem litType_meaning_witness:
  "litType ''0XfF'' = Some (\<lparr>xv = 255, xunsigned = False\<rparr>, xInt) \<and>
    litType ''0'' = Some (\<lparr>xv = 0, xunsigned = False\<rparr>, xInt) \<and>
    litType (''4'' @ squote # ''2UL'') = Some (\<lparr>xv = 42, xunsigned = True\<rparr>, xULong)"
proof -
  have 1: "c_literal 16 255 [] ''0XfF''" by (rule c_literalI [of _ "''0X''" "''fF''" _ "''fF''"]) (simp_all add: c_literal_simps)
  have 2: "c_literal 8 0 [] ''0''" by (rule c_literalI [of _ "[]" "''0''" _ "''0''"]) (simp_all add: c_literal_simps)
  have 3: "c_literal 10 42 ''UL'' (''4'' @ squote # ''2UL'')"
    by (rule c_literalI [of _ "[]" "''4'' @ squote # ''2UL''" _ "''42''"]) (simp_all add: c_literal_simps)
  have types: "c_lit_type 16 255 [] = Some xInt" "c_lit_type 8 0 [] = Some xInt" "c_lit_type 10 42 ''ul'' = Some xULong"
    by (simp_all add: c_lit_type_def c_lit_types_def ranked_def in_type_def)
  have suffixes: "lower_suffix ''UL'' = ''ul''" "lower_suffix [] = []" "''ul'' \<in> set c_suffixes" "[] \<in> set c_suffixes"
    by (simp_all add: lower_suffix_def c_suffixes_def)
  show ?thesis
    using litType_meaning [OF _ 1] litType_meaning [OF _ 2] litType_meaning [OF _ 3] types suffixes by simp
qed

text \<open>
  C21. A decimal literal past 2^64 is not always refused: where the product of the digits before
  by ten is still under 2^64 and only the sum with the next digit passes it, the sum wraps, and
  the evaluator goes on from what is left; it answers that value as the type of a literal of
  that value, though no C type holds the literal's own.
\<close>

theorem litType_past_64_bits:
  assumes digits: "c_digits 10 (ds @ c # es)" and d: "c_digit c = Some d"
    and past: "c_value 10 ds * 10 < 2 ^ 64" "2 ^ 64 \<le> c_value 10 ds * 10 + d"
    and k: "k = c_value_from 10 (c_value 10 ds * 10 + d - 2 ^ 64) es" "k < 2 ^ 64"
    and suffix: "set suffix \<subseteq> set ''uUlL''" "lower_suffix suffix \<in> set c_suffixes"
  shows "2 ^ 64 \<le> c_value 10 (ds @ c # es) \<and>
    litType (ds @ c # es @ suffix) =
      map_option (\<lambda>t. (\<lparr>xv = of_nat k, xunsigned = \<not> xsigned t\<rparr>, t)) (c_lit_type 10 k (lower_suffix suffix))"
proof -
  let ?v = "c_value 10 ds"
  have ten: "list_all (in_base 10) ds" "in_base 10 c" "list_all (in_base 10) es"
    using digits by (simp_all add: c_digits_def)
  have v: "?v < 2 ^ 64" using past(1) by linarith
  have lt: "d < 10" using ten(2) d by (simp add: in_base_def)
  have "c_value 10 (ds @ c # es) = c_value_from 10 (?v * 10 + d) es"
    using d by (simp add: c_value_def c_value_from_def)
  then have big: "2 ^ 64 \<le> c_value 10 (ds @ c # es)" using c_value_from_ge [of 10 "?v * 10 + d" es] past(2) by linarith
  have wrap: "of_nat (?v * 10 + d) = (of_nat (?v * 10 + d - 2 ^ 64) :: int64)"
  proof -
    have "(of_nat (2 ^ 64) :: int64) = 0" by simp
    then show ?thesis using past(2) by (simp only: of_nat_diff diff_zero)
  qed
  have "lit_digits 10 0 (ds @ c # es) = lit_digits 10 (of_nat ?v) (c # es)"
    using lit_digits_value [of 10 ds 0] ten(1) v by (simp add: lit_digits_append c_value_def)
  also have "\<dots> = lit_digits 10 (of_nat (?v * 10 + d)) es"
    using c_digit_lit [OF d] lt past(1) small_unat [OF v] by simp
  also have "\<dots> = Some (of_nat k)" unfolding wrap k(1) by (rule lit_digits_value) (use ten(3) k in simp_all)
  finally have read: "lit_digits 10 0 (ds @ c # es) = Some (of_nat k)" .
  have "\<forall>x \<in> set (ds @ c # es). x \<noteq> squote" using digits digit_plain [of 10] by (auto simp: c_digits_def list_all_iff)
  moreover have "\<forall>x \<in> set suffix. x \<noteq> squote" using suffix(1) by auto
  ultimately have "filter (\<lambda>c. c \<noteq> squote) (ds @ c # es @ suffix) = [] @ (ds @ c # es) @ suffix"
    by (auto simp: filter_id_conv)
  from litType_read [OF _ this _ digits read k(2) suffix] big show ?thesis by (simp add: c_prefixes_def)
qed

theorem litType_past_64_bits_witness:
  "litType ''18446744073709551616'' = Some (\<lparr>xv = 0, xunsigned = False\<rparr>, xInt) \<and>
    litType ''184467440737095516170'' = Some (\<lparr>xv = 10, xunsigned = False\<rparr>, xInt)"
proof -
  have types: "c_lit_type 10 0 [] = Some xInt" "c_lit_type 10 10 [] = Some xInt"
    by (simp_all add: c_lit_type_def c_lit_types_def ranked_def in_type_def)
  have suffix: "lower_suffix [] = []" "[] \<in> set c_suffixes" by (simp_all add: lower_suffix_def c_suffixes_def)
  have v: "c_value 10 ''1844674407370955161'' = 1844674407370955161" by (simp add: c_literal_simps)
  show ?thesis
    using litType_past_64_bits [of "''1844674407370955161''" "CHR ''6''" "[]" 6 0 "[]"]
      litType_past_64_bits [of "''1844674407370955161''" "CHR ''7''" "''0''" 7 10 "[]"] types suffix
    unfolding v by (simp add: c_literal_simps)
qed

end
