(* ===== verification/ConstEval.thy ===== *)
theory ConstEval
  imports ConstMeaning
begin

text \<open>
  A reference meaning of constant expressions, over mathematical integers, and the agreement of
  \<open>xconst\<close> of crefactor/graph/foldx_eval.go with it on the forms that spell them.
\<close>

subsection \<open>Constant expressions\<close>

datatype cexpr =
    CNum nat nat bytes
  | CEnumr int
  | CSizeof xtype
  | CParen cexpr
  | CCast xtype cexpr
  | CUn bytes cexpr
  | CBin bytes cexpr cexpr
  | CLog bytes cexpr cexpr
  | CCond cexpr cexpr cexpr

definition c_unary :: "bytes \<Rightarrow> int \<times> xtype \<Rightarrow> (int \<times> xtype) option" where
  "c_unary op = (\<lambda>(z, t).
     if op = ''!'' then Some (of_bool (z = 0), xInt)
     else let p = c_promote t in
       map_option (\<lambda>y. (y, p))
         (if op = ''-'' then c_result p (- z)
          else if op = ''~'' then Some (c_convert p (NOT z))
          else if op = ''+'' then Some z
          else None))"

text \<open>
  The value and the type; \<open>None\<close> where the standard leaves the expression undefined, and of a
  conditional also where it leaves the branch undefined that is not taken.
\<close>

primrec den :: "cexpr \<Rightarrow> (int \<times> xtype) option" where
  "den (CNum base k suffix) = map_option (\<lambda>t. (int k, t)) (c_lit_type base k (lower_suffix suffix))"
| "den (CEnumr z) = (if in_type xInt z then Some (z, xInt) else None)"
| "den (CSizeof t) = Some (int (xsize t), xULong)"
| "den (CParen e) = den e"
| "den (CCast t e) = map_option (\<lambda>(z, _). (c_convert t z, t)) (den e)"
| "den (CUn op e) = Option.bind (den e) (c_unary op)"
| "den (CBin op l r) = Option.bind (den l) (\<lambda>x. Option.bind (den r) (\<lambda>y. c_binary op x y))"
| "den (CLog op l r) =
     Option.bind (den l) (\<lambda>(x, _).
       if op = ''&&'' \<and> x = 0 then Some (0, xInt)
       else if op = ''||'' \<and> x \<noteq> 0 then Some (1, xInt)
       else map_option (\<lambda>(y, _). (of_bool (y \<noteq> 0), xInt)) (den r))"
| "den (CCond c a b) =
     Option.bind (den c) (\<lambda>(x, _).
       Option.bind (den a) (\<lambda>(y, ta).
         map_option (\<lambda>(z, tb). (c_convert (c_common ta tb) (if x \<noteq> 0 then y else z), c_common ta tb)) (den b)))"

text \<open>The form \<open>n\<close> spells the expression \<open>e\<close>; a run of operands associates to the left.\<close>

inductive spells :: "graph \<Rightarrow> memo \<Rightarrow> nat \<Rightarrow> cexpr \<Rightarrow> bool"
  and spells_run :: "graph \<Rightarrow> memo \<Rightarrow> (cexpr \<Rightarrow> cexpr \<Rightarrow> cexpr) \<Rightarrow> nat list \<Rightarrow> cexpr \<Rightarrow> bool"
  for G :: graph and m :: memo where
  num: "\<not> glist (gnodes G n) \<Longrightarrow> c_literal base k suffix (gatom (gnodes G n)) \<Longrightarrow> base \<in> {2, 8, 10, 16} \<Longrightarrow>
    k < 2 ^ 64 \<Longrightarrow> set suffix \<subseteq> set ''uUlL'' \<Longrightarrow>
    lower_suffix suffix \<in> set c_suffixes \<Longrightarrow> spells G m n (CNum base k suffix)"
| enumr: "\<not> glist (gnodes G n) \<Longrightarrow> gatom (gnodes G n) = a \<Longrightarrow> a \<noteq> [] \<Longrightarrow> \<not> is_digit (hd a) \<Longrightarrow> hd a \<noteq> squote \<Longrightarrow>
    Ref (gnodes G) n = Some d \<Longrightarrow> m d = Some v \<Longrightarrow> spells G m n (CEnumr (sint v))"
| size_of: "glist (gnodes G n) \<Longrightarrow> gHead (gnodes G) n = ''sizeof-type'' \<Longrightarrow> gArgs (gnodes G) n = [a] \<Longrightarrow>
    xtypeOfForm (gnodes G) (Some a) = Ans t \<Longrightarrow> itype t \<Longrightarrow> spells G m n (CSizeof t)"
| paren: "glist (gnodes G n) \<Longrightarrow> gHead (gnodes G) n = ''paren'' \<Longrightarrow> gArgs (gnodes G) n = [a] \<Longrightarrow>
    spells G m a e \<Longrightarrow> spells G m n (CParen e)"
| cast: "glist (gnodes G n) \<Longrightarrow> gHead (gnodes G) n = ''cast'' \<Longrightarrow> gArgs (gnodes G) n = [tn, a] \<Longrightarrow>
    xtypeOfForm (gnodes G) (Some tn) = Ans t \<Longrightarrow> itype t \<Longrightarrow> spells G m a e \<Longrightarrow> spells G m n (CCast t e)"
| un: "glist (gnodes G n) \<Longrightarrow> gHead (gnodes G) n = op \<Longrightarrow> op \<in> {''-'', ''+'', ''~'', ''!''} \<Longrightarrow>
    gArgs (gnodes G) n = [a] \<Longrightarrow> spells G m a e \<Longrightarrow> spells G m n (CUn op e)"
| bin: "glist (gnodes G n) \<Longrightarrow> gHead (gnodes G) n = op \<Longrightarrow> binaryOps op \<Longrightarrow> op \<notin> {''&&'', ''||''} \<Longrightarrow>
    gArgs (gnodes G) n = as \<Longrightarrow> length as \<ge> 2 \<Longrightarrow> spells_run G m (CBin op) as e \<Longrightarrow> spells G m n e"
| logic: "glist (gnodes G n) \<Longrightarrow> gHead (gnodes G) n = op \<Longrightarrow> op \<in> {''&&'', ''||''} \<Longrightarrow>
    gArgs (gnodes G) n = as \<Longrightarrow> length as \<ge> 2 \<Longrightarrow> spells_run G m (CLog op) as e \<Longrightarrow> spells G m n e"
| cond: "glist (gnodes G n) \<Longrightarrow> gHead (gnodes G) n = ''?'' \<Longrightarrow> gArgs (gnodes G) n = [x, y, z] \<Longrightarrow>
    spells G m x c \<Longrightarrow> spells G m y a \<Longrightarrow> spells G m z b \<Longrightarrow> spells G m n (CCond c a b)"
| one: "spells G m a e \<Longrightarrow> spells_run G m f [a] e"
| snoc: "spells_run G m f as l \<Longrightarrow> as \<noteq> [] \<Longrightarrow> spells G m a r \<Longrightarrow> spells_run G m f (as @ [a]) (f l r)"

subsection \<open>Steps of the evaluator\<close>

lemma ebind_Ans [simp]: "e m = (Ans x, m') \<Longrightarrow> ebind e f m = f x m'"
  by (simp add: ebind_def)

lemma give_simp [simp]: "give a m = (a, m)"
  by (simp add: give_def)

lemma attempt_Ans [simp]: "e m = (Ans x, m') \<Longrightarrow> attempt e m = (Ans (Some x), m')"
  by (simp add: attempt_def)

text \<open>What the evaluator answers on a node of known value.\<close>

definition answers :: "xconstant ev \<Rightarrow> memo \<Rightarrow> int \<times> xtype \<Rightarrow> bool" where
  "answers e m = (\<lambda>(z, t). itype t \<and> (\<exists>v. e m = (Ans (v, t), m) \<and> holds v t z))"

lemma answersE:
  assumes "answers e m (z, t)"
  obtains v where "e m = (Ans (v, t), m)" "holds v t z" "itype t"
  using assms by (auto simp: answers_def)

lemma zero_holds: "itype t \<Longrightarrow> holds v t z \<Longrightarrow> zero v \<longleftrightarrow> z = 0"
  using word_zero in_type_word by (simp add: zero_def holds_def)

lemma chain_append:
  "chain_from h ev l (as @ [a]) m = ebind (chain_from h ev l as) (\<lambda>l'. chain_from h ev l' [a]) m"
proof (induction as arbitrary: l m)
  case Nil
  then show ?case by (simp add: ebind_def)
next
  case (Cons b bs)
  show ?case by (auto simp: ebind_def Cons split: ans.splits prod.splits option.splits)
qed

lemma logic_append:
  "logic_from h ev acc (as @ [a]) m = ebind (logic_from h ev acc as) (\<lambda>b. logic_from h ev b [a]) m"
proof (induction as arbitrary: acc m)
  case Nil
  then show ?case by (simp add: ebind_def)
next
  case (Cons b bs)
  define last where "last = (\<lambda>b. logic_from h ev b [a])"
  show ?case
    unfolding last_def [symmetric]
    by (simp only: append_Cons logic_from.simps(2) Cons last_def [symmetric])
      (auto simp: ebind_def Cons [folded last_def] split: ans.splits prod.splits)
qed

lemma fold_unary:
  assumes "itype t" "holds v t z" "c_unary op (z, t) = Some (y, p)" "op \<in> {''-'', ''+'', ''~''}"
  shows "itype p \<and> (\<exists>w. unary_value op (v, t) = Ans (w, p) \<and> holds w p y)"
proof -
  have op: "op \<noteq> ''!''" using assms(4) by auto
  then have p: "p = c_promote t" using assms(3) by (auto simp: c_unary_def Let_def)
  have it: "itype p" "\<not> xbool p" using wide_itype [OF c_promote_wide [OF assms(1)]] by (simp_all add: p)
  have int: "integer t" using itype_integer [OF assms(1)] by simp
  obtain x where x: "convert v p = Some x" "holds x p z"
    using holds_convert [OF it(1) assms(1,2)] convert_in [OF it(1)] promote_in [OF assms(1)] assms(2)
    by (auto simp: p holds_def)
  have fin: "\<exists>w. unary_value op (v, t) = Ans (w, p) \<and> holds w p y"
    if q: "(if op = ''-'' then - xv x else if op = ''~'' then NOT (xv x) else xv x) = word_of_int q"
      and y: "c_convert p q = y" for q
  proof -
    obtain w where "convert (x\<lparr>xv := word_of_int q\<rparr>) p = Some w" "holds w p y"
      using convert_int [OF it(1), of "x\<lparr>xv := word_of_int q\<rparr>" q] it(2) y by auto
    with int x(1) show ?thesis
      by (simp add: unary_value_def promote_meaning [OF assms(1)] p [symmetric] q answer_def)
  qed
  have xz: "xv x = word_of_int z" "in_type p z" using x(2) by (simp_all add: holds_def)
  have not: "NOT (word_of_int z :: int64) = word_of_int (NOT z)" by (simp add: not_eq_complement)
  from assms(4) show ?thesis
  proof (elim insertE emptyE)
    assume o: "op = ''-''"
    then have "c_result p (- z) = Some y" using assms(3) by (auto simp: c_unary_def p Let_def)
    from result_convert [OF it this] have "\<exists>w. unary_value op (v, t) = Ans (w, p) \<and> holds w p y"
      by (rule fin [rotated]) (simp add: o xz)
    with it show ?thesis by simp
  next
    assume o: "op = ''+''"
    then have "c_convert p z = y" using assms(3) convert_in [OF it(1) xz(2)] by (auto simp: c_unary_def p Let_def)
    then have "\<exists>w. unary_value op (v, t) = Ans (w, p) \<and> holds w p y"
      by (rule fin [rotated]) (simp add: o xz)
    with it show ?thesis by simp
  next
    assume o: "op = ''~''"
    then have "c_convert p (NOT z) = y" using assms(3) by (auto simp: c_unary_def p Let_def)
    then have "\<exists>w. unary_value op (v, t) = Ans (w, p) \<and> holds w p y"
      by (rule fin [rotated]) (simp add: o xz not)
    with it show ?thesis by simp
  qed
qed

lemma num_text:
  assumes base: "base \<in> {2, 8, 10, 16}" and suffix: "set suffix \<subseteq> set ''uUlL''" and lit: "c_literal base k suffix tok"
  shows "tok \<noteq> [] \<and> is_digit (hd tok) \<and> \<not> float_text tok"
proof -
  from lit obtain pre body ds where tok: "tok = pre @ body" "pre \<in> set (c_prefixes base)" "hd body \<noteq> squote"
      "filter (\<lambda>c. c \<noteq> squote) body = ds @ suffix" "c_digits base ds" by (rule c_literalE)
  have b: "base \<le> 16" "base \<noteq> 16 \<Longrightarrow> base \<le> 10" using base by auto
  have digits: "in_base base c" if "c \<in> set ds" for c using tok(5) that by (simp add: c_digits_def list_all_iff)
  have chars: "c \<in> set pre \<or> c = squote \<or> c \<in> set ds \<or> c \<in> set ''uUlL''" if "c \<in> set tok" for c
  proof -
    have "set (filter (\<lambda>c. c \<noteq> squote) body) = set ds \<union> set suffix" by (simp add: tok(4))
    then show ?thesis using that suffix by (auto simp: tok(1))
  qed
  have pre: "set pre \<inter> set ''.pPeE'' = {}" using tok(2) by (auto simp: c_prefixes_def split: if_splits)
  have sixteen: "c \<in> set ''0123456789abcdefABCDEF''" if "c \<in> set ds" for c
    using in_base_sixteen [OF in_base_mono [OF digits [OF that] b(1)]] .
  have "\<not> (\<exists>c \<in> set tok. c \<in> set ''.pP'')" using chars sixteen pre by fastforce
  moreover have "has_prefix tok ''0x'' \<or> has_prefix tok ''0X'' \<or> \<not> (\<exists>c \<in> set tok. c \<in> set ''eE'')"
  proof (cases "base = 16")
    case True
    then show ?thesis using tok(1,2) by (auto simp: c_prefixes_def has_prefix_def)
  next
    case False
    have "c \<in> set ''0123456789''" if "c \<in> set ds" for c
      using in_base_ten [OF in_base_mono [OF digits [OF that] b(2) [OF False]]] .
    then show ?thesis using chars pre by fastforce
  qed
  ultimately have float: "\<not> float_text tok" unfolding float_text_def by blast
  obtain d es where ds: "ds = d # es" using tok(5) by (cases ds) (simp_all add: c_digits_def)
  obtain x xs where body: "body = x # xs" using tok(4) ds by (cases body) auto
  with tok(3,4) ds have "x = d" by simp
  moreover have "base \<noteq> 16 \<Longrightarrow> d \<in> set ''0123456789''"
    using in_base_ten [OF in_base_mono [OF digits b(2)]] ds by simp
  ultimately have "is_digit (hd tok)"
    using tok(1,2) body by (auto simp: c_prefixes_def is_digit_def split: if_splits)
  with float tok(1) body show ?thesis by simp
qed

lemma c_lit_types_itype: "t \<in> set (c_lit_types b s) \<Longrightarrow> itype t \<and> \<not> xbool t"
proof -
  assume "t \<in> set (c_lit_types b s)"
  then have "t \<in> set ranked" by (simp only: c_lit_types_def set_filter mem_Collect_eq)
  then show ?thesis by (auto simp: ranked_def)
qed

lemma num_answers:
  assumes "\<not> glist (gnodes G n)" "c_literal base k suffix (gatom (gnodes G n))" "base \<in> {2, 8, 10, 16}"
    "k < 2 ^ 64" "set suffix \<subseteq> set ''uUlL''" "lower_suffix suffix \<in> set c_suffixes"
    and den: "den (CNum base k suffix) = Some (z, t)"
  shows "answers (xconst (Suc fuel) G n) m (z, t)"
proof -
  from den have t: "c_lit_type base k (lower_suffix suffix) = Some t" "z = int k" by auto
  then have "t \<in> set (c_lit_types base (lower_suffix suffix))" "in_type t (int k)"
    unfolding c_lit_type_def find_Some_iff by auto
  then have it: "itype t \<and> \<not> xbool t" "in_type t (int k)" using c_lit_types_itype by auto
  note num = num_text [OF assms(3,5,2)]
  have "litType (gatom (gnodes G n)) = Some (\<lparr>xv = of_nat k, xunsigned = \<not> xsigned t\<rparr>, t)"
    using litType_known [OF assms(3,2,4-6)] t by simp
  then show ?thesis
    using assms(1) num it t(2) by (simp add: answers_def xatom_def Let_def answer_def holds_def)
qed

lemma enumr_answers:
  assumes "\<not> glist (gnodes G n)" "gatom (gnodes G n) = a" "a \<noteq> []" "\<not> is_digit (hd a)" "hd a \<noteq> squote"
    "Ref (gnodes G) n = Some d" "m d = Some v" and den: "den (CEnumr (sint v)) = Some (z, t)"
  shows "answers (xconst (Suc fuel) G n) m (z, t)"
proof -
  from den have t: "t = xInt" "z = sint v" "in_type xInt z" by (auto split: if_splits)
  have "xconst (Suc fuel) G n m = ebind (enumerator G (xconst fuel G) d) (\<lambda>v. give (Ans (plain v, xInt))) m"
    using assms(1-6) by (simp add: xatom_def Let_def)
  also have "\<dots> = (Ans (plain v, xInt), m)" using assms(7) by (simp add: ebind_def enumerator_def)
  finally show ?thesis using t by (simp add: answers_def holds_def plain_def)
qed

lemma chain_step:
  assumes "itype lt" "holds l lt x" "answers (ev a) m (y, rt)" "c_binary h (x, lt) (y, rt) = Some (z, t)"
  shows "answers (\<lambda>m. chain_from h ev (l, lt) [a] m) m (z, t)"
proof -
  obtain r where r: "ev a m = (Ans (r, rt), m)" "holds r rt y" "itype rt" using assms(3) by (rule answersE)
  obtain w where "xbinary h l lt r rt = Some (w, t)" "holds w t z" "itype t"
    using xbinary_meaning [OF assms(1) r(3) assms(2) r(2) assms(4)] by blast
  with r(1) show ?thesis by (simp add: answers_def ebind_def)
qed

definition run_value :: "bytes \<Rightarrow> (nat \<Rightarrow> xconstant ev) \<Rightarrow> nat list \<Rightarrow> xconstant ev" where
  "run_value h ev as = ebind (ev (hd as)) (\<lambda>l. chain_from h ev l (tl as))"

definition run_truth :: "bytes \<Rightarrow> (nat \<Rightarrow> xconstant ev) \<Rightarrow> nat list \<Rightarrow> bool ev" where
  "run_truth h ev as =
     ebind (ev (hd as)) (\<lambda>(l, lt). if xsize lt = 0 then give Unknown else logic_from h ev (\<not> zero l) (tl as))"

lemma run_value_snoc:
  assumes "as \<noteq> []" "answers (run_value h ev as) m (x, lt)" "answers (ev a) m (y, rt)"
    "c_binary h (x, lt) (y, rt) = Some (z, t)"
  shows "answers (run_value h ev (as @ [a])) m (z, t)"
proof -
  obtain l where l: "run_value h ev as m = (Ans (l, lt), m)" "holds l lt x" "itype lt" using assms(2) by (rule answersE)
  obtain c m1 where c: "ev (hd as) m = (Ans c, m1)" "chain_from h ev c (tl as) m1 = (Ans (l, lt), m)"
    using l(1) by (auto simp: run_value_def ebind_def split: prod.splits ans.splits)
  have "run_value h ev (as @ [a]) m = chain_from h ev (l, lt) [a] m"
    using assms(1) c by (simp add: run_value_def ebind_def chain_append del: chain_from.simps)
  then show ?thesis using chain_step [of lt l x ev a m y rt h z t] l(2,3) assms(3,4) by (simp add: answers_def)
qed

lemma run_truth_snoc:
  assumes "as \<noteq> []" "h \<in> {''&&'', ''||''}" "run_truth h ev as m = (Ans b, m)"
    and "h = ''&&'' \<and> \<not> b \<or> h = ''||'' \<and> b \<or> answers (ev a) m (y, rt)"
  shows "run_truth h ev (as @ [a]) m =
    (Ans (if h = ''&&'' \<and> \<not> b \<or> h = ''||'' \<and> b then b else y \<noteq> 0), m)"
proof -
  obtain l lt m1 where c: "ev (hd as) m = (Ans (l, lt), m1)" "xsize lt \<noteq> 0"
      "logic_from h ev (\<not> zero l) (tl as) m1 = (Ans b, m)"
    using assms(3) by (auto simp: run_truth_def ebind_def split: prod.splits ans.splits if_splits)
  have "run_truth h ev (as @ [a]) m = logic_from h ev b [a] m"
    using assms(1) c by (simp add: run_truth_def ebind_def logic_append del: logic_from.simps)
  moreover have "logic_from h ev b [a] m =
      (Ans (if h = ''&&'' \<and> \<not> b \<or> h = ''||'' \<and> b then b else y \<noteq> 0), m)"
  proof (cases "h = ''&&'' \<and> \<not> b \<or> h = ''||'' \<and> b")
    case False
    then obtain r where r: "ev a m = (Ans (r, rt), m)" "holds r rt y" "itype rt"
      using assms(4) by (auto elim: answersE)
    with False itype_integer [OF r(3)] show ?thesis by (auto simp: ebind_def zero_holds)
  qed auto
  ultimately show ?thesis by simp
qed


lemma step_run:
  assumes "binaryOps h" "h \<notin> {''&&'', ''||''}" "length as \<ge> 2"
  shows "const_form_step f G ev h n as = run_value h ev as"
proof -
  have n: "h \<noteq> ''paren''" "\<not> has_prefix h ''sizeof''" "\<not> has_prefix h ''alignof''" "h \<noteq> ''macro''" "h \<noteq> ''comma''"
    "h \<noteq> ''=''" "h \<noteq> ''cast''" "h \<noteq> ''?''"
    using assms(1) by (auto simp: binaryOps_def has_prefix_def)
  from assms(3) have "as ! 0 = hd as" by (cases as) auto
  with n assms show ?thesis by (simp add: const_form_step_def run_value_def Let_def)
qed

lemma step_logic:
  assumes "h \<in> {''&&'', ''||''}" "length as \<ge> 2"
  shows "const_form_step f G ev h n as m = ebind (run_truth h ev as) (\<lambda>b. give (Ans (plain (b2i b), xInt))) m"
proof -
  have n: "h \<noteq> ''paren''" "\<not> has_prefix h ''sizeof''" "\<not> has_prefix h ''alignof''" "h \<noteq> ''macro''" "h \<noteq> ''comma''"
    "h \<noteq> ''=''" "h \<noteq> ''cast''" "h \<noteq> ''?''" "h \<noteq> ''!''"
    using assms(1) by (auto simp: has_prefix_def)
  from assms(2) have "as ! 0 = hd as" by (cases as) auto
  with n assms show ?thesis
    by (auto simp: const_form_step_def run_truth_def Let_def ebind_def split: ans.splits prod.splits)
qed

lemma run_value_one: "answers (ev a) m c \<Longrightarrow> answers (run_value h ev [a]) m c"
  by (auto simp: answers_def run_value_def ebind_def split: prod.splits)

lemma run_truth_one: "answers (ev a) m (z, t) \<Longrightarrow> run_truth h ev [a] m = (Ans (z \<noteq> 0), m)"
  by (auto elim!: answersE simp: run_truth_def ebind_def zero_holds dest: itype_integer)

definition enough :: "nat list \<Rightarrow> cexpr \<Rightarrow> nat \<Rightarrow> bool" where
  "enough as e fuel \<longleftrightarrow> (if length as = 1 then size e < fuel else size e \<le> fuel)"

lemma enough_one [simp]: "enough [a] e fuel \<longleftrightarrow> size e < fuel"
  by (simp add: enough_def)

lemma enough_snoc: "as \<noteq> [] \<Longrightarrow> enough (as @ [a]) e fuel \<Longrightarrow> size l < size e \<Longrightarrow> enough as l fuel"
  by (auto simp: enough_def split: if_splits)

lemma enough_last: "as \<noteq> [] \<Longrightarrow> enough (as @ [a]) e fuel \<Longrightarrow> size r < size e \<Longrightarrow> size r < fuel"
  by (auto simp: enough_def split: if_splits)

lemma bin_snoc:
  assumes "as \<noteq> []" "enough (as @ [a]) (CBin op l r) fuel" "den (CBin op l r) = Some (z, t)"
    and run: "\<And>z t. den l = Some (z, t) \<Longrightarrow> enough as l fuel \<Longrightarrow> answers (run_value op ev as) m (z, t)"
    and last: "\<And>z t. den r = Some (z, t) \<Longrightarrow> size r < fuel \<Longrightarrow> answers (ev a) m (z, t)"
  shows "answers (run_value op ev (as @ [a])) m (z, t)"
proof -
  obtain x lt y rt where d: "den l = Some (x, lt)" "den r = Some (y, rt)" "c_binary op (x, lt) (y, rt) = Some (z, t)"
    using assms(3) by (auto simp: bind_eq_Some_conv)
  show ?thesis
    by (rule run_value_snoc [OF assms(1) run [OF d(1)] last [OF d(2)] d(3)])
      (use enough_snoc [OF assms(1,2), of l] enough_last [OF assms(1,2), of r] in auto)
qed

lemma log_snoc:
  assumes "as \<noteq> []" "op \<in> {''&&'', ''||''}" "enough (as @ [a]) (CLog op l r) fuel" "den (CLog op l r) = Some (z, t)"
    and run: "\<And>z t. den l = Some (z, t) \<Longrightarrow> enough as l fuel \<Longrightarrow> run_truth op ev as m = (Ans (z \<noteq> 0), m)"
    and last: "\<And>z t. den r = Some (z, t) \<Longrightarrow> size r < fuel \<Longrightarrow> answers (ev a) m (z, t)"
  shows "run_truth op ev (as @ [a]) m = (Ans (z \<noteq> 0), m) \<and> t = xInt \<and> z = of_bool (z \<noteq> 0)"
proof -
  obtain x lt where l: "den l = Some (x, lt)" using assms(4) by (auto simp: bind_eq_Some_conv)
  have r: "run_truth op ev as m = (Ans (x \<noteq> 0), m)"
    by (rule run [OF l]) (use enough_snoc [OF assms(1,3), of l] in auto)
  have sz: "size r < fuel" using enough_last [OF assms(1,3), of r] by auto
  show ?thesis
  proof (cases "op = ''&&'' \<and> \<not> x \<noteq> 0 \<or> op = ''||'' \<and> x \<noteq> 0")
    case True
    have "run_truth op ev (as @ [a]) m = (Ans (x \<noteq> 0), m)"
      using run_truth_snoc [OF assms(1,2) r, of a 0 lt] True by auto
    with True assms(4) l show ?thesis by auto
  next
    case False
    then obtain y rt where y: "den r = Some (y, rt)" "z = of_bool (y \<noteq> 0)" "t = xInt"
      using assms(2,4) l by (auto split: if_splits)
    from run_truth_snoc [OF assms(1,2) r disjI2 [OF disjI2 [OF last [OF y(1) sz]]]] False
    have "run_truth op ev (as @ [a]) m = (Ans (y \<noteq> 0), m)" by auto
    with y show ?thesis by simp
  qed
qed

lemma sizeof_answers:
  assumes "glist (gnodes G n)" "gHead (gnodes G) n = ''sizeof-type''" "gArgs (gnodes G) n = [a]"
    "xtypeOfForm (gnodes G) (Some a) = Ans t" "itype t"
  shows "answers (xconst (Suc f) G n) m (int (xsize t), xULong)"
proof -
  obtain k where k: "gkids (gnodes G n) = k # [a]"
    using assms(1,3) by (cases "gkids (gnodes G n)") (auto simp: gArgs_def)
  have t: "integer t" "0 < xsize t" "xsize t \<le> 8" using itype_integer [OF assms(5)] by simp_all
  have "sizeofValue f (gnodes G) n = Ans (of_nat (xsize t))"
    using assms(4) t by (simp add: sizeofValue_def assms(2) has_suffix_def kid_def k)
  moreover have "has_prefix ''sizeof-type'' ''sizeof''" by (simp add: has_prefix_def)
  ultimately show ?thesis
    using assms(1-3) t by (simp add: answers_def const_form_step_def holds_def in_type_def)
qed

lemma cond_answers:
  assumes c: "answers (ev x) m (u, tc)" and a: "answers (ev y) m (p, ta)" and b: "answers (ev z) m (q, tb)"
  shows "answers (conditional ev x y z) m (c_convert (c_common ta tb) (if u \<noteq> 0 then p else q), c_common ta tb)"
proof -
  obtain cv where cv: "ev x m = (Ans (cv, tc), m)" "holds cv tc u" "itype tc" using c by (rule answersE)
  obtain av where av: "ev y m = (Ans (av, ta), m)" "holds av ta p" "itype ta" using a by (rule answersE)
  obtain bv where bv: "ev z m = (Ans (bv, tb), m)" "holds bv tb q" "itype tb" using b by (rule answersE)
  let ?t = "c_common ta tb"
  have it: "itype ?t" using wide_itype [OF c_common_wide [OF av(3) bv(3)]] by simp
  obtain w where w: "convert (if u \<noteq> 0 then av else bv) ?t = Some w" "holds w ?t (c_convert ?t (if u \<noteq> 0 then p else q))"
    using holds_convert [OF it av(3,2)] holds_convert [OF it bv(3,2)] by (cases "u = 0") auto
  have "conditional ev x y z m = as_type (if u \<noteq> 0 then av else bv) ?t m"
    using cv av bv itype_integer [OF cv(3)] itype_integer [OF av(3)] itype_integer [OF bv(3)]
    by (cases "u = 0") (simp_all add: conditional_def zero_holds usual_meaning)
  with w it show ?thesis by (simp add: answers_def as_type_def answer_def)
qed

lemma den_cond:
  assumes "den (CCond c a b) = Some (w, t)"
  obtains u tc p ta q tb where "den c = Some (u, tc)" "den a = Some (p, ta)" "den b = Some (q, tb)"
    "t = c_common ta tb" "w = c_convert (c_common ta tb) (if u \<noteq> 0 then p else q)"
proof -
  from assms obtain u tc where "den c = Some (u, tc)" by (cases "den c") auto
  moreover from assms this obtain p ta where "den a = Some (p, ta)" by (cases "den a") auto
  moreover from assms calculation obtain q tb where "den b = Some (q, tb)" by (cases "den b") auto
  moreover have "t = c_common ta tb" "w = c_convert (c_common ta tb) (if u \<noteq> 0 then p else q)"
    using assms calculation by (auto simp: Let_def)
  ultimately show ?thesis by (rule that)
qed

lemma spells_answers:
  "spells G m n e \<Longrightarrow> (\<forall>z t fuel. den e = Some (z, t) \<longrightarrow> size e < fuel \<longrightarrow> answers (xconst fuel G n) m (z, t))"
  "spells_run G m f as e \<Longrightarrow>
     (\<forall>op z t fuel. f = CBin op \<longrightarrow> den e = Some (z, t) \<longrightarrow> enough as e fuel \<longrightarrow>
        answers (run_value op (xconst fuel G) as) m (z, t)) \<and>
     (\<forall>op z t fuel. f = CLog op \<longrightarrow> op \<in> {''&&'', ''||''} \<longrightarrow> den e = Some (z, t) \<longrightarrow> enough as e fuel \<longrightarrow>
        run_truth op (xconst fuel G) as m = (Ans (z \<noteq> 0), m) \<and>
        (length as \<ge> 2 \<longrightarrow> t = xInt \<and> z = of_bool (z \<noteq> 0)))"
proof (induction rule: spells_spells_run.inducts)
  case (num n base k suffix)
  show ?case
  proof (intro allI impI)
    fix z t fuel assume "den (CNum base k suffix) = Some (z, t)" "size (CNum base k suffix) < fuel"
    then show "answers (xconst fuel G n) m (z, t)"
      using num_answers [OF num] by (cases fuel) auto
  qed
next
  case (enumr n a d v)
  show ?case
  proof (intro allI impI)
    fix z t fuel assume "den (CEnumr (sint v)) = Some (z, t)" "size (CEnumr (sint v)) < fuel"
    then show "answers (xconst fuel G n) m (z, t)"
      using enumr_answers [of G n a d m v, OF enumr(1,2,5-7,3,4)] by (cases fuel) auto
  qed
next
  case (size_of n a t)
  show ?case
  proof (intro allI impI)
    fix z t' fuel assume "den (CSizeof t) = Some (z, t')" "size (CSizeof t) < fuel"
    then show "answers (xconst fuel G n) m (z, t')"
      using sizeof_answers [OF size_of] by (cases fuel) auto
  qed
next
  case (paren n a e)
  show ?case
  proof (intro allI impI)
    fix z t fuel assume a: "den (CParen e) = Some (z, t)" "size (CParen e) < fuel"
    then obtain f where "fuel = Suc f" "size e < f" by (cases fuel) auto
    with paren a show "answers (xconst fuel G n) m (z, t)" by (simp add: answers_def const_form_step_def)
  qed
next
  case (cast n tn a t e)
  show ?case
  proof (intro allI impI)
    fix z t' fuel assume a: "den (CCast t e) = Some (z, t')" "size (CCast t e) < fuel"
    then obtain f where f: "fuel = Suc f" "size e < f" by (cases fuel) auto
    from a obtain y s where y: "den e = Some (y, s)" "z = c_convert t y" "t' = t" by auto
    with cast(6) f obtain v where v: "xconst f G a m = (Ans (v, s), m)" "holds v s y" "itype s"
      by (blast elim: answersE)
    obtain w where "convert v t = Some w" "holds w t z"
      using holds_convert [OF cast(7) v(3,2)] y(2) by auto
    with cast(1-4,7) f v(1) y itype_integer [OF cast(7)] show "answers (xconst fuel G n) m (z, t')"
      by (simp add: answers_def const_form_step_def has_prefix_def as_type_def answer_def)
  qed
next
  case (un n op a e)
  show ?case
  proof (intro allI impI)
    fix z t fuel assume a: "den (CUn op e) = Some (z, t)" "size (CUn op e) < fuel"
    then obtain f where f: "fuel = Suc f" "size e < f" by (cases fuel) auto
    from a obtain y s where y: "den e = Some (y, s)" "c_unary op (y, s) = Some (z, t)"
      by (auto simp: bind_eq_Some_conv)
    with un(5) f obtain v where v: "xconst f G a m = (Ans (v, s), m)" "holds v s y" "itype s"
      by (blast elim: answersE)
    have "const_form_step f G (xconst f G) op n [a] m =
        (if op = ''!'' then (Ans (plain (b2i (zero v)), xInt), m) else (unary_value op (v, s), m))"
      using un(6) v(1) itype_integer [OF v(3)]
      by (elim insertE emptyE) (simp_all add: const_form_step_def has_prefix_def)
    moreover have "op \<noteq> ''!'' \<Longrightarrow> itype t \<and> (\<exists>w. unary_value op (v, s) = Ans (w, t) \<and> holds w t z)"
      using fold_unary [OF v(3,2) y(2)] un(6) by auto
    moreover have "op = ''!'' \<Longrightarrow> z = of_bool (y = 0) \<and> t = xInt" using y(2) by (auto simp: c_unary_def)
    ultimately show "answers (xconst fuel G n) m (z, t)"
      using f un(1-3) v truth_holds [of "zero v"] zero_holds [OF v(3,2)]
      by (cases "op = ''!''") (auto simp: answers_def)
  qed
next
  case (bin n op as e)
  show ?case
  proof (intro allI impI)
    fix z t fuel assume a: "den e = Some (z, t)" "size e < fuel"
    then obtain f where f: "fuel = Suc f" "size e \<le> f" by (cases fuel) auto
    then have "enough as e f" using bin(8) by (simp add: enough_def)
    with bin(5) a(1) have "answers (run_value op (xconst f G) as) m (z, t)" by blast
    moreover have "xconst fuel G n = run_value op (xconst f G) as"
      using step_run [OF bin(6-8), of f G "xconst f G" n] bin(1-3) f by simp
    ultimately show "answers (xconst fuel G n) m (z, t)" by simp
  qed
next
  case (logic n op as e)
  show ?case
  proof (intro allI impI)
    fix z t fuel assume a: "den e = Some (z, t)" "size e < fuel"
    then obtain f where f: "fuel = Suc f" "size e \<le> f" by (cases fuel) auto
    then have "enough as e f" using logic(7) by (simp add: enough_def)
    with logic(5) a(1) logic(6,7) have r: "run_truth op (xconst f G) as m = (Ans (z \<noteq> 0), m)" "t = xInt"
        "z = of_bool (z \<noteq> 0)" by blast+
    have "xconst fuel G n m = (Ans (plain (b2i (z \<noteq> 0)), xInt), m)"
      using step_logic [OF logic(6,7), of f G "xconst f G" n m] logic(1-3) f r(1) by simp
    with r(2,3) truth_holds [of "z \<noteq> 0"] show "answers (xconst fuel G n) m (z, t)" by (simp add: answers_def)
  qed
next
  case (cond n x y z c a b)
  show ?case
  proof (intro allI impI)
    fix w t fuel assume d: "den (CCond c a b) = Some (w, t)" "size (CCond c a b) < fuel"
    then obtain f where f: "fuel = Suc f" "size c < f" "size a < f" "size b < f" by (cases fuel) auto
    from d(1) obtain u tc p ta q tb where v: "den c = Some (u, tc)" "den a = Some (p, ta)" "den b = Some (q, tb)"
        "t = c_common ta tb" "w = c_convert (c_common ta tb) (if u \<noteq> 0 then p else q)"
      by (rule den_cond)
    have "answers (conditional (xconst f G) x y z) m (w, t)"
      unfolding v(4,5) using cond(5,7,9) v(1-3) f by (intro cond_answers) auto
    moreover have "xconst fuel G n = conditional (xconst f G) x y z"
      using cond(1-3) f by (simp add: const_form_step_def has_prefix_def)
    ultimately show "answers (xconst fuel G n) m (w, t)" by simp
  qed
next
  case (one a e f)
  then show ?case by (auto intro: run_value_one run_truth_one)
next
  case (snoc f as l a r)
  show ?case
  proof (intro conjI allI impI)
    fix op z t fuel assume a: "f = CBin op" "den (f l r) = Some (z, t)" "enough (as @ [a]) (f l r) fuel"
    note bin = bin_snoc [OF snoc(5), of a op l r fuel z t "xconst fuel G" m]
    show "answers (run_value op (xconst fuel G) (as @ [a])) m (z, t)"
      by (rule bin) (use a snoc(2,4) in blast)+
  next
    fix op z t fuel assume a: "f = CLog op" "op \<in> {''&&'', ''||''}" "den (f l r) = Some (z, t)"
      "enough (as @ [a]) (f l r) fuel"
    note log = log_snoc [OF snoc(5) a(2), of a l r fuel z t "xconst fuel G" m]
    have *: "run_truth op (xconst fuel G) (as @ [a]) m = (Ans (z \<noteq> 0), m) \<and> t = xInt \<and> z = of_bool (z \<noteq> 0)"
      by (rule log) (use a snoc(2,4) in blast)+
    then show "run_truth op (xconst fuel G) (as @ [a]) m = (Ans (z \<noteq> 0), m)" by blast
    from * show "t = xInt" "z = of_bool (z \<noteq> 0)" by blast+
  qed
qed

text \<open>
  C18. The evaluator of foldx answers what C means: on a form that spells a constant expression --
  integer literals in any spelling, enumerators whose value it has computed, sizeof of an integer
  type, casts to integer types, unary and binary operators in their runs, short-circuit logic, and
  conditionals both of whose branches have a value -- and whose value the standard defines,
  \<open>xconst\<close> gives that value and that type, whatever is undefined in the operands \<open>&&\<close> and \<open>||\<close>
  pass over, and keeps the enumerators it knew.  Where only the branch taken has a value the
  answer may have another type than the standard's.
\<close>

theorem xconst_meaning:
  assumes "spells G m n e" "den e = Some (z, t)" "size e < fuel"
  shows "\<exists>v. xconst fuel G n m = (Ans (v, t), m) \<and> holds v t z"
  using spells_answers(1) [OF assms(1)] assms(2,3) by (auto simp: answers_def)

text \<open>\<open>(|| 1 (/ 1 00))\<close>, \<open>(- 7 2u)\<close> and \<open>(? 1 (- 1) (/ 1u 0u))\<close> on the store.\<close>

definition sample_nodes :: gstore where
  "sample_nodes n =
     (let k = \<lparr>gid = 0, gatom = [], gkids = [], grefs = [], gtype = None, glist = False, gup = None\<rparr>;
          atom = (\<lambda>a. k\<lparr>gatom := a\<rparr>); l = (\<lambda>ks. k\<lparr>gkids := ks, glist := True\<rparr>)
      in if n = 3 then l [4, 5, 6] else if n = 4 then atom ''||'' else if n = 5 then atom ''1''
         else if n = 6 then l [7, 5, 8] else if n = 7 then atom ''/'' else if n = 8 then atom ''00''
         else if n = 9 then l [10, 11, 12] else if n = 10 then atom ''-'' else if n = 11 then atom ''7''
         else if n = 12 then atom ''2u''
         else if n = 13 then l [14, 5, 15, 16] else if n = 14 then atom ''?'' else if n = 15 then l [10, 5]
         else if n = 16 then l [7, 17, 18] else if n = 17 then atom ''1u'' else if n = 18 then atom ''0u'' else k)"

definition sample_graph :: graph where
  "sample_graph = \<lparr>gnodes = sample_nodes, gnext = 19, gforms = [], gtypes = [], gexterns = [], glast = 0,
     journals = (\<lambda>_. \<lparr>jsaved = {}, jnodes = [], jforms = [], jtypes = [], jexterns = [], jids = 0, jdone = False\<rparr>),
     jnext = 0, recording = None\<rparr>"

lemma sample_literal:
  "c_literal 10 1 [] ''1''" "c_literal 8 0 [] ''00''" "c_literal 10 7 [] ''7''" "c_literal 10 2 ''u'' ''2u''"
  by (rule c_literalI [of _ "[]" "''1''" _ "''1''"], simp_all add: c_literal_simps,
    rule c_literalI [of _ "[]" "''00''" _ "''00''"], simp_all add: c_literal_simps,
    rule c_literalI [of _ "[]" "''7''" _ "''7''"], simp_all add: c_literal_simps,
    rule c_literalI [of _ "[]" "''2u''" _ "''2''"], simp_all add: c_literal_simps)

lemma sample_number:
  "\<not> glist (gnodes G n) \<Longrightarrow> c_literal 10 k [] (gatom (gnodes G n)) \<Longrightarrow> k < 2 ^ 64 \<Longrightarrow> spells G m n (CNum 10 k [])"
  by (rule num) (simp_all add: lower_suffix_def c_suffixes_def)

lemma sample_spells:
  "spells sample_graph Map.empty 3 (CLog ''||'' (CNum 10 1 []) (CBin ''/'' (CNum 10 1 []) (CNum 8 0 [])))"
  "spells sample_graph Map.empty 9 (CBin ''-'' (CNum 10 7 []) (CNum 10 2 ''u''))"
proof -
  have one: "spells sample_graph Map.empty 5 (CNum 10 1 [])" "spells sample_graph Map.empty 11 (CNum 10 7 [])"
    by (rule sample_number; simp add: sample_graph_def sample_nodes_def Let_def sample_literal del: One_nat_def)+
  have zero: "spells sample_graph Map.empty 8 (CNum 8 0 [])"
    by (rule num) (simp_all add: sample_graph_def sample_nodes_def Let_def sample_literal lower_suffix_def c_suffixes_def)
  have two: "spells sample_graph Map.empty 12 (CNum 10 2 ''u'')"
    by (rule num) (simp_all add: sample_graph_def sample_nodes_def Let_def sample_literal lower_suffix_def c_suffixes_def)
  have pair: "spells_run G m f [a, b] (f l r)" if "spells G m a l" "spells G m b r" for G m f a b l r
    using spells_spells_run.snoc [OF spells_spells_run.one [OF that(1), of f] _ that(2)] by simp
  have six: "spells sample_graph Map.empty 6 (CBin ''/'' (CNum 10 1 []) (CNum 8 0 []))"
    by (rule bin [OF _ _ _ _ _ _ pair [OF one(1) zero]])
      (simp_all add: sample_graph_def sample_nodes_def Let_def gHead_def gArgs_def binaryOps_def)
  show "spells sample_graph Map.empty 3 (CLog ''||'' (CNum 10 1 []) (CBin ''/'' (CNum 10 1 []) (CNum 8 0 [])))"
    by (rule logic [OF _ _ _ _ _ pair [OF one(1) six]])
      (simp_all add: sample_graph_def sample_nodes_def Let_def gHead_def gArgs_def)
  show "spells sample_graph Map.empty 9 (CBin ''-'' (CNum 10 7 []) (CNum 10 2 ''u''))"
    by (rule bin [OF _ _ _ _ _ _ pair [OF one(2) two]])
      (simp_all add: sample_graph_def sample_nodes_def Let_def gHead_def gArgs_def binaryOps_def)
qed

theorem xconst_meaning_witness:
  "(\<exists>v. xconst 9 sample_graph 3 Map.empty = (Ans (v, xInt), Map.empty) \<and> holds v xInt 1) \<and>
    (\<exists>v. xconst 9 sample_graph 9 Map.empty = (Ans (v, xUInt), Map.empty) \<and> holds v xUInt 5)"
proof -
  have "den (CLog ''||'' (CNum 10 1 []) (CBin ''/'' (CNum 10 1 []) (CNum 8 0 []))) = Some (1, xInt)"
    "den (CBin ''-'' (CNum 10 7 []) (CNum 10 2 ''u'')) = Some (5, xUInt)"
    by (simp_all add: c_lit_type_def c_lit_types_def ranked_def in_type_def lower_suffix_def c_binary_def
        c_common_def c_promote_def c_rank_def c_arith_def c_result_def c_convert_def wrap_u_def)
  with xconst_meaning [OF sample_spells(1), of 1 xInt 9] xconst_meaning [OF sample_spells(2), of 5 xUInt 9]
  show ?thesis by simp
qed



end
