(* ===== verification/ConstLayout.thy ===== *)
theory ConstLayout
  imports ConstMeaning
begin

text \<open>
  The layout of structures in crefactor/graph/foldx_eval.go: alignments are powers of two, a
  structure's size holds every member at its offset, members are aligned and do not overlap.
\<close>

subsection \<open>Rounding up on words\<close>

lemma small_sint: "unat w < 2 ^ 63 \<Longrightarrow> sint w = int (unat w)" for w :: int64
proof -
  assume w: "unat w < 2 ^ 63"
  then have "int (unat w) < int (2 ^ 63)" by (simp only: of_nat_less_iff)
  then have "uint w < 2 ^ 63" by simp
  moreover have "- (2 ^ 63) \<le> uint w" by (rule order_trans [of _ 0]) simp_all
  ultimately have "signed_take_bit 63 (uint w) = uint w" by (intro signed_take_bit_int_eq_self) simp_all
  then show ?thesis by (simp add: sint_uint)
qed

lemma sdiv_nat: "int x sdiv int y = int (x div y)"
  by (simp add: sdiv_nonneg of_nat_div)

lemma unat_nat: "n < 2 ^ 64 \<Longrightarrow> unat (of_nat n :: int64) = n"
  by (simp add: unsigned_of_nat take_bit_nat_eq_self)

definition up :: "nat \<Rightarrow> nat \<Rightarrow> nat" where
  "up n a = (n + a - 1) div a * a"

lemma up_bounds: "0 < a \<Longrightarrow> a dvd up n a \<and> n \<le> up n a \<and> up n a < n + a"
proof -
  assume a: "0 < a"
  have "(n + a - 1) mod a < a" using a by simp
  moreover have "up n a + (n + a - 1) mod a = n + a - 1" unfolding up_def by (rule div_mult_mod_eq)
  moreover have "a dvd up n a" by (simp add: up_def)
  ultimately show ?thesis using a by linarith
qed

definition alignment :: "int64 \<Rightarrow> bool" where
  "alignment a \<longleftrightarrow> a \<in> {1, 2, 4, 8, 16}"

lemma alignment_simps [simp]: "alignment 1" "alignment 2" "alignment 4" "alignment 8" "alignment 16"
  by (simp_all add: alignment_def)

lemma alignment_unat: "alignment a \<Longrightarrow> 0 < unat a \<and> unat a \<le> 16"
  by (auto simp: alignment_def)

lemma unat_round_up:
  assumes "alignment a" "unat n + 16 < 2 ^ 62"
  shows "unat (round_up n a) = up (unat n) (unat a)"
proof -
  have a: "0 < unat a" "unat a \<le> 16" using alignment_unat [OF assms(1)] by simp_all
  let ?m = "unat n + unat a - 1"
  have "n + a - 1 = of_nat ?m" using a by (simp add: of_nat_diff)
  moreover have m: "?m < 2 ^ 62" using a assms(2) by linarith
  ultimately have u: "unat (n + a - 1) = ?m" using unat_nat [of ?m] by simp
  have s: "sint (n + a - 1) = int ?m" using small_sint [of "n + a - 1"] u m by simp
  have sa: "sint a = int (unat a)" by (rule small_sint, rule order_le_less_trans [OF a(2)]) simp
  have "round_up n a = of_nat (?m div unat a * unat a)"
    unfolding round_up_def quot64_def s sa sdiv_nat by simp
  moreover have "up (unat n) (unat a) < 2 ^ 64"
  proof -
    have "(2 :: nat) ^ 62 < 2 ^ 64" by simp
    with up_bounds [OF a(1), of "unat n"] a assms(2) show ?thesis by linarith
  qed
  ultimately show ?thesis using unat_nat by (simp only: up_def)
qed

lemma unat_max: "unat a < 2 ^ 63 \<Longrightarrow> unat b < 2 ^ 63 \<Longrightarrow> unat (max64 a b) = max (unat a) (unat b)"
proof -
  assume "unat a < 2 ^ 63" "unat b < 2 ^ 63"
  then have "sint a < sint b \<longleftrightarrow> unat a < unat b" by (simp only: small_sint of_nat_less_iff)
  then show ?thesis by (simp add: max64_def max_def)
qed

subsection \<open>Alignments\<close>

lemma max_alignment: "alignment a \<Longrightarrow> alignment b \<Longrightarrow> alignment (max64 a b)"
  by (simp add: max64_def)

lemma basic_alignment: "basic_layout w = Some (s, a) \<Longrightarrow> alignment a"
  by (auto simp: basic_layout_def alignment_def split: if_splits)

lemma members_alignment:
  "(\<And>t s a. lay t = Some (s, a) \<Longrightarrow> alignment a) \<Longrightarrow> layout_members N lay un ms (s0, a0) = Some (s, a) \<Longrightarrow>
     alignment a0 \<Longrightarrow> alignment a"
proof (induction ms arbitrary: s0 a0)
  case (Cons m ms)
  have step: "alignment (max64 a0 b)" if "lay t = Some (x, b)" for t x b
    using Cons.prems(1,3) that max_alignment by blast
  show ?case
  proof (cases "gIs N m ''static_assert''")
    case True
    with Cons show ?thesis by simp
  next
    case False
    with Cons.prems(2) obtain x b where "lay (gtype (N m)) = Some (x, b)"
        "layout_members N lay un ms (if un then max64 s0 x else round_up s0 b + x, max64 a0 b) = Some (s, a)"
      by (auto split: if_splits option.splits)
    with Cons.IH Cons.prems(1) step show ?thesis by blast
  qed
qed simp

lemma layout_alignment: "layout_at left N t = Some (s, a) \<Longrightarrow> alignment a"
proof (induction left arbitrary: t s a)
  case (Suc left)
  obtain n where n: "t = Some n" using Suc.prems by (cases t) auto
  have mem: "layout_members N (layout_at left N) un ms (0, 1) = Some (s', a') \<Longrightarrow> alignment a'" for un ms s' a'
    by (rule members_alignment [of "layout_at left N"]) (auto intro: Suc.IH)
  from Suc.prems show ?case
    by (auto simp: n Let_def dest: mem Suc.IH basic_alignment split: if_splits option.splits)
qed simp

subsection \<open>Members\<close>

definition member_layout :: "gstore \<Rightarrow> nat \<Rightarrow> (int64 \<times> int64) option" where
  "member_layout N m = typeLayout N (gtype (N m)) 1"

definition weight :: "gstore \<Rightarrow> nat \<Rightarrow> nat" where
  "weight N m = (case member_layout N m of Some (s, _) \<Rightarrow> unat s + 16 | None \<Rightarrow> 16)"

definition data_members :: "gstore \<Rightarrow> nat list \<Rightarrow> nat list" where
  "data_members N ms = filter (\<lambda>m. \<not> gIs N m ''static_assert'') ms"

definition size_of :: "gstore \<Rightarrow> nat \<Rightarrow> nat" where
  "size_of N m = unat (fst (the (member_layout N m)))"

definition placed_at :: "gstore \<Rightarrow> nat \<Rightarrow> int64 option \<Rightarrow> nat \<Rightarrow> nat \<Rightarrow> bool" where
  "placed_at N m off lo hi \<longleftrightarrow>
     (\<exists>o' sz al. off = Some o' \<and> member_layout N m = Some (sz, al) \<and>
       unat al dvd unat o' \<and> lo \<le> unat o' \<and> unat o' + unat sz \<le> hi)"

lemma placed_mono: "placed_at N m off lo hi \<Longrightarrow> lo' \<le> lo \<Longrightarrow> placed_at N m off lo' hi"
  unfolding placed_at_def by (blast intro: order_trans)

lemma members_placed:
  assumes "layout_members N (layout_at 32 N) False ms (off, a0) = Some (s, a)"
    "unat off + sum_list (map (weight N) ms) + 16 < 2 ^ 62" "distinct (map (declName N) (data_members N ms))"
  shows "unat off \<le> unat s \<and> unat s \<le> unat off + sum_list (map (weight N) ms) \<and>
    (\<forall>m \<in> set (data_members N ms). placed_at N m (offset_from N (declName N m) off ms) (unat off) (unat s)) \<and>
    sorted_wrt (\<lambda>m m'. unat (the (offset_from N (declName N m) off ms)) + size_of N m
      \<le> unat (the (offset_from N (declName N m') off ms))) (data_members N ms)"
  using assms
proof (induction ms arbitrary: off a0)
  case (Cons m ms)
  show ?case
  proof (cases "gIs N m ''static_assert''")
    case True
    have 1: "layout_members N (layout_at 32 N) False ms (off, a0) = Some (s, a)" using Cons.prems(1) True by simp
    have 2: "unat off + sum_list (map (weight N) ms) + 16 < 2 ^ 62" using Cons.prems(2) by simp
    have d: "data_members N (m # ms) = data_members N ms" using True by (simp add: data_members_def)
    note ih = Cons.IH [OF 1 2 Cons.prems(3) [unfolded d]]
    have "offset_from N nm off (m # ms) = offset_from N nm off ms" for nm using True by simp
    moreover have "unat s \<le> unat off + sum_list (map (weight N) (m # ms))" using ih by simp
    ultimately show ?thesis using ih unfolding d by simp
  next
    case False
    then obtain sz al where lay: "member_layout N m = Some (sz, al)"
        "layout_members N (layout_at 32 N) False ms (round_up off al + sz, max64 a0 al) = Some (s, a)"
      using Cons.prems(1) by (auto simp: member_layout_def typeLayout_def split: if_splits option.splits)
    have al: "alignment al" using layout_alignment lay(1) by (simp add: member_layout_def typeLayout_def)
    have w: "weight N m = unat sz + 16" by (simp add: weight_def lay(1))
    let ?o = "round_up off al"
    have o: "unat ?o = up (unat off) (unat al)"
      using al Cons.prems(2) w by (intro unat_round_up) simp_all
    have up: "unat al dvd unat ?o" "unat off \<le> unat ?o" "unat ?o < unat off + 16"
      using up_bounds [of "unat al" "unat off"] alignment_unat [OF al] by (auto simp: o)
    have "unat ?o + unat sz < 2 ^ 62" using up(3) Cons.prems(2) w by simp
    then have "unat ?o + unat sz < 2 ^ 64" by (rule order_less_trans) simp
    then have sum: "unat (?o + sz) = unat ?o + unat sz" using unat_nat [of "unat ?o + unat sz"] by simp
    have ih: "unat (?o + sz) \<le> unat s \<and> unat s \<le> unat (?o + sz) + sum_list (map (weight N) ms) \<and>
      (\<forall>m \<in> set (data_members N ms). placed_at N m (offset_from N (declName N m) (?o + sz) ms) (unat (?o + sz)) (unat s)) \<and>
      sorted_wrt (\<lambda>m m'. unat (the (offset_from N (declName N m) (?o + sz) ms)) + size_of N m
        \<le> unat (the (offset_from N (declName N m') (?o + sz) ms))) (data_members N ms)"
      using Cons.prems(2,3) False up(3) w lay(2) by (intro Cons.IH) (simp_all add: sum data_members_def)
    have d: "data_members N (m # ms) = m # data_members N ms" using False by (simp add: data_members_def)
    have "declName N m \<notin> declName N ` set (data_members N ms)" using Cons.prems(3) by (simp add: d)
    then have names: "declName N m' \<noteq> declName N m" if "m' \<in> set (data_members N ms)" for m'
      using that by (metis image_eqI)
    have tl: "typeLayout N (gtype (N m)) 1 = Some (sz, al)" using lay(1) by (simp add: member_layout_def)
    have rest: "offset_from N (declName N m') off (m # ms) = offset_from N (declName N m') (?o + sz) ms"
      if "m' \<in> set (data_members N ms)" for m'
      using False tl names [OF that] by (simp del: One_nat_def)
    have here: "offset_from N (declName N m) off (m # ms) = Some ?o" using False tl by (simp del: One_nat_def)
    have later: "placed_at N m' (offset_from N (declName N m') off (m # ms)) (unat (?o + sz)) (unat s)"
      if "m' \<in> set (data_members N ms)" for m'
      using ih rest [OF that] that by simp
    have first: "placed_at N m (Some ?o) (unat off) (unat s)"
      using up(1,2) ih sum lay(1) by (auto simp: placed_at_def)
    have lo: "unat off \<le> unat (?o + sz)" using up(2) sum by simp
    have all: "\<forall>m' \<in> set (m # data_members N ms).
        placed_at N m' (offset_from N (declName N m') off (m # ms)) (unat off) (unat s)"
      using first placed_mono [OF later lo] by (auto simp: here simp del: offset_from.simps)
    have gap: "unat (the (offset_from N (declName N m) off (m # ms))) + size_of N m
        \<le> unat (the (offset_from N (declName N m') off (m # ms)))" if "m' \<in> set (data_members N ms)" for m'
      using later [OF that] sum lay(1) unfolding here by (auto simp: placed_at_def size_of_def simp del: offset_from.simps)
    have "sorted_wrt (\<lambda>m' m''. unat (the (offset_from N (declName N m') off (m # ms))) + size_of N m'
        \<le> unat (the (offset_from N (declName N m'') off (m # ms)))) (data_members N ms)"
      using ih rest by (metis (mono_tags, lifting) sorted_wrt_mono_rel)
    with gap have "sorted_wrt (\<lambda>m' m''. unat (the (offset_from N (declName N m') off (m # ms))) + size_of N m'
        \<le> unat (the (offset_from N (declName N m'') off (m # ms)))) (m # data_members N ms)"
      by (simp del: offset_from.simps)
    moreover have "unat off \<le> unat s" using ih up(2) sum by simp
    moreover have "unat s \<le> unat off + sum_list (map (weight N) (m # ms))" using ih up(3) sum w by simp
    ultimately show ?thesis unfolding d using all by blast
  qed
qed (simp add: data_members_def)

lemma layout_struct:
  "gIs N s ''struct'' \<Longrightarrow> layout_at (Suc left) N (Some s) = map_option (\<lambda>(s, a). (round_up s a, a))
     (layout_members N (layout_at left N) False (members N s) (0, 1))"
  by (simp add: gIs_def)

text \<open>
  C19. The layout of a structure: every data member is at a multiple of its alignment, wholly inside
  the structure's size, and ends before the next begins -- when the members' names differ and their
  sizes sum to less than 2^62, so that the code's \<open>int64\<close> sums do not wrap.
\<close>

theorem struct_layout:
  assumes "gIs N s ''struct''" "typeLayout N (Some s) 0 = Some (sz0, al0)"
    and "distinct (map (declName N) (data_members N (members N s)))"
    and "sum_list (map (weight N) (members N s)) + 16 < 2 ^ 62"
  shows "(\<forall>m \<in> set (data_members N (members N s)). \<exists>off sz al.
      offsetOf N s (declName N m) = Some off \<and> typeLayout N (gtype (N m)) 1 = Some (sz, al) \<and>
      unat al dvd unat off \<and> unat off + unat sz \<le> unat sz0) \<and>
    sorted_wrt (\<lambda>m m'. unat (the (offsetOf N s (declName N m))) + size_of N m \<le> unat (the (offsetOf N s (declName N m'))))
      (data_members N (members N s)) \<and>
    unat al0 dvd unat sz0"
proof -
  have "typeLayout N (Some s) 0 = layout_at 33 N (Some s)" by (simp add: typeLayout_def)
  then obtain e where e: "layout_members N (layout_at 32 N) False (members N s) (0, 1) = Some (e, al0)"
      "sz0 = round_up e al0"
    using assms(2) layout_struct [OF assms(1), of 32]
    by (cases "layout_members N (layout_at 32 N) False (members N s) (0, 1)") auto
  have al: "alignment al0" using layout_alignment assms(2) by (simp add: typeLayout_def)
  have bound: "unat (0 :: int64) + sum_list (map (weight N) (members N s)) + 16 < 2 ^ 62" using assms(4) by simp
  note placed = members_placed [OF e(1) bound assms(3)]
  then have total: "unat e \<le> sum_list (map (weight N) (members N s))" by simp
  then have "unat sz0 = up (unat e) (unat al0)"
    unfolding e(2) using assms(4) total by (intro unat_round_up [OF al]) simp
  then have size: "unat e \<le> unat sz0" "unat al0 dvd unat sz0"
    using up_bounds [of "unat al0" "unat e"] alignment_unat [OF al] by simp_all
  have off: "offsetOf N s nm = offset_from N nm 0 (members N s)" for nm using assms(1) by (simp add: offsetOf_def)
  show ?thesis
    unfolding off using placed size by (simp add: placed_at_def member_layout_def) (meson order_trans)
qed

text \<open>\<open>struct { char c; int i; }\<close>: the nodes of the form and of its members' types.\<close>

definition char_int_nodes :: gstore where
  "char_int_nodes = (\<lambda>_. \<lparr>gid = 0, gatom = [], gkids = [], grefs = [], gtype = None, glist = False, gup = None\<rparr>)
     (3 := \<lparr>gid = 1, gatom = [], gkids = [4, 5, 6], grefs = [], gtype = None, glist = True, gup = None\<rparr>,
      4 := \<lparr>gid = 0, gatom = ''struct'', gkids = [], grefs = [], gtype = None, glist = False, gup = None\<rparr>,
      5 := \<lparr>gid = 2, gatom = [], gkids = [7, 8], grefs = [], gtype = Some 11, glist = True, gup = None\<rparr>,
      6 := \<lparr>gid = 3, gatom = [], gkids = [9, 10], grefs = [], gtype = Some 14, glist = True, gup = None\<rparr>,
      7 := \<lparr>gid = 0, gatom = ''c'', gkids = [], grefs = [], gtype = None, glist = False, gup = None\<rparr>,
      8 := \<lparr>gid = 0, gatom = ''char'', gkids = [], grefs = [], gtype = None, glist = False, gup = None\<rparr>,
      9 := \<lparr>gid = 0, gatom = ''i'', gkids = [], grefs = [], gtype = None, glist = False, gup = None\<rparr>,
      10 := \<lparr>gid = 0, gatom = ''int'', gkids = [], grefs = [], gtype = None, glist = False, gup = None\<rparr>,
      11 := \<lparr>gid = 4, gatom = [], gkids = [12, 13], grefs = [], gtype = None, glist = True, gup = None\<rparr>,
      12 := \<lparr>gid = 0, gatom = ''basic'', gkids = [], grefs = [], gtype = None, glist = False, gup = None\<rparr>,
      13 := \<lparr>gid = 0, gatom = ''char'', gkids = [], grefs = [], gtype = None, glist = False, gup = None\<rparr>,
      14 := \<lparr>gid = 5, gatom = [], gkids = [12, 15], grefs = [], gtype = None, glist = True, gup = None\<rparr>,
      15 := \<lparr>gid = 0, gatom = ''int'', gkids = [], grefs = [], gtype = None, glist = False, gup = None\<rparr>)"

theorem struct_layout_witness:
  "offsetOf char_int_nodes 3 ''c'' = Some 0 \<and> offsetOf char_int_nodes 3 ''i'' = Some 4 \<and>
    typeLayout char_int_nodes (Some 3) 0 = Some (8, 4) \<and> (\<exists>off. offsetOf char_int_nodes 3 ''i'' = Some off \<and> unat off + 4 \<le> 8)"
proof -
  have heads: "gIs char_int_nodes 3 ''struct''" by (simp add: gIs_def gHead_def char_int_nodes_def)
  have ms: "members char_int_nodes 3 = [5, 6]"
    by (simp add: members_def gbody_def gArgs_def drop_if_def gIs_def gHead_def char_int_nodes_def)
  have data: "data_members char_int_nodes [5, 6] = [5, 6]"
    by (simp add: data_members_def gIs_def gHead_def char_int_nodes_def)
  have names: "declName char_int_nodes 5 = ''c''" "declName char_int_nodes 6 = ''i''"
    by (simp_all add: declName_def gHead_def gdefNameAt_def char_int_nodes_def)
  have leaf: "layout_at (Suc f) char_int_nodes (Some 11) = Some (1, 1)"
    "layout_at (Suc f) char_int_nodes (Some 14) = Some (4, 4)" for f
    by (simp_all add: gIs_def gHead_def char_int_nodes_def basic_layout_def has_suffix_def contains_def has_prefix_def)
  have kids: "gtype (char_int_nodes 5) = Some 11" "gtype (char_int_nodes 6) = Some 14"
    "\<not> gIs char_int_nodes 5 ''static_assert''" "\<not> gIs char_int_nodes 6 ''static_assert''"
    "\<not> (\<exists>k \<in> set (gkids (char_int_nodes 5)). gIs char_int_nodes k ''bits'')"
    "\<not> (\<exists>k \<in> set (gkids (char_int_nodes 6)). gIs char_int_nodes k ''bits'')"
    by (simp_all add: gIs_def gHead_def char_int_nodes_def)
  have round: "round_up 0 1 = 0" "round_up 1 4 = 4" "round_up 8 4 = 8"
    by (simp_all add: round_up_def quot64_def)
  have types: "typeLayout char_int_nodes (Some 11) 1 = Some (1, 1)" "typeLayout char_int_nodes (Some 14) 1 = Some (4, 4)"
    using leaf [of 31] by (simp_all add: typeLayout_def)
  have offs: "offsetOf char_int_nodes 3 ''c'' = Some 0" "offsetOf char_int_nodes 3 ''i'' = Some 4"
    by (simp_all add: offsetOf_def heads ms kids names types round del: One_nat_def)
  have leaf32: "layout_at 32 char_int_nodes (Some 11) = Some (1, 1)" "layout_at 32 char_int_nodes (Some 14) = Some (4, 4)"
    using leaf [of 31] by (simp_all del: layout_at.simps)
  have "layout_at (Suc 32) char_int_nodes (Some 3) = Some (8, 4)"
    unfolding layout_struct [OF heads] ms by (simp add: kids leaf32 round max64_def del: layout_at.simps)
  then have whole: "typeLayout char_int_nodes (Some 3) 0 = Some (8, 4)" by (simp add: typeLayout_def)
  have "weight char_int_nodes 5 = 17" "weight char_int_nodes 6 = 20"
    by (simp_all add: weight_def member_layout_def kids types del: One_nat_def)
  then have "\<exists>off. offsetOf char_int_nodes 3 ''i'' = Some off \<and> unat off + 4 \<le> 8"
    using struct_layout [OF heads whole] by (auto simp: ms data names kids types [unfolded One_nat_def])
  with offs whole show ?thesis by simp
qed

end
