(* ===== verification/GraphEdit.thy ===== *)
theory GraphEdit
  imports Graph "HOL-Library.Monad_Syntax"
begin

text \<open>
  The editor of crefactor/graph/edit.go and the journal of crefactor/graph/journal.go.  An editor
  holds a graph with each node's container and each node's incoming edges; an operation is
  checked where it is made and answers an error or changes the graph.  A walk the code makes by
  recursion is given the fuel of one more than the nodes there are; \<open>None\<close> is running out of it.
\<close>

subsection \<open>Folds and walks\<close>

fun opt_fold :: "('a \<Rightarrow> 's \<Rightarrow> 's option) \<Rightarrow> 'a list \<Rightarrow> 's \<Rightarrow> 's option" where
  "opt_fold f [] s = Some s"
| "opt_fold f (x # xs) s = (case f x s of None \<Rightarrow> None | Some s1 \<Rightarrow> opt_fold f xs s1)"

fun first_error :: "('a \<Rightarrow> 'e option) \<Rightarrow> 'a list \<Rightarrow> 'e option" where
  "first_error f [] = None"
| "first_error f (x # xs) = (case f x of Some e \<Rightarrow> Some e | None \<Rightarrow> first_error f xs)"

definition walk_list :: "nat \<Rightarrow> gstore \<Rightarrow> nat list \<Rightarrow> nat list option" where
  "walk_list fuel N ns = map_option concat (those (map (walk_nodes fuel N) ns))"

definition gWalk :: "graph \<Rightarrow> nat list \<Rightarrow> nat list option" where
  "gWalk G ns = walk_list (gnext G + 1) (gnodes G) ns"

definition Sections :: "graph \<Rightarrow> nat list" where
  "Sections G = gforms G @ gtypes G @ gexterns G"

definition put :: "nat \<Rightarrow> (gnode \<Rightarrow> gnode) \<Rightarrow> graph \<Rightarrow> graph" where
  "put n f G = G\<lparr>gnodes := (gnodes G)(n := f (gnodes G n))\<rparr>"

text \<open>A node the caller makes: in no section and under no container.\<close>

definition NewNode :: "bytes \<Rightarrow> bool \<Rightarrow> nat list \<Rightarrow> nat list \<Rightarrow> nat option \<Rightarrow> graph \<Rightarrow> nat \<times> graph" where
  "NewNode a l ks rs t G =
     (gnext G, G\<lparr>gnodes := (gnodes G)(gnext G :=
        \<lparr>gid = 0, gatom = a, gkids = ks, grefs = rs, gtype = t, glist = l, gup = None\<rparr>), gnext := gnext G + 1\<rparr>)"

subsection \<open>The journal\<close>

definition state_of :: "gstore \<Rightarrow> nat \<Rightarrow> node_state" where
  "state_of N n = \<lparr>sn = n, satom = gatom (N n), skids = gkids (N n), srefs = grefs (N n), stype = gtype (N n), sid = gid (N n)\<rparr>"

definition put_back :: "node_state \<Rightarrow> gstore \<Rightarrow> gstore" where
  "put_back s N = N(sn s := (N (sn s))\<lparr>gatom := satom s, gkids := skids s, grefs := srefs s, gtype := stype s, gid := sid s\<rparr>)"

definition Begin :: "graph \<Rightarrow> nat \<times> graph" where
  "Begin G =
     (jnext G, G\<lparr>journals := (journals G)(jnext G :=
        \<lparr>jsaved = {}, jnodes = [], jforms = gforms G, jtypes = gtypes G, jexterns = gexterns G, jids = glast G, jdone = False\<rparr>),
      jnext := jnext G + 1, recording := Some (jnext G)\<rparr>)"

definition End :: "nat \<Rightarrow> graph \<Rightarrow> graph" where
  "End j G = (if recording G = Some j then G\<lparr>recording := None\<rparr> else G)"

definition Changed :: "nat \<Rightarrow> graph \<Rightarrow> nat" where
  "Changed j G =
     (let J = journals G j in
      length (jnodes J) + length (filter id [gforms G \<noteq> jforms J, gtypes G \<noteq> jtypes J, gexterns G \<noteq> jexterns J]))"

definition save :: "nat \<Rightarrow> graph \<Rightarrow> graph" where
  "save n G =
     (case recording G of
        None \<Rightarrow> G
      | Some j \<Rightarrow>
          (let J = journals G j in
           if n \<in> jsaved J then G
           else G\<lparr>journals := (journals G)(j :=
             J\<lparr>jsaved := insert n (jsaved J), jnodes := jnodes J @ [state_of (gnodes G) n]\<rparr>)\<rparr>))"

definition Undo :: "nat \<Rightarrow> graph \<Rightarrow> graph" where
  "Undo j G0 =
     (let G = End j G0; J = journals G j in
      if jdone J then G
      else G\<lparr>journals := (journals G)(j := J\<lparr>jdone := True\<rparr>),
        gnodes := fold put_back (rev (jnodes J)) (gnodes G),
        gforms := jforms J, gtypes := jtypes J, gexterns := jexterns J, glast := jids J\<rparr>)"

definition Saved :: "nat \<Rightarrow> graph \<Rightarrow> nat list" where
  "Saved j G = map sn (jnodes (journals G j))"

subsection \<open>Ids\<close>

text \<open>\<open>Number\<close>: an id for every list, and every atom an edge starts from, that has none.\<close>

definition number_one :: "nat \<Rightarrow> graph \<Rightarrow> graph" where
  "number_one n G =
     (let k = gnodes G n in if gid k = 0 \<and> (glist k \<or> grefs k \<noteq> []) then Fresh n G else G)"

definition Number :: "graph \<Rightarrow> graph option" where
  "Number G = map_option (\<lambda>xs. fold number_one xs G) (gWalk G (Sections G))"

subsection \<open>The editor\<close>

record act =
  actOp :: bytes
  actGone :: "id list"
  actMoved :: "id list"
  actNew :: "id list"

record editor =
  eg :: graph
  efirst :: "nat list"
  euse :: "nat list"
  eextra :: "nat \<Rightarrow> nat list"
  etypedBy :: "nat \<Rightarrow> nat list"
  eremoved :: "nat list"
  eemptied :: "nat list"
  ewasTop :: "nat set"
  eblockFnsOK :: bool
  etouched :: "nat list"
  eargLists :: bool
  epending :: "nat set"
  eLog :: "act list"
  eUntyped :: "nat list"
  eWritten :: "nat list"

abbreviation enodes :: "editor \<Rightarrow> gstore" where
  "enodes E \<equiv> gnodes (eg E)"

definition on_graph :: "(graph \<Rightarrow> graph) \<Rightarrow> editor \<Rightarrow> editor" where
  "on_graph f E = E\<lparr>eg := f (eg E)\<rparr>"

text \<open>The sentinel above a node: its section, when it is in one.\<close>

primrec top_of :: "nat \<Rightarrow> gstore \<Rightarrow> nat \<Rightarrow> nat option" where
  "top_of 0 N n = None"
| "top_of (Suc fuel) N n =
     (case gup (N n) of None \<Rightarrow> None | Some p \<Rightarrow> if isTop p then Some p else top_of fuel N p)"

definition section_of :: "graph \<Rightarrow> nat \<Rightarrow> nat option" where
  "section_of G n = top_of (gnext G + 1) (gnodes G) n"

definition inFile :: "graph \<Rightarrow> nat \<Rightarrow> bool" where
  "inFile G n \<longleftrightarrow> section_of G n = Some 0"

subsection \<open>Making an editor\<close>

definition set_ups :: "(nat \<times> nat) list \<Rightarrow> gstore \<Rightarrow> gstore" where
  "set_ups = fold (\<lambda>(k, x) N. N(k := (N k)\<lparr>gup := Some x\<rparr>))"

definition kid_ups :: "gstore \<Rightarrow> nat list \<Rightarrow> (nat \<times> nat) list" where
  "kid_ups N xs = concat (map (\<lambda>x. map (\<lambda>k. (k, x)) (gkids (N x))) xs)"

text \<open>\<open>w.up = p\<close>, and the container of every node under \<open>w\<close>.\<close>

definition place_under :: "nat \<Rightarrow> nat \<Rightarrow> graph \<Rightarrow> graph option" where
  "place_under p w G =
     map_option (\<lambda>xs. G\<lparr>gnodes := set_ups ((w, p) # kid_ups (gnodes G) xs) (gnodes G)\<rparr>) (gWalk G [w])"

definition sentinel :: "bytes \<Rightarrow> gnode" where
  "sentinel a = \<lparr>gid = 0, gatom = a, gkids = [], grefs = [], gtype = None, glist = False, gup = None\<rparr>"

text \<open>
  The sentinels are new nodes, so a node left under an earlier editor's is under none of this
  one's; the three places are taken again, and such a node is under nothing.
\<close>

definition unheld :: "gnode \<Rightarrow> gnode" where
  "unheld k = (case gup k of Some p \<Rightarrow> if isTop p then k\<lparr>gup := None\<rparr> else k | None \<Rightarrow> k)"

definition with_sentinels :: "graph \<Rightarrow> graph" where
  "with_sentinels G =
     G\<lparr>gnodes := (\<lambda>n. unheld (gnodes G n))(0 := sentinel ''(forms)'', 1 := sentinel ''(types)'', 2 := sentinel ''(externs)'')\<rparr>"

lemma unheld_simps [simp]:
  "gid (unheld k) = gid k" "gatom (unheld k) = gatom k" "gkids (unheld k) = gkids k" "grefs (unheld k) = grefs k"
  "gtype (unheld k) = gtype k" "glist (unheld k) = glist k"
  by (simp_all add: unheld_def split: option.splits)

definition contain_all :: "graph \<Rightarrow> graph option" where
  "contain_all G =
     opt_fold (\<lambda>(i, n). place_under i n)
       (map (Pair 0) (gforms G) @ map (Pair 1) (gtypes G) @ map (Pair 2) (gexterns G)) G"

definition max_id :: "gstore \<Rightarrow> nat list \<Rightarrow> id" where
  "max_id N xs = fold (\<lambda>x m. max m (gid (N x))) xs 0"

definition refers_edges :: "gstore \<Rightarrow> nat list \<Rightarrow> (nat \<times> nat) list" where
  "refers_edges N xs = concat (map (\<lambda>x. map (Pair x) (grefs (N x))) xs)"

definition by_id :: "gstore \<Rightarrow> id \<Rightarrow> nat \<Rightarrow> bool" where
  "by_id N m r \<longleftrightarrow> gid (N r) \<noteq> 0 \<and> gid (N r) \<le> m"

text \<open>
  An element of a slice one more; \<open>None\<close> past its end, where Go panics.  The counts and the places
  are numbers here and 32-bit integers in the code, which are the same below 2^31 edges.
\<close>

definition bump :: "nat \<Rightarrow> nat list \<Rightarrow> nat list option" where
  "bump i xs = (if i < length xs then Some (xs[i := xs ! i + 1]) else None)"

fun running :: "nat \<Rightarrow> nat list \<Rightarrow> nat list" where
  "running acc [] = []"
| "running acc (x # xs) = (acc + x) # running (acc + x) xs"

definition count_edge :: "gstore \<Rightarrow> id \<Rightarrow> nat \<times> nat \<Rightarrow> nat list \<Rightarrow> nat list option" where
  "count_edge N m = (\<lambda>(x, r) first. if by_id N m r then bump (unat (gid (N r) + 1)) first else Some first)"

type_synonym uses = "nat list \<times> nat list \<times> (nat \<Rightarrow> nat list)"

definition place_edge :: "gstore \<Rightarrow> id \<Rightarrow> nat \<times> nat \<Rightarrow> uses \<Rightarrow> uses option" where
  "place_edge N m = (\<lambda>(x, r) (use, next, extra).
     if by_id N m r then
       (let i = unat (gid (N r)) in
        if i < length next \<and> next ! i < length use then
          Some (use[next ! i := x], next[i := next ! i + 1], extra)
        else None)
     else Some (use, next, extra(r := extra r @ [x])))"

definition note_typed :: "graph \<Rightarrow> nat \<Rightarrow> (nat \<Rightarrow> nat list) \<Rightarrow> (nat \<Rightarrow> nat list)" where
  "note_typed G x by = (case gtype (gnodes G x) of
      None \<Rightarrow> by
    | Some t \<Rightarrow> if inFile G t then by(t := by t @ [x]) else by)"

definition NewEditor :: "graph \<Rightarrow> editor option" where
  "NewEditor G0 = do {
     G \<leftarrow> contain_all (with_sentinels G0);
     xs \<leftarrow> gWalk G (Sections G);
     let N = gnodes G;
     let m = max_id N xs;
     let es = refers_edges N xs;
     counts \<leftarrow> opt_fold (count_edge N m) es (replicate (unat (m + 2)) 0);
     let first = running 0 counts;
     let edges = length (filter (\<lambda>(x, r). by_id N m r) es);
     (use, next, extra) \<leftarrow> opt_fold (place_edge N m) es (replicate edges 0, first, (\<lambda>_. []));
     Some \<lparr>eg = G, efirst = first, euse = use, eextra = extra, etypedBy = fold (note_typed G) xs (\<lambda>_. []),
       eremoved = [], eemptied = [], ewasTop = {}, eblockFnsOK = False, etouched = [], eargLists = False,
       epending = {}, eLog = [], eUntyped = [], eWritten = []\<rparr> }"

subsection \<open>Asking an editor\<close>

definition usesOf :: "editor \<Rightarrow> nat \<Rightarrow> nat list" where
  "usesOf E t =
     (let i = unat (gid (enodes E t));
          out = (if i \<noteq> 0 \<and> i + 1 < length (efirst E)
                 then drop (efirst E ! i) (take (efirst E ! (i + 1)) (euse E)) else [])
      in out @ eextra E t)"

definition refersTo :: "gstore \<Rightarrow> nat \<Rightarrow> nat \<Rightarrow> bool" where
  "refersTo N u t \<longleftrightarrow> t \<in> set (grefs (N u))"

definition Uses :: "editor \<Rightarrow> nat \<Rightarrow> nat list" where
  "Uses E t = filter (\<lambda>u. gLive (eg E) u \<and> refersTo (enodes E) u t) (usesOf E t)"

definition kids_of :: "graph \<Rightarrow> nat \<Rightarrow> nat list" where
  "kids_of G p =
     (if p = 0 then gforms G else if p = 1 then gtypes G else if p = 2 then gexterns G else gkids (gnodes G p))"

definition set_kids :: "nat \<Rightarrow> nat list \<Rightarrow> graph \<Rightarrow> graph" where
  "set_kids p ks G =
     (if p = 0 then G\<lparr>gforms := ks\<rparr>
      else if p = 1 then G\<lparr>gtypes := ks\<rparr>
      else if p = 2 then G\<lparr>gexterns := ks\<rparr>
      else put p (\<lambda>k. k\<lparr>gkids := ks\<rparr>) (save p G))"

text \<open>The first place of \<open>n\<close> in a list.\<close>

definition position :: "nat \<Rightarrow> nat list \<Rightarrow> nat option" where
  "position n ks = (if n \<in> set ks then Some (length (takeWhile (\<lambda>k. k \<noteq> n) ks)) else None)"

definition index :: "graph \<Rightarrow> nat \<Rightarrow> (nat \<times> nat) option" where
  "index G n =
     (if \<not> gLive G n then None
      else (case gup (gnodes G n) of
          None \<Rightarrow> None
        | Some p \<Rightarrow> map_option (Pair p) (position n (kids_of G p))))"

definition Sibling :: "graph \<Rightarrow> nat \<Rightarrow> int \<Rightarrow> nat option" where
  "Sibling G n k =
     (case index G n of
        None \<Rightarrow> None
      | Some (p, i) \<Rightarrow>
          if int i + k < 0 \<or> int i + k \<ge> int (length (kids_of G p)) then None
          else Some (kids_of G p ! nat (int i + k)))"

text \<open>The top-level node above \<open>n\<close>, and its sentinel.\<close>

primrec top_node :: "nat \<Rightarrow> gstore \<Rightarrow> nat \<Rightarrow> (nat \<times> nat) option" where
  "top_node 0 N n = None"
| "top_node (Suc fuel) N n =
     (case gup (N n) of None \<Rightarrow> None | Some p \<Rightarrow> if isTop p then Some (n, p) else top_node fuel N p)"

definition Function :: "graph \<Rightarrow> nat \<Rightarrow> nat option" where
  "Function G n =
     (if \<not> gLive G n then None
      else (case top_node (gnext G + 1) (gnodes G) n of
          Some (f, p) \<Rightarrow> if p = 0 \<and> gIs (gnodes G) f ''defn'' then Some f else None
        | None \<Rightarrow> None))"

subsection \<open>Places\<close>

datatype place = placeFixed | placeItem | placeOptional | placeBody | placeMember | placeEnum | placeSection

definition isParamList :: "gstore \<Rightarrow> nat \<Rightarrow> bool" where
  "isParamList N p \<longleftrightarrow>
     (case gup (N p) of
        None \<Rightarrow> False
      | Some f \<Rightarrow> gIs N f ''fn'' \<and> length (gkids (N f)) > 1 \<and> gkids (N f) ! 1 = p)"

definition defnItemsAt :: "gstore \<Rightarrow> nat \<Rightarrow> nat" where
  "defnItemsAt N f =
     (let i = gdefNameAt N f + 2 in
      i + length (takeWhile (\<lambda>k. isAttrForm N k \<or> gIs N k ''kr-params'') (drop i (gkids (N f)))))"

text \<open>What the container \<open>p\<close> allows at its element \<open>i\<close>.\<close>

definition place_at :: "editor \<Rightarrow> nat \<Rightarrow> nat \<Rightarrow> place" where
  "place_at E p i =
     (let N = enodes E; ks = gkids (N p); h = gHead N p in
      if p = 0 then placeItem
      else if p = 1 \<or> p = 2 then placeSection
      else if gup (N p) = Some 1 \<or> gup (N p) = Some 2 then placeSection
      else if eargLists E \<and> (isParamList N p \<or> h = ''call'' \<and> i \<ge> 2) then placeItem
      else if h = ''block'' \<and> i = 1 \<and> gIs N (ks ! 1) ''@'' then placeFixed
      else if (h = ''block'' \<or> h = ''stmt-expr'') \<and> i \<ge> 1 then placeItem
      else if h = ''defn'' \<and> i \<ge> defnItemsAt N p then placeItem
      else if h = ''if'' \<and> i = 2 then placeBody
      else if h = ''if'' \<and> i = 3 then placeOptional
      else if (h = ''while'' \<or> h = ''switch'') \<and> i = 2 then placeBody
      else if h = ''do'' \<and> i = 1 then placeBody
      else if h = ''for'' \<and> i = 4 then placeBody
      else if (h = ''struct'' \<or> h = ''union'') \<and> ks ! i \<in> set (members N p) then placeMember
      else if h = ''enum'' \<and> ks ! i \<in> set (gbody N p) then placeEnum
      else if section_of (eg E) p = Some 1 \<or> section_of (eg E) p = Some 2 then placeSection
      else placeFixed)"

definition insertPlace :: "editor \<Rightarrow> nat \<Rightarrow> nat \<Rightarrow> place" where
  "insertPlace E p i =
     (let N = enodes E; ks = gkids (N p) in
      if p = 0 then placeItem
      else if p = 1 \<or> p = 2 then placeSection
      else if eargLists E \<and> (isParamList N p \<or> gIs N p ''call'' \<and> i \<ge> 2) then placeItem
      else if gIs N p ''block'' then
        (if i \<ge> 2 \<or> i = 1 \<and> (length ks < 2 \<or> \<not> gIs N (ks ! 1) ''@'') then placeItem else placeFixed)
      else if gIs N p ''stmt-expr'' then (if i \<ge> 1 then placeItem else placeFixed)
      else if gIs N p ''defn'' then (if i \<ge> defnItemsAt N p then placeItem else placeFixed)
      else placeFixed)"

text \<open>
  The nearest node at or above \<open>n\<close> that is an item.  The code asks for the place of a section's
  sentinel when it comes to it, and reads the elements of its container, \<open>nil\<close>: a panic.
\<close>

primrec item_from :: "nat \<Rightarrow> editor \<Rightarrow> nat \<Rightarrow> nat ans" where
  "item_from 0 E n = NoFuel"
| "item_from (Suc fuel) E n =
     (if isTop n then Panic
      else (case index (eg E) n of
          None \<Rightarrow> Unknown
        | Some (p, i) \<Rightarrow> if place_at E p i = placeItem then Ans n else item_from fuel E p))"

definition Item :: "editor \<Rightarrow> nat \<Rightarrow> nat ans" where
  "Item E n = item_from (gnext (eg E) + 2) E n"

definition stmtHeads :: "bytes list" where
  "stmtHeads = [''block'', ''if'', ''switch'', ''while'', ''do'', ''for'', ''return'', ''break'', ''continue'',
     ''goto'', ''goto*'', ''label'', ''case'', ''case-range'', ''default'', ''attributed'', ''stmt-attr'', ''empty'',
     ''def'', ''typedef'', ''defn'', ''verbatim'', ''static_assert'', ''declare'', ''macro-decl'']"

definition IsStatement :: "gstore \<Rightarrow> nat \<Rightarrow> bool" where
  "IsStatement N n \<longleftrightarrow> glist (N n) \<and> gHead N n \<in> set stmtHeads"

definition nextEnumerator :: "gstore \<Rightarrow> nat \<Rightarrow> nat \<Rightarrow> nat option" where
  "nextEnumerator N p i =
     (let ks = gkids (N p) in
      if i + 1 < length ks \<and> glist (N (ks ! (i + 1))) \<and> \<not> gIs N (ks ! (i + 1)) ''@'' then Some (ks ! (i + 1)) else None)"

definition blockItems :: "gstore \<Rightarrow> nat \<Rightarrow> nat list" where
  "blockItems N b = drop_if (\<lambda>k. gIs N k ''@'') (drop 1 (gkids (N b)))"

subsection \<open>Types kept or cleared\<close>

definition isDecimalInt :: "bytes \<Rightarrow> bool" where
  "isDecimalInt s \<longleftrightarrow>
     \<not> (s = [] \<or> length s > 10 \<or> hd s = CHR ''0'' \<and> length s > 1) \<and> (\<forall>c \<in> set s. is_digit c) \<and>
     (case parseInt s of Some v \<Rightarrow> sint v < 2 ^ 31 | None \<Rightarrow> False)"

definition sameType :: "gstore \<Rightarrow> nat \<Rightarrow> nat \<Rightarrow> bool" where
  "sameType N old new \<longleftrightarrow>
     (if gtype (N old) \<noteq> None \<and> gtype (N new) = gtype (N old) then True
      else if \<not> glist (N new) \<and> isDecimalInt (gatom (N new)) \<and>
          (case gtype (N old) of
             Some t \<Rightarrow> gIs N t ''basic'' \<and> length (gkids (N t)) = 2 \<and> gatom (N (gkids (N t) ! 1)) = ''int''
           | None \<Rightarrow> False) then True
      else if \<not> glist (N old) \<and> \<not> glist (N new) \<and> gtype (N old) = None \<and> gtype (N new) = None then
        (if isDecimalInt (gatom (N old)) \<and> isDecimalInt (gatom (N new)) then True
         else Ref N old \<noteq> None \<and> Ref N old = Ref N new)
      else False)"

definition untype :: "nat \<Rightarrow> editor \<Rightarrow> editor" where
  "untype n E = (if n \<in> set (eUntyped E) then E else E\<lparr>eUntyped := eUntyped E @ [n]\<rparr>)"

text \<open>The loop of \<open>retype\<close> over the expressions from \<open>q\<close> up.\<close>

primrec clear_types :: "nat \<Rightarrow> nat option \<Rightarrow> editor \<Rightarrow> editor option" where
  "clear_types 0 q E = None"
| "clear_types (Suc fuel) q E =
     (case q of
        None \<Rightarrow> Some E
      | Some n \<Rightarrow>
          if gtype (enodes E n) \<noteq> None \<and> \<not> IsStatement (enodes E) n \<and> gup (enodes E n) \<noteq> Some 0 then
            (let E1 = untype n (on_graph (put n (\<lambda>k. k\<lparr>gtype := None\<rparr>) \<circ> save n) E)
             in clear_types fuel (Parent (eg E1) n) E1)
          else Some E)"

definition retype :: "nat \<Rightarrow> nat \<Rightarrow> nat \<Rightarrow> editor \<Rightarrow> editor option" where
  "retype p old new E =
     (let N = enodes E;
          E1 = (if glist (N new) \<and> gtype (N new) = None \<and> \<not> IsStatement N new then untype new E else E)
      in if sameType N old new then Some E1 else clear_types (gnext (eg E) + 1) (Some p) E1)"

subsection \<open>Splicing, checked\<close>

datatype edit_error =
    NotInGraph nat
  | SectionsNotEdited
  | NoPlaceForItem nat
  | OneOrNone nat
  | OneEnumerator
  | ValueWouldMove nat
  | OneBlock nat
  | ExactlyOne nat
  | NotExpression nat
  | ContainedAgain nat
  | HeldElsewhere nat
  | Superseded nat
  | RefersOutside nat nat
  | TypedOutside nat nat
  | NoRefersEdge nat
  | TargetNotInGraph nat
  | OtherName nat

text \<open>The first switch of \<open>spliceAs\<close>: does the place allow it?\<close>

definition place_error :: "gstore \<Rightarrow> nat \<Rightarrow> nat list \<Rightarrow> nat \<Rightarrow> nat \<Rightarrow> nat list \<Rightarrow> place \<Rightarrow> edit_error option" where
  "place_error N p ks lo hi new pl =
     (if pl = placeSection then Some SectionsNotEdited
      else if lo = hi \<and> pl \<noteq> placeItem then Some (NoPlaceForItem p)
      else (case pl of
          placeItem \<Rightarrow> None
        | placeOptional \<Rightarrow> if length new > 1 then Some (OneOrNone p) else None
        | placeMember \<Rightarrow> if length new > 1 then Some (OneOrNone p) else None
        | placeEnum \<Rightarrow>
            if length new > 1 then Some OneEnumerator
            else if new = [] then
              (case nextEnumerator N p lo of
                 Some e \<Rightarrow> if length (gkids (N e)) < 2 then Some (ValueWouldMove e) else None
               | None \<Rightarrow> None)
            else None
        | placeBody \<Rightarrow> if length new \<noteq> 1 \<or> \<not> gIs N (hd new) ''block'' then Some (OneBlock p) else None
        | _ \<Rightarrow>
            if length new \<noteq> 1 then Some (ExactlyOne p)
            else if \<not> IsStatement N (ks ! lo) \<and> IsStatement N (hd new) then Some (NotExpression p)
            else None))"

text \<open>
  The walk of the nodes coming in: what was seen of them, those that are not in the graph yet,
  and the first error.
\<close>

record screen =
  seen :: "nat set"
  fresh :: "nat list"
  refused :: "edit_error option"

definition screen_step :: "graph \<Rightarrow> nat set \<Rightarrow> nat \<Rightarrow> screen \<Rightarrow> screen" where
  "screen_step G old x c =
     (let err = (if refused c \<noteq> None then refused c
                 else if x \<in> seen c then Some (ContainedAgain x)
                 else if gLive G x \<and> x \<notin> old then Some (HeldElsewhere x)
                 else if \<not> gLive G x \<and> gid (gnodes G x) \<noteq> 0 \<and> x \<notin> old then Some (Superseded x)
                 else None)
      in \<lparr>seen = insert x (seen c), fresh = (if gLive G x then fresh c else fresh c @ [x]), refused = err\<rparr>)"

primrec screen_node :: "nat \<Rightarrow> graph \<Rightarrow> nat set \<Rightarrow> nat \<Rightarrow> screen \<Rightarrow> screen option" where
  "screen_node 0 G old x c = None"
| "screen_node (Suc fuel) G old x c =
     (let c1 = screen_step G old x c in
      if refused c1 \<noteq> None then Some c1 else opt_fold (screen_node fuel G old) (gkids (gnodes G x)) c1)"

definition screen_all :: "graph \<Rightarrow> nat set \<Rightarrow> nat list \<Rightarrow> screen option" where
  "screen_all G old new =
     opt_fold (screen_node (gnext G + 1) G old) new \<lparr>seen = {}, fresh = [], refused = None\<rparr>"

definition not_held :: "editor \<Rightarrow> nat set \<Rightarrow> nat set \<Rightarrow> nat \<Rightarrow> bool" where
  "not_held E old came r \<longleftrightarrow> \<not> gLive (eg E) r \<and> r \<notin> came \<and> r \<notin> epending E \<or> r \<in> old \<and> r \<notin> came"

definition edge_error :: "editor \<Rightarrow> nat set \<Rightarrow> nat set \<Rightarrow> nat \<Rightarrow> edit_error option" where
  "edge_error E old came x =
     (case List.find (not_held E old came) (grefs (enodes E x)) of
        Some r \<Rightarrow> Some (RefersOutside x r)
      | None \<Rightarrow>
          (case gtype (enodes E x) of
             Some t \<Rightarrow> if not_held E old came t then Some (TypedOutside x t) else None
           | None \<Rightarrow> None))"

subsection \<open>Splicing, applied\<close>

text \<open>A node that goes; a candidate for dangling records when something refers to it.\<close>

definition take_out :: "nat \<Rightarrow> editor \<Rightarrow> editor" where
  "take_out x E0 =
     (let E = on_graph (put x (\<lambda>k. k\<lparr>gup := None\<rparr>)) E0 in
      if usesOf E x \<noteq> [] \<or> etypedBy E x \<noteq> [] then E\<lparr>eremoved := eremoved E @ [x]\<rparr> else E)"

definition place_new :: "nat \<Rightarrow> nat \<Rightarrow> editor \<Rightarrow> editor option" where
  "place_new p w E = do {
     G \<leftarrow> place_under p w (eg E);
     xs \<leftarrow> gWalk G [w];
     Some (E\<lparr>eg := G, eblockFnsOK := eblockFnsOK E \<and> \<not> (\<exists>x \<in> set xs. gIs (gnodes G) x ''def'')\<rparr>) }"

text \<open>A fresh node's id and its edges; the ids given are collected.\<close>

definition admit :: "nat \<Rightarrow> editor \<times> id list \<Rightarrow> editor \<times> id list" where
  "admit x = (\<lambda>(E, new).
     let k = enodes E x;
         (E1, new1) =
           (if gid k = 0 \<and> (glist k \<or> grefs k \<noteq> []) then
              (let E' = on_graph (Fresh x) E in (E', new @ [gid (enodes E' x)]))
            else if gid k \<noteq> 0 then (on_graph (SawId (gid k)) E, new)
            else (E, new));
         extra = fold (\<lambda>r ex. ex(r := ex r @ [x])) (grefs k) (eextra E1)
     in (E1\<lparr>eextra := extra, etypedBy := note_typed (eg E1) x (etypedBy E1)\<rparr>, new1))"

definition idsOf :: "gstore \<Rightarrow> nat list \<Rightarrow> id list" where
  "idsOf N xs = filter (\<lambda>i. i \<noteq> 0) (map (\<lambda>x. gid (N x)) xs)"

text \<open>What a splice logs, empties and touches.\<close>

definition record_splice ::
  "bytes \<Rightarrow> nat \<Rightarrow> nat list \<Rightarrow> id list \<Rightarrow> id list \<Rightarrow> id list \<Rightarrow> editor \<Rightarrow> editor" where
  "record_splice op p new gone moved given E =
     (let N = enodes E; at = (if p \<noteq> 0 then [p] else []) @ new in
      E\<lparr>eLog := eLog E @ [\<lparr>actOp = op, actGone = gone, actMoved = moved, actNew = given\<rparr>],
        eemptied := (if new = [] \<and> gIs N p ''block'' \<and> blockItems N p = [] then eemptied E @ [p] else eemptied E),
        eWritten := eWritten E @ at, etouched := etouched E @ at\<rparr>)"

text \<open>
  The nodes that go are taken in the order they are held in; the code ranges over a map, whose
  order Go leaves open.
\<close>

definition apply_splice ::
  "bytes \<Rightarrow> nat \<Rightarrow> nat \<Rightarrow> nat \<Rightarrow> nat list \<Rightarrow> nat list \<Rightarrow> screen \<Rightarrow> editor \<Rightarrow> editor option" where
  "apply_splice op p lo hi new old c E = do {
     let ks = kids_of (eg E) p;
     let gone = filter (\<lambda>x. x \<notin> seen c) old;
     let E1 = (if p = 0 then E\<lparr>ewasTop := ewasTop E \<union> set (take (hi - lo) (drop lo ks))\<rparr> else E);
     let E3 = on_graph (set_kids p (take lo ks @ new @ drop hi ks)) (fold take_out gone E1);
     E4 \<leftarrow> opt_fold (place_new p) new E3;
     let (E5, given) = fold admit (fresh c) (E4, []);
     let moved = idsOf (enodes E5) (filter (\<lambda>x. x \<in> seen c) old);
     let E6 = record_splice op p new (idsOf (enodes E) gone) moved given E5;
     if hi = lo + 1 \<and> length new = 1 \<and> place_at E6 p lo = placeFixed \<and> \<not> IsStatement (enodes E6) (ks ! lo)
     then retype p (ks ! lo) (hd new) E6
     else Some E6 }"

definition spliceAs ::
  "bytes \<Rightarrow> nat \<Rightarrow> nat \<Rightarrow> nat \<Rightarrow> nat list \<Rightarrow> place \<Rightarrow> editor \<Rightarrow> (edit_error option \<times> editor) option" where
  "spliceAs op p lo hi new pl E =
     (let ks = kids_of (eg E) p in
      case place_error (enodes E) p ks lo hi new pl of
        Some err \<Rightarrow> Some (Some err, E)
      | None \<Rightarrow> do {
          old \<leftarrow> gWalk (eg E) (take (hi - lo) (drop lo ks));
          c \<leftarrow> screen_all (eg E) (set old) new;
          (case refused c of
             Some err \<Rightarrow> Some (Some err, E)
           | None \<Rightarrow>
               (case first_error (edge_error E (set old) (seen c)) (fresh c) of
                  Some err \<Rightarrow> Some (Some err, E)
                | None \<Rightarrow> map_option (Pair None) (apply_splice op p lo hi new old c E))) })"

definition gsplice :: "bytes \<Rightarrow> nat \<Rightarrow> nat \<Rightarrow> nat \<Rightarrow> nat list \<Rightarrow> editor \<Rightarrow> (edit_error option \<times> editor) option" where
  "gsplice op p lo hi new E =
     spliceAs op p lo hi new (if lo = hi then insertPlace E p lo else place_at E p lo) E"

subsection \<open>The operations\<close>

definition gDelete :: "nat \<Rightarrow> editor \<Rightarrow> (edit_error option \<times> editor) option" where
  "gDelete n E =
     (case index (eg E) n of
        None \<Rightarrow> Some (Some (NotInGraph n), E)
      | Some (p, i) \<Rightarrow> gsplice ''delete'' p i (i + 1) [] E)"

definition gReplace :: "nat \<Rightarrow> nat list \<Rightarrow> editor \<Rightarrow> (edit_error option \<times> editor) option" where
  "gReplace old new E =
     (case index (eg E) old of
        None \<Rightarrow> Some (Some (NotInGraph old), E)
      | Some (p, i) \<Rightarrow> gsplice ''replace'' p i (i + 1) new E)"

definition gInsertBefore :: "nat \<Rightarrow> nat list \<Rightarrow> editor \<Rightarrow> (edit_error option \<times> editor) option" where
  "gInsertBefore at new E =
     (case index (eg E) at of
        None \<Rightarrow> Some (Some (NotInGraph at), E)
      | Some (p, i) \<Rightarrow> gsplice ''insert'' p i i new E)"

definition gInsertAfter :: "nat \<Rightarrow> nat list \<Rightarrow> editor \<Rightarrow> (edit_error option \<times> editor) option" where
  "gInsertAfter at new E =
     (case index (eg E) at of
        None \<Rightarrow> Some (Some (NotInGraph at), E)
      | Some (p, i) \<Rightarrow> gsplice ''insert'' p (i + 1) (i + 1) new E)"

definition Retarget :: "nat \<Rightarrow> int \<Rightarrow> nat \<Rightarrow> editor \<Rightarrow> edit_error option \<times> editor" where
  "Retarget use i to E =
     (let N = enodes E in
      if \<not> gLive (eg E) use then (Some (NotInGraph use), E)
      else if i < 0 \<or> i \<ge> int (length (grefs (N use))) then (Some (NoRefersEdge use), E)
      else if \<not> gLive (eg E) to then (Some (TargetNotInGraph to), E)
      else if \<not> glist (N use) \<and> declName N to \<noteq> [] \<and> declName N to \<noteq> gatom (N use) then (Some (OtherName to), E)
      else
        (None, (on_graph (put use (\<lambda>k. k\<lparr>grefs := (grefs k)[nat i := to]\<rparr>) \<circ> save use) E)
           \<lparr>eextra := (eextra E)(to := eextra E to @ [use]),
            eLog := eLog E @ [\<lparr>actOp = ''retarget'', actGone = [], actMoved = [gid (N use)], actNew = []\<rparr>]\<rparr>))"

subsection \<open>Dangling edges\<close>

record dangling =
  dUse :: nat
  dTarget :: nat
  dTyped :: bool

definition Dangling :: "editor \<Rightarrow> dangling list" where
  "Dangling E =
     concat (map (\<lambda>t. if gLive (eg E) t then []
       else map (\<lambda>u. \<lparr>dUse = u, dTarget = t, dTyped = False\<rparr>) (Uses E t) @
         map (\<lambda>u. \<lparr>dUse = u, dTarget = t, dTyped = True\<rparr>)
           (filter (\<lambda>u. gLive (eg E) u \<and> gtype (enodes E u) = Some t) (etypedBy E t)))
       (rev (remdups (rev (eremoved E)))))"

definition still_dangling :: "editor \<Rightarrow> dangling \<Rightarrow> bool" where
  "still_dangling E d \<longleftrightarrow>
     gLive (eg E) (dUse d) \<and> \<not> gLive (eg E) (dTarget d) \<and>
     (if dTyped d then gtype (enodes E (dUse d)) = Some (dTarget d) else refersTo (enodes E) (dUse d) (dTarget d))"

definition Settle :: "editor \<Rightarrow> editor" where
  "Settle E = E\<lparr>eremoved := [], eemptied := [], etouched := [], eLog := [], ewasTop := {}\<rparr>"

subsection \<open>The checks\<close>

datatype check_error =
    Misplaced nat
  | ContainedTwice nat
  | NotUnder nat nat
  | RefersLost nat nat
  | TypedLost nat nat

type_synonym check_state = "(nat \<rightharpoonup> nat) \<times> check_error option"

text \<open>A node's elements, each seen once and under it; then, below, theirs.\<close>

definition check_kids :: "gstore \<Rightarrow> nat \<Rightarrow> check_state \<Rightarrow> check_state" where
  "check_kids N x = fold (\<lambda>k (sn, err).
     let err1 = (if err = None \<and> sn k \<noteq> None then Some (ContainedTwice k) else err);
         err2 = (if err1 = None \<and> gup (N k) \<noteq> Some x then Some (NotUnder k x) else err1)
     in (sn(k \<mapsto> x), err2)) (gkids (N x))"

definition recorded :: "editor \<Rightarrow> nat \<Rightarrow> nat \<Rightarrow> bool" where
  "recorded E u t \<longleftrightarrow> (\<exists>d \<in> set (Dangling E). dUse d = u \<and> dTarget d = t)"

definition edges_check :: "editor \<Rightarrow> nat \<Rightarrow> check_error option" where
  "edges_check E x =
     (case List.find (\<lambda>r. \<not> gLive (eg E) r \<and> \<not> recorded E x r) (grefs (enodes E x)) of
        Some r \<Rightarrow> Some (RefersLost x r)
      | None \<Rightarrow>
          (case gtype (enodes E x) of
             Some t \<Rightarrow> if \<not> gLive (eg E) t \<and> \<not> recorded E x t then Some (TypedLost x t) else None
           | None \<Rightarrow> None))"

primrec check_node :: "nat \<Rightarrow> gstore \<Rightarrow> nat \<Rightarrow> check_state \<Rightarrow> check_state option" where
  "check_node 0 N x c = None"
| "check_node (Suc fuel) N x c =
     (let c1 = check_kids N x c in
      if snd c1 \<noteq> None then Some c1 else opt_fold (check_node fuel N) (gkids (N x)) c1)"

text \<open>The top-level nodes in turn: one that is misplaced ends the check at once.\<close>

fun check_tops :: "graph \<Rightarrow> (nat \<times> nat) list \<Rightarrow> check_state \<Rightarrow> check_error option option" where
  "check_tops G [] c = Some (snd c)"
| "check_tops G ((i, f) # ts) c =
     (if gup (gnodes G f) \<noteq> Some i then Some (Some (Misplaced f))
      else Option.bind (check_node (gnext G + 1) (gnodes G) f c) (check_tops G ts))"

definition Check :: "editor \<Rightarrow> check_error option option" where
  "Check E = do {
     let G = eg E;
     err \<leftarrow> check_tops G (map (Pair 0) (gforms G) @ map (Pair 1) (gtypes G) @ map (Pair 2) (gexterns G)) (Map.empty, None);
     (case err of
        Some e \<Rightarrow> Some (Some e)
      | None \<Rightarrow> map_option (first_error (edges_check E)) (gWalk G (Sections G))) }"

text \<open>\<open>CheckForms\<close>: a node's elements and its edges together, each form's error before the next form.\<close>

definition check_both :: "editor \<Rightarrow> nat \<Rightarrow> check_state \<Rightarrow> check_state" where
  "check_both E x c = (let (sn, err) = check_kids (enodes E) x c in (sn, if err = None then edges_check E x else err))"

primrec check_form :: "nat \<Rightarrow> editor \<Rightarrow> nat \<Rightarrow> check_state \<Rightarrow> check_state option" where
  "check_form 0 E x c = None"
| "check_form (Suc fuel) E x c =
     (let c1 = check_both E x c in
      if snd c1 \<noteq> None then Some c1 else opt_fold (check_form fuel E) (gkids (enodes E x)) c1)"

fun check_forms :: "editor \<Rightarrow> nat list \<Rightarrow> check_state \<Rightarrow> check_error option option" where
  "check_forms E [] c = Some None"
| "check_forms E (f # ts) c =
     (if (case gup (enodes E f) of Some i \<Rightarrow> \<not> isTop i | None \<Rightarrow> True) then Some (Some (Misplaced f))
      else Option.bind (check_form (gnext (eg E) + 1) E f c)
        (\<lambda>c1. if snd c1 \<noteq> None then Some (snd c1) else check_forms E ts c1))"

definition CheckForms :: "editor \<Rightarrow> nat list \<Rightarrow> check_error option option" where
  "CheckForms E forms = check_forms E forms (Map.empty, None)"

definition TopForms :: "graph \<Rightarrow> nat list \<Rightarrow> nat list" where
  "TopForms G ns =
     fold (\<lambda>n out.
       if \<not> gLive G n then out
       else (case top_node (gnext G + 1) (gnodes G) n of
           Some (f, _) \<Rightarrow> if f \<in> set out then out else out @ [f]
         | None \<Rightarrow> out)) ns []"

subsection \<open>Declarations by name\<close>

definition FileDecls :: "graph \<Rightarrow> bytes \<Rightarrow> nat list" where
  "FileDecls G name =
     (let N = gnodes G in
      filter (\<lambda>f. (gIs N f ''def'' \<or> gIs N f ''defn'') \<and> \<not> hasPrefix N f ''typedef'' \<and> declName N f = name) (gforms G))"

definition Defn :: "graph \<Rightarrow> bytes \<Rightarrow> nat option" where
  "Defn G name = List.find (\<lambda>f. gIs (gnodes G) f ''defn'' \<and> declName (gnodes G) f = name) (gforms G)"

text \<open>A slice from past the end panics.\<close>

definition gBody :: "gstore \<Rightarrow> nat \<Rightarrow> nat list option" where
  "gBody N f = (if defnItemsAt N f \<le> length (gkids (N f)) then Some (drop (defnItemsAt N f) (gkids (N f))) else None)"

definition label :: "gstore \<Rightarrow> nat \<Rightarrow> bytes" where
  "label N n =
     (if \<not> glist (N n) then ''`'' @ gatom (N n) @ ''`''
      else if declName N n \<noteq> [] \<and> (gIs N n ''def'' \<or> gIs N n ''defn'' \<or> gIs N n ''typedef'') then
        gHead N n @ '' '' @ declName N n
      else if gHead N n \<noteq> [] then gHead N n
      else ''list'')"

end
