(* ===== verification/GraphForest.thy ===== *)
theory GraphForest
  imports GraphEdit "HOL-Library.Multiset"
begin

text \<open>
  What a graph's containment is when it is sound: every section's nodes are a forest, each node
  once, under the container it is in.  The walks, \<open>Live\<close> and the sections' sentinels follow.
\<close>

subsection \<open>Forests\<close>

text \<open>\<open>forest N ns xs\<close>: walking \<open>ns\<close> ends, and meets \<open>xs\<close> in order.\<close>

inductive forest :: "gstore \<Rightarrow> nat list \<Rightarrow> nat list \<Rightarrow> bool" for N where
  forest_Nil: "forest N [] []"
| forest_Cons: "forest N (gkids (N n)) ys \<Longrightarrow> forest N ns zs \<Longrightarrow> forest N (n # ns) (n # ys @ zs)"

inductive_cases forest_NilE [elim!]: "forest N [] xs"
inductive_cases forest_ConsE [elim!]: "forest N (n # ns) xs"

declare forest_Nil [simp, intro]

lemma forest_det: "forest N ns xs \<Longrightarrow> forest N ns ys \<Longrightarrow> ys = xs"
  by (induction arbitrary: ys rule: forest.induct) blast+

lemma forest_append:
  "forest N (ms @ ns) xs \<longleftrightarrow> (\<exists>ys zs. xs = ys @ zs \<and> forest N ms ys \<and> forest N ns zs)"
proof (induction ms arbitrary: xs)
  case (Cons m ms)
  show ?case
  proof
    assume "forest N ((m # ms) @ ns) xs"
    then obtain ys zs where 1: "xs = m # ys @ zs" "forest N (gkids (N m)) ys" "forest N (ms @ ns) zs" by auto
    then obtain as bs where 2: "zs = as @ bs" "forest N ms as" "forest N ns bs" using Cons.IH by blast
    have "forest N (m # ms) (m # ys @ as)" using 1(2) 2(2) by (rule forest_Cons)
    with 1 2 show "\<exists>ys zs. xs = ys @ zs \<and> forest N (m # ms) ys \<and> forest N ns zs"
      by (intro exI [of _ "m # ys @ as"] exI [of _ bs]) simp
  next
    assume "\<exists>ys zs. xs = ys @ zs \<and> forest N (m # ms) ys \<and> forest N ns zs"
    then obtain ys as bs where 1: "xs = m # ys @ (as @ bs)" "forest N (gkids (N m)) ys" "forest N ms as" "forest N ns bs"
      by auto
    then have "forest N (ms @ ns) (as @ bs)" using Cons.IH by blast
    with 1(2) have "forest N (m # (ms @ ns)) (m # ys @ (as @ bs))" by (rule forest_Cons)
    with 1(1) show "forest N ((m # ms) @ ns) xs" by simp
  qed
qed auto

lemma forest_join: "forest N ms ys \<Longrightarrow> forest N ns zs \<Longrightarrow> forest N (ms @ ns) (ys @ zs)"
  by (rule iffD2 [OF forest_append]) blast

lemma forest_cong:
  "forest N ns xs \<Longrightarrow> (\<And>x. x \<in> set xs \<Longrightarrow> gkids (N' x) = gkids (N x)) \<Longrightarrow> forest N' ns xs"
proof (induction rule: forest.induct)
  case (forest_Cons n ys ns zs)
  have "forest N' (gkids (N' n)) ys" using forest_Cons by simp
  moreover have "forest N' ns zs" using forest_Cons by simp
  ultimately show ?case by (rule forest.forest_Cons)
qed simp

lemma forest_tops: "forest N ns xs \<Longrightarrow> set ns \<subseteq> set xs"
  by (induction rule: forest.induct) auto

lemma forest_kids: "forest N ns xs \<Longrightarrow> x \<in> set xs \<Longrightarrow> set (gkids (N x)) \<subseteq> set xs"
  by (induction rule: forest.induct) (use forest_tops in auto)

lemma forest_mset: "forest N ns xs \<Longrightarrow> mset xs = mset ns + mset (concat (map (\<lambda>x. gkids (N x)) xs))"
  by (induction rule: forest.induct) simp_all

lemma forest_distinct:
  assumes "forest N ns xs" "distinct xs"
  shows "distinct ns" "distinct (concat (map (\<lambda>x. gkids (N x)) xs))"
    and "set ns \<inter> set (concat (map (\<lambda>x. gkids (N x)) xs)) = {}"
proof -
  let ?ks = "concat (map (\<lambda>x. gkids (N x)) xs)"
  have "mset (ns @ ?ks) = mset xs" using forest_mset [OF assms(1)] by simp
  then have "distinct (ns @ ?ks)" using assms(2) by (metis mset_eq_imp_distinct_iff)
  then show "distinct ns" "distinct ?ks" "set ns \<inter> set ?ks = {}" by auto
qed

lemma forest_set: "forest N ns xs \<Longrightarrow> set xs = set ns \<union> (\<Union>x \<in> set xs. set (gkids (N x)))"
proof -
  assume "forest N ns xs"
  from arg_cong [OF forest_mset [OF this], of set_mset] show ?thesis by simp
qed

text \<open>Below one node another forest can be put, the rest as it was.\<close>

lemma forest_context:
  "forest N ns xs \<Longrightarrow> p \<in> set xs \<Longrightarrow>
     \<exists>as ys bs. xs = as @ p # ys @ bs \<and> forest N (gkids (N p)) ys \<and>
       (\<forall>N' ys'. (\<forall>x \<in> set as \<union> set bs. gkids (N' x) = gkids (N x)) \<longrightarrow> forest N' (gkids (N' p)) ys' \<longrightarrow>
          forest N' ns (as @ p # ys' @ bs))"
proof (induction rule: forest.induct)
  case (forest_Cons n ys ns zs)
  consider "p = n" | "p \<noteq> n" "p \<in> set ys" | "p \<noteq> n" "p \<in> set zs" using forest_Cons.prems by auto
  then show ?case
  proof cases
    case 1
    have "forest N' (n # ns) ([] @ n # ys' @ zs)"
      if "\<forall>x \<in> set [] \<union> set zs. gkids (N' x) = gkids (N x)" "forest N' (gkids (N' n)) ys'" for N' ys'
      using forest.forest_Cons [OF that(2) forest_cong [OF forest_Cons.hyps(2), of N']] that(1) by simp
    with 1 forest_Cons.hyps(1) show ?thesis by (intro exI [of _ "[]"] exI [of _ ys] exI [of _ zs]) simp
  next
    case 2
    then obtain as cs bs where ih: "ys = as @ p # cs @ bs" "forest N (gkids (N p)) cs"
      "\<forall>N' ys'. (\<forall>x \<in> set as \<union> set bs. gkids (N' x) = gkids (N x)) \<longrightarrow> forest N' (gkids (N' p)) ys' \<longrightarrow>
         forest N' (gkids (N n)) (as @ p # ys' @ bs)"
      using forest_Cons.IH(1) by blast
    have "forest N' (n # ns) ((n # as) @ p # ys' @ bs @ zs)"
      if k: "\<forall>x \<in> set (n # as) \<union> set (bs @ zs). gkids (N' x) = gkids (N x)" "forest N' (gkids (N' p)) ys'" for N' ys'
    proof -
      have "\<forall>x \<in> set as \<union> set bs. gkids (N' x) = gkids (N x)" "gkids (N' n) = gkids (N n)" using k(1) by auto
      with ih(3) k(2) have "forest N' (gkids (N' n)) (as @ p # ys' @ bs)" by metis
      from forest.forest_Cons [OF this forest_cong [OF forest_Cons.hyps(2), of N']] k show ?thesis by simp
    qed
    with ih show ?thesis by (intro exI [of _ "n # as"] exI [of _ cs] exI [of _ "bs @ zs"]) simp
  next
    case 3
    then obtain as cs bs where ih: "zs = as @ p # cs @ bs" "forest N (gkids (N p)) cs"
      "\<forall>N' ys'. (\<forall>x \<in> set as \<union> set bs. gkids (N' x) = gkids (N x)) \<longrightarrow> forest N' (gkids (N' p)) ys' \<longrightarrow>
         forest N' ns (as @ p # ys' @ bs)"
      using forest_Cons.IH(2) by blast
    have "forest N' (n # ns) ((n # ys @ as) @ p # ys' @ bs)"
      if k: "\<forall>x \<in> set (n # ys @ as) \<union> set bs. gkids (N' x) = gkids (N x)" "forest N' (gkids (N' p)) ys'" for N' ys'
    proof -
      have "forest N' (gkids (N' n)) ys" using forest_cong [OF forest_Cons.hyps(1), of N'] k(1) by simp
      from forest.forest_Cons [OF this, of ns "as @ p # ys' @ bs"] ih(3) k show ?thesis by simp
    qed
    with ih show ?thesis by (intro exI [of _ "n # ys @ as"] exI [of _ cs] exI [of _ bs]) simp
  qed
qed simp

subsection \<open>Walks\<close>

lemma walk_list_Nil [simp]: "walk_list fuel N [] = Some []"
  by (simp add: walk_list_def)

lemma walk_list_Cons:
  "walk_list fuel N (n # ns) =
     (case walk_nodes fuel N n of None \<Rightarrow> None | Some ys \<Rightarrow> map_option (append ys) (walk_list fuel N ns))"
  by (auto simp: walk_list_def option.map_comp o_def split: option.splits)

lemma walk_nodes_step: "walk_nodes (Suc fuel) N n = map_option (Cons n) (walk_list fuel N (gkids (N n)))"
  by (simp add: walk_list_def option.map_comp o_def)

lemma walk_forest: "forest N ns xs \<Longrightarrow> length xs \<le> fuel \<Longrightarrow> walk_list fuel N ns = Some xs"
proof (induction arbitrary: fuel rule: forest.induct)
  case (forest_Cons n ys ns zs)
  then obtain f where "fuel = Suc f" by (cases fuel) auto
  with forest_Cons show ?case by (simp add: walk_list_Cons walk_nodes_step del: walk_nodes.simps)
qed simp

lemma walked_forest: "walk_list fuel N ns = Some xs \<Longrightarrow> forest N ns xs"
proof (induction fuel arbitrary: ns xs)
  case 0
  then show ?case by (cases ns) (auto simp: walk_list_Cons)
next
  case (Suc fuel)
  from Suc.prems show ?case
  proof (induction ns arbitrary: xs)
    case (Cons n ns)
    then obtain ys zs where "walk_list fuel N (gkids (N n)) = Some ys" "walk_list (Suc fuel) N ns = Some zs"
        "xs = n # ys @ zs"
      by (auto simp: walk_list_Cons walk_nodes_step simp del: walk_nodes.simps split: option.splits)
    with Suc.IH Cons.IH show ?case by (simp add: forest_Cons)
  qed simp
qed

subsection \<open>Sound containment\<close>

definition kids_under :: "gstore \<Rightarrow> nat list \<Rightarrow> bool" where
  "kids_under N xs \<longleftrightarrow> (\<forall>x \<in> set xs. \<forall>k \<in> set (gkids (N x)). gup (N k) = Some x)"

definition tops_under :: "graph \<Rightarrow> bool" where
  "tops_under G \<longleftrightarrow>
     (\<forall>n \<in> set (gforms G). gup (gnodes G n) = Some 0) \<and> (\<forall>n \<in> set (gtypes G). gup (gnodes G n) = Some 1) \<and>
     (\<forall>n \<in> set (gexterns G). gup (gnodes G n) = Some 2)"

definition outside :: "gstore \<Rightarrow> nat list \<Rightarrow> bool" where
  "outside N xs \<longleftrightarrow>
     (\<forall>n. n \<notin> set xs \<longrightarrow> \<not> isTop n \<longrightarrow> gup (N n) = None)"

definition held :: "graph \<Rightarrow> nat list \<Rightarrow> bool" where
  "held G xs \<longleftrightarrow>
     forest (gnodes G) (Sections G) xs \<and> distinct xs \<and> set xs \<subseteq> {3..<gnext G} \<and>
     kids_under (gnodes G) xs \<and> tops_under G \<and> outside (gnodes G) xs"

lemma held_length: "held G xs \<Longrightarrow> 3 \<le> gnext G \<Longrightarrow> length xs + 3 \<le> gnext G"
proof -
  assume h: "held G xs" and "3 \<le> gnext G"
  have "length xs = card (set xs)" using h by (simp add: held_def distinct_card)
  also have "\<dots> \<le> card {3..<gnext G}" using h by (intro card_mono) (simp_all add: held_def)
  finally show ?thesis using \<open>3 \<le> gnext G\<close> by simp
qed

lemma held_not_top: "held G xs \<Longrightarrow> x \<in> set xs \<Longrightarrow> \<not> isTop x"
  by (auto simp: held_def isTop_def)

lemma held_Walk: "held G xs \<Longrightarrow> 3 \<le> gnext G \<Longrightarrow> gWalk G (Sections G) = Some xs"
  unfolding gWalk_def by (rule walk_forest) (use held_length in \<open>fastforce simp: held_def\<close>)+

text \<open>The containers above a node end at its section's sentinel.\<close>

lemma live_up_mono: "live_up f N n \<Longrightarrow> f \<le> f' \<Longrightarrow> live_up f' N n"
proof (induction f N n arbitrary: f' rule: live_up.induct)
  case (3 fuel N x)
  then obtain g where "f' = Suc g" by (cases f') auto
  with 3 show ?case by auto
qed simp_all

lemma live_forest:
  "forest N ns xs \<Longrightarrow> kids_under N xs \<Longrightarrow> (\<And>n. n \<in> set ns \<Longrightarrow> live_up f N (Some n)) \<Longrightarrow> x \<in> set xs \<Longrightarrow>
     live_up (f + length xs) N (Some x)"
proof (induction arbitrary: f rule: forest.induct)
  case (forest_Cons n ys ns zs)
  have n: "live_up f N (Some n)" using forest_Cons.prems(2) by simp
  have ks: "live_up (Suc f) N (Some k)" if "k \<in> set (gkids (N n))" for k
    using that n forest_Cons.prems(1) by (simp add: kids_under_def)
  have "x = n \<or> live_up (Suc f + length ys) N (Some x) \<or> live_up (f + length zs) N (Some x)"
    using forest_Cons.prems forest_Cons.IH(1) [OF _ ks] forest_Cons.IH(2) [of f] by (auto simp: kids_under_def)
  moreover have "f \<le> f + length (n # ys @ zs)" "Suc f + length ys \<le> f + length (n # ys @ zs)"
      "f + length zs \<le> f + length (n # ys @ zs)" by simp_all
  ultimately show ?case using n live_up_mono by meson
qed simp

lemma top_of_mono: "top_of f N n = Some i \<Longrightarrow> f \<le> f' \<Longrightarrow> top_of f' N n = Some i"
proof (induction f arbitrary: n f')
  case (Suc f)
  then obtain g where "f' = Suc g" by (cases f') auto
  with Suc show ?case by (auto split: option.splits if_splits)
qed simp

lemma top_of_forest:
  "forest N ns xs \<Longrightarrow> kids_under N xs \<Longrightarrow> (\<And>n. n \<in> set xs \<Longrightarrow> \<not> isTop n) \<Longrightarrow>
     (\<And>n. n \<in> set ns \<Longrightarrow> top_of f N n = Some i) \<Longrightarrow> x \<in> set xs \<Longrightarrow> top_of (f + length xs) N x = Some i"
proof (induction arbitrary: f rule: forest.induct)
  case (forest_Cons n ys ns zs)
  have n: "top_of f N n = Some i" using forest_Cons.prems(3) by simp
  have ks: "top_of (Suc f) N k = Some i" if "k \<in> set (gkids (N n))" for k
    using that n forest_Cons.prems(1,2) by (simp add: kids_under_def)
  have "x = n \<or> top_of (Suc f + length ys) N x = Some i \<or> top_of (f + length zs) N x = Some i"
    using forest_Cons.prems forest_Cons.IH(1) [OF _ _ ks] forest_Cons.IH(2) [of f] by (auto simp: kids_under_def)
  moreover have "f \<le> f + length (n # ys @ zs)" "Suc f + length ys \<le> f + length (n # ys @ zs)"
      "f + length zs \<le> f + length (n # ys @ zs)" by simp_all
  ultimately show ?case using n top_of_mono by meson
qed simp

lemma outside_not_live: "outside N xs \<Longrightarrow> n \<notin> set xs \<Longrightarrow> \<not> isTop n \<Longrightarrow> \<not> live_up f N (Some n)"
  by (cases f) (simp_all add: outside_def)

lemma outside_no_top: "outside N xs \<Longrightarrow> n \<notin> set xs \<Longrightarrow> \<not> isTop n \<Longrightarrow> top_of f N n = None"
  by (cases f) (simp_all add: outside_def)

lemma held_live: "held G xs \<Longrightarrow> 3 \<le> gnext G \<Longrightarrow> gLive G n \<longleftrightarrow> isTop n \<or> n \<in> set xs"
proof -
  assume h: "held G xs" and g: "3 \<le> gnext G"
  have "live_up 2 (gnodes G) (Some k)" if "k \<in> set (Sections G)" for k
    using that h by (auto simp: held_def tops_under_def Sections_def isTop_def numeral_2_eq_2)
  then have "live_up (2 + length xs) (gnodes G) (Some n)" if "n \<in> set xs"
    using h that by (intro live_forest [of _ "Sections G" xs]) (auto simp: held_def)
  then have "gLive G n" if "n \<in> set xs"
    using that held_length [OF h g] by (auto simp: gLive_def intro: live_up_mono)
  moreover have "\<not> gLive G n" if "\<not> isTop n" "n \<notin> set xs"
    using h outside_not_live [of "gnodes G" xs n "gnext G + 1", OF _ that(2,1)] by (simp add: gLive_def held_def)
  moreover have "gLive G n" if "isTop n" using that by (simp add: gLive_def)
  ultimately show ?thesis by blast
qed

text \<open>The three sections' own nodes.\<close>

lemma held_sections:
  assumes "held G xs"
  obtains fs ts es where "xs = fs @ ts @ es" "forest (gnodes G) (gforms G) fs" "forest (gnodes G) (gtypes G) ts"
    "forest (gnodes G) (gexterns G) es"
  using assms that by (auto simp: held_def Sections_def forest_append)

definition fixed_part :: "graph \<Rightarrow> nat list \<Rightarrow> bool" where
  "fixed_part G ts \<longleftrightarrow> forest (gnodes G) (gtypes G @ gexterns G) ts"

lemma section_top:
  assumes "held G xs" "3 \<le> gnext G" "forest (gnodes G) ns ys" "set ys \<subseteq> set xs" "distinct ys"
    and "\<And>n. n \<in> set ns \<Longrightarrow> gup (gnodes G n) = Some i" "isTop i" "x \<in> set ys"
  shows "section_of G x = Some i"
proof -
  have "length ys \<le> length xs" using assms(1,4,5) by (metis card_mono distinct_card held_def List.finite_set)
  then have le: "1 + length ys \<le> gnext G + 1" using held_length [OF assms(1,2)] by simp
  have "top_of (1 + length ys) (gnodes G) x = Some i"
  proof (rule top_of_forest [OF assms(3) _ _ _ assms(8)])
    show "kids_under (gnodes G) ys" using assms(1,4) by (auto simp: held_def kids_under_def)
    show "\<not> isTop n" if "n \<in> set ys" for n using that assms(4) held_not_top [OF assms(1)] by blast
    show "top_of 1 (gnodes G) n = Some i" if "n \<in> set ns" for n using assms(6) [OF that] assms(7) by simp
  qed
  then show ?thesis unfolding section_of_def using le by (rule top_of_mono)
qed

end
