(* ===== verification/GraphSplice.thy ===== *)
theory GraphSplice
  imports GraphForest
begin

text \<open>
  What a splice does to a graph's containment: the nodes coming in are screened, those that go
  lose their container, those that come in get theirs, and the graph's nodes are again a forest.
\<close>

subsection \<open>Screening\<close>

lemma opt_fold_append: "opt_fold f (xs @ ys) s = Option.bind (opt_fold f xs s) (opt_fold f ys)"
  by (induction xs arbitrary: s) (auto split: option.splits)

lemma screen_refused: "screen_node f G old x c = Some c' \<Longrightarrow> refused c \<noteq> None \<Longrightarrow> refused c' \<noteq> None"
  by (cases f) (auto simp: screen_step_def split: if_splits)

lemma screen_fold_refused:
  "opt_fold (screen_node f G old) ns c = Some c' \<Longrightarrow> refused c \<noteq> None \<Longrightarrow> refused c' \<noteq> None"
  by (induction ns arbitrary: c) (auto split: option.splits dest: screen_refused)

definition admissible :: "graph \<Rightarrow> nat set \<Rightarrow> nat \<Rightarrow> bool" where
  "admissible G old x \<longleftrightarrow> x \<in> old \<or> \<not> gLive G x \<and> gid (gnodes G x) = 0"

definition screened :: "graph \<Rightarrow> nat set \<Rightarrow> nat list \<Rightarrow> screen \<Rightarrow> screen \<Rightarrow> nat list \<Rightarrow> bool" where
  "screened G old ns c c' W \<longleftrightarrow>
     forest (gnodes G) ns W \<and> distinct W \<and> set W \<inter> seen c = {} \<and> seen c' = seen c \<union> set W \<and>
     fresh c' = fresh c @ filter (\<lambda>x. \<not> gLive G x) W \<and> (\<forall>x \<in> set W. admissible G old x)"

lemma screened_Nil: "screened G old [] c c []"
  by (simp add: screened_def)

lemma screened_Cons:
  assumes "x \<notin> seen c" "admissible G old x"
    and "screened G old (gkids (gnodes G x)) \<lparr>seen = insert x (seen c), fresh = (if gLive G x then fresh c else fresh c @ [x]), refused = e\<rparr> c1 ys"
    and "screened G old ns c1 c' zs"
  shows "screened G old (x # ns) c c' (x # ys @ zs)"
  using assms by (auto simp: screened_def forest_Cons)

lemma screen_step_ok:
  assumes "refused (screen_step G old x c) = None"
  shows "refused c = None" "x \<notin> seen c" "admissible G old x"
    "screen_step G old x c = \<lparr>seen = insert x (seen c), fresh = (if gLive G x then fresh c else fresh c @ [x]), refused = None\<rparr>"
  using assms by (auto simp: screen_step_def admissible_def split: if_splits)

lemma screen_fold_ok:
  "opt_fold (screen_node f G old) ns c = Some c' \<Longrightarrow> refused c' = None \<Longrightarrow> \<exists>W. screened G old ns c c' W"
proof (induction f arbitrary: ns c c')
  case 0
  then show ?case by (cases ns) (auto simp: screened_def)
next
  case (Suc f)
  from Suc.prems show ?case
  proof (induction ns arbitrary: c)
    case Nil
    then have "c' = c" by simp
    then show ?case using screened_Nil by blast
  next
    case (Cons x ns)
    let ?s = "screen_step G old x c"
    obtain c1 where c1: "screen_node (Suc f) G old x c = Some c1" "opt_fold (screen_node (Suc f) G old) ns c1 = Some c'"
      using Cons.prems(1) by (auto split: option.splits simp del: screen_node.simps)
    have none: "refused c1 = None" using screen_fold_refused [OF c1(2)] Cons.prems(2) by blast
    have s: "refused ?s = None" "opt_fold (screen_node f G old) (gkids (gnodes G x)) ?s = Some c1"
      using c1(1) none by (auto simp: Let_def split: if_splits)
    note step = screen_step_ok [OF s(1)]
    obtain ys where ys: "screened G old (gkids (gnodes G x)) ?s c1 ys" using Suc.IH [OF s(2) none] by blast
    obtain zs where zs: "screened G old ns c1 c' zs" using Cons.IH [OF c1(2) Cons.prems(2)] by blast
    have "screened G old (x # ns) c c' (x # ys @ zs)"
      by (rule screened_Cons [OF step(2,3) ys [unfolded step(4)] zs])
    then show ?case by blast
  qed
qed

text \<open>The screening ends: a node is descended into once.\<close>

definition bounded_kids :: "graph \<Rightarrow> bool" where
  "bounded_kids G \<longleftrightarrow> (\<forall>n. 3 \<le> n \<longrightarrow> n < gnext G \<longrightarrow> set (gkids (gnodes G n)) \<subseteq> {3..<gnext G})"

lemma screen_fold_ends:
  "bounded_kids G \<Longrightarrow> set ns \<subseteq> {3..<gnext G} \<Longrightarrow> card ({3..<gnext G} - seen c) < f \<Longrightarrow>
     \<exists>c'. opt_fold (screen_node f G old) ns c = Some c' \<and> seen c \<subseteq> seen c'"
proof (induction f arbitrary: ns c)
  case (Suc f)
  from Suc.prems(2,3) show ?case
  proof (induction ns arbitrary: c)
    case (Cons x ns)
    let ?s = "screen_step G old x c"
    have grow: "seen c \<subseteq> seen ?s" by (auto simp: screen_step_def)
    have "\<exists>c1. screen_node (Suc f) G old x c = Some c1 \<and> seen c \<subseteq> seen c1"
    proof (cases "refused ?s")
      case None
      note step = screen_step_ok [OF None]
      have x: "3 \<le> x" "x < gnext G" using Cons.prems(1) by auto
      have "seen ?s = insert x (seen c)" by (subst step(4)) simp
      then have "{3..<gnext G} - seen ?s = ({3..<gnext G} - seen c) - {x}" by blast
      moreover have "card (({3..<gnext G} - seen c) - {x}) < card ({3..<gnext G} - seen c)"
        using x step(2) by (intro card_Diff1_less) simp_all
      ultimately have "card ({3..<gnext G} - seen ?s) < card ({3..<gnext G} - seen c)" by (simp only:)
      then have "card ({3..<gnext G} - seen ?s) < f" using Cons.prems(2) by simp
      moreover have "set (gkids (gnodes G x)) \<subseteq> {3..<gnext G}" using Suc.prems(1) x by (simp add: bounded_kids_def)
      ultimately obtain c1 where "opt_fold (screen_node f G old) (gkids (gnodes G x)) ?s = Some c1" "seen ?s \<subseteq> seen c1"
        using Suc.IH [OF Suc.prems(1)] by blast
      with None grow show ?thesis by auto
    next
      case (Some e)
      with grow show ?thesis by (auto simp: Let_def)
    qed
    then obtain c1 where c1: "screen_node (Suc f) G old x c = Some c1" "seen c \<subseteq> seen c1" by blast
    then have "card ({3..<gnext G} - seen c1) \<le> card ({3..<gnext G} - seen c)" by (intro card_mono) auto
    then have "card ({3..<gnext G} - seen c1) < Suc f" using Cons.prems(2) by linarith
    moreover have "set ns \<subseteq> {3..<gnext G}" using Cons.prems(1) by simp
    ultimately obtain c' where "opt_fold (screen_node (Suc f) G old) ns c1 = Some c'" "seen c1 \<subseteq> seen c'"
      using Cons.IH [of c1] by blast
    with c1 show ?case by (auto simp del: screen_node.simps)
  qed simp
qed simp

lemma screen_all_ends:
  assumes "bounded_kids G" "set new \<subseteq> {3..<gnext G}"
  shows "\<exists>c. screen_all G old new = Some c"
proof -
  let ?c = "\<lparr>seen = {}, fresh = [], refused = None\<rparr>"
  have "card ({3..<gnext G} - seen ?c) < gnext G + 1" by simp
  from screen_fold_ends [OF assms this] show ?thesis unfolding screen_all_def by blast
qed

lemma screen_all_ok:
  "screen_all G old new = Some c \<Longrightarrow> refused c = None \<Longrightarrow>
     \<exists>W. forest (gnodes G) new W \<and> distinct W \<and> seen c = set W \<and> fresh c = filter (\<lambda>x. \<not> gLive G x) W \<and>
       (\<forall>x \<in> set W. admissible G old x)"
  unfolding screen_all_def by (drule (1) screen_fold_ok) (auto simp: screened_def)

lemma forest_bounded:
  "forest (gnodes G) ns W \<Longrightarrow> bounded_kids G \<Longrightarrow> set ns \<subseteq> {3..<gnext G} \<Longrightarrow> set W \<subseteq> {3..<gnext G}"
proof (induction rule: forest.induct)
  case (forest_Cons n ys ns zs)
  have "set (gkids (gnodes G n)) \<subseteq> {3..<gnext G}" using forest_Cons.prems by (auto simp: bounded_kids_def)
  with forest_Cons show ?case by auto
qed simp

lemma distinct_bound: "distinct W \<Longrightarrow> set W \<subseteq> {3..<gnext G} \<Longrightarrow> length W \<le> gnext G"
proof -
  assume "distinct W" "set W \<subseteq> {3..<gnext G}"
  then have "length W \<le> card {3..<gnext G}" by (metis card_mono distinct_card finite_atLeastLessThan)
  then show ?thesis by simp
qed

subsection \<open>Containers\<close>

definition same_but_up :: "gstore \<Rightarrow> gstore \<Rightarrow> bool" where
  "same_but_up N N' \<longleftrightarrow> (\<forall>n. (N' n)\<lparr>gup := None\<rparr> = (N n)\<lparr>gup := None\<rparr>)"

lemma same_but_up_refl [simp]: "same_but_up N N"
  by (simp add: same_but_up_def)

lemma same_but_up_trans: "same_but_up N M \<Longrightarrow> same_but_up M L \<Longrightarrow> same_but_up N L"
  by (simp add: same_but_up_def)

lemma same_but_upD:
  assumes "same_but_up N N'"
  shows "gkids (N' n) = gkids (N n)" "grefs (N' n) = grefs (N n)" "gtype (N' n) = gtype (N n)" "gid (N' n) = gid (N n)"
    "glist (N' n) = glist (N n)" "gatom (N' n) = gatom (N n)"
proof -
  have e: "(N' n)\<lparr>gup := None\<rparr> = (N n)\<lparr>gup := None\<rparr>" using assms by (simp add: same_but_up_def)
  show "gkids (N' n) = gkids (N n)" using arg_cong [OF e, of gkids] by simp
  show "grefs (N' n) = grefs (N n)" using arg_cong [OF e, of grefs] by simp
  show "gtype (N' n) = gtype (N n)" using arg_cong [OF e, of gtype] by simp
  show "gid (N' n) = gid (N n)" using arg_cong [OF e, of gid] by simp
  show "glist (N' n) = glist (N n)" using arg_cong [OF e, of glist] by simp
  show "gatom (N' n) = gatom (N n)" using arg_cong [OF e, of gatom] by simp
qed

lemma set_ups_simps [simp]:
  "set_ups [] N = N" "set_ups ((k, x) # ps) N = set_ups ps (N(k := (N k)\<lparr>gup := Some x\<rparr>))"
  by (simp_all add: set_ups_def)

lemma set_ups_same: "same_but_up N (set_ups ps N)"
proof (induction ps arbitrary: N)
  case (Cons p ps)
  obtain k x where p: "p = (k, x)" by force
  have step: "same_but_up N (N(k := (N k)\<lparr>gup := Some x\<rparr>))" by (simp add: same_but_up_def)
  show ?case unfolding p set_ups_simps by (rule same_but_up_trans [OF step Cons])
qed simp

lemma set_ups_else: "k \<notin> fst ` set ps \<Longrightarrow> set_ups ps N k = N k"
  by (induction ps arbitrary: N) auto

lemma set_ups_in: "distinct (map fst ps) \<Longrightarrow> (k, x) \<in> set ps \<Longrightarrow> gup (set_ups ps N k) = Some x"
proof (induction ps arbitrary: N)
  case (Cons p ps)
  obtain l y where p: "p = (l, y)" by force
  show ?case
  proof (cases "k = l")
    case True
    with Cons.prems p have "k \<notin> fst ` set ps" "y = x" by (auto simp: image_iff)
    with True show ?thesis by (simp add: p set_ups_else)
  next
    case False
    with Cons p show ?thesis by simp
  qed
qed simp

lemma kid_ups_fst: "map fst (kid_ups N xs) = concat (map (\<lambda>x. gkids (N x)) xs)"
  by (simp add: kid_ups_def map_concat o_def)

lemma kid_ups_in: "(k, x) \<in> set (kid_ups N xs) \<longleftrightarrow> x \<in> set xs \<and> k \<in> set (gkids (N x))"
  by (auto simp: kid_ups_def)

text \<open>Putting one tree under \<open>p\<close>.\<close>

definition placed :: "gstore \<Rightarrow> nat \<Rightarrow> nat list \<Rightarrow> nat list \<Rightarrow> gstore \<Rightarrow> bool" where
  "placed N p ws W N' \<longleftrightarrow>
     same_but_up N N' \<and> (\<forall>w \<in> set ws. gup (N' w) = Some p) \<and>
     (\<forall>x \<in> set W. \<forall>k \<in> set (gkids (N x)). gup (N' k) = Some x) \<and> (\<forall>n. n \<notin> set W \<longrightarrow> N' n = N n)"

lemma placed_one:
  assumes "forest N [w] W" "distinct W"
  shows "placed N p [w] W (set_ups ((w, p) # kid_ups N W) N)"
proof -
  let ?ps = "(w, p) # kid_ups N W"
  have keys: "mset (map fst ?ps) = mset W" using forest_mset [OF assms(1)] by (simp add: kid_ups_fst)
  have dist: "distinct (map fst ?ps)" using assms(2) mset_eq_imp_distinct_iff [OF keys] by blast
  have dom: "fst ` set ?ps = set W" using arg_cong [OF keys, of set_mset] by simp
  show ?thesis unfolding placed_def
  proof (intro conjI ballI allI impI)
    show "same_but_up N (set_ups ?ps N)" by (rule set_ups_same)
    show "gup (set_ups ?ps N v) = Some p" if "v \<in> set [w]" for v using set_ups_in [OF dist, of w p] that by simp
    show "gup (set_ups ?ps N k) = Some x" if "x \<in> set W" "k \<in> set (gkids (N x))" for x k
      by (rule set_ups_in [OF dist]) (simp add: kid_ups_in that)
    show "set_ups ?ps N n = N n" if "n \<notin> set W" for n using set_ups_else that dom by metis
  qed
qed

lemma place_new_run:
  assumes "forest (enodes E) [w] W" "distinct W" "set W \<subseteq> {3..<gnext (eg E)}"
  shows "\<exists>N' b. place_new p w E = Some (E\<lparr>eg := (eg E)\<lparr>gnodes := N'\<rparr>, eblockFnsOK := b\<rparr>) \<and> placed (enodes E) p [w] W N'"
proof -
  let ?N = "set_ups ((w, p) # kid_ups (enodes E) W) (enodes E)"
  have len: "length W \<le> gnext (eg E) + 1" using distinct_bound [OF assms(2,3)] by simp
  have pl: "placed (enodes E) p [w] W ?N" by (rule placed_one [OF assms(1,2)])
  then have "forest ?N [w] W" using assms(1) same_but_upD(1) by (intro forest_cong [OF assms(1)]) (auto simp: placed_def)
  then have "gWalk ((eg E)\<lparr>gnodes := ?N\<rparr>) [w] = Some W" unfolding gWalk_def using len by (intro walk_forest) simp_all
  moreover have "gWalk (eg E) [w] = Some W" unfolding gWalk_def by (rule walk_forest [OF assms(1) len])
  ultimately show ?thesis using pl by (auto simp: place_new_def place_under_def)
qed

lemma placed_append:
  assumes "placed N p ws W N1" "placed N1 p vs V N2" "set W \<inter> set V = {}" "set ws \<subseteq> set W"
    "\<forall>x \<in> set W. set (gkids (N x)) \<subseteq> set W"
  shows "placed N p (ws @ vs) (W @ V) N2"
proof -
  have same: "same_but_up N N2" using assms(1,2) same_but_up_trans by (auto simp: placed_def)
  have keep: "N2 n = N1 n" if "n \<in> set W" for n using assms(2,3) that by (auto simp: placed_def)
  have kids: "gkids (N1 x) = gkids (N x)" for x using assms(1) same_but_upD(1) by (auto simp: placed_def)
  show ?thesis unfolding placed_def
  proof (intro conjI ballI allI impI)
    show "gup (N2 w) = Some p" if "w \<in> set (ws @ vs)" for w
      using that assms(1,2,4) keep by (auto simp: placed_def)
    show "gup (N2 k) = Some x" if "x \<in> set (W @ V)" "k \<in> set (gkids (N x))" for x k
      using that assms(1,2,5) keep kids by (auto simp: placed_def subset_iff)
    show "N2 n = N n" if "n \<notin> set (W @ V)" for n using that assms(1,2) by (auto simp: placed_def)
  qed (rule same)
qed

lemma place_all_run:
  "forest (enodes E) ws W \<Longrightarrow> distinct W \<Longrightarrow> set W \<subseteq> {3..<gnext (eg E)} \<Longrightarrow>
     \<exists>N' b. opt_fold (place_new p) ws E = Some (E\<lparr>eg := (eg E)\<lparr>gnodes := N'\<rparr>, eblockFnsOK := b\<rparr>) \<and>
       placed (enodes E) p ws W N'"
proof (induction ws arbitrary: E W)
  case Nil
  then have "W = []" by auto
  then show ?case by (intro exI [of _ "enodes E"] exI [of _ "eblockFnsOK E"]) (simp add: placed_def)
next
  case (Cons w ws)
  obtain ys zs where W: "W = (w # ys) @ zs" "forest (enodes E) (gkids (enodes E w)) ys" "forest (enodes E) ws zs"
    using Cons.prems(1) by auto
  have one: "forest (enodes E) [w] (w # ys)" using forest_Cons [OF W(2) forest_Nil] by simp
  obtain N1 b1 where 1: "place_new p w E = Some (E\<lparr>eg := (eg E)\<lparr>gnodes := N1\<rparr>, eblockFnsOK := b1\<rparr>)"
      "placed (enodes E) p [w] (w # ys) N1"
    using place_new_run [OF one] Cons.prems(2,3) W(1) by fastforce
  let ?E1 = "E\<lparr>eg := (eg E)\<lparr>gnodes := N1\<rparr>, eblockFnsOK := b1\<rparr>"
  have "forest (enodes ?E1) ws zs" using W(3) 1(2) same_but_upD(1) by (intro forest_cong [OF W(3)]) (auto simp: placed_def)
  then obtain N' b where 2: "opt_fold (place_new p) ws ?E1 = Some (?E1\<lparr>eg := (eg ?E1)\<lparr>gnodes := N'\<rparr>, eblockFnsOK := b\<rparr>)"
      "placed N1 p ws zs N'"
    using Cons.IH [of ?E1 zs] Cons.prems(2,3) W(1) by auto
  have "placed (enodes E) p ([w] @ ws) ((w # ys) @ zs) N'"
  proof (rule placed_append [OF 1(2) 2(2)])
    show "set (w # ys) \<inter> set zs = {}" using Cons.prems(2) W(1) by auto
    show "\<forall>x \<in> set (w # ys). set (gkids (enodes E x)) \<subseteq> set (w # ys)" using forest_kids [OF one] by blast
  qed simp
  with 1(1) 2(1) W(1) show ?case by auto
qed

end
