(* ===== verification/GraphHold.thy ===== *)
theory GraphHold
  imports GraphSplice
begin

text \<open>
  A splice keeps a graph's containment sound: the nodes held after it are those held before,
  less the ones replaced, with the ones put in.
\<close>

subsection \<open>What goes, and the elements changed\<close>

definition taken :: "nat list \<Rightarrow> gstore \<Rightarrow> gstore" where
  "taken xs N = (\<lambda>n. if n \<in> set xs then (N n)\<lparr>gup := None\<rparr> else N n)"

lemma taken_simps [simp]: "taken [] N = N"
  by (simp add: taken_def)

lemma taken_same: "same_but_up N (taken xs N)"
  by (simp add: taken_def same_but_up_def)

definition uses_or_types :: "editor \<Rightarrow> nat \<Rightarrow> bool" where
  "uses_or_types E x \<longleftrightarrow> usesOf E x \<noteq> [] \<or> etypedBy E x \<noteq> []"

lemma usesOf_cong:
  "gid (enodes E' t) = gid (enodes E t) \<Longrightarrow> efirst E' = efirst E \<Longrightarrow> euse E' = euse E \<Longrightarrow> eextra E' = eextra E \<Longrightarrow>
     usesOf E' t = usesOf E t"
  by (simp add: usesOf_def Let_def)

lemma take_out_eq:
  "take_out x E = E\<lparr>eg := (eg E)\<lparr>gnodes := taken [x] (enodes E)\<rparr>,
     eremoved := eremoved E @ filter (uses_or_types E) [x]\<rparr>"
proof -
  let ?E = "on_graph (put x (\<lambda>k. k\<lparr>gup := None\<rparr>)) E"
  have "?E = E\<lparr>eg := (eg E)\<lparr>gnodes := taken [x] (enodes E)\<rparr>\<rparr>"
    by (auto simp: on_graph_def put_def taken_def fun_eq_iff intro!: editor.equality graph.equality)
  moreover have "usesOf ?E x = usesOf E x" by (rule usesOf_cong) (simp_all add: on_graph_def put_def)
  ultimately show ?thesis
    by (auto simp: take_out_def Let_def uses_or_types_def on_graph_def intro!: editor.equality)
qed

lemma take_outs:
  "fold take_out xs E = E\<lparr>eg := (eg E)\<lparr>gnodes := taken xs (enodes E)\<rparr>,
     eremoved := eremoved E @ filter (uses_or_types E) xs\<rparr>"
proof (induction xs arbitrary: E)
  case Nil
  show ?case by simp
next
  case (Cons x xs)
  let ?E = "take_out x E"
  have u: "uses_or_types ?E = uses_or_types E"
  proof
    fix y
    have "usesOf ?E y = usesOf E y" by (rule usesOf_cong) (simp_all add: take_out_eq taken_def)
    then show "uses_or_types ?E y = uses_or_types E y" by (simp add: uses_or_types_def take_out_eq)
  qed
  have t: "taken xs (taken [x] N) = taken (x # xs) N" for N by (auto simp: taken_def)
  show ?case by (simp add: Cons u t) (simp add: take_out_eq t)
qed

lemma save_simps [simp]:
  "gnodes (save n G) = gnodes G" "gnext (save n G) = gnext G" "gforms (save n G) = gforms G"
  "gtypes (save n G) = gtypes G" "gexterns (save n G) = gexterns G" "glast (save n G) = glast G"
  by (simp_all add: save_def Let_def split: option.splits)

definition with_kids :: "nat \<Rightarrow> nat list \<Rightarrow> gstore \<Rightarrow> gstore" where
  "with_kids p ks N = (if isTop p then N else N(p := (N p)\<lparr>gkids := ks\<rparr>))"

lemma set_kids_simps [simp]:
  "gnodes (set_kids p ks G) = with_kids p ks (gnodes G)" "gnext (set_kids p ks G) = gnext G"
  "gforms (set_kids p ks G) = (if p = 0 then ks else gforms G)"
  "gtypes (set_kids p ks G) = (if p = 1 then ks else gtypes G)"
  "gexterns (set_kids p ks G) = (if p = 2 then ks else gexterns G)" "glast (set_kids p ks G) = glast G"
proof -
  have "p = 0 \<or> p = 1 \<or> p = 2" if "p < 3" using that by linarith
  then show "gnodes (set_kids p ks G) = with_kids p ks (gnodes G)"
    by (auto simp: set_kids_def with_kids_def isTop_def put_def)
qed (simp_all add: set_kids_def put_def)

subsection \<open>A splice on the nodes\<close>

text \<open>
  The store after a splice of \<open>new\<close>, whose nodes are \<open>W\<close>, for elements of \<open>p\<close> whose nodes are
  \<open>old\<close>: \<open>ks'\<close> are the elements \<open>p\<close> then has.
\<close>

definition spliced_nodes :: "gstore \<Rightarrow> nat \<Rightarrow> nat list \<Rightarrow> nat list \<Rightarrow> nat list \<Rightarrow> nat list \<Rightarrow> gstore \<Rightarrow> bool" where
  "spliced_nodes N p ks' new old W N' \<longleftrightarrow>
     placed (with_kids p ks' (taken (filter (\<lambda>x. x \<notin> set W) old) N)) p new W N'"

lemma spliced_kids:
  assumes "spliced_nodes N p ks' new old W N'"
  shows "gkids (N' n) = (if n = p \<and> \<not> isTop p then ks' else gkids (N n))"
proof -
  let ?M = "with_kids p ks' (taken (filter (\<lambda>x. x \<notin> set W) old) N)"
  have "same_but_up ?M N'" using assms by (simp add: spliced_nodes_def placed_def)
  then have "gkids (N' n) = gkids (?M n)" by (rule same_but_upD)
  then show ?thesis by (simp add: with_kids_def taken_def)
qed

lemma spliced_fields:
  assumes "spliced_nodes N p ks' new old W N'"
  shows "grefs (N' n) = grefs (N n)" "gtype (N' n) = gtype (N n)" "gid (N' n) = gid (N n)"
    "glist (N' n) = glist (N n)" "gatom (N' n) = gatom (N n)"
proof -
  let ?M = "with_kids p ks' (taken (filter (\<lambda>x. x \<notin> set W) old) N)"
  have "same_but_up ?M N'" using assms by (simp add: spliced_nodes_def placed_def)
  note this [THEN same_but_upD(2)] this [THEN same_but_upD(3)] this [THEN same_but_upD(4)]
    this [THEN same_but_upD(5)] this [THEN same_but_upD(6)]
  then show "grefs (N' n) = grefs (N n)" "gtype (N' n) = gtype (N n)" "gid (N' n) = gid (N n)"
    "glist (N' n) = glist (N n)" "gatom (N' n) = gatom (N n)"
    by (simp_all add: with_kids_def taken_def)
qed

lemma spliced_ups:
  assumes "spliced_nodes N p ks' new old W N'"
  shows "w \<in> set new \<Longrightarrow> gup (N' w) = Some p"
    and "x \<in> set W \<Longrightarrow> x \<noteq> p \<Longrightarrow> k \<in> set (gkids (N x)) \<Longrightarrow> gup (N' k) = Some x"
    and "n \<notin> set W \<Longrightarrow> n \<notin> set old \<Longrightarrow> gup (N' n) = gup (N n)"
    and "n \<notin> set W \<Longrightarrow> n \<in> set old \<Longrightarrow> gup (N' n) = None"
  using assms by (auto simp: spliced_nodes_def placed_def with_kids_def taken_def)

text \<open>A node that is replaced is under \<open>p\<close>, or under another that is.\<close>

lemma replaced_up:
  assumes "kids_under N xs" "set old \<subseteq> set xs" "forest N ms old" "\<And>m. m \<in> set ms \<Longrightarrow> gup (N m) = Some p" "k \<in> set old"
  shows "gup (N k) = Some p \<or> (\<exists>y \<in> set old. gup (N k) = Some y)"
proof -
  have "k \<in> set ms \<or> (\<exists>y \<in> set old. k \<in> set (gkids (N y)))" using forest_set [OF assms(3)] assms(5) by blast
  with assms(1,2,4) show ?thesis by (auto simp: kids_under_def subset_iff)
qed

text \<open>The nodes of the graph after a splice: a forest again.\<close>

lemma spliced_forest_of:
  assumes "forest N (ka @ ko @ kb) ys" "forest N ko old" "forest N new W" "p \<notin> set ys" "p \<notin> set W"
    and "spliced_nodes N p ks' new old W N'"
  obtains ya yb where "ys = ya @ old @ yb" "forest N' (ka @ new @ kb) (ya @ W @ yb)"
    "set ka \<subseteq> set ya" "set kb \<subseteq> set yb"
proof -
  obtain ya yo yb where y: "ys = ya @ yo @ yb" "forest N ka ya" "forest N ko yo" "forest N kb yb"
    using assms(1) by (auto simp: forest_append)
  have "yo = old" using forest_det [OF assms(2) y(3)] .
  have keep: "forest N' ms zs" if "forest N ms zs" "p \<notin> set zs" for ms zs
    using that(2) spliced_kids [OF assms(6)] by (intro forest_cong [OF that(1)]) auto
  have "forest N' (ka @ new @ kb) (ya @ W @ yb)"
    using keep [OF y(2)] keep [OF assms(3)] keep [OF y(4)] assms(4,5) y(1) by (auto simp: forest_append)
  with that y \<open>yo = old\<close> forest_tops show thesis by metis
qed

definition spliced_graph :: "graph \<Rightarrow> nat \<Rightarrow> nat list \<Rightarrow> nat list \<Rightarrow> nat list \<Rightarrow> nat list \<Rightarrow> graph \<Rightarrow> bool" where
  "spliced_graph G p ks' new old W G' \<longleftrightarrow>
     spliced_nodes (gnodes G) p ks' new old W (gnodes G') \<and> gnext G' = gnext G \<and>
     gforms G' = (if p = 0 then ks' else gforms G) \<and> gtypes G' = gtypes G \<and> gexterns G' = gexterns G"

text \<open>Where a splice is made: at \<open>p\<close>, for the elements \<open>ko\<close>, with nodes the graph does not hold elsewhere.\<close>

definition splice_site ::
  "graph \<Rightarrow> nat list \<Rightarrow> nat \<Rightarrow> nat list \<Rightarrow> nat list \<Rightarrow> nat list \<Rightarrow> nat list \<Rightarrow> nat list \<Rightarrow> nat list \<Rightarrow> bool" where
  "splice_site G xs p ka ko kb new old W \<longleftrightarrow>
     held G xs \<and> (p = 0 \<or> p \<in> set xs) \<and> kids_of G p = ka @ ko @ kb \<and> forest (gnodes G) ko old \<and>
     forest (gnodes G) new W \<and> distinct W \<and> set W \<subseteq> {3..<gnext G} \<and> set W \<inter> set xs \<subseteq> set old"

lemma kids_of_node: "\<not> isTop p \<Longrightarrow> kids_of G p = gkids (gnodes G p)"
  by (simp add: kids_of_def isTop_def)

lemma spliced_order:
  assumes "splice_site G xs p ka ko kb new old W" "spliced_graph G p (ka @ new @ kb) new old W G'"
  obtains as ya yb bs where "xs = as @ ya @ old @ yb @ bs" "p = 0 \<or> p \<in> set as"
    "forest (gnodes G') (Sections G') (as @ ya @ W @ yb @ bs)" "set ka \<subseteq> set ya" "set kb \<subseteq> set yb"
proof (cases "p = 0")
  case True
  let ?N = "gnodes G" and ?rest = "gtypes G @ gexterns G"
  note site = assms(1) [unfolded splice_site_def]
  have h: "forest ?N (Sections G) xs" "p \<notin> set xs" using site True by (auto simp: held_def isTop_def)
  obtain ys rs where x: "xs = ys @ rs" "forest ?N (gforms G) ys" "forest ?N ?rest rs"
    using h(1) by (auto simp: Sections_def forest_append)
  have k: "gforms G = ka @ ko @ kb" using site True by (simp add: kids_of_def)
  have s: "spliced_nodes ?N p (ka @ new @ kb) new old W (gnodes G')" using assms(2) by (simp add: spliced_graph_def)
  have "p \<notin> set W" using site True by auto
  moreover have "forest ?N ko old" "forest ?N new W" using site by simp_all
  moreover have "p \<notin> set ys" using h(2) x(1) by simp
  ultimately obtain ya yb where y: "ys = ya @ old @ yb" "forest (gnodes G') (ka @ new @ kb) (ya @ W @ yb)"
      "set ka \<subseteq> set ya" "set kb \<subseteq> set yb"
    using spliced_forest_of [OF x(2) [unfolded k] _ _ _ _ s] by blast
  have "forest (gnodes G') ?rest rs" using spliced_kids [OF s] True by (intro forest_cong [OF x(3)]) (simp add: isTop_def)
  with y(2) have "forest (gnodes G') ((ka @ new @ kb) @ ?rest) ((ya @ W @ yb) @ rs)"
    by (rule forest_join)
  moreover have "Sections G' = (ka @ new @ kb) @ ?rest"
    using assms(2) True by (simp add: spliced_graph_def Sections_def)
  ultimately show thesis using that [of "[]" ya yb rs] True x(1) y by simp
next
  case False
  let ?N = "gnodes G"
  note site = assms(1) [unfolded splice_site_def]
  have p: "p \<in> set xs" using site False by simp
  have h: "held G xs" using site by simp
  have top: "\<not> isTop p" by (rule held_not_top [OF h p])
  have s: "spliced_nodes ?N p (ka @ new @ kb) new old W (gnodes G')" using assms(2) by (simp add: spliced_graph_def)
  have "forest ?N (Sections G) xs" using h by (simp add: held_def)
  from forest_context [OF this p] obtain as ys bs where x: "xs = as @ p # ys @ bs" "forest ?N (gkids (?N p)) ys"
      "\<forall>N' ys'. (\<forall>x \<in> set as \<union> set bs. gkids (N' x) = gkids (?N x)) \<longrightarrow> forest N' (gkids (N' p)) ys' \<longrightarrow>
         forest N' (Sections G) (as @ p # ys' @ bs)"
    by blast
  have k: "gkids (?N p) = ka @ ko @ kb" using site top by (simp add: kids_of_node)
  have d: "p \<notin> set ys" "p \<notin> set as" "p \<notin> set bs" using h x(1) by (auto simp: held_def)
  obtain yo where "forest ?N ko yo" "set yo \<subseteq> set ys"
    using x(2) unfolding k forest_append by (elim exE conjE) force
  then have old: "set old \<subseteq> set ys" using forest_det site by metis
  have "p \<notin> set W" using site p d(1) old by auto
  moreover have "forest ?N ko old" "forest ?N new W" using site by simp_all
  ultimately obtain ya yb where y: "ys = ya @ old @ yb" "forest (gnodes G') (ka @ new @ kb) (ya @ W @ yb)"
      "set ka \<subseteq> set ya" "set kb \<subseteq> set yb"
    using spliced_forest_of [OF x(2) [unfolded k] _ _ d(1) _ s] by blast
  have kids: "gkids (gnodes G' n) = (if n = p then ka @ new @ kb else gkids (?N n))" for n
    using spliced_kids [OF s] top by simp
  have "\<forall>x \<in> set as \<union> set bs. gkids (gnodes G' x) = gkids (?N x)" using kids d by auto
  moreover have "forest (gnodes G') (gkids (gnodes G' p)) (ya @ W @ yb)" using y(2) by (simp add: kids)
  ultimately have "forest (gnodes G') (Sections G) (as @ p # (ya @ W @ yb) @ bs)" using x(3) by blast
  moreover have "Sections G' = Sections G" using assms(2) False by (simp add: spliced_graph_def Sections_def)
  ultimately show thesis using that [of "as @ [p]" ya yb bs] x(1) y by simp
qed

theorem held_splice:
  assumes site: "splice_site G xs p ka ko kb new old W" and sp: "spliced_graph G p (ka @ new @ kb) new old W G'"
  shows "\<exists>xs'. held G' xs' \<and> set xs' = (set xs - set old) \<union> set W"
proof -
  let ?N = "gnodes G" and ?N' = "gnodes G'"
  obtain as ya yb bs where o: "xs = as @ ya @ old @ yb @ bs" "p = 0 \<or> p \<in> set as"
      "forest ?N' (Sections G') (as @ ya @ W @ yb @ bs)" "set ka \<subseteq> set ya" "set kb \<subseteq> set yb"
    by (rule spliced_order [OF site sp])
  let ?xs = "as @ ya @ W @ yb @ bs"
  have h: "held G xs" and W: "distinct W" "set W \<subseteq> {3..<gnext G}" "set W \<inter> set xs \<subseteq> set old"
    and ks: "kids_of G p = ka @ ko @ kb" and fs: "forest ?N ko old" "forest ?N new W"
    using site by (simp_all add: splice_site_def)
  have dist: "distinct xs" using h by (simp add: held_def)
  have set': "set ?xs = (set xs - set old) \<union> set W" using dist o(1) by auto
  have s: "spliced_nodes ?N p (ka @ new @ kb) new old W ?N'" using sp by (simp add: spliced_graph_def)
  note kids = spliced_kids [OF s] and ups = spliced_ups [OF s]
  have "0 \<notin> set xs" using held_not_top [OF h, of 0] by (auto simp: isTop_def)
  then have pW: "p \<notin> set W" "p \<notin> set old" using o(1,2) dist W by auto
  have under: "kids_under ?N xs" "tops_under G" "outside ?N xs" using h by (simp_all add: held_def)
  have top: "n \<in> set (kids_of G p) \<Longrightarrow> gup (?N n) = Some p" for n
    using under(1,2) o(1,2) ks held_not_top [OF h, of p]
    by (auto simp: kids_of_def isTop_def tops_under_def kids_under_def split: if_splits)
  have gone: "gup (?N k) = Some p \<or> (\<exists>y \<in> set old. gup (?N k) = Some y)" if "k \<in> set old" for k
    using replaced_up [OF under(1) _ fs(1) _ that] o(1) top ks by auto
  have rest: "gup (?N' k) = gup (?N k)" if "gup (?N k) = Some x" "x \<noteq> p" "x \<notin> set old" "k \<in> set xs" for k x
    using gone [of k] that W(3) by (intro ups(3)) auto
  have new_up: "gup (?N' k) = Some p" if "k \<in> set (ka @ new @ kb)" for k
  proof (cases "k \<in> set new")
    case False
    then have k: "k \<in> set ya \<union> set yb" "k \<in> set (kids_of G p)" using that o(4,5) ks by auto
    then have "k \<notin> set old" "k \<notin> set W" using dist o(1) W(3) by auto
    with ups(3) top [OF k(2)] show ?thesis by simp
  qed (rule ups(1))
  have "kids_under ?N' ?xs" unfolding kids_under_def
  proof (intro ballI)
    fix x k assume x: "x \<in> set ?xs" and k: "k \<in> set (gkids (?N' x))"
    have x': "x \<in> (set xs - set old) \<union> set W" using x unfolding set' .
    then have "\<not> isTop x" using held_not_top [OF h] W(2) by (auto simp: isTop_def)
    then consider "x = p" "\<not> isTop p" | "x \<noteq> p" "x \<in> set W" | "x \<noteq> p" "x \<in> set xs" "x \<notin> set old"
      using x' by blast
    then show "gup (?N' k) = Some x"
    proof cases
      case 1
      with k kids new_up show ?thesis by simp
    next
      case 2
      with k kids ups(2) show ?thesis by simp
    next
      case 3
      then have "gup (?N k) = Some x" "k \<in> set xs"
        using k kids under(1) forest_kids [of ?N "Sections G" xs x] h by (auto simp: kids_under_def held_def)
      with 3 rest show ?thesis by simp
    qed
  qed
  moreover have "tops_under G'"
  proof -
    have sect: "gup (?N' n) = Some i" if "n \<in> set (Sections G)" "gup (?N n) = Some i" "isTop i" "i \<noteq> p" for n i
    proof -
      have "n \<in> set xs" using that(1) forest_tops [of ?N "Sections G" xs] h by (auto simp: held_def)
      moreover have "i \<notin> set old" using that(3) held_not_top [OF h] o(1) by auto
      ultimately show ?thesis using rest that by simp
    qed
    have np: "p \<noteq> 1" "p \<noteq> 2" using o(2) held_not_top [OF h, of p] o(1) by (auto simp: isTop_def)
    show ?thesis
      using sp under(2) new_up sect np
      by (auto simp: tops_under_def spliced_graph_def Sections_def isTop_def split: if_splits)
  qed
  moreover have "outside ?N' ?xs" unfolding outside_def
  proof (intro allI impI)
    fix n assume n: "n \<notin> set ?xs" "\<not> isTop n"
    with set' have "n \<notin> set W" "n \<in> set old \<or> n \<notin> set xs" by auto
    with ups(3,4) n(2) under(3) show "gup (?N' n) = None" by (cases "n \<in> set old") (auto simp: outside_def)
  qed
  moreover have "distinct ?xs" using dist W(1,3) o(1) by auto
  moreover have "set ?xs \<subseteq> {3..<gnext G'}" using set' W(2) h sp by (auto simp: held_def spliced_graph_def)
  ultimately have "held G' ?xs" using o(3) by (simp add: held_def)
  with set' show ?thesis by blast
qed

end
