(* ===== verification/GraphKeep.thy ===== *)
theory GraphKeep
  imports GraphHold
begin

text \<open>
  What every edit keeps of an editor's graph: sound containment, and for each edge of a node of
  the graph a target the graph holds or a removed one that is recorded, with the edge in the
  editor's indexes.
\<close>

subsection \<open>The invariant\<close>

text \<open>Every node there is has edges to nodes there are.\<close>

definition bounded :: "graph \<Rightarrow> bool" where
  "bounded G \<longleftrightarrow>
     (\<forall>n. 3 \<le> n \<longrightarrow> n < gnext G \<longrightarrow>
        set (gkids (gnodes G n)) \<subseteq> {3..<gnext G} \<and> set (grefs (gnodes G n)) \<subseteq> {3..<gnext G} \<and>
        (\<forall>t. gtype (gnodes G n) = Some t \<longrightarrow> t \<in> {3..<gnext G}))"

text \<open>The forms an edit is made in; a type's or an external's nodes have none of these heads.\<close>

definition editHeads :: "bytes list" where
  "editHeads = [''block'', ''stmt-expr'', ''defn'', ''if'', ''while'', ''switch'', ''do'', ''for'', ''struct'',
     ''union'', ''enum'', ''fn'', ''call'']"

definition quiet :: "gstore \<Rightarrow> nat list \<Rightarrow> bool" where
  "quiet N ts \<longleftrightarrow> (\<forall>x \<in> set ts. gHead N x \<notin> set editHeads)"

definition sound_shape :: "editor \<Rightarrow> nat list \<Rightarrow> nat list \<Rightarrow> bool" where
  "sound_shape E xs ts \<longleftrightarrow>
     3 \<le> gnext (eg E) \<and> held (eg E) xs \<and> bounded (eg E) \<and> fixed_part (eg E) ts \<and> quiet (enodes E) ts \<and>
     epending E = {} \<and> (\<forall>i. isTop i \<longrightarrow> \<not> glist (enodes E i))"

definition sound_targets :: "editor \<Rightarrow> nat list \<Rightarrow> bool" where
  "sound_targets E xs \<longleftrightarrow>
     (\<forall>x \<in> set xs. set (grefs (enodes E x)) \<subseteq> set xs \<union> set (eremoved E) \<and>
        (\<forall>t. gtype (enodes E x) = Some t \<longrightarrow> t \<in> set xs \<union> set (eremoved E)))"

definition sound_index :: "editor \<Rightarrow> nat set \<Rightarrow> nat list \<Rightarrow> bool" where
  "sound_index E X ts \<longleftrightarrow>
     (\<forall>x \<in> X. (\<forall>r \<in> set (grefs (enodes E x)). x \<in> set (usesOf E r)) \<and>
        (\<forall>t. gtype (enodes E x) = Some t \<longrightarrow> t \<in> set ts \<or> x \<in> set (etypedBy E t)))"

definition sound :: "editor \<Rightarrow> nat list \<Rightarrow> nat list \<Rightarrow> bool" where
  "sound E xs ts \<longleftrightarrow> sound_shape E xs ts \<and> sound_targets E xs \<and> sound_index E (set xs) ts"

lemma boundedD:
  assumes "bounded G" "3 \<le> n" "n < gnext G"
  shows "set (gkids (gnodes G n)) \<subseteq> {3..<gnext G}" "set (grefs (gnodes G n)) \<subseteq> {3..<gnext G}"
    "gtype (gnodes G n) = Some t \<Longrightarrow> t \<in> {3..<gnext G}"
  using assms unfolding bounded_def by blast+

lemma bounded_bounded_kids: "bounded G \<Longrightarrow> bounded_kids G"
  unfolding bounded_kids_def using boundedD(1) by blast

subsection \<open>Changes that leave the containment alone\<close>

text \<open>
  What giving ids, noting edges and clearing types do: nothing moves, a typed edge may go, an id
  may be given, and the indexes grow.
\<close>

definition same_shape :: "gstore \<Rightarrow> gstore \<Rightarrow> bool" where
  "same_shape N N' \<longleftrightarrow>
     (\<forall>n. gkids (N' n) = gkids (N n) \<and> gup (N' n) = gup (N n) \<and> grefs (N' n) = grefs (N n) \<and>
        glist (N' n) = glist (N n) \<and> gatom (N' n) = gatom (N n) \<and> gtype (N' n) \<in> {gtype (N n), None} \<and>
        (gid (N n) \<noteq> 0 \<longrightarrow> gid (N' n) = gid (N n)))"

definition grows :: "editor \<Rightarrow> editor \<Rightarrow> bool" where
  "grows E E' \<longleftrightarrow>
     same_shape (enodes E) (enodes E') \<and> gnext (eg E') = gnext (eg E) \<and> gforms (eg E') = gforms (eg E) \<and>
     gtypes (eg E') = gtypes (eg E) \<and> gexterns (eg E') = gexterns (eg E) \<and> efirst E' = efirst E \<and> euse E' = euse E \<and>
     (\<forall>t. set (eextra E t) \<subseteq> set (eextra E' t)) \<and> (\<forall>t. set (etypedBy E t) \<subseteq> set (etypedBy E' t)) \<and>
     eremoved E' = eremoved E \<and> epending E' = epending E"

lemma same_shapeD:
  assumes "same_shape N N'"
  shows "gkids (N' n) = gkids (N n)" "gup (N' n) = gup (N n)" "grefs (N' n) = grefs (N n)" "glist (N' n) = glist (N n)"
    "gatom (N' n) = gatom (N n)" "gtype (N' n) = Some t \<Longrightarrow> gtype (N n) = Some t" "gid (N n) \<noteq> 0 \<Longrightarrow> gid (N' n) = gid (N n)"
proof -
  have n: "gkids (N' n) = gkids (N n) \<and> gup (N' n) = gup (N n) \<and> grefs (N' n) = grefs (N n) \<and>
      glist (N' n) = glist (N n) \<and> gatom (N' n) = gatom (N n) \<and> gtype (N' n) \<in> {gtype (N n), None} \<and>
      (gid (N n) \<noteq> 0 \<longrightarrow> gid (N' n) = gid (N n))"
    using assms unfolding same_shape_def by (rule spec)
  then show "gkids (N' n) = gkids (N n)" "gup (N' n) = gup (N n)" "grefs (N' n) = grefs (N n)" "glist (N' n) = glist (N n)"
    "gatom (N' n) = gatom (N n)" "gtype (N' n) = Some t \<Longrightarrow> gtype (N n) = Some t" "gid (N n) \<noteq> 0 \<Longrightarrow> gid (N' n) = gid (N n)"
    by auto
qed

lemma growsD:
  assumes "grows E E'"
  shows "same_shape (enodes E) (enodes E')" "gnext (eg E') = gnext (eg E)" "eremoved E' = eremoved E"
    "set (eextra E t) \<subseteq> set (eextra E' t)" "set (etypedBy E t) \<subseteq> set (etypedBy E' t)" "efirst E' = efirst E" "euse E' = euse E"
  using assms by (simp_all add: grows_def)

lemma same_shape_refl [simp]: "same_shape N N"
  by (simp add: same_shape_def)

lemma same_shape_trans: "same_shape N M \<Longrightarrow> same_shape M L \<Longrightarrow> same_shape N L"
  unfolding same_shape_def by (metis insert_iff singletonD)

lemma grows_refl [simp]: "grows E E"
  by (simp add: grows_def)

lemma grows_trans: "grows E F \<Longrightarrow> grows F H \<Longrightarrow> grows E H"
  unfolding grows_def using same_shape_trans by (metis subset_trans)

lemma same_shape_head: "same_shape N N' \<Longrightarrow> gHead N' n = gHead N n"
  by (cases "gkids (N n)") (simp_all add: same_shape_def gHead_def)

lemma held_same: "same_shape (gnodes G) (gnodes G') \<Longrightarrow> gnext G' = gnext G \<Longrightarrow> gforms G' = gforms G \<Longrightarrow>
    gtypes G' = gtypes G \<Longrightarrow> gexterns G' = gexterns G \<Longrightarrow> held G xs \<Longrightarrow> held G' xs"
  by (auto simp: held_def Sections_def same_shape_def kids_under_def tops_under_def outside_def
      intro: forest_cong [of "gnodes G"])

lemma grows_type: "grows E E' \<Longrightarrow> gtype (enodes E' x) = Some t \<Longrightarrow> gtype (enodes E x) = Some t"
  using same_shapeD(6) [OF growsD(1)] .

lemma grows_shape: "grows E E' \<Longrightarrow> sound_shape E xs ts \<Longrightarrow> sound_shape E' xs ts"
proof -
  assume g: "grows E E'" and s: "sound_shape E xs ts"
  have sh: "same_shape (enodes E) (enodes E')" using g by (simp add: grows_def)
  have type: "gtype (enodes E' n) = Some t \<Longrightarrow> gtype (enodes E n) = Some t" for n t by (rule grows_type [OF g])
  have "held (eg E') xs" using g s by (intro held_same [of "eg E" "eg E'"]) (simp_all add: grows_def sound_shape_def)
  moreover have "bounded (eg E')"
  proof -
    have b: "bounded (eg E)" "gnext (eg E') = gnext (eg E)" using g s by (simp_all add: sound_shape_def grows_def)
    have f: "gkids (enodes E' n) = gkids (enodes E n)" "grefs (enodes E' n) = grefs (enodes E n)" for n
      using sh by (simp_all add: same_shape_def)
    show ?thesis unfolding bounded_def b(2) f using boundedD [OF b(1)] type by blast
  qed
  moreover have "fixed_part (eg E') ts"
    using g s sh by (auto simp: fixed_part_def sound_shape_def grows_def same_shape_def intro: forest_cong [of "enodes E"])
  moreover have "quiet (enodes E') ts" using s same_shape_head [OF sh] by (simp add: quiet_def sound_shape_def)
  moreover have "\<forall>i. isTop i \<longrightarrow> \<not> glist (enodes E' i)"
    using s same_shapeD(4) [OF sh] by (simp add: sound_shape_def)
  ultimately show ?thesis using g s by (simp add: sound_shape_def grows_def)
qed

lemma grows_uses: "grows E E' \<Longrightarrow> x \<in> set (usesOf E t) \<Longrightarrow> x \<in> set (usesOf E' t)"
proof -
  assume g: "grows E E'" and x: "x \<in> set (usesOf E t)"
  show ?thesis
  proof (cases "gid (enodes E t) = 0")
    case True
    then have "x \<in> set (eextra E t)" using x by (simp add: usesOf_def Let_def)
    then have "x \<in> set (eextra E' t)" using g by (auto simp: grows_def)
    then show ?thesis by (simp add: usesOf_def Let_def)
  next
    case False
    then have "gid (enodes E' t) = gid (enodes E t)" using g by (simp add: grows_def same_shape_def)
    with x g show ?thesis by (auto simp: usesOf_def Let_def grows_def split: if_splits)
  qed
qed

lemma grows_targets: "grows E E' \<Longrightarrow> sound_targets E xs \<Longrightarrow> sound_targets E' xs"
proof -
  assume g: "grows E E'" and s: "sound_targets E xs"
  have same: "grefs (enodes E' x) = grefs (enodes E x)" "eremoved E' = eremoved E" for x
    using same_shapeD(3) [OF growsD(1) [OF g]] growsD(3) [OF g] by auto
  show ?thesis using s grows_type [OF g] unfolding sound_targets_def same by blast
qed

lemma grows_index: "grows E E' \<Longrightarrow> sound_index E X ts \<Longrightarrow> sound_index E' X ts"
proof -
  assume g: "grows E E'" and s: "sound_index E X ts"
  have "grefs (enodes E' x) = grefs (enodes E x)" for x using g by (simp add: grows_def same_shape_def)
  then show ?thesis
    using s grows_uses [OF g] grows_type [OF g] g unfolding sound_index_def grows_def by (metis subset_iff)
qed

subsection \<open>Ids and edges of the nodes that come in\<close>

lemma Fresh_simps:
  "gnodes (Fresh x G) = (gnodes G)(x := (gnodes G x)\<lparr>gid := glast G + 1\<rparr>)" "gnext (Fresh x G) = gnext G"
  "gforms (Fresh x G) = gforms G" "gtypes (Fresh x G) = gtypes G" "gexterns (Fresh x G) = gexterns G"
  "glast (Fresh x G) = glast G + 1"
  by (simp_all add: Fresh_def NextId_def set_node_def)

lemma SawId_simps [simp]:
  "gnodes (SawId i G) = gnodes G" "gnext (SawId i G) = gnext G" "gforms (SawId i G) = gforms G"
  "gtypes (SawId i G) = gtypes G" "gexterns (SawId i G) = gexterns G"
  by (simp_all add: SawId_def)

lemma fold_extra: "fold (\<lambda>r ex. ex(r := ex r @ [x])) rs ex t = ex t @ replicate (count_list rs t) x"
  by (induction rs arbitrary: ex) (auto simp: replicate_app_Cons_same)

lemma note_typed_grows: "set (by t) \<subseteq> set (note_typed G x by t)"
  by (auto simp: note_typed_def split: option.splits)

lemma note_typed_in: "gtype (gnodes G x) = Some t \<Longrightarrow> inFile G t \<Longrightarrow> x \<in> set (note_typed G x by t)"
  by (simp add: note_typed_def)

lemma top_of_cong: "(\<And>n. gup (N' n) = gup (N n)) \<Longrightarrow> top_of f N' n = top_of f N n"
  by (induction f arbitrary: n) (auto split: option.splits)

lemma live_up_cong: "(\<And>n. gup (N' n) = gup (N n)) \<Longrightarrow> live_up f N' n = live_up f N n"
  by (induction f N n rule: live_up.induct) auto

lemma grows_inFile: "grows E E' \<Longrightarrow> inFile (eg E') t = inFile (eg E) t"
proof -
  assume g: "grows E E'"
  have "top_of f (enodes E') t = top_of f (enodes E) t" for f by (rule top_of_cong [OF same_shapeD(2) [OF growsD(1) [OF g]]])
  then show ?thesis using growsD(2) [OF g] by (simp only: inFile_def section_of_def)
qed

lemma admit_grows:
  assumes "admit x (E, new) = (E', new')"
  shows "grows E E'" "r \<in> set (grefs (enodes E x)) \<Longrightarrow> x \<in> set (eextra E' r)"
    and "gtype (enodes E x) = Some t \<Longrightarrow> inFile (eg E) t \<Longrightarrow> x \<in> set (etypedBy E' t)"
proof -
  let ?k = "enodes E x"
  define E1 where "E1 = (if gid ?k = 0 \<and> (glist ?k \<or> grefs ?k \<noteq> []) then on_graph (Fresh x) E
    else if gid ?k \<noteq> 0 then on_graph (SawId (gid ?k)) E else E)"
  define extra where "extra = fold (\<lambda>r ex. ex(r := ex r @ [x])) (grefs ?k) (eextra E1)"
  have E': "E' = E1\<lparr>eextra := extra, etypedBy := note_typed (eg E1) x (etypedBy E1)\<rparr>"
    using assms unfolding admit_def E1_def extra_def by (auto simp: Let_def split: if_splits)
  have g1: "grows E E1" by (auto simp: E1_def grows_def on_graph_def Fresh_simps same_shape_def)
  have E1: "eextra E1 = eextra E" by (simp add: E1_def on_graph_def)
  have "grows E1 E'" unfolding E' grows_def extra_def using note_typed_grows by (auto simp: fold_extra)
  with g1 show "grows E E'" by (rule grows_trans)
  show "x \<in> set (eextra E' r)" if "r \<in> set (grefs ?k)"
    using that by (simp add: E' extra_def fold_extra count_list_0_iff)
  show "x \<in> set (etypedBy E' t)" if "gtype ?k = Some t" "inFile (eg E) t"
  proof -
    have "gtype (enodes E1 x) = Some t" using that(1) by (simp add: E1_def on_graph_def Fresh_simps)
    moreover have "inFile (eg E1) t" using that(2) grows_inFile [OF g1] by simp
    ultimately show ?thesis by (simp add: E' note_typed_in)
  qed
qed

lemma admits:
  "fold admit ns (E, new) = (E', new') \<Longrightarrow>
     grows E E' \<and> (\<forall>x \<in> set ns. (\<forall>r \<in> set (grefs (enodes E x)). x \<in> set (eextra E' r)) \<and>
       (\<forall>t. gtype (enodes E x) = Some t \<longrightarrow> inFile (eg E) t \<longrightarrow> x \<in> set (etypedBy E' t)))"
proof (induction ns arbitrary: E new)
  case (Cons n ns)
  obtain F new1 where f: "admit n (E, new) = (F, new1)" by force
  note one = admit_grows [OF f]
  have ih: "grows F E'" "\<forall>x \<in> set ns. (\<forall>r \<in> set (grefs (enodes F x)). x \<in> set (eextra E' r)) \<and>
       (\<forall>t. gtype (enodes F x) = Some t \<longrightarrow> inFile (eg F) t \<longrightarrow> x \<in> set (etypedBy E' t))"
    using Cons.IH [of F new1] Cons.prems f by simp_all
  have same: "grefs (enodes F x) = grefs (enodes E x)" "inFile (eg F) t = inFile (eg E) t" for x t
    using one(1) grows_inFile [OF one(1)] by (simp_all add: grows_def same_shape_def)
  have types: "gtype (enodes F x) = gtype (enodes E x)" for x
    using f by (auto simp: admit_def on_graph_def Fresh_simps Let_def split: if_splits)
  have up: "set (eextra F r) \<subseteq> set (eextra E' r)" "set (etypedBy F t) \<subseteq> set (etypedBy E' t)" for r t
    using ih(1) by (simp_all add: grows_def)
  show ?case
    using grows_trans [OF one(1) ih(1)] ih(2) subsetD [OF up(1) one(2)] subsetD [OF up(2) one(3)]
    unfolding same types by auto
qed simp

subsection \<open>Types cleared\<close>

lemma untype_grows: "grows E (untype n E)"
  by (simp add: untype_def grows_def)

lemma clear_one_grows: "grows E (untype n (on_graph (put n (\<lambda>k. k\<lparr>gtype := None\<rparr>) \<circ> save n) E))"
  by (rule grows_trans [OF _ untype_grows]) (auto simp: grows_def on_graph_def put_def same_shape_def)

lemma clear_types_ends:
  "live_up f (enodes E) (Some q) \<Longrightarrow> \<not> isTop q \<Longrightarrow> \<exists>E'. clear_types f (Some q) E = Some E' \<and> grows E E'"
proof (induction f arbitrary: q E)
  case (Suc f)
  let ?E = "untype q (on_graph (put q (\<lambda>k. k\<lparr>gtype := None\<rparr>) \<circ> save q) E)"
  have g: "grows E ?E" by (rule clear_one_grows)
  then have ups: "gup (enodes ?E n) = gup (enodes E n)" for n by (simp add: grows_def same_shape_def)
  have up: "live_up f (enodes E) (gup (enodes E q))" using Suc.prems by simp
  then obtain p f' where p: "gup (enodes E q) = Some p" "f = Suc f'"
    by (cases "gup (enodes E q)"; cases f) auto
  have next_: "Parent (eg ?E) q = None \<or> Parent (eg ?E) q = Some p \<and> \<not> isTop p"
    by (auto simp: Parent_def ups p(1))
  have "\<exists>E'. clear_types f (Parent (eg ?E) q) ?E = Some E' \<and> grows E E'"
  proof (cases "Parent (eg ?E) q = None")
    case True
    with p(2) g show ?thesis by auto
  next
    case False
    with next_ have n: "Parent (eg ?E) q = Some p" "\<not> isTop p" by auto
    have "live_up f (enodes ?E) (Some p)" using up p(1) by (simp add: live_up_cong [OF ups] del: live_up.simps)
    then obtain E' where "clear_types f (Some p) ?E = Some E'" "grows ?E E'" using Suc.IH n(2) by blast
    with n(1) grows_trans [OF g] show ?thesis by auto
  qed
  then show ?case by (auto simp: Let_def)
qed simp

lemma retype_ends:
  assumes "gLive (eg E) p" "\<not> isTop p"
  shows "\<exists>E'. retype p old new E = Some E' \<and> grows E E'"
proof -
  let ?E = "if glist (enodes E new) \<and> gtype (enodes E new) = None \<and> \<not> IsStatement (enodes E) new then untype new E else E"
  have g: "grows E ?E" using untype_grows by simp
  have same: "eg ?E = eg E" by (simp add: untype_def)
  have "live_up (gnext (eg E) + 1) (enodes ?E) (Some p)" using assms(1) by (simp add: gLive_def same)
  from clear_types_ends [OF this assms(2)] obtain E' where "clear_types (gnext (eg E) + 1) (Some p) ?E = Some E'" "grows ?E E'"
    by blast
  with g grows_trans [OF g] show ?thesis unfolding retype_def Let_def by auto
qed

end
