(* ===== verification/GraphStep.thy ===== *)
theory GraphStep
  imports GraphKeep
begin

text \<open>
  Each operation of the editor keeps the invariant, and answers: no walk it makes runs out.
\<close>

subsection \<open>Where an operation is made\<close>

lemma fixed_split:
  assumes "held G xs" "fixed_part G ts"
  obtains fs where "xs = fs @ ts" "forest (gnodes G) (gforms G) fs"
proof -
  have "forest (gnodes G) (gforms G @ (gtypes G @ gexterns G)) xs" using assms(1) by (simp add: held_def Sections_def)
  then obtain fs ts' where f: "xs = fs @ ts'" "forest (gnodes G) (gforms G) fs" "forest (gnodes G) (gtypes G @ gexterns G) ts'"
    unfolding forest_append [of _ "gforms G"] by blast
  moreover have "ts = ts'" using forest_det [OF f(3)] assms(2) by (simp add: fixed_part_def)
  ultimately show thesis using that by blast
qed

lemma held_kid: "held G xs \<Longrightarrow> x \<in> set xs \<Longrightarrow> k \<in> set (gkids (gnodes G x)) \<Longrightarrow> gup (gnodes G k) = Some x"
  by (simp add: held_def kids_under_def)

lemma held_parent:
  assumes "held G xs" "n \<in> set xs" "gup (gnodes G n) = Some p"
  shows "isTop p \<or> p \<in> set xs"
proof -
  have f: "forest (gnodes G) (Sections G) xs" using assms(1) by (simp add: held_def)
  consider "n \<in> set (Sections G)" | y where "y \<in> set xs" "n \<in> set (gkids (gnodes G y))"
    using forest_set [OF f] assms(2) by blast
  then show ?thesis
  proof cases
    case 1
    with assms(1,3) show ?thesis by (auto simp: held_def tops_under_def Sections_def isTop_def)
  next
    case 2
    then have "gup (gnodes G n) = Some y" using held_kid [OF assms(1)] by simp
    with 2(1) assms(3) show ?thesis by simp
  qed
qed

lemma fixed_parent:
  assumes "held G xs" "fixed_part G ts" "n \<in> set ts" "gup (gnodes G n) = Some p"
  shows "p = 1 \<or> p = 2 \<or> p \<in> set ts"
proof -
  obtain fs where x: "xs = fs @ ts" using fixed_split assms(1,2) by metis
  have f: "forest (gnodes G) (gtypes G @ gexterns G) ts" using assms(2) by (simp add: fixed_part_def)
  consider "n \<in> set (gtypes G @ gexterns G)" | y where "y \<in> set ts" "n \<in> set (gkids (gnodes G y))"
    using forest_set [OF f] assms(3) by blast
  then show ?thesis
  proof cases
    case 1
    with assms(1,4) show ?thesis by (auto simp: held_def tops_under_def)
  next
    case 2
    then have "gup (gnodes G n) = Some y" using held_kid [OF assms(1)] x by simp
    with 2(1) assms(4) show ?thesis by simp
  qed
qed

lemma fixed_section:
  assumes "held G xs" "3 \<le> gnext G" "fixed_part G ts" "n \<in> set ts"
  shows "section_of G n = Some 1 \<or> section_of G n = Some 2"
proof -
  obtain fs where x: "xs = fs @ ts" using fixed_split assms(1,3) by metis
  obtain ys zs where t: "ts = ys @ zs" "forest (gnodes G) (gtypes G) ys" "forest (gnodes G) (gexterns G) zs"
    using assms(3) unfolding fixed_part_def forest_append by blast
  have up: "gup (gnodes G k) = Some 1" if "k \<in> set (gtypes G)" for k using that assms(1) by (simp add: held_def tops_under_def)
  have up2: "gup (gnodes G k) = Some 2" if "k \<in> set (gexterns G)" for k using that assms(1) by (simp add: held_def tops_under_def)
  have d: "distinct ys" "distinct zs" using assms(1) x t(1) by (auto simp: held_def)
  show ?thesis
    using assms(4) section_top [OF assms(1,2) t(2) _ d(1) up] section_top [OF assms(1,2) t(3) _ d(2) up2] x t(1)
    by (auto simp: isTop_def)
qed

lemma file_section:
  assumes "held G xs" "3 \<le> gnext G" "fixed_part G ts" "n \<in> set xs" "n \<notin> set ts"
  shows "inFile G n"
proof -
  obtain fs where x: "xs = fs @ ts" "forest (gnodes G) (gforms G) fs" using fixed_split assms(1,3) by metis
  have up: "gup (gnodes G k) = Some 0" if "k \<in> set (gforms G)" for k using that assms(1) by (simp add: held_def tops_under_def)
  have "distinct fs" using assms(1) x(1) by (simp add: held_def)
  with section_top [OF assms(1,2) x(2) _ _ up] x(1) assms(4,5) show ?thesis by (auto simp: inFile_def isTop_def)
qed

text \<open>Neither the sections of types and externals nor anything in them is edited.\<close>

lemma gIs_quiet: "gHead N p \<notin> set editHeads \<Longrightarrow> h \<in> set editHeads \<Longrightarrow> \<not> gIs N p h"
  by (auto simp: gIs_def)

lemma not_param_list:
  assumes "sound_shape E xs ts" "p \<in> set ts"
  shows "\<not> isParamList (enodes E) p"
proof -
  have "\<not> gIs (enodes E) f ''fn''" if "gup (enodes E p) = Some f" for f
  proof (cases "f \<in> set ts")
    case True
    then show ?thesis using assms(1) by (intro gIs_quiet) (simp_all add: sound_shape_def quiet_def editHeads_def)
  next
    case False
    with fixed_parent [of "eg E" xs ts p f] assms that have "isTop f" by (auto simp: sound_shape_def isTop_def)
    with assms(1) show ?thesis by (simp add: sound_shape_def gIs_def gHead_def)
  qed
  then show ?thesis by (auto simp: isParamList_def split: option.splits)
qed

lemma sections_place:
  assumes "sound_shape E xs ts" "p = 1 \<or> p = 2 \<or> p \<in> set ts"
  shows "place_at E p i = placeSection" "insertPlace E p i = placeSection \<or> insertPlace E p i = placeFixed"
proof -
  have "place_at E p i = placeSection \<and> (insertPlace E p i = placeSection \<or> insertPlace E p i = placeFixed)"
  proof (cases "p = 1 \<or> p = 2")
    case True
    then show ?thesis by (auto simp: place_at_def insertPlace_def Let_def)
  next
    case False
    with assms have p: "p \<in> set ts" "p \<noteq> 1" "p \<noteq> 2" by simp_all
    have h: "held (eg E) xs" "3 \<le> gnext (eg E)" "fixed_part (eg E) ts" using assms(1) by (simp_all add: sound_shape_def)
    obtain fs where "xs = fs @ ts" using fixed_split h(1,3) by metis
    then have p0: "p \<noteq> 0" using held_not_top [OF h(1), of p] p(1) by (auto simp: isTop_def)
    have head: "gHead (enodes E) p \<notin> set editHeads" using assms(1) p(1) by (simp add: sound_shape_def quiet_def)
    then have heads: "gHead (enodes E) p \<noteq> h" if "h \<in> set editHeads" for h using that by auto
    have par: "\<not> isParamList (enodes E) p" by (rule not_param_list [OF assms(1) p(1)])
    have "place_at E p i = placeSection"
      using fixed_section [OF h p(1)] p(2,3) p0 par head by (auto simp: place_at_def Let_def editHeads_def)
    moreover have "insertPlace E p i = placeFixed"
      using p(2,3) p0 par heads by (simp add: insertPlace_def Let_def gIs_def editHeads_def)
    ultimately show ?thesis by simp
  qed
  then show "place_at E p i = placeSection" "insertPlace E p i = placeSection \<or> insertPlace E p i = placeFixed" by simp_all
qed

lemma sections_refused:
  assumes "sound_shape E xs ts" "p = 1 \<or> p = 2 \<or> p \<in> set ts"
  shows "\<exists>e. place_error (enodes E) p ks lo hi new (if lo = hi then insertPlace E p lo else place_at E p lo) = Some e"
  using sections_place [OF assms, of lo] by (auto simp: place_error_def)

lemma index_site:
  assumes "sound_shape E xs ts" "3 \<le> n" "index (eg E) n = Some (p, i)"
  shows "isTop p \<or> p \<in> set xs" "i < length (kids_of (eg E) p)"
proof -
  have h: "held (eg E) xs" "3 \<le> gnext (eg E)" using assms(1) by (simp_all add: sound_shape_def)
  have n: "gLive (eg E) n" "gup (enodes E n) = Some p" "position n (kids_of (eg E) p) = Some i"
    using assms(3) by (auto simp: index_def split: if_splits option.splits)
  then have "n \<in> set xs" using held_live [OF h] assms(2) by (auto simp: isTop_def)
  then show "isTop p \<or> p \<in> set xs" using held_parent [OF h(1)] n(2) by blast
  have "length (takeWhile (\<lambda>k. k \<noteq> n) ks) < length ks" if "n \<in> set ks" for ks using that by (induction ks) auto
  then show "i < length (kids_of (eg E) p)" using n(3) by (auto simp: position_def split: if_splits)
qed

subsection \<open>A splice that is made\<close>

text \<open>The editor when the new nodes are in place, before their ids and edges are noted.\<close>

definition placed_editor :: "nat \<Rightarrow> nat list \<Rightarrow> nat list \<Rightarrow> nat list \<Rightarrow> screen \<Rightarrow> gstore \<Rightarrow> bool \<Rightarrow> editor \<Rightarrow> editor" where
  "placed_editor p ks' ko old c N' b E =
     E\<lparr>eg := (set_kids p ks' ((eg E)\<lparr>gnodes := taken (filter (\<lambda>x. x \<notin> seen c) old) (enodes E)\<rparr>))\<lparr>gnodes := N'\<rparr>,
       eremoved := eremoved E @ filter (uses_or_types E) (filter (\<lambda>x. x \<notin> seen c) old),
       ewasTop := (if p = 0 then ewasTop E \<union> set ko else ewasTop E), eblockFnsOK := b\<rparr>"

lemma uses_or_types_top: "uses_or_types (E\<lparr>ewasTop := s\<rparr>) = uses_or_types E"
  by (simp add: uses_or_types_def usesOf_def Let_def fun_eq_iff)

lemma placed_editor_run:
  assumes "kids_of (eg E) p = ka @ ko @ kb" "lo = length ka" "hi = lo + length ko"
    and "forest (enodes E) new W" "distinct W" "set W \<subseteq> {3..<gnext (eg E)}" "p \<notin> set W" "seen c = set W"
  shows "\<exists>N' b. opt_fold (place_new p) new
      (on_graph (set_kids p (ka @ new @ kb)) (fold take_out (filter (\<lambda>x. x \<notin> seen c) old)
        (if p = 0 then E\<lparr>ewasTop := ewasTop E \<union> set ko\<rparr> else E))) =
      Some (placed_editor p (ka @ new @ kb) ko old c N' b E) \<and>
    spliced_nodes (enodes E) p (ka @ new @ kb) new old W N'"
proof -
  let ?E1 = "if p = 0 then E\<lparr>ewasTop := ewasTop E \<union> set ko\<rparr> else E"
  let ?gone = "filter (\<lambda>x. x \<notin> seen c) old"
  let ?E3 = "on_graph (set_kids p (ka @ new @ kb)) (fold take_out ?gone ?E1)"
  have n3: "enodes ?E3 = with_kids p (ka @ new @ kb) (taken ?gone (enodes E))" "gnext (eg ?E3) = gnext (eg E)"
    by (simp_all add: on_graph_def take_outs)
  have "gkids (enodes ?E3 x) = gkids (enodes E x)" if "x \<in> set W" for x
    using that assms(7) by (auto simp: n3 with_kids_def taken_def)
  then have f: "forest (enodes ?E3) new W" using forest_cong [OF assms(4)] by blast
  have "set W \<subseteq> {3..<gnext (eg ?E3)}" using assms(6) n3(2) by simp
  from place_all_run [OF f assms(5) this, of p] obtain N' b where r: "opt_fold (place_new p) new ?E3 = Some (?E3\<lparr>eg := (eg ?E3)\<lparr>gnodes := N'\<rparr>, eblockFnsOK := b\<rparr>)"
      "placed (enodes ?E3) p new W N'"
    by blast
  have "?E3\<lparr>eg := (eg ?E3)\<lparr>gnodes := N'\<rparr>, eblockFnsOK := b\<rparr> = placed_editor p (ka @ new @ kb) ko old c N' b E"
    by (simp add: placed_editor_def take_outs on_graph_def uses_or_types_top)
  with r n3 assms(8) show ?thesis by (auto simp: spliced_nodes_def)
qed

lemma placed_editor_simps [simp]:
  "eextra (placed_editor p ks' ko old c N' b E) = eextra E" "etypedBy (placed_editor p ks' ko old c N' b E) = etypedBy E"
  "efirst (placed_editor p ks' ko old c N' b E) = efirst E" "euse (placed_editor p ks' ko old c N' b E) = euse E"
  "epending (placed_editor p ks' ko old c N' b E) = epending E" "enodes (placed_editor p ks' ko old c N' b E) = N'"
  "gnext (eg (placed_editor p ks' ko old c N' b E)) = gnext (eg E)"
  "eremoved (placed_editor p ks' ko old c N' b E) =
     eremoved E @ filter (uses_or_types E) (filter (\<lambda>x. x \<notin> seen c) old)"
  by (simp_all add: placed_editor_def)

lemma placed_editor_graph:
  "p \<noteq> 1 \<Longrightarrow> p \<noteq> 2 \<Longrightarrow> spliced_nodes (enodes E) p ks' new old W N' \<Longrightarrow>
     spliced_graph (eg E) p ks' new old W (eg (placed_editor p ks' ko old c N' b E))"
  by (simp add: placed_editor_def spliced_graph_def)

lemma record_grows: "grows E (record_splice op p new gone moved given E)"
  by (simp add: grows_def record_splice_def Let_def)

lemma record_graph [simp]: "eg (record_splice op p new gone moved given E) = eg E"
  by (simp add: record_splice_def Let_def)

lemma apply_splice_run:
  assumes place: "opt_fold (place_new p) new
      (on_graph (set_kids p (take lo ks @ new @ drop hi ks)) (fold take_out (filter (\<lambda>x. x \<notin> seen c) old)
        (if p = 0 then E\<lparr>ewasTop := ewasTop E \<union> set (take (hi - lo) (drop lo ks))\<rparr> else E))) = Some E4"
    and ks: "ks = kids_of (eg E) p" and adm: "fold admit (fresh c) (E4, []) = (E5, given)"
    and live: "\<not> isTop p \<Longrightarrow> gLive (eg E5) p" "isTop p \<Longrightarrow> p = 0"
  shows "\<exists>E'. apply_splice op p lo hi new old c E = Some E' \<and> grows E5 E'"
proof -
  let ?moved = "idsOf (enodes E5) (filter (\<lambda>x. x \<in> seen c) old)" and ?gone = "idsOf (enodes E) (filter (\<lambda>x. x \<notin> seen c) old)"
  let ?E6 = "record_splice op p new ?gone ?moved given E5"
  have run: "apply_splice op p lo hi new old c E =
    (if hi = lo + 1 \<and> length new = 1 \<and> place_at ?E6 p lo = placeFixed \<and> \<not> IsStatement (enodes ?E6) (ks ! lo)
     then retype p (ks ! lo) (hd new) ?E6 else Some ?E6)"
    by (simp only: apply_splice_def Let_def ks [symmetric] place adm bind.bind_lunit prod.case)
  have g: "grows E5 ?E6" by (rule record_grows)
  show ?thesis
  proof (cases "isTop p")
    case True
    then have "place_at ?E6 p lo = placeItem" using live(2) by (simp add: place_at_def)
    with g show ?thesis by (simp add: run)
  next
    case False
    then have "gLive (eg ?E6) p" using live(1) by simp
    from retype_ends [OF this False] obtain E' where "retype p (ks ! lo) (hd new) ?E6 = Some E'" "grows ?E6 E'" by blast
    with g grows_trans [OF g] show ?thesis by (simp add: run)
  qed
qed

end
