(* ===== verification/GraphSound.thy ===== *)
theory GraphSound
  imports GraphStep
begin

text \<open>
  The editor's invariant through a splice, a retarget, a new node and a settled edit.
\<close>

subsection \<open>A splice\<close>

lemma first_error_None: "first_error f xs = None \<longleftrightarrow> (\<forall>x \<in> set xs. f x = None)"
  by (induction xs) (auto split: option.splits)

lemma edge_error_None:
  assumes "edge_error E old came x = None"
  shows "r \<in> set (grefs (enodes E x)) \<Longrightarrow> \<not> not_held E old came r"
    and "gtype (enodes E x) = Some t \<Longrightarrow> \<not> not_held E old came t"
  using assms by (auto simp: edge_error_def find_None_iff split: option.splits if_splits)

lemma bounded_splice:
  assumes "bounded G" "spliced_graph G p ks' new old W G'" "set ks' \<subseteq> {3..<gnext G}"
  shows "bounded G'"
proof -
  have s: "spliced_nodes (gnodes G) p ks' new old W (gnodes G')" and n: "gnext G' = gnext G"
    using assms(2) by (simp_all add: spliced_graph_def)
  show ?thesis
    unfolding bounded_def n spliced_kids [OF s] spliced_fields [OF s] using boundedD [OF assms(1)] assms(3)
    by (simp only: split: if_split) blast
qed

lemma quiet_cong: "quiet N ts \<Longrightarrow> (\<And>x. x \<in> set ts \<Longrightarrow> gHead N' x = gHead N x) \<Longrightarrow> quiet N' ts"
  by (simp add: quiet_def)

lemma gHead_cong:
  "gkids (N' n) = gkids (N n) \<Longrightarrow> (\<And>n. glist (N' n) = glist (N n)) \<Longrightarrow> (\<And>n. gatom (N' n) = gatom (N n)) \<Longrightarrow>
     gHead N' n = gHead N n"
  by (cases "gkids (N n)") (simp_all add: gHead_def)

lemma shape_splice:
  assumes "sound_shape E xs ts" "splice_site (eg E) xs p ka ko kb new old W" "p \<notin> set ts"
    and "spliced_graph (eg E) p (ka @ new @ kb) new old W (eg E')" "epending E' = {}"
    and "set (kids_of (eg E) p) \<subseteq> {3..<gnext (eg E)}" "set new \<subseteq> {3..<gnext (eg E)}"
  obtains xs' where "sound_shape E' xs' ts" "set xs' = (set xs - set old) \<union> set W"
proof -
  obtain xs' where h: "held (eg E') xs'" "set xs' = (set xs - set old) \<union> set W"
    using held_splice [OF assms(2,4)] by blast
  have s: "spliced_nodes (enodes E) p (ka @ new @ kb) new old W (enodes E')" and n: "gnext (eg E') = gnext (eg E)"
    and sec: "gtypes (eg E') = gtypes (eg E)" "gexterns (eg E') = gexterns (eg E)"
    using assms(4) by (simp_all add: spliced_graph_def)
  have "set (ka @ new @ kb) \<subseteq> {3..<gnext (eg E)}" using assms(2,6,7) by (auto simp: splice_site_def)
  then have b: "bounded (eg E')" using bounded_splice [OF _ assms(4)] assms(1) by (simp add: sound_shape_def)
  have kids: "gkids (enodes E' x) = gkids (enodes E x)" if "x \<in> set ts" for x
    using spliced_kids [OF s] that assms(3) by auto
  have "fixed_part (eg E') ts"
    unfolding fixed_part_def sec
  proof (rule forest_cong [OF _ kids])
    show "forest (enodes E) (gtypes (eg E) @ gexterns (eg E)) ts" using assms(1) by (simp add: sound_shape_def fixed_part_def)
  qed
  moreover have "quiet (enodes E') ts"
  proof (rule quiet_cong)
    show "quiet (enodes E) ts" using assms(1) by (simp add: sound_shape_def)
    show "gHead (enodes E') x = gHead (enodes E) x" if "x \<in> set ts" for x
      by (rule gHead_cong) (simp_all only: kids [OF that] spliced_fields(4,5) [OF s])
  qed
  moreover have "\<forall>i. isTop i \<longrightarrow> \<not> glist (enodes E' i)"
    unfolding spliced_fields(4) [OF s] using assms(1) by (simp add: sound_shape_def)
  ultimately have "sound_shape E' xs' ts" using h(1) b n assms(1,5) by (simp add: sound_shape_def)
  with h(2) that show thesis by blast
qed

lemma targets_splice:
  assumes "sound E xs ts" "old_nodes \<subseteq> set xs" "set xs' = (set xs - old_nodes) \<union> set W" "set W \<inter> set xs \<subseteq> old_nodes"
    and "\<And>x. grefs (enodes E' x) = grefs (enodes E x)" "\<And>x. gtype (enodes E' x) = gtype (enodes E x)"
    and "set (eremoved E') = set (eremoved E) \<union> {x \<in> old_nodes - set W. uses_or_types E x}"
    and fresh: "\<And>x. x \<in> set W - set xs \<Longrightarrow> edge_error E old_nodes (set W) x = None"
    and W: "set W \<subseteq> {3..<gnext (eg E)}"
    and ts: "set ts \<subseteq> set xs - old_nodes"
  shows "sound_targets E' xs'"
proof -
  have sh: "sound_shape E xs ts" using assms(1) by (simp add: sound_def)
  have h: "held (eg E) xs" "3 \<le> gnext (eg E)" "bounded (eg E)" "epending E = {}" using sh by (simp_all add: sound_shape_def)
  have old: "r \<in> set xs' \<union> set (eremoved E')" if "x \<in> set xs" "r \<in> set xs \<union> set (eremoved E)" "uses_or_types E r \<or> r \<in> set ts" for x r
    using that assms(3,7) ts by auto
  have new: "r \<in> set xs' \<union> set (eremoved E')" if "\<not> not_held E old_nodes (set W) r" "3 \<le> r" for r
  proof -
    have "gLive (eg E) r \<longleftrightarrow> r \<in> set xs" using held_live [OF h(1,2)] that(2) by (auto simp: isTop_def)
    then show ?thesis using that(1) assms(3) h(4) by (auto simp: not_held_def)
  qed
  have refs: "r \<in> set xs' \<union> set (eremoved E')" if "x \<in> set xs'" "r \<in> set (grefs (enodes E x))" for x r
  proof (cases "x \<in> set xs")
    case True
    then have "r \<in> set xs \<union> set (eremoved E)" "x \<in> set (usesOf E r)"
      using assms(1) that(2) by (auto simp: sound_def sound_targets_def sound_index_def)
    then show ?thesis using old [OF True, of r] by (cases "usesOf E r") (simp_all add: uses_or_types_def)
  next
    case False
    then have x: "x \<in> set W - set xs" using that(1) assms(3) by simp
    then have "3 \<le> r" using boundedD(2) [OF h(3), of x] that(2) W by fastforce
    with new edge_error_None(1) [OF fresh [OF x] that(2)] show ?thesis by blast
  qed
  have types: "t \<in> set xs' \<union> set (eremoved E')" if "x \<in> set xs'" "gtype (enodes E x) = Some t" for x t
  proof (cases "x \<in> set xs")
    case True
    then have "t \<in> set xs \<union> set (eremoved E)" "t \<in> set ts \<or> x \<in> set (etypedBy E t)"
      using assms(1) that(2) by (auto simp: sound_def sound_targets_def sound_index_def)
    then show ?thesis using old [OF True, of t] by (cases "etypedBy E t") (auto simp: uses_or_types_def)
  next
    case False
    then have x: "x \<in> set W - set xs" using that(1) assms(3) by simp
    then have "3 \<le> t" using boundedD(3) [OF h(3), of x t] that(2) W by fastforce
    with new edge_error_None(2) [OF fresh [OF x] that(2)] show ?thesis by blast
  qed
  show ?thesis unfolding sound_targets_def assms(5,6) using refs types by blast
qed

lemma index_splice:
  assumes "sound_index E (set xs) ts" "\<And>x. grefs (enodes E' x) = grefs (enodes E x)"
    "\<And>x. gtype (enodes E' x) = gtype (enodes E x)" "\<And>x. gid (enodes E' x) = gid (enodes E x)"
    "efirst E' = efirst E" "euse E' = euse E" "eextra E' = eextra E" "etypedBy E' = etypedBy E"
  shows "sound_index E' (set xs) ts"
proof -
  have "usesOf E' t = usesOf E t" for t by (rule usesOf_cong) (simp_all add: assms)
  then show ?thesis using assms(1) by (simp add: sound_index_def assms(2,3,8))
qed

text \<open>What a splice leaves when it is made.\<close>

lemma kids_bounded:
  assumes "sound_shape E xs ts" "isTop p \<or> p \<in> set xs"
  shows "set (kids_of (eg E) p) \<subseteq> {3..<gnext (eg E)}"
proof -
  have h: "held (eg E) xs" "bounded (eg E)" using assms(1) by (simp_all add: sound_shape_def)
  have f: "set (Sections (eg E)) \<subseteq> set xs" "set xs \<subseteq> {3..<gnext (eg E)}"
    using h(1) forest_tops by (auto simp: held_def)
  show ?thesis
  proof (cases "isTop p")
    case True
    then have "p = 0 \<or> p = 1 \<or> p = 2" by (auto simp: isTop_def)
    then have "set (kids_of (eg E) p) \<subseteq> set (Sections (eg E))" by (auto simp: kids_of_def Sections_def)
    with f show ?thesis by blast
  next
    case False
    then have "p \<in> {3..<gnext (eg E)}" using assms(2) f by blast
    then show ?thesis using boundedD(1) [OF h(2)] False by (simp add: kids_of_node)
  qed
qed

text \<open>The nodes that a splice replaces are in the file, below \<open>p\<close>.\<close>

lemma old_below:
  assumes "held G xs" "fixed_part G ts" "p = 0 \<or> p \<in> set xs" "p \<notin> set ts" "kids_of G p = ka @ ko @ kb" "forest (gnodes G) ko old"
  shows "set old \<subseteq> set xs - set ts" "p \<notin> set old"
proof -
  obtain fs where fs: "xs = fs @ ts" "forest (gnodes G) (gforms G) fs" using fixed_split [OF assms(1,2)] .
  have d: "distinct xs" using assms(1) by (simp add: held_def)
  have "\<exists>ys. forest (gnodes G) (kids_of G p) ys \<and> set ys \<subseteq> set fs \<and> p \<notin> set ys"
  proof (cases "p = 0")
    case True
    then have "p \<notin> set xs" using held_not_top [OF assms(1), of p] by (auto simp: isTop_def)
    with True fs show ?thesis by (intro exI [of _ fs]) (simp add: kids_of_def)
  next
    case False
    then have p: "p \<in> set xs" "p \<in> set fs" using assms(3,4) fs(1) by auto
    obtain as ys bs where "fs = as @ p # ys @ bs" "forest (gnodes G) (gkids (gnodes G p)) ys"
      using forest_context [OF fs(2) p(2)] by blast
    with d fs(1) held_not_top [OF assms(1) p(1)] show ?thesis by (intro exI [of _ ys]) (auto simp: kids_of_node)
  qed
  then obtain ys where ys: "forest (gnodes G) (kids_of G p) ys" "set ys \<subseteq> set fs" "p \<notin> set ys" by blast
  obtain yo where "forest (gnodes G) ko yo" "set yo \<subseteq> set ys"
    using ys(1) unfolding assms(5) forest_append by (elim exE conjE) force
  then have "set old \<subseteq> set ys" using forest_det [OF assms(6)] by simp
  with ys(2,3) fs(1) d show "set old \<subseteq> set xs - set ts" "p \<notin> set old" by auto
qed

lemma apply_sound:
  assumes snd: "sound E xs ts" and p: "p = 0 \<or> p \<in> set xs" "p \<notin> set ts" and ks: "kids_of (eg E) p = ka @ ko @ kb"
    and lo: "lo = length ka" "hi = lo + length ko" and new: "set new \<subseteq> {3..<gnext (eg E)}"
    and old: "forest (enodes E) ko old"
    and W: "forest (enodes E) new W" "distinct W" "seen c = set W" "fresh c = filter (\<lambda>x. \<not> gLive (eg E) x) W"
      "\<forall>x \<in> set W. admissible (eg E) (set old) x"
    and edges: "first_error (edge_error E (set old) (seen c)) (fresh c) = None"
  shows "\<exists>E' xs'. apply_splice op p lo hi new old c E = Some E' \<and> sound E' xs' ts \<and> gnext (eg E') = gnext (eg E)"
proof -
  have sh: "sound_shape E xs ts" using snd by (simp add: sound_def)
  have h: "held (eg E) xs" "3 \<le> gnext (eg E)" "bounded (eg E)" "fixed_part (eg E) ts"
    using sh by (simp_all add: sound_shape_def)
  have Wb: "set W \<subseteq> {3..<gnext (eg E)}" by (rule forest_bounded [OF W(1) bounded_bounded_kids [OF h(3)] new])
  have live: "gLive (eg E) x \<longleftrightarrow> x \<in> set xs" if "x \<in> set W" for x
    using held_live [OF h(1,2)] Wb that by (auto simp: isTop_def)
  have WO: "set W \<inter> set xs \<subseteq> set old" using W(5) live by (auto simp: admissible_def)
  have site: "splice_site (eg E) xs p ka ko kb new old W"
    using h(1) p(1) ks old W(1,2) Wb WO by (simp add: splice_site_def)
  have ptop: "isTop p \<Longrightarrow> p = 0" using p(1) held_not_top [OF h(1)] by auto
  have kb: "set (kids_of (eg E) p) \<subseteq> {3..<gnext (eg E)}" by (rule kids_bounded [OF sh]) (use p(1) in \<open>auto simp: isTop_def\<close>)
  obtain fs where fs: "xs = fs @ ts" "forest (enodes E) (gforms (eg E)) fs" using fixed_split [OF h(1,4)] .
  have oldxs: "set old \<subseteq> set xs" and oldts: "set old \<inter> set ts = {}" and pold: "p \<notin> set old"
    using old_below [OF h(1,4) p ks old] by auto
  have pW: "p \<notin> set W" using pold WO p(1) Wb by auto
  let ?ks' = "ka @ new @ kb"
  obtain N' b where run: "opt_fold (place_new p) new
      (on_graph (set_kids p ?ks') (fold take_out (filter (\<lambda>x. x \<notin> seen c) old)
        (if p = 0 then E\<lparr>ewasTop := ewasTop E \<union> set ko\<rparr> else E))) =
      Some (placed_editor p ?ks' ko old c N' b E)" and sp: "spliced_nodes (enodes E) p ?ks' new old W N'"
    using placed_editor_run [OF ks lo W(1,2) Wb pW W(3)] by blast
  define E4 where "E4 = placed_editor p ?ks' ko old c N' b E"
  have sg: "spliced_graph (eg E) p ?ks' new old W (eg E4)"
    unfolding E4_def using sp ptop by (intro placed_editor_graph) (auto simp: isTop_def)
  have E4: "enodes E4 = N'" "eextra E4 = eextra E" "etypedBy E4 = etypedBy E" "efirst E4 = efirst E" "euse E4 = euse E"
    "epending E4 = epending E" "gnext (eg E4) = gnext (eg E)"
    "eremoved E4 = eremoved E @ filter (uses_or_types E) (filter (\<lambda>x. x \<notin> seen c) old)"
    by (simp_all add: E4_def)
  have pend: "epending E4 = {}" using sh E4(6) by (simp add: sound_shape_def)
  obtain xs' where xs': "sound_shape E4 xs' ts" "set xs' = (set xs - set old) \<union> set W"
    by (rule shape_splice [OF sh site p(2) sg pend kb new])
  have err: "edge_error E (set old) (set W) x = None" if "x \<in> set W - set xs" for x
    using edges that live unfolding first_error_None W(3,4) by auto
  have tgt: "sound_targets E4 xs'"
    by (rule targets_splice [OF snd oldxs xs'(2) WO _ _ _ err Wb])
      (use oldts fs(1) spliced_fields [OF sp] W(3) in \<open>auto simp: E4\<close>)
  have ix: "sound_index E4 (set xs) ts"
    by (rule index_splice [where E = E]) (use snd spliced_fields [OF sp] in \<open>auto simp: E4 sound_def\<close>)
  obtain E5 given where adm: "fold admit (fresh c) (E4, []) = (E5, given)" by force
  note ad = admits [OF adm]
  have g: "grows E4 E5" using ad by simp
  have sh5: "sound_shape E5 xs' ts" and tgt5: "sound_targets E5 xs'" and ix5: "sound_index E5 (set xs) ts"
    using grows_shape [OF g xs'(1)] grows_targets [OF g tgt] grows_index [OF g ix] by simp_all
  have fresh5: "sound_index E5 (set (fresh c)) ts" unfolding sound_index_def
  proof (intro ballI conjI allI impI)
    fix x assume x: "x \<in> set (fresh c)"
    then have xW: "x \<in> set W - set xs" using live W(4) by auto
    show "x \<in> set (usesOf E5 r)" if "r \<in> set (grefs (enodes E5 x))" for r
    proof -
      have "r \<in> set (grefs (enodes E4 x))" using that same_shapeD(3) [OF growsD(1) [OF g]] by simp
      then have "x \<in> set (eextra E5 r)" using ad x by blast
      then show ?thesis by (simp add: usesOf_def Let_def)
    qed
    show "t \<in> set ts \<or> x \<in> set (etypedBy E5 t)" if "gtype (enodes E5 x) = Some t" for t
    proof (cases "t \<in> set ts")
      case False
      have t4: "gtype (enodes E4 x) = Some t" by (rule grows_type [OF g that])
      then have t: "gtype (enodes E x) = Some t" using spliced_fields(2) [OF sp] by (simp add: E4(1))
      have "3 \<le> x" "x < gnext (eg E)" using xW Wb by auto
      then have "3 \<le> t" using boundedD(3) [OF h(3) _ _ t] by simp
      moreover have "\<not> not_held E (set old) (set W) t" by (rule edge_error_None(2) [OF err [OF xW] t])
      ultimately have "t \<in> set xs'"
        using held_live [OF h(1,2), of t] sh xs'(2) by (auto simp: not_held_def sound_shape_def isTop_def)
      then have "inFile (eg E4) t" using xs'(1) False by (intro file_section [of "eg E4" xs' ts]) (simp_all add: sound_shape_def)
      with ad x t4 show ?thesis by blast
    qed simp
  qed
  have "set xs' \<subseteq> set xs \<union> set (fresh c)" using xs'(2) live W(4) by auto
  then have snd5: "sound E5 xs' ts"
    using sh5 tgt5 ix5 fresh5 unfolding sound_def sound_index_def by blast
  have parts: "take lo (kids_of (eg E) p) = ka" "drop hi (kids_of (eg E) p) = kb"
      "take (hi - lo) (drop lo (kids_of (eg E) p)) = ko"
    using ks lo by simp_all
  have "\<exists>E'. apply_splice op p lo hi new old c E = Some E' \<and> grows E5 E'"
  proof (rule apply_splice_run [OF _ refl adm])
    show "opt_fold (place_new p) new (on_graph (set_kids p (take lo (kids_of (eg E) p) @ new @ drop hi (kids_of (eg E) p)))
        (fold take_out (filter (\<lambda>x. x \<notin> seen c) old)
          (if p = 0 then E\<lparr>ewasTop := ewasTop E \<union> set (take (hi - lo) (drop lo (kids_of (eg E) p)))\<rparr> else E))) = Some E4"
      unfolding parts E4_def by (rule run)
    show "gLive (eg E5) p" if "\<not> isTop p"
    proof -
      have "p \<in> set xs'" using p(1) pold that xs'(2) by (auto simp: isTop_def)
      then show ?thesis using held_live [of "eg E5" xs'] sh5 by (simp add: sound_shape_def)
    qed
  qed (use ptop in auto)
  then obtain E' where "apply_splice op p lo hi new old c E = Some E'" "grows E5 E'" by blast
  moreover have "sound E' xs' ts"
    using snd5 grows_shape grows_targets grows_index \<open>grows E5 E'\<close> unfolding sound_def by blast
  moreover have "gnext (eg E') = gnext (eg E)" using growsD(2) [OF \<open>grows E5 E'\<close>] growsD(2) [OF g] E4(7) by simp
  ultimately show ?thesis by blast
qed

subsection \<open>The operations\<close>

text \<open>An operation's outcome: an answer; the invariant; no change when it is refused.\<close>

definition keeps :: "editor \<Rightarrow> (edit_error option \<times> editor) option \<Rightarrow> nat list \<Rightarrow> bool" where
  "keeps E out ts \<longleftrightarrow>
     (\<exists>e E' xs'. out = Some (e, E') \<and> sound E' xs' ts \<and> gnext (eg E) \<le> gnext (eg E') \<and> (e \<noteq> None \<longrightarrow> E' = E))"

lemma kids_walk:
  assumes "held G xs" "3 \<le> gnext G" "p = 0 \<or> p \<in> set xs"
  obtains ys where "forest (gnodes G) (kids_of G p) ys" "length ys \<le> gnext G + 1"
proof -
  have f: "forest (gnodes G) (Sections G) xs" and len: "length xs \<le> gnext G"
    using assms(1) held_length [OF assms(1,2)] by (simp_all add: held_def)
  show thesis
  proof (cases "p = 0")
    case True
    obtain ys zs where "xs = ys @ zs" "forest (gnodes G) (gforms G) ys"
      using f unfolding Sections_def forest_append by blast
    with True len that [of ys] show thesis by (simp add: kids_of_def)
  next
    case False
    then have p: "p \<in> set xs" using assms(3) by simp
    obtain as ys bs where "xs = as @ p # ys @ bs" "forest (gnodes G) (gkids (gnodes G p)) ys"
      using forest_context [OF f p] by blast
    with len that [of ys] held_not_top [OF assms(1) p] show thesis by (simp add: kids_of_node)
  qed
qed

lemma refused_keeps: "sound E xs ts \<Longrightarrow> keeps E (Some (Some e, E)) ts"
  by (auto simp: keeps_def)

lemma gsplice_keeps:
  assumes snd: "sound E xs ts" and p: "isTop p \<or> p \<in> set xs" and lo: "lo \<le> hi" "hi \<le> length (kids_of (eg E) p)"
    and new: "set new \<subseteq> {3..<gnext (eg E)}"
  shows "keeps E (gsplice op p lo hi new E) ts"
proof -
  let ?ks = "kids_of (eg E) p"
  let ?pl = "if lo = hi then insertPlace E p lo else place_at E p lo"
  have sh: "sound_shape E xs ts" using snd by (simp add: sound_def)
  have h: "held (eg E) xs" "3 \<le> gnext (eg E)" "bounded (eg E)" "fixed_part (eg E) ts"
    using sh by (simp_all add: sound_shape_def)
  show ?thesis
  proof (cases "place_error (enodes E) p ?ks lo hi new ?pl")
    case (Some e)
    then show ?thesis using refused_keeps [OF snd] by (simp add: gsplice_def spliceAs_def Let_def)
  next
    case None
    then have pts: "p \<noteq> 1" "p \<noteq> 2" "p \<notin> set ts" using sections_refused [OF sh, where p = p and ks = "?ks" and lo = lo and hi = hi and new = new] None by auto
    then have p0: "p = 0 \<or> p \<in> set xs" using p by (auto simp: isTop_def)
    let ?ka = "take lo ?ks" and ?ko = "take (hi - lo) (drop lo ?ks)" and ?kb = "drop hi ?ks"
    have ks: "?ks = ?ka @ ?ko @ ?kb"
      using lo by (metis append_assoc append_take_drop_id drop_drop le_add_diff_inverse2)
    have len: "lo = length ?ka" "hi = lo + length ?ko" using lo by simp_all
    obtain ys where ys: "forest (enodes E) ?ks ys" "length ys \<le> gnext (eg E) + 1" using kids_walk [OF h(1,2) p0] .
    obtain old where old: "forest (enodes E) ?ko old" "length old \<le> gnext (eg E) + 1"
    proof -
      have "forest (enodes E) (?ka @ ?ko @ ?kb) ys" using ys(1) ks by simp
      then obtain ya yo yb where "ys = ya @ yo @ yb" "forest (enodes E) ?ko yo" unfolding forest_append by blast
      with ys(2) that [of yo] show thesis by simp
    qed
    then have walk: "gWalk (eg E) ?ko = Some old" unfolding gWalk_def by (rule walk_forest)
    obtain c where c: "screen_all (eg E) (set old) new = Some c"
      using screen_all_ends [OF bounded_bounded_kids [OF h(3)] new] by blast
    have run: "gsplice op p lo hi new E = (case refused c of Some err \<Rightarrow> Some (Some err, E)
      | None \<Rightarrow> (case first_error (edge_error E (set old) (seen c)) (fresh c) of
            Some err \<Rightarrow> Some (Some err, E)
          | None \<Rightarrow> map_option (Pair None) (apply_splice op p lo hi new old c E)))"
      by (simp add: gsplice_def spliceAs_def None walk c)
    show ?thesis
    proof (cases "refused c")
      case (Some e)
      then show ?thesis using refused_keeps [OF snd] by (simp add: run)
    next
      case r: None
      obtain W where W: "forest (enodes E) new W" "distinct W" "seen c = set W"
          "fresh c = filter (\<lambda>x. \<not> gLive (eg E) x) W" "\<forall>x \<in> set W. admissible (eg E) (set old) x"
        using screen_all_ok [OF c r] by blast
      show ?thesis
      proof (cases "first_error (edge_error E (set old) (seen c)) (fresh c)")
        case (Some e)
        with r show ?thesis using refused_keeps [OF snd] by (simp add: run)
      next
        case e: None
        from apply_sound [OF snd p0 pts(3) ks len new old(1) W e] obtain E' xs' where
          "apply_splice op p lo hi new old c E = Some E'" "sound E' xs' ts" "gnext (eg E') = gnext (eg E)" by blast
        with r e show ?thesis by (auto simp: run keeps_def)
      qed
    qed
  qed
qed

end
