(* ===== verification/GraphRuns.thy ===== *)
theory GraphRuns
  imports GraphSound
begin

text \<open>
  Any sequence of edits a caller makes: new nodes, the operations of the editor, a settled edit.
  The steps are one interface, whose client is every invariant of the editor.
\<close>

subsection \<open>Steps and what they keep\<close>

fun after_all :: "('o \<Rightarrow> 's \<Rightarrow> 's option) \<Rightarrow> 'o list \<Rightarrow> 's \<Rightarrow> 's option" where
  "after_all go [] s = Some s"
| "after_all go (x # xs) s = Option.bind (go x s) (after_all go xs)"

fun allowed_run :: "('o \<Rightarrow> 's \<Rightarrow> bool) \<Rightarrow> ('o \<Rightarrow> 's \<Rightarrow> 's option) \<Rightarrow> 'o list \<Rightarrow> 's \<Rightarrow> bool" where
  "allowed_run may go [] s = True"
| "allowed_run may go (x # xs) s =
     (may x s \<and> (case go x s of None \<Rightarrow> True | Some s' \<Rightarrow> allowed_run may go xs s'))"

locale kept_steps =
  fixes inv :: "'s \<Rightarrow> bool" and may :: "'o \<Rightarrow> 's \<Rightarrow> bool" and go :: "'o \<Rightarrow> 's \<Rightarrow> 's option"
  assumes step_kept: "inv s \<Longrightarrow> may x s \<Longrightarrow> \<exists>s'. go x s = Some s' \<and> inv s'"
begin

lemma after_all_kept: "inv s \<Longrightarrow> allowed_run may go xs s \<Longrightarrow> \<exists>s'. after_all go xs s = Some s' \<and> inv s'"
proof (induction xs arbitrary: s)
  case (Cons x xs)
  from step_kept [OF Cons.prems(1)] Cons.prems(2) obtain s' where s': "go x s = Some s'" "inv s'" by auto
  with Cons.prems(2) have "allowed_run may go xs s'" by simp
  from Cons.IH [OF s'(2) this] s'(1) show ?case by simp
qed simp

end

subsection \<open>The edits\<close>

datatype gedit =
    GNew bytes bool "nat list" "nat list" "nat option"
  | GDelete nat
  | GReplace nat "nat list"
  | GBefore nat "nat list"
  | GAfter nat "nat list"
  | GRetarget nat int nat
  | GSettle

fun do_edit :: "gedit \<Rightarrow> editor \<Rightarrow> editor option" where
  "do_edit (GNew a l ks rs t) E = Some (on_graph (snd \<circ> NewNode a l ks rs t) E)"
| "do_edit (GDelete n) E = map_option snd (gDelete n E)"
| "do_edit (GReplace n new) E = map_option snd (gReplace n new E)"
| "do_edit (GBefore n new) E = map_option snd (gInsertBefore n new E)"
| "do_edit (GAfter n new) E = map_option snd (gInsertAfter n new E)"
| "do_edit (GRetarget use i to) E = Some (snd (Retarget use i to E))"
| "do_edit GSettle E = Some (Settle E)"

text \<open>An edit names nodes there are; one edit is settled when it left no edge dangling.\<close>

fun edit_ok :: "gedit \<Rightarrow> editor \<Rightarrow> bool" where
  "edit_ok (GNew a l ks rs t) E =
     (\<forall>n \<in> set ks \<union> set rs \<union> set_option t. 3 \<le> n \<and> n < gnext (eg E))"
| "edit_ok (GDelete n) E = (3 \<le> n \<and> n < gnext (eg E))"
| "edit_ok (GReplace n new) E = (\<forall>m \<in> set (n # new). 3 \<le> m \<and> m < gnext (eg E))"
| "edit_ok (GBefore n new) E = (\<forall>m \<in> set (n # new). 3 \<le> m \<and> m < gnext (eg E))"
| "edit_ok (GAfter n new) E = (\<forall>m \<in> set (n # new). 3 \<le> m \<and> m < gnext (eg E))"
| "edit_ok (GRetarget use i to) E = (\<forall>m \<in> {use, to}. 3 \<le> m \<and> m < gnext (eg E))"
| "edit_ok GSettle E = (Dangling E = [])"

subsection \<open>The operations keep the invariant\<close>

lemma keeps_at_index:
  assumes "sound E xs ts" "3 \<le> n" "set new \<subseteq> {3..<gnext (eg E)}"
    and "\<And>p i. index (eg E) n = Some (p, i) \<Longrightarrow> lo i \<le> hi i \<and> hi i \<le> i + 1"
  shows "keeps E (case index (eg E) n of None \<Rightarrow> Some (Some (NotInGraph n), E)
    | Some (p, i) \<Rightarrow> gsplice op p (lo i) (hi i) new E) ts"
proof (cases "index (eg E) n")
  case None
  then show ?thesis using refused_keeps [OF assms(1)] by simp
next
  case (Some pi)
  obtain p i where pi: "pi = (p, i)" by force
  have "sound_shape E xs ts" using assms(1) by (simp add: sound_def)
  note site = index_site [OF this assms(2) Some [unfolded pi]]
  have "lo i \<le> hi i" "hi i \<le> length (kids_of (eg E) p)" using assms(4) [OF Some [unfolded pi]] site(2) by simp_all
  from gsplice_keeps [OF assms(1) site(1) this assms(3)] Some pi show ?thesis by simp
qed

lemma bounded_refs:
  assumes "bounded G" "gnext G' = gnext G" "\<And>n. gkids (gnodes G' n) = gkids (gnodes G n)"
    "\<And>n. gtype (gnodes G' n) = gtype (gnodes G n)" "\<And>n. set (grefs (gnodes G' n)) \<subseteq> insert to (set (grefs (gnodes G n)))"
    "3 \<le> to" "to < gnext G"
  shows "bounded G'"
  unfolding bounded_def assms(2-4)
proof (intro allI impI conjI)
  fix n assume n: "3 \<le> n" "n < gnext G"
  note b = boundedD [OF assms(1) n]
  show "set (gkids (gnodes G n)) \<subseteq> {3..<gnext G}" by (rule b(1))
  have "insert to (set (grefs (gnodes G n))) \<subseteq> {3..<gnext G}" using b(2) assms(6,7) by simp
  with assms(5) [of n] show "set (grefs (gnodes G' n)) \<subseteq> {3..<gnext G}" by (rule subset_trans)
  show "t \<in> {3..<gnext G}" if "gtype (gnodes G n) = Some t" for t by (rule b(3) [OF that])
qed

lemma retarget_sound:
  assumes snd: "sound E xs ts" and b: "3 \<le> use" "use < gnext (eg E)" "3 \<le> to" "to < gnext (eg E)"
  shows "sound (snd (Retarget use i to E)) xs ts"
proof (cases "fst (Retarget use i to E) = None")
  case False
  then have "snd (Retarget use i to E) = E" by (auto simp: Retarget_def Let_def split: if_splits)
  with snd show ?thesis by simp
next
  case True
  let ?E = "snd (Retarget use i to E)"
  have live: "gLive (eg E) use" "gLive (eg E) to" using True by (auto simp: Retarget_def Let_def split: if_splits)
  have N: "enodes ?E = (enodes E)(use := (enodes E use)\<lparr>grefs := (grefs (enodes E use))[nat i := to]\<rparr>)"
    and fields: "gnext (eg ?E) = gnext (eg E)" "gforms (eg ?E) = gforms (eg E)" "gtypes (eg ?E) = gtypes (eg E)"
    "gexterns (eg ?E) = gexterns (eg E)" "efirst ?E = efirst E" "euse ?E = euse E" "etypedBy ?E = etypedBy E"
    "eremoved ?E = eremoved E" "epending ?E = epending E" "eextra ?E = (eextra E)(to := eextra E to @ [use])"
    using True by (auto simp: Retarget_def Let_def on_graph_def put_def split: if_splits)
  have sh: "sound_shape E xs ts" using snd by (simp add: sound_def)
  have h: "held (eg E) xs" "3 \<le> gnext (eg E)" "bounded (eg E)" using sh by (simp_all add: sound_shape_def)
  have xs: "use \<in> set xs" "to \<in> set xs" using live held_live [OF h(1,2)] b by (auto simp: isTop_def)
  have refs: "set (grefs (enodes ?E x)) \<subseteq> insert to (set (grefs (enodes E x)))" for x
    by (auto simp: N dest: set_update_subset_insert [THEN subsetD])
  have others: "gkids (enodes ?E x) = gkids (enodes E x)" "gup (enodes ?E x) = gup (enodes E x)"
      "gtype (enodes ?E x) = gtype (enodes E x)" "gid (enodes ?E x) = gid (enodes E x)"
      "glist (enodes ?E x) = glist (enodes E x)" "gatom (enodes ?E x) = gatom (enodes E x)" for x
    by (simp_all add: N)
  have "held (eg ?E) xs"
    using h(1) forest_cong [of "enodes E" "Sections (eg E)" xs "enodes ?E"]
    by (simp add: held_def Sections_def kids_under_def tops_under_def outside_def others fields)
  moreover have "bounded (eg ?E)"
    by (rule bounded_refs [OF h(3) fields(1) others(1,3) refs b(3,4)])
  moreover have "fixed_part (eg ?E) ts"
    using sh forest_cong [of "enodes E" "gtypes (eg E) @ gexterns (eg E)" ts "enodes ?E"]
    by (simp add: fixed_part_def sound_shape_def others fields)
  moreover have "quiet (enodes ?E) ts"
  proof (rule quiet_cong)
    show "quiet (enodes E) ts" using sh by (simp add: sound_shape_def)
    show "gHead (enodes ?E) x = gHead (enodes E) x" for x by (rule gHead_cong) (simp_all only: others)
  qed
  moreover have "epending ?E = {}" "\<forall>i. isTop i \<longrightarrow> \<not> glist (enodes ?E i)" "3 \<le> gnext (eg ?E)"
    using sh unfolding sound_shape_def others fields by blast+
  ultimately have shape: "sound_shape ?E xs ts" by (simp only: sound_shape_def)
  have tgt: "sound_targets ?E xs"
    using snd refs xs(2) unfolding sound_def sound_targets_def others fields by blast
  have uses: "set (usesOf E r) \<subseteq> set (usesOf ?E r)" for r by (auto simp: usesOf_def Let_def others fields)
  have new: "use \<in> set (usesOf ?E to)" by (simp add: usesOf_def Let_def fields)
  have same: "grefs (enodes ?E x) = grefs (enodes E x)" if "x \<noteq> use" for x using that by (simp add: N)
  have "x \<in> set (usesOf ?E r)" if "x \<in> set xs" "r \<in> set (grefs (enodes ?E x))" for x r
  proof (cases "x = use \<and> r = to")
    case False
    then have "r \<in> set (grefs (enodes E x))" using that(2) refs same by auto
    then show ?thesis using snd that(1) uses by (auto simp: sound_def sound_index_def)
  qed (use new in simp)
  then have "sound_index ?E (set xs) ts"
    using snd unfolding sound_def sound_index_def others fields by blast
  with shape tgt show ?thesis by (simp add: sound_def)
qed

lemma forest_new: "forest N ns xs \<Longrightarrow> n \<notin> set xs \<Longrightarrow> forest (N(n := k)) ns xs"
  by (rule forest_cong [of N]) auto

lemma quiet_new:
  assumes "quiet N ts" "n \<notin> set ts" "\<And>x. x \<in> set ts \<Longrightarrow> n \<notin> set (gkids (N x))"
  shows "quiet (N(n := k)) ts"
proof (rule quiet_cong [OF assms(1)])
  fix x assume x: "x \<in> set ts"
  then have "x \<noteq> n" "gkids (N x) \<noteq> [] \<Longrightarrow> hd (gkids (N x)) \<noteq> n" using assms(2,3) hd_in_set by force+
  then show "gHead (N(n := k)) x = gHead N x" by (cases "gkids (N x)") (simp_all add: gHead_def)
qed

lemma new_sound:
  assumes snd: "sound E xs ts" and ok: "edit_ok (GNew a l ks rs t) E"
  shows "sound (on_graph (snd \<circ> NewNode a l ks rs t) E) xs ts"
proof -
  let ?n = "gnext (eg E)" and ?E = "on_graph (snd \<circ> NewNode a l ks rs t) E"
  let ?k = "\<lparr>gid = 0, gatom = a, gkids = ks, grefs = rs, gtype = t, glist = l, gup = None\<rparr>"
  have N: "enodes ?E = (enodes E)(?n := ?k)"
    and fields: "gnext (eg ?E) = ?n + 1" "gforms (eg ?E) = gforms (eg E)" "gtypes (eg ?E) = gtypes (eg E)"
    "gexterns (eg ?E) = gexterns (eg E)" "efirst ?E = efirst E" "euse ?E = euse E" "etypedBy ?E = etypedBy E"
    "eremoved ?E = eremoved E" "epending ?E = epending E" "eextra ?E = eextra E"
    by (simp_all add: on_graph_def NewNode_def)
  have sh: "sound_shape E xs ts" using snd by (simp add: sound_def)
  have h: "held (eg E) xs" "3 \<le> ?n" "bounded (eg E)" "fixed_part (eg E) ts" using sh by (simp_all add: sound_shape_def)
  obtain fs where fs: "xs = fs @ ts" using fixed_split [OF h(1,4)] by blast
  have f: "forest (enodes E) (Sections (eg E)) xs" using h(1) by (simp add: held_def)
  have xs: "set xs \<subseteq> {3..<?n}" using h(1) by (simp add: held_def)
  then have n: "?n \<notin> set xs" "?n \<notin> set ts" "\<not> isTop ?n" using fs h(2) by (auto simp: isTop_def)
  have same: "enodes ?E x = enodes E x" if "x \<noteq> ?n" for x using that by (simp add: N)
  have in_xs: "enodes ?E x = enodes E x" if "x \<in> set xs" for x using that n(1) by (intro same) auto
  have kids: "k \<in> set xs" if "x \<in> set xs" "k \<in> set (gkids (enodes E x))" for x k
    using forest_kids [OF f that(1)] that(2) by blast
  have "held (eg ?E) xs" unfolding held_def
  proof (intro conjI)
    have "Sections (eg ?E) = Sections (eg E)" by (simp add: Sections_def fields)
    then show "forest (enodes ?E) (Sections (eg ?E)) xs" using forest_new [OF f n(1)] by (simp add: N)
    show "distinct xs" "set xs \<subseteq> {3..<gnext (eg ?E)}" using h(1) by (auto simp: held_def fields)
    show "kids_under (enodes ?E) xs"
      using h(1) in_xs kids unfolding held_def kids_under_def by metis
    have "set (gforms (eg E)) \<union> set (gtypes (eg E)) \<union> set (gexterns (eg E)) \<subseteq> set xs"
      using forest_tops [OF f] by (auto simp: Sections_def)
    then show "tops_under (eg ?E)" using h(1) in_xs by (auto simp: held_def tops_under_def fields)
    show "outside (enodes ?E) xs" using h(1) by (auto simp: held_def outside_def N)
  qed
  moreover have "bounded (eg ?E)" unfolding bounded_def fields
  proof (intro allI impI)
    fix m assume m: "3 \<le> m" "m < ?n + 1"
    show "set (gkids (enodes ?E m)) \<subseteq> {3..<?n + 1} \<and> set (grefs (enodes ?E m)) \<subseteq> {3..<?n + 1} \<and>
        (\<forall>u. gtype (enodes ?E m) = Some u \<longrightarrow> u \<in> {3..<?n + 1})"
    proof (cases "m = ?n")
      case True
      have "v \<in> {3..<?n + 1}" if "v \<in> set ks \<union> set rs \<union> set_option t" for v
        using ok that by (auto simp: less_Suc_eq)
      with True show ?thesis by (auto simp: N)
    next
      case False
      have "{3..<?n} \<subseteq> {3..<?n + 1}" by auto
      moreover have "m < ?n" using False m(2) by simp
      note b = boundedD [OF h(3) m(1) this]
      ultimately show ?thesis unfolding same [OF False] using b by blast
    qed
  qed
  moreover have "fixed_part (eg ?E) ts"
    using forest_new [OF _ n(2)] h(4) by (simp add: fixed_part_def fields N)
  moreover have "quiet (enodes ?E) ts" unfolding N
    by (rule quiet_new) (use sh n kids fs in \<open>auto simp: sound_shape_def\<close>)
  moreover have "\<forall>i. isTop i \<longrightarrow> \<not> glist (enodes ?E i)" using sh n(3) by (auto simp: sound_shape_def N)
  ultimately have shape: "sound_shape ?E xs ts" using sh by (simp add: sound_shape_def fields)
  have tgt: "sound_targets ?E xs"
    using snd unfolding sound_def sound_targets_def fields by (simp add: in_xs)
  have "usesOf ?E r = usesOf E r" if "r \<noteq> ?n" for r
    by (rule usesOf_cong) (simp_all add: same [OF that] fields)
  moreover have "r \<noteq> ?n" if "x \<in> set xs" "r \<in> set (grefs (enodes E x))" for x r
    using boundedD(2) [OF h(3), of x] that xs by fastforce
  ultimately have "sound_index ?E (set xs) ts"
    using snd unfolding sound_def sound_index_def fields by (metis in_xs)
  with shape tgt show ?thesis by (simp add: sound_def)
qed

subsection \<open>Dangling edges are recorded\<close>

lemma sound_edge_recorded:
  assumes "sound E xs ts" "x \<in> set xs"
  shows "r \<in> set (grefs (enodes E x)) \<Longrightarrow> gLive (eg E) r \<or> \<lparr>dUse = x, dTarget = r, dTyped = False\<rparr> \<in> set (Dangling E)"
    and "gtype (enodes E x) = Some t \<Longrightarrow> gLive (eg E) t \<or> \<lparr>dUse = x, dTarget = t, dTyped = True\<rparr> \<in> set (Dangling E)"
proof -
  have h: "held (eg E) xs" "3 \<le> gnext (eg E)" "fixed_part (eg E) ts"
    using assms(1) by (simp_all add: sound_def sound_shape_def)
  have live: "gLive (eg E) x" using held_live [OF h(1,2)] assms(2) by simp
  show "gLive (eg E) r \<or> \<lparr>dUse = x, dTarget = r, dTyped = False\<rparr> \<in> set (Dangling E)" if r: "r \<in> set (grefs (enodes E x))"
  proof (cases "gLive (eg E) r")
    case False
    then have "r \<notin> set xs" using held_live [OF h(1,2)] by simp
    then have "r \<in> set (eremoved E)" "x \<in> set (usesOf E r)"
      using assms r by (auto simp: sound_def sound_targets_def sound_index_def)
    with False live r show ?thesis by (auto simp: Dangling_def Uses_def refersTo_def image_iff intro!: bexI [of _ r])
  qed simp
  show "gLive (eg E) t \<or> \<lparr>dUse = x, dTarget = t, dTyped = True\<rparr> \<in> set (Dangling E)" if t: "gtype (enodes E x) = Some t"
  proof (cases "gLive (eg E) t")
    case False
    obtain fs where "xs = fs @ ts" using fixed_split [OF h(1,3)] by blast
    then have "t \<notin> set xs" "t \<notin> set ts" using held_live [OF h(1,2), of t] False by auto
    then have "t \<in> set (eremoved E)" "x \<in> set (etypedBy E t)"
      using assms t by (auto simp: sound_def sound_targets_def sound_index_def)
    with False live t show ?thesis by (auto simp: Dangling_def image_iff intro!: bexI [of _ t])
  qed simp
qed

lemma settle_sound:
  assumes snd: "sound E xs ts" and none: "Dangling E = []"
  shows "sound (Settle E) xs ts"
proof -
  have h: "held (eg E) xs" "3 \<le> gnext (eg E)" "bounded (eg E)"
    using snd by (simp_all add: sound_def sound_shape_def)
  have xs: "set xs \<subseteq> {3..<gnext (eg E)}" using h(1) by (simp add: held_def)
  have live: "t \<in> set xs" if "gLive (eg E) t" "3 \<le> t" for t using held_live [OF h(1,2)] that by (auto simp: isTop_def)
  have "r \<in> set xs" if "x \<in> set xs" "r \<in> set (grefs (enodes E x))" for x r
  proof -
    have "3 \<le> x" "x < gnext (eg E)" using that(1) xs by auto
    from boundedD(2) [OF h(3) this] that(2) have "3 \<le> r" by auto
    with sound_edge_recorded(1) [OF snd that] none live show ?thesis by simp
  qed
  moreover have "t \<in> set xs" if "x \<in> set xs" "gtype (enodes E x) = Some t" for x t
  proof -
    have "3 \<le> x" "x < gnext (eg E)" using that(1) xs by auto
    from boundedD(3) [OF h(3) this that(2)] have "3 \<le> t" by simp
    with sound_edge_recorded(2) [OF snd that] none live show ?thesis by simp
  qed
  moreover have same: "enodes (Settle E) = enodes E" by (simp add: Settle_def)
  ultimately have "sound_targets (Settle E) xs" unfolding sound_targets_def same by blast
  moreover have "usesOf (Settle E) r = usesOf E r" for r by (rule usesOf_cong) (simp_all add: Settle_def)
  then have "sound_index (Settle E) (set xs) ts" using snd by (simp add: sound_def sound_index_def) (simp add: Settle_def)
  moreover have "sound_shape (Settle E) xs ts" using snd by (simp add: sound_def sound_shape_def Settle_def)
  ultimately show ?thesis by (simp add: sound_def)
qed

lemma keeps_map_snd: "keeps E out ts \<Longrightarrow> \<exists>E' xs'. map_option snd out = Some E' \<and> sound E' xs' ts"
  by (auto simp: keeps_def)

lemma do_edit_sound:
  assumes "sound E xs ts" "edit_ok x E"
  shows "\<exists>E' xs'. do_edit x E = Some E' \<and> sound E' xs' ts"
proof (cases x)
  case (GNew a l ks rs t)
  have "sound (on_graph (snd \<circ> NewNode a l ks rs t) E) xs ts"
    by (rule new_sound [OF assms(1)]) (use assms(2) GNew in simp)
  then show ?thesis unfolding GNew do_edit.simps by blast
next
  case (GDelete n)
  have "keeps E (gDelete n E) ts"
    unfolding gDelete_def using assms GDelete
    by (intro keeps_at_index [where lo = "\<lambda>i. i" and hi = "\<lambda>i. i + 1"]) simp_all
  then show ?thesis using keeps_map_snd GDelete by simp
next
  case (GReplace n new)
  have "keeps E (gReplace n new E) ts"
    unfolding gReplace_def using assms GReplace
    by (intro keeps_at_index [where lo = "\<lambda>i. i" and hi = "\<lambda>i. i + 1"]) (auto simp: subset_iff)
  then show ?thesis using keeps_map_snd GReplace by simp
next
  case (GBefore n new)
  have "keeps E (gInsertBefore n new E) ts"
    unfolding gInsertBefore_def using assms GBefore
    by (intro keeps_at_index [where lo = "\<lambda>i. i" and hi = "\<lambda>i. i"]) (auto simp: subset_iff)
  then show ?thesis using keeps_map_snd GBefore by simp
next
  case (GAfter n new)
  have "keeps E (gInsertAfter n new E) ts"
    unfolding gInsertAfter_def using assms GAfter
    by (intro keeps_at_index [where lo = "\<lambda>i. i + 1" and hi = "\<lambda>i. i + 1"]) (auto simp: subset_iff)
  then show ?thesis using keeps_map_snd GAfter by simp
next
  case (GRetarget use i to)
  with retarget_sound [OF assms(1)] assms(2) show ?thesis by auto
next
  case GSettle
  with settle_sound [OF assms(1)] assms(2) show ?thesis by auto
qed

interpretation edits: kept_steps "\<lambda>E. \<exists>xs. sound E xs ts" edit_ok do_edit for ts
  by unfold_locales (use do_edit_sound in blast)

end
