(* ===== verification/GraphIndex.thy ===== *)
theory GraphIndex
  imports GraphRuns
begin

text \<open>
  \<open>NewEditor\<close>: the containers of a graph's nodes, and the index of its refers edges by a
  counting sort on the target's id, against the edges as they stand in the graph.
\<close>

subsection \<open>Counting sort\<close>

definition below :: "nat list \<Rightarrow> nat \<Rightarrow> nat" where
  "below ks i = length (filter (\<lambda>k. k < i) ks)"

lemma below_0 [simp]: "below ks 0 = 0"
  by (simp add: below_def)

lemma below_Suc: "below ks (Suc i) = below ks i + count_list ks i"
  by (induction ks) (auto simp: below_def less_Suc_eq)

lemma below_mono: "i \<le> j \<Longrightarrow> below ks i \<le> below ks j"
  by (induction j) (auto simp: below_Suc le_Suc_eq)

lemma below_le: "below ks i \<le> length ks"
  by (simp add: below_def)

lemma length_running [simp]: "length (running acc xs) = length xs"
  by (induction acc xs rule: running.induct) simp_all

lemma running_nth: "i < length xs \<Longrightarrow> running acc xs ! i = acc + sum_list (take (Suc i) xs)"
proof (induction acc xs arbitrary: i rule: running.induct)
  case (2 acc x xs)
  then show ?case by (cases i) simp_all
qed simp

text \<open>Counts, each one place up, summed from the left.\<close>

definition counts_of :: "nat list \<Rightarrow> nat list \<Rightarrow> bool" where
  "counts_of ks cs \<longleftrightarrow> cs ! 0 = 0 \<and> (\<forall>i. Suc i < length cs \<longrightarrow> cs ! Suc i = count_list ks i)"

lemma running_counts:
  "counts_of ks cs \<Longrightarrow> i < length cs \<Longrightarrow> running 0 cs ! i = below ks i"
proof (induction i)
  case 0
  then show ?case by (cases cs) (simp_all add: counts_of_def running_nth)
next
  case (Suc i)
  have "sum_list (take (Suc (Suc i)) cs) = sum_list (take (Suc i) cs) + cs ! Suc i"
    using Suc.prems(2) by (simp add: take_Suc_conv_app_nth)
  with Suc show ?case by (simp add: running_nth below_Suc counts_of_def)
qed

lemma counts_bump:
  assumes "counts_of ks cs" "Suc k < length cs"
  shows "bump (Suc k) cs = Some (cs[Suc k := cs ! Suc k + 1])" "counts_of (ks @ [k]) (cs[Suc k := cs ! Suc k + 1])"
  using assms by (auto simp: bump_def counts_of_def nth_list_update)

text \<open>The places taken: each key's are between its sum and the next.\<close>

definition sorted_so_far :: "nat list \<Rightarrow> nat list \<Rightarrow> (nat \<times> nat) list \<Rightarrow> nat list \<Rightarrow> nat list \<Rightarrow> bool" where
  "sorted_so_far all first done_es use nxt \<longleftrightarrow>
     length use = length all \<and> length nxt = length first \<and>
     (\<forall>i < length first. nxt ! i = below all i + count_list (map snd done_es) i) \<and>
     (\<forall>i. take (count_list (map snd done_es) i) (drop (below all i) use) = map fst (filter (\<lambda>e. snd e = i) done_es))"

lemma count_list_split: "all = ks @ k # ls \<Longrightarrow> count_list ks k < count_list all k"
  by simp

lemma sorted_step:
  assumes inv: "sorted_so_far all first done_es use nxt" and all: "all = map snd done_es @ k # rest" and k: "k < length first"
  shows "nxt ! k < length use" "sorted_so_far all first (done_es @ [(x, k)]) (use[nxt ! k := x]) (nxt[k := nxt ! k + 1])"
proof -
  let ?c = "count_list (map snd done_es)"
  have n: "nxt ! k = below all k + ?c k" using inv k by (simp add: sorted_so_far_def)
  have c: "?c k < count_list all k" by (rule count_list_split [OF all])
  then have hi: "nxt ! k < below all (Suc k)" using n by (simp add: below_Suc)
  with inv show len: "nxt ! k < length use" using below_le [of all "Suc k"] by (simp add: sorted_so_far_def)
  have le: "?c i \<le> count_list all i" for i unfolding all by simp
  have "take (count_list (map snd (done_es @ [(x, k)])) i) (drop (below all i) (use[nxt ! k := x])) =
      map fst (filter (\<lambda>e. snd e = i) (done_es @ [(x, k)]))" for i
  proof (cases "i = k")
    case True
    have "drop (below all k) (use[nxt ! k := x]) = (drop (below all k) use)[?c k := x]"
      using n by (simp add: drop_update_swap)
    moreover have "?c k < length (drop (below all k) use)" using len n by simp
    ultimately have "take (Suc (?c k)) (drop (below all k) (use[nxt ! k := x])) = take (?c k) (drop (below all k) use) @ [x]"
      by (simp add: take_Suc_conv_app_nth)
    with inv True show ?thesis by (simp add: sorted_so_far_def)
  next
    case False
    have "take (?c i) (drop (below all i) (use[nxt ! k := x])) = take (?c i) (drop (below all i) use)"
    proof (cases "i < k")
      case True
      have "below all i + ?c i \<le> below all (Suc i)" using le [of i] by (simp add: below_Suc)
      also have "\<dots> \<le> below all k" using True by (intro below_mono) simp
      finally have "below all i + ?c i \<le> nxt ! k" using n by simp
      then show ?thesis by (simp add: take_drop [symmetric] take_update_cancel drop_update_swap)
    next
      case False
      with \<open>i \<noteq> k\<close> have "below all (Suc k) \<le> below all i" by (intro below_mono) simp
      with hi show ?thesis by simp
    qed
    with inv False show ?thesis by (simp add: sorted_so_far_def)
  qed
  moreover have "nxt[k := nxt ! k + 1] ! i = below all i + count_list (map snd (done_es @ [(x, k)])) i"
    if "i < length first" for i
    using inv that n by (auto simp: sorted_so_far_def nth_list_update)
  ultimately show "sorted_so_far all first (done_es @ [(x, k)]) (use[nxt ! k := x]) (nxt[k := nxt ! k + 1])"
    using inv by (simp add: sorted_so_far_def)
qed

subsection \<open>The index of uses\<close>

text \<open>The edges by id, each with its target's id; and the rest.\<close>

definition keyed :: "gstore \<Rightarrow> id \<Rightarrow> (nat \<times> nat) list \<Rightarrow> (nat \<times> nat) list" where
  "keyed N m es = map (\<lambda>(x, r). (x, unat (gid (N r)))) (filter (\<lambda>(x, r). by_id N m r) es)"

lemma keyed_append [simp]: "keyed N m (es @ fs) = keyed N m es @ keyed N m fs"
  by (simp add: keyed_def)

lemma keyed_Cons [simp]:
  "keyed N m ((x, r) # es) = (if by_id N m r then [(x, unat (gid (N r)))] else []) @ keyed N m es"
  by (simp add: keyed_def)

lemma keyed_Nil [simp]: "keyed N m [] = []"
  by (simp add: keyed_def)

lemma by_id_small: "by_id N m r \<Longrightarrow> unat m + 2 < 2 ^ 32 \<Longrightarrow> unat (gid (N r) + 1) = Suc (unat (gid (N r))) \<and> unat (gid (N r)) \<le> unat m"
proof -
  assume b: "by_id N m r" and m: "unat m + 2 < 2 ^ 32"
  have le: "unat (gid (N r)) \<le> unat m" using b by (simp add: by_id_def word_le_nat_alt)
  have "unat (gid (N r)) + 1 < 2 ^ 32" using le m by linarith
  then have "unat (gid (N r) + 1) = unat (gid (N r)) + 1" by (simp add: unat_word_ariths)
  with le show ?thesis by simp
qed

lemma count_edges:
  assumes "unat m + 2 < 2 ^ 32"
  shows "counts_of (map snd (keyed N m es)) cs \<Longrightarrow> length cs = unat m + 2 \<Longrightarrow>
    \<exists>cs'. opt_fold (count_edge N m) fs cs = Some cs' \<and> counts_of (map snd (keyed N m (es @ fs))) cs' \<and> length cs' = unat m + 2"
proof (induction fs arbitrary: es cs)
  case (Cons e fs)
  obtain x r where e: "e = (x, r)" by force
  show ?case
  proof (cases "by_id N m r")
    case True
    let ?k = "unat (gid (N r))"
    note small = by_id_small [OF True assms]
    have "Suc ?k < length cs" using small Cons.prems(2) by simp
    note b = counts_bump [OF Cons.prems(1) this]
    have "counts_of (map snd (keyed N m (es @ [e]))) (cs[Suc ?k := cs ! Suc ?k + 1])" using b(2) True by (simp add: e)
    from Cons.IH [OF this] Cons.prems(2) b(1) True small show ?thesis by (simp add: e count_edge_def)
  next
    case False
    have "counts_of (map snd (keyed N m (es @ [e]))) cs" using Cons.prems(1) False by (simp add: e)
    from Cons.IH [OF this Cons.prems(2)] False show ?thesis by (simp add: e count_edge_def)
  qed
qed simp

definition rest_of :: "gstore \<Rightarrow> id \<Rightarrow> (nat \<times> nat) list \<Rightarrow> nat \<Rightarrow> nat list" where
  "rest_of N m es t = map fst (filter (\<lambda>(x, r). \<not> by_id N m r \<and> r = t) es)"

lemma place_edges:
  assumes "unat m + 2 < 2 ^ 32" and first: "length first = unat m + 2"
  shows "sorted_so_far (map snd (keyed N m (es @ fs))) first (keyed N m es) use nxt \<Longrightarrow>
    \<exists>use' nxt'. opt_fold (place_edge N m) fs (use, nxt, rest_of N m es) = Some (use', nxt', rest_of N m (es @ fs)) \<and>
      sorted_so_far (map snd (keyed N m (es @ fs))) first (keyed N m (es @ fs)) use' nxt'"
proof (induction fs arbitrary: es use nxt)
  case (Cons e fs)
  obtain x r where e: "e = (x, r)" by force
  let ?all = "map snd (keyed N m (es @ e # fs))"
  have app: "es @ e # fs = (es @ [e]) @ fs" by simp
  show ?case
  proof (cases "by_id N m r")
    case True
    let ?k = "unat (gid (N r))"
    have k: "?k < length first" using by_id_small [OF True assms(1)] first by simp
    have all: "?all = map snd (keyed N m es) @ ?k # map snd (keyed N m fs)" using True by (simp add: e)
    note step = sorted_step(1) [OF Cons.prems all k] sorted_step(2) [OF Cons.prems all k, of x]
    have len: "length nxt = length first" using Cons.prems by (simp add: sorted_so_far_def)
    have "place_edge N m e (use, nxt, rest_of N m es) =
        Some (use[nxt ! ?k := x], nxt[?k := nxt ! ?k + 1], rest_of N m (es @ [e]))"
      using True k len step(1) by (simp add: e place_edge_def Let_def rest_of_def fun_eq_iff)
    moreover have "sorted_so_far (map snd (keyed N m ((es @ [e]) @ fs))) first (keyed N m (es @ [e]))
        (use[nxt ! ?k := x]) (nxt[?k := nxt ! ?k + 1])"
      using step(2) True unfolding app [symmetric] by (simp add: e)
    from Cons.IH [OF this] obtain use' nxt' where
      "opt_fold (place_edge N m) fs (use[nxt ! ?k := x], nxt[?k := nxt ! ?k + 1], rest_of N m (es @ [e])) =
         Some (use', nxt', rest_of N m ((es @ [e]) @ fs))"
      "sorted_so_far (map snd (keyed N m ((es @ [e]) @ fs))) first (keyed N m ((es @ [e]) @ fs)) use' nxt'" by blast
    ultimately show ?thesis unfolding app by auto
  next
    case False
    have "place_edge N m e (use, nxt, rest_of N m es) = Some (use, nxt, rest_of N m (es @ [e]))"
      using False by (simp add: e place_edge_def rest_of_def fun_eq_iff)
    moreover have "sorted_so_far (map snd (keyed N m ((es @ [e]) @ fs))) first (keyed N m (es @ [e])) use nxt"
      using Cons.prems False by (simp add: e)
    from Cons.IH [OF this] obtain use' nxt' where
      "opt_fold (place_edge N m) fs (use, nxt, rest_of N m (es @ [e])) = Some (use', nxt', rest_of N m ((es @ [e]) @ fs))"
      "sorted_so_far (map snd (keyed N m ((es @ [e]) @ fs))) first (keyed N m ((es @ [e]) @ fs)) use' nxt'" by blast
    ultimately show ?thesis unfolding app by auto
  qed
qed auto

text \<open>The uses of a target, in the order the graph has them.\<close>

definition uses_in :: "gstore \<Rightarrow> id \<Rightarrow> (nat \<times> nat) list \<Rightarrow> nat \<Rightarrow> nat list" where
  "uses_in N m es t =
     (if by_id N m t then map fst (filter (\<lambda>(x, r). gid (N r) = gid (N t)) es)
      else map fst (filter (\<lambda>(x, r). r = t) es))"

lemma keyed_uses:
  "by_id N m t \<Longrightarrow> map fst (filter (\<lambda>e. snd e = unat (gid (N t))) (keyed N m es)) =
     map fst (filter (\<lambda>(x, r). gid (N r) = gid (N t)) es)"
  by (induction es) (auto simp: by_id_def word_unat_eq_iff word_le_nat_alt)

lemma max_id_bounds:
  "x \<in> set xs \<Longrightarrow> gid (N x) \<le> max_id N xs" "max_id N xs = 0 \<or> (\<exists>x \<in> set xs. max_id N xs = gid (N x))"
proof -
  have "a \<le> fold (\<lambda>x m. max m (gid (N x))) xs a \<and> (\<forall>x \<in> set xs. gid (N x) \<le> fold (\<lambda>x m. max m (gid (N x))) xs a) \<and>
      (fold (\<lambda>x m. max m (gid (N x))) xs a = a \<or> (\<exists>x \<in> set xs. fold (\<lambda>x m. max m (gid (N x))) xs a = gid (N x)))" for a
  proof (induction xs arbitrary: a)
    case (Cons y ys)
    from Cons [of "max a (gid (N y))"] show ?case by (auto simp: max_def split: if_splits)
  qed simp
  from this [of 0] show "x \<in> set xs \<Longrightarrow> gid (N x) \<le> max_id N xs"
    "max_id N xs = 0 \<or> (\<exists>x \<in> set xs. max_id N xs = gid (N x))" by (auto simp: max_id_def)
qed

lemma index_built:
  assumes m: "unat m + 2 < 2 ^ 32"
  shows "\<exists>counts use nxt. opt_fold (count_edge N m) es (replicate (unat (m + 2)) 0) = Some counts \<and>
    opt_fold (place_edge N m) es (replicate (length (filter (\<lambda>(x, r). by_id N m r) es)) 0, running 0 counts, \<lambda>_. []) =
      Some (use, nxt, rest_of N m es) \<and> length counts = unat m + 2 \<and>
    (\<forall>t. by_id N m t \<longrightarrow> drop (running 0 counts ! unat (gid (N t))) (take (running 0 counts ! (unat (gid (N t)) + 1)) use) =
       map fst (filter (\<lambda>(x, r). gid (N r) = gid (N t)) es))"
proof -
  let ?all = "map snd (keyed N m es)"
  have m2: "unat (m + 2) = unat m + 2" using m by (simp add: unat_word_ariths)
  have "counts_of (map snd (keyed N m [])) (replicate (unat m + 2) 0)"
    by (auto simp: counts_of_def simp del: replicate.simps replicate_Suc)
  from count_edges [OF m this, of es] obtain counts where
    c: "opt_fold (count_edge N m) es (replicate (unat (m + 2)) 0) = Some counts" "counts_of ?all counts" "length counts = unat m + 2"
    by (auto simp: m2)
  let ?first = "running 0 counts"
  have f: "?first ! i = below ?all i" if "i < unat m + 2" for i using running_counts [OF c(2)] that c(3) by simp
  let ?use = "replicate (length (filter (\<lambda>(x, r). by_id N m r) es)) (0 :: nat)"
  have "sorted_so_far (map snd (keyed N m ([] @ es))) ?first (keyed N m []) ?use ?first"
    using f c(3) by (simp add: sorted_so_far_def keyed_def)
  moreover have "rest_of N m [] = (\<lambda>_. [])" by (simp add: rest_of_def fun_eq_iff)
  moreover have "length ?first = unat m + 2" using c(3) by simp
  ultimately obtain use nxt where
    u: "opt_fold (place_edge N m) es (?use, ?first, \<lambda>_. []) = Some (use, nxt, rest_of N m es)"
      "sorted_so_far ?all ?first (keyed N m es) use nxt"
    using place_edges [OF m, of ?first N "[]" es ?use ?first] by auto
  have "drop (?first ! unat (gid (N t))) (take (?first ! (unat (gid (N t)) + 1)) use) =
      map fst (filter (\<lambda>(x, r). gid (N r) = gid (N t)) es)" if t: "by_id N m t" for t
  proof -
    let ?i = "unat (gid (N t))"
    have i: "?i + 1 < unat m + 2" using by_id_small [OF t m] by simp
    have "drop (below ?all ?i) (take (below ?all (Suc ?i)) use) = take (count_list ?all ?i) (drop (below ?all ?i) use)"
      by (simp add: drop_take below_Suc)
    also have "\<dots> = map fst (filter (\<lambda>e. snd e = ?i) (keyed N m es))" using u(2) by (simp add: sorted_so_far_def)
    finally show ?thesis using f [of ?i] f [of "Suc ?i"] i keyed_uses [OF t, of es] by simp
  qed
  with c(1,3) u(1) show ?thesis by blast
qed

subsection \<open>The containers\<close>

text \<open>A graph an editor can be made of: whole, and held by none before.\<close>

definition whole :: "graph \<Rightarrow> nat list \<Rightarrow> nat list \<Rightarrow> bool" where
  "whole G xs ts \<longleftrightarrow>
     3 \<le> gnext G \<and> forest (gnodes G) (Sections G) xs \<and> distinct xs \<and> set xs \<subseteq> {3..<gnext G} \<and> bounded G \<and>
     (\<forall>n. n \<notin> set xs \<longrightarrow> gup (gnodes G n) = None) \<and> fixed_part G ts \<and> quiet (gnodes G) ts \<and>
     (\<forall>x \<in> set xs. set (grefs (gnodes G x)) \<subseteq> set xs \<and> (\<forall>t. gtype (gnodes G x) = Some t \<longrightarrow> t \<in> set xs) \<and>
        unat (gid (gnodes G x)) + 2 < 2 ^ 32)"

lemma place_under_run:
  assumes "forest (gnodes G) [w] W" "distinct W" "set W \<subseteq> {3..<gnext G}"
  shows "\<exists>N'. place_under p w G = Some (G\<lparr>gnodes := N'\<rparr>) \<and> placed (gnodes G) p [w] W N'"
proof -
  have "gWalk G [w] = Some W"
    unfolding gWalk_def using distinct_bound [OF assms(2,3)] by (intro walk_forest [OF assms(1)]) simp
  with placed_one [OF assms(1,2)] show ?thesis by (auto simp: place_under_def)
qed

lemma contain_run:
  "forest (gnodes G) ws W \<Longrightarrow> distinct W \<Longrightarrow> set W \<subseteq> {3..<gnext G} \<Longrightarrow>
     \<exists>N'. opt_fold (\<lambda>(i, n). place_under i n) (map (Pair p) ws) G = Some (G\<lparr>gnodes := N'\<rparr>) \<and> placed (gnodes G) p ws W N'"
proof (induction ws arbitrary: G W)
  case Nil
  then have "W = []" by auto
  then show ?case by (intro exI [of _ "gnodes G"]) (simp add: placed_def)
next
  case (Cons w ws)
  obtain ys zs where W: "W = (w # ys) @ zs" "forest (gnodes G) (gkids (gnodes G w)) ys" "forest (gnodes G) ws zs"
    using Cons.prems(1) by auto
  have one: "forest (gnodes G) [w] (w # ys)" using forest_Cons [OF W(2) forest_Nil] by simp
  have "distinct (w # ys)" "set (w # ys) \<subseteq> {3..<gnext G}" using Cons.prems(2,3) W(1) by auto
  from place_under_run [OF one this, of p] obtain N1 where
    1: "place_under p w G = Some (G\<lparr>gnodes := N1\<rparr>)" "placed (gnodes G) p [w] (w # ys) N1" by blast
  let ?G = "G\<lparr>gnodes := N1\<rparr>"
  have same: "gkids (N1 x) = gkids (gnodes G x)" for x using 1(2) same_but_upD(1) by (auto simp: placed_def)
  have "forest (gnodes ?G) ws zs" by (rule forest_cong [OF W(3)]) (simp add: same)
  moreover have "distinct zs" "set zs \<subseteq> {3..<gnext ?G}" using Cons.prems(2,3) W(1) by auto
  ultimately obtain N' where
    2: "opt_fold (\<lambda>(i, n). place_under i n) (map (Pair p) ws) ?G = Some (?G\<lparr>gnodes := N'\<rparr>)" "placed N1 p ws zs N'"
    using Cons.IH [of ?G zs] by auto
  have "placed (gnodes G) p ([w] @ ws) ((w # ys) @ zs) N'"
  proof (rule placed_append [OF 1(2) 2(2)])
    show "set (w # ys) \<inter> set zs = {}" using Cons.prems(2) W(1) by auto
    show "\<forall>x \<in> set (w # ys). set (gkids (gnodes G x)) \<subseteq> set (w # ys)" using forest_kids [OF one] by blast
  qed simp
  with 1(1) 2(1) W(1) show ?case by auto
qed

lemma contain_all_places:
  assumes f: "forest (gnodes G) (Sections G) xs" "distinct xs" "set xs \<subseteq> {3..<gnext G}"
  shows "\<exists>N'. contain_all G = Some (G\<lparr>gnodes := N'\<rparr>) \<and> kids_under N' xs \<and> tops_under (G\<lparr>gnodes := N'\<rparr>) \<and>
    same_but_up (gnodes G) N' \<and> (\<forall>n. n \<notin> set xs \<longrightarrow> N' n = gnodes G n)"
proof -
  obtain as bs cs where x: "xs = as @ bs @ cs" and fs: "forest (gnodes G) (gforms G) as" "forest (gnodes G) (gtypes G) bs"
      "forest (gnodes G) (gexterns G) cs"
    using f(1) unfolding Sections_def forest_append by blast
  have d: "distinct as" "distinct bs" "distinct cs" "set as \<inter> set bs = {}" "set as \<inter> set cs = {}" "set bs \<inter> set cs = {}"
    and b: "set as \<subseteq> {3..<gnext G}" "set bs \<subseteq> {3..<gnext G}" "set cs \<subseteq> {3..<gnext G}"
    using f(2,3) x by auto
  obtain N1 where 1: "opt_fold (\<lambda>(i, n). place_under i n) (map (Pair 0) (gforms G)) G = Some (G\<lparr>gnodes := N1\<rparr>)"
      "placed (gnodes G) 0 (gforms G) as N1" using contain_run [OF fs(1) d(1) b(1)] by blast
  have k1: "gkids (N1 n) = gkids (gnodes G n)" for n using 1(2) same_but_upD(1) by (auto simp: placed_def)
  have "forest N1 (gtypes G) bs" by (rule forest_cong [OF fs(2)]) (simp add: k1)
  then obtain N2 where 2: "opt_fold (\<lambda>(i, n). place_under i n) (map (Pair 1) (gtypes G)) (G\<lparr>gnodes := N1\<rparr>) = Some (G\<lparr>gnodes := N2\<rparr>)"
      "placed N1 1 (gtypes G) bs N2" using contain_run [of "G\<lparr>gnodes := N1\<rparr>" "gtypes G" bs 1] d(2) b(2) by auto
  have k2: "gkids (N2 n) = gkids (gnodes G n)" for n using 2(2) same_but_upD(1) k1 by (auto simp: placed_def)
  have "forest N2 (gexterns G) cs" by (rule forest_cong [OF fs(3)]) (simp add: k2)
  then obtain N3 where 3: "opt_fold (\<lambda>(i, n). place_under i n) (map (Pair 2) (gexterns G)) (G\<lparr>gnodes := N2\<rparr>) = Some (G\<lparr>gnodes := N3\<rparr>)"
      "placed N2 2 (gexterns G) cs N3" using contain_run [of "G\<lparr>gnodes := N2\<rparr>" "gexterns G" cs 2] d(3) b(3) by auto
  have run: "contain_all G = Some (G\<lparr>gnodes := N3\<rparr>)"
    by (simp add: contain_all_def opt_fold_append 1(1) 2(1) [unfolded One_nat_def] 3(1))
  have "same_but_up (gnodes G) N1" "same_but_up N1 N2" "same_but_up N2 N3" using 1(2) 2(2) 3(2) by (simp_all add: placed_def)
  then have s: "same_but_up (gnodes G) N3" using same_but_up_trans by metis
  have k3: "gkids (N3 n) = gkids (gnodes G n)" for n by (rule same_but_upD(1) [OF s])
  have as3: "N3 n = N1 n" if "n \<in> set as" for n
  proof -
    have "n \<notin> set bs" "n \<notin> set cs" using that d by auto
    with 2(2) 3(2) show ?thesis by (simp add: placed_def)
  qed
  have bs3: "N3 n = N2 n" if "n \<in> set bs" for n
  proof -
    have "n \<notin> set cs" using that d by auto
    with 3(2) show ?thesis by (simp add: placed_def)
  qed
  have tops: "set (gforms G) \<subseteq> set as" "set (gtypes G) \<subseteq> set bs" "set (gexterns G) \<subseteq> set cs"
    using fs forest_tops by blast+
  have kids: "set (gkids (gnodes G n)) \<subseteq> set as" if "n \<in> set as" for n using forest_kids [OF fs(1) that] .
  have kids2: "set (gkids (gnodes G n)) \<subseteq> set bs" if "n \<in> set bs" for n using forest_kids [OF fs(2) that] .
  have "gup (N3 k) = Some n" if "n \<in> set xs" "k \<in> set (gkids (gnodes G n))" for n k
  proof -
    note nk = that
    from nk(1) x consider "n \<in> set as" | "n \<in> set bs" | "n \<in> set cs" by auto
    then show ?thesis
    proof cases
      case 1
      then have "k \<in> set as" using kids nk(2) by blast
      with 1 nk(2) as3 show ?thesis using \<open>placed (gnodes G) 0 (gforms G) as N1\<close> by (auto simp: placed_def)
    next
      case 2
      then have "k \<in> set bs" using kids2 nk(2) by blast
      with 2 nk(2) bs3 show ?thesis using \<open>placed N1 1 (gtypes G) bs N2\<close> k1 by (auto simp: placed_def)
    next
      case 3
      with nk(2) show ?thesis using \<open>placed N2 2 (gexterns G) cs N3\<close> k2 by (auto simp: placed_def)
    qed
  qed
  then have "kids_under N3 xs" by (simp add: kids_under_def k3)
  moreover have "tops_under (G\<lparr>gnodes := N3\<rparr>)"
    using 1(2) 2(2) 3(2) tops as3 bs3 by (auto simp: tops_under_def placed_def subset_iff)
  moreover have "N3 n = gnodes G n" if "n \<notin> set xs" for n using that 1(2) 2(2) 3(2) x by (auto simp: placed_def)
  ultimately show ?thesis using run s by blast
qed

lemma contain_all_run:
  assumes f: "forest (gnodes G) (Sections G) xs" "distinct xs" "set xs \<subseteq> {3..<gnext G}"
    and out: "\<And>n. n \<notin> set xs \<Longrightarrow> gup (gnodes G n) = None"
  shows "\<exists>N'. contain_all G = Some (G\<lparr>gnodes := N'\<rparr>) \<and> held (G\<lparr>gnodes := N'\<rparr>) xs \<and> same_but_up (gnodes G) N'"
proof -
  obtain N' where N': "contain_all G = Some (G\<lparr>gnodes := N'\<rparr>)" "kids_under N' xs" "tops_under (G\<lparr>gnodes := N'\<rparr>)"
      "same_but_up (gnodes G) N'" "\<forall>n. n \<notin> set xs \<longrightarrow> N' n = gnodes G n"
    using contain_all_places [OF f] by blast
  have "forest N' (Sections G) xs" by (rule forest_cong [OF f(1)]) (rule same_but_upD(1) [OF N'(4)])
  then have "held (G\<lparr>gnodes := N'\<rparr>) xs" using N' f out by (simp add: held_def outside_def Sections_def)
  with N' show ?thesis by blast
qed

subsection \<open>NewEditor\<close>

lemma fold_note_typed:
  "x \<in> set xs \<or> x \<in> set (by t) \<Longrightarrow> gtype (gnodes G x) = Some t \<Longrightarrow> inFile G t \<Longrightarrow> x \<in> set (fold (note_typed G) xs by t)"
proof (induction xs arbitrary: "by")
  case (Cons y ys)
  have "x \<in> set ys \<or> x \<in> set (note_typed G y by t)"
    using Cons.prems note_typed_grows [of "by" t G y] by (auto simp: note_typed_in)
  with Cons show ?case by simp
qed simp

lemma whole_with_sentinels:
  assumes "whole G xs ts"
  shows "forest (gnodes (with_sentinels G)) (Sections (with_sentinels G)) xs"
    and "n \<notin> set xs \<Longrightarrow> gup (gnodes (with_sentinels G) n) = None"
    and "\<And>x. 3 \<le> x \<Longrightarrow> gnodes (with_sentinels G) x = unheld (gnodes G x)" "isTop i \<Longrightarrow> \<not> glist (gnodes (with_sentinels G) i)"
proof -
  have xs: "set xs \<subseteq> {3..<gnext G}" and f: "forest (gnodes G) (Sections G) xs" using assms by (simp_all add: whole_def)
  show same: "gnodes (with_sentinels G) x = unheld (gnodes G x)" if "3 \<le> x" for x using that by (simp add: with_sentinels_def)
  have "Sections (with_sentinels G) = Sections G" by (simp add: with_sentinels_def Sections_def)
  then show "forest (gnodes (with_sentinels G)) (Sections (with_sentinels G)) xs"
    using xs same by (auto intro!: forest_cong [OF f])
  have top: "i = 0 \<or> i = 1 \<or> i = 2" if "isTop i" for i using that by (auto simp: isTop_def)
  show "gup (gnodes (with_sentinels G) n) = None" if "n \<notin> set xs"
    using assms that by (simp add: with_sentinels_def sentinel_def whole_def unheld_def)
  show "\<not> glist (gnodes (with_sentinels G) i)" if "isTop i"
    using top [OF that] by (auto simp: with_sentinels_def sentinel_def)
qed

theorem NewEditor_built:
  assumes w: "whole G xs ts"
  shows "\<exists>E. NewEditor G = Some E \<and> sound E xs ts \<and> same_but_up (gnodes (with_sentinels G)) (enodes E) \<and>
    gnext (eg E) = gnext G \<and>
    (\<forall>t \<in> set xs. usesOf E t = uses_in (gnodes G) (max_id (gnodes G) xs) (refers_edges (gnodes G) xs) t)"
proof -
  let ?G = "with_sentinels G"
  have xs: "set xs \<subseteq> {3..<gnext G}" "distinct xs" and g3: "3 \<le> gnext G" using w by (simp_all add: whole_def)
  note ws = whole_with_sentinels [OF w]
  have nx: "gnext ?G = gnext G" by (simp add: with_sentinels_def)
  obtain N where c: "contain_all ?G = Some (?G\<lparr>gnodes := N\<rparr>)" "held (?G\<lparr>gnodes := N\<rparr>) xs" "same_but_up (gnodes ?G) N"
    using contain_all_run [OF ws(1) xs(2) _ ws(2)] xs(1) nx by auto
  let ?H = "?G\<lparr>gnodes := N\<rparr>"
  have walk: "gWalk ?H (Sections ?H) = Some xs" using held_Walk [OF c(2)] g3 nx by simp
  have same: "gkids (N x) = gkids (gnodes G x)" "grefs (N x) = grefs (gnodes G x)" "gtype (N x) = gtype (gnodes G x)"
    "gid (N x) = gid (gnodes G x)" "glist (N x) = glist (gnodes G x)" "gatom (N x) = gatom (gnodes G x)" if "3 \<le> x" for x
    using same_but_upD [OF c(3), of x] ws(3) [OF that] by simp_all
  have ge: "3 \<le> x" if "x \<in> set xs" for x using that xs(1) by auto
  let ?m = "max_id N xs" and ?es = "refers_edges N xs"
  have m: "unat ?m + 2 < 2 ^ 32"
  proof -
    have "unat (gid (N x)) + 2 < 2 ^ 32" if "x \<in> set xs" for x using w that same(4) [OF ge [OF that]] by (simp add: whole_def)
    with max_id_bounds(2) [of N xs] show ?thesis by auto
  qed
  obtain counts use nxt where ix: "opt_fold (count_edge N ?m) ?es (replicate (unat (?m + 2)) 0) = Some counts"
    "opt_fold (place_edge N ?m) ?es (replicate (length (filter (\<lambda>(x, r). by_id N ?m r) ?es)) 0, running 0 counts, \<lambda>_. []) =
      Some (use, nxt, rest_of N ?m ?es)" "length counts = unat ?m + 2"
    "\<forall>t. by_id N ?m t \<longrightarrow> drop (running 0 counts ! unat (gid (N t))) (take (running 0 counts ! (unat (gid (N t)) + 1)) use) =
       map fst (filter (\<lambda>(x, r). gid (N r) = gid (N t)) ?es)"
    using index_built [OF m] by blast
  define E where "E = \<lparr>eg = ?H, efirst = running 0 counts, euse = use, eextra = rest_of N ?m ?es,
       etypedBy = fold (note_typed ?H) xs (\<lambda>_. []), eremoved = [], eemptied = [], ewasTop = {}, eblockFnsOK = False,
       etouched = [], eargLists = False, epending = {}, eLog = [], eUntyped = [], eWritten = []\<rparr>"
  have run: "NewEditor G = Some E"
    using ix(1,2) by (simp add: NewEditor_def c(1) walk Let_def E_def)
  have EN: "enodes E = N" "eg E = ?H" by (simp_all add: E_def)
  have uses: "usesOf E t = uses_in N ?m ?es t" if "t \<in> set xs \<or> by_id N ?m t" for t
  proof (cases "by_id N ?m t")
    case True
    let ?i = "unat (gid (N t))"
    have i: "?i \<noteq> 0" "?i + 1 < length (running 0 counts)"
      using by_id_small [OF True m] ix(3) True by (auto simp: by_id_def unat_eq_0)
    have "rest_of N ?m ?es t = []" using True by (auto simp: rest_of_def filter_empty_conv)
    with ix(4) True i show ?thesis by (simp add: usesOf_def E_def Let_def uses_in_def)
  next
    case False
    then have "gid (N t) \<le> ?m" using max_id_bounds(1) [of t xs N] that by simp
    with False have "gid (N t) = 0" by (simp add: by_id_def)
    moreover have "rest_of N ?m ?es t = map fst (filter (\<lambda>(x, r). r = t) ?es)"
      using False by (auto simp: rest_of_def intro!: arg_cong [of _ _ "map fst"] filter_cong)
    ultimately show ?thesis using False by (simp add: usesOf_def E_def Let_def uses_in_def)
  qed
  have edge: "(x, r) \<in> set ?es \<longleftrightarrow> x \<in> set xs \<and> r \<in> set (grefs (N x))" for x r by (auto simp: refers_edges_def)
  have closed: "set (grefs (N x)) \<subseteq> set xs \<and> (\<forall>t. gtype (N x) = Some t \<longrightarrow> t \<in> set xs)" if "x \<in> set xs" for x
    using w that same(2,3) [OF ge [OF that]] by (simp add: whole_def)
  have bd: "bounded ?H" unfolding bounded_def
  proof (intro allI impI)
    fix n assume "3 \<le> n" "n < gnext ?H"
    then have "3 \<le> n" "n < gnext G" using nx by simp_all
    note b = boundedD [of G, OF _ this]
    have "bounded G" using w by (simp add: whole_def)
    note b = b [OF this]
    show "set (gkids (gnodes ?H n)) \<subseteq> {3..<gnext ?H} \<and> set (grefs (gnodes ?H n)) \<subseteq> {3..<gnext ?H} \<and>
        (\<forall>t. gtype (gnodes ?H n) = Some t \<longrightarrow> t \<in> {3..<gnext ?H})"
      using b same(1,2,3) [OF \<open>3 \<le> n\<close>] nx by (auto simp del: atLeastLessThan_iff)
  qed
  have fp: "fixed_part ?H ts"
  proof -
    obtain fs where "xs = fs @ ts"
    proof -
      have "forest (gnodes G) (gforms G @ (gtypes G @ gexterns G)) xs" using w by (simp add: whole_def Sections_def)
      then obtain fs ts' where f: "xs = fs @ ts'" "forest (gnodes G) (gtypes G @ gexterns G) ts'"
        unfolding forest_append [of _ "gforms G"] by blast
      moreover have "ts = ts'" using forest_det [OF f(2)] w by (simp add: whole_def fixed_part_def)
      ultimately show thesis using that by blast
    qed
    then have t3: "3 \<le> x" if "x \<in> set ts" for x using that ge by simp
    have "forest (gnodes G) (gtypes G @ gexterns G) ts" using w by (simp add: whole_def fixed_part_def)
    then have "forest N (gtypes G @ gexterns G) ts" by (rule forest_cong) (rule same(1) [OF t3])
    then show ?thesis by (simp add: fixed_part_def with_sentinels_def)
  qed
  obtain fs where fs: "xs = fs @ ts" using fixed_split [OF c(2) fp] by blast
  have q: "quiet N ts"
  proof (rule quiet_cong [of "gnodes G"])
    show "quiet (gnodes G) ts" using w by (simp add: whole_def)
    fix x assume x: "x \<in> set ts"
    then have x3: "3 \<le> x" using ge fs by simp
    have "3 \<le> k" if "k \<in> set (gkids (gnodes G x))" for k
    proof -
      have "x < gnext G" using x fs xs(1) by auto
      with boundedD(1) [of G x] x3 w that show ?thesis by (auto simp: whole_def)
    qed
    then show "gHead N x = gHead (gnodes G) x"
      using same(1,5) [OF x3] same(5,6) by (cases "gkids (gnodes G x)") (auto simp: gHead_def)
  qed
  have "sound_shape E xs ts"
    using c(2) g3 nx bd fp q ws(4) same_but_upD(5) [OF c(3)] by (simp add: sound_shape_def EN) (simp add: E_def)
  moreover have "sound_targets E xs" using closed by (auto simp: sound_targets_def EN)
  moreover have "sound_index E (set xs) ts" unfolding sound_index_def EN(1)
  proof (intro ballI conjI allI impI)
    fix x assume x: "x \<in> set xs"
    show "x \<in> set (usesOf E r)" if "r \<in> set (grefs (N x))" for r
    proof -
      have "r \<in> set xs" using closed [OF x] that by blast
      moreover have "(x, r) \<in> set ?es" using edge x that by simp
      then have "x \<in> set (uses_in N ?m ?es r)" by (force simp: uses_in_def)
      ultimately show ?thesis using uses by simp
    qed
    show "t \<in> set ts \<or> x \<in> set (etypedBy E t)" if "gtype (N x) = Some t" for t
    proof (cases "t \<in> set ts")
      case False
      have "t \<in> set xs" using closed [OF x] that by blast
      then have "inFile ?H t" using file_section [OF c(2) _ fp] False g3 nx by simp
      with fold_note_typed [of x xs "\<lambda>_. []" t ?H] x that show ?thesis by (simp add: E_def)
    qed simp
  qed
  ultimately have "sound E xs ts" by (simp add: sound_def)
  moreover have "usesOf E t = uses_in (gnodes G) (max_id (gnodes G) xs) (refers_edges (gnodes G) xs) t" if "t \<in> set xs" for t
  proof -
    have e: "refers_edges N xs = refers_edges (gnodes G) xs"
      unfolding refers_edges_def using same(2) ge by (auto intro!: arg_cong [of _ _ concat] map_cong)
    have "gid (N x) = gid (gnodes G x)" if "x \<in> set xs" for x using same(4) ge that by simp
    then have mm: "max_id N xs = max_id (gnodes G) xs" unfolding max_id_def by (intro fold_cong) auto
    have "gid (N r) = gid (gnodes G r)" if "(x, r) \<in> set ?es" for x r
      using that edge closed same(4) ge by blast
    then have "uses_in N ?m ?es t = uses_in (gnodes G) ?m ?es t"
      using same(4) [OF ge [OF that]]
      by (auto simp: uses_in_def by_id_def intro!: arg_cong [of _ _ "map fst"] filter_cong)
    with uses that e mm show ?thesis by simp
  qed
  ultimately show ?thesis using run c(3) nx by (intro exI [of _ E]) (simp add: EN)
qed

end
