(* ===== verification/GraphChecked.thy ===== *)
theory GraphChecked
  imports GraphIndex
begin

text \<open>
  The properties of the editor of crefactor/graph/edit.go: whatever edits are made, its own checks
  (\<open>Check\<close>) find nothing, its records (\<open>Dangling\<close>) are the dangling edges and its index (\<open>Uses\<close>)
  answers every use.
\<close>

subsection \<open>The checks find nothing\<close>

lemma check_kids_ok:
  assumes "distinct (gkids (N x))" "\<And>k. k \<in> set (gkids (N x)) \<Longrightarrow> gup (N k) = Some x" "dom sm \<inter> set (gkids (N x)) = {}"
  shows "\<exists>sm2. check_kids N x (sm, None) = (sm2, None) \<and> dom sm2 = dom sm \<union> set (gkids (N x))"
proof -
  let ?f = "\<lambda>k (sm, err). let err1 = (if err = None \<and> sm k \<noteq> None then Some (ContainedTwice k) else err);
         err2 = (if err1 = None \<and> gup (N k) \<noteq> Some x then Some (NotUnder k x) else err1) in (sm(k \<mapsto> x), err2)"
  have "\<exists>sm2. fold ?f ks (sm, None) = (sm2, None) \<and> dom sm2 = dom sm \<union> set ks"
    if "distinct ks" "set ks \<subseteq> set (gkids (N x))" "dom sm \<inter> set ks = {}" for ks and sm :: "nat \<rightharpoonup> nat"
    using that
  proof (induction ks arbitrary: sm)
    case (Cons k ks)
    have "sm k = None" "gup (N k) = Some x" using Cons.prems(2,3) assms(2) by auto
    then have one: "?f k (sm, None) = (sm(k \<mapsto> x), None)" by simp
    have "dom (sm(k \<mapsto> x)) \<inter> set ks = {}" using Cons.prems(1,3) by auto
    moreover have "distinct ks" "set ks \<subseteq> set (gkids (N x))" using Cons.prems by simp_all
    ultimately obtain sm2 where r: "fold ?f ks (sm(k \<mapsto> x), None) = (sm2, None)" "dom sm2 = dom (sm(k \<mapsto> x)) \<union> set ks"
      using Cons.IH [of "sm(k \<mapsto> x)"] by blast
    have "fold ?f (k # ks) (sm, None) = (sm2, None)" unfolding fold_simps one by (rule r(1))
    moreover have "dom sm2 = dom sm \<union> set (k # ks)" using r(2) by auto
    ultimately show ?case by blast
  qed simp
  from this [of "gkids (N x)" sm] assms show ?thesis by (simp add: check_kids_def)
qed

text \<open>A walk that checks each node once, when each node's own check finds nothing.\<close>

lemma deep_check_ok:
  assumes go: "\<And>f x c. go (Suc f) x c =
      (let c1 = chk x c in if snd c1 \<noteq> None then Some c1 else opt_fold (go f) (gkids (N x)) c1)"
    and chk: "\<And>x sm. x \<in> X \<Longrightarrow> dom sm \<inter> set (gkids (N x)) = {} \<Longrightarrow>
      \<exists>sm2. chk x (sm, None) = (sm2, None :: check_error option) \<and> dom sm2 = dom sm \<union> set (gkids (N x))"
  shows "forest N ns W \<Longrightarrow> set W \<subseteq> X \<Longrightarrow> distinct (concat (map (\<lambda>x. gkids (N x)) W)) \<Longrightarrow>
    dom sm \<inter> set (concat (map (\<lambda>x. gkids (N x)) W)) = {} \<Longrightarrow> length W \<le> f \<Longrightarrow>
    \<exists>sm2. opt_fold (go f) ns (sm, None) = Some (sm2, None) \<and> dom sm2 = dom sm \<union> set (concat (map (\<lambda>x. gkids (N x)) W))"
proof (induction arbitrary: sm f rule: forest.induct)
  case (forest_Cons n ys ns zs)
  let ?k = "\<lambda>xs. set (concat (map (\<lambda>x. gkids (N x)) xs))"
  obtain g where f: "f = Suc g" using forest_Cons.prems(4) by (cases f) auto
  have "n \<in> X" "dom sm \<inter> set (gkids (N n)) = {}" using forest_Cons.prems(1,3) by auto
  from chk [OF this] obtain s1 where s1: "chk n (sm, None) = (s1, None)" "dom s1 = dom sm \<union> set (gkids (N n))" by blast
  have "dom s1 \<inter> ?k ys = {}" using forest_Cons.prems(2,3) s1(2) by auto
  then obtain s2 where s2: "opt_fold (go g) (gkids (N n)) (s1, None) = Some (s2, None)" "dom s2 = dom s1 \<union> ?k ys"
    using forest_Cons.IH(1) [of s1 g] forest_Cons.prems f by auto
  have "dom s2 \<inter> ?k zs = {}" using forest_Cons.prems(2,3) s1(2) s2(2) by auto
  then obtain s3 where s3: "opt_fold (go f) ns (s2, None) = Some (s3, None)" "dom s3 = dom s2 \<union> ?k zs"
    using forest_Cons.IH(2) [of s2 f] forest_Cons.prems by auto
  have "go f n (sm, None) = Some (s2, None)" unfolding f go using s1(1) s2(1) by simp
  with s3 s1(2) s2(2) show ?case by auto
qed simp

lemma edges_check_ok:
  assumes "sound E xs ts" "x \<in> set xs"
  shows "edges_check E x = None"
proof -
  have "gLive (eg E) r \<or> recorded E x r" if "r \<in> set (grefs (enodes E x))" for r
    using sound_edge_recorded(1) [OF assms that] by (force simp: recorded_def)
  moreover have "gLive (eg E) t \<or> recorded E x t" if "gtype (enodes E x) = Some t" for t
    using sound_edge_recorded(2) [OF assms that] by (force simp: recorded_def)
  ultimately have "List.find (\<lambda>r. \<not> gLive (eg E) r \<and> \<not> recorded E x r) (grefs (enodes E x)) = None"
      "\<forall>t. gtype (enodes E x) = Some t \<longrightarrow> gLive (eg E) t \<or> recorded E x t"
    by (auto simp: find_None_iff)
  then show ?thesis by (auto simp: edges_check_def split: option.splits)
qed

lemma check_tops_ok:
  assumes "\<And>f x c. check_node (Suc f) (gnodes G) x c = (let c1 = check_kids (gnodes G) x c in
      if snd c1 \<noteq> None then Some c1 else opt_fold (check_node f (gnodes G)) (gkids (gnodes G x)) c1)"
    and "\<forall>(i, n) \<in> set ps. gup (gnodes G n) = Some i"
    and "opt_fold (check_node (gnext G + 1) (gnodes G)) (map snd ps) c = Some (sm, None)" "snd c = None"
  shows "check_tops G ps c = Some None"
  using assms(2-)
proof (induction ps arbitrary: c)
  case (Cons p ps)
  obtain i n where p: "p = (i, n)" by force
  obtain c1 where c1: "check_node (gnext G + 1) (gnodes G) n c = Some c1"
      "opt_fold (check_node (gnext G + 1) (gnodes G)) (map snd ps) c1 = Some (sm, None)"
    using Cons.prems(2) by (auto simp: p simp del: check_node.simps split: option.splits)
  have keep: "opt_fold (check_node f (gnodes G)) ns c2 = Some c3 \<Longrightarrow> snd c2 \<noteq> None \<Longrightarrow> snd c3 \<noteq> None" for f ns c2 c3
  proof (induction ns arbitrary: c2)
    case (Cons m ns)
    then obtain c4 where c4: "check_node f (gnodes G) m c2 = Some c4" "opt_fold (check_node f (gnodes G)) ns c4 = Some c3"
      by (auto simp del: check_node.simps split: option.splits)
    have "snd (fold (\<lambda>k (sm, err). let err1 = (if err = None \<and> sm k \<noteq> None then Some (ContainedTwice k) else err);
         err2 = (if err1 = None \<and> gup (gnodes G k) \<noteq> Some m then Some (NotUnder k m) else err1) in (sm(k \<mapsto> m), err2)) ks c) \<noteq> None"
      if "snd c \<noteq> None" for ks and c :: check_state
      using that by (induction ks arbitrary: c) (auto simp: Let_def split: prod.splits)
    then have "snd (check_kids (gnodes G) m c2) \<noteq> None" using Cons.prems(2) unfolding check_kids_def by blast
    with c4(1) have "snd c4 \<noteq> None" by (cases f) (auto simp: Let_def)
    with Cons.IH c4(2) show ?case by blast
  qed simp
  have "snd c1 = None" using keep [OF c1(2)] by (cases "snd c1") auto
  with Cons.IH [OF _ c1(2)] Cons.prems(1) c1(1) show ?case by (simp add: p)
qed simp

lemma sound_Check:
  assumes "sound E xs ts"
  shows "Check E = Some None"
proof -
  let ?G = "eg E" and ?N = "enodes E"
  have h: "held ?G xs" "3 \<le> gnext ?G" using assms by (simp_all add: sound_def sound_shape_def)
  have f: "forest ?N (Sections ?G) xs" "distinct xs" using h(1) by (simp_all add: held_def)
  note d = forest_distinct [OF f]
  have kids: "\<exists>sm2. check_kids ?N x (sm, None) = (sm2, None) \<and> dom sm2 = dom sm \<union> set (gkids (?N x))"
    if "x \<in> set xs" "dom sm \<inter> set (gkids (?N x)) = {}" for x sm
  proof (rule check_kids_ok)
    show "dom sm \<inter> set (gkids (?N x)) = {}" by (rule that(2))
    show "distinct (gkids (?N x))" using d(2) that(1) by (auto simp: distinct_concat_iff)
    show "gup (?N k) = Some x" if "k \<in> set (gkids (?N x))" for k using held_kid [OF h(1) \<open>x \<in> set xs\<close> that] .
  qed
  have step: "check_node (Suc g) ?N x c =
      (let c1 = check_kids ?N x c in if snd c1 \<noteq> None then Some c1 else opt_fold (check_node g ?N) (gkids (?N x)) c1)" for g x c
    by simp
  have "\<exists>sm. opt_fold (check_node (gnext ?G + 1) ?N) (Sections ?G) (Map.empty, None) = Some (sm, None) \<and>
      dom sm = dom (Map.empty :: nat \<rightharpoonup> nat) \<union> set (concat (map (\<lambda>x. gkids (?N x)) xs))"
    by (rule deep_check_ok [where go = "\<lambda>f. check_node f ?N" and chk = "check_kids ?N", OF step kids f(1) subset_refl d(2)])
      (use held_length [OF h] in simp_all)
  then obtain sm where sm: "opt_fold (check_node (gnext ?G + 1) ?N) (Sections ?G) (Map.empty, None) = Some (sm, None)" by blast
  let ?ps = "map (Pair (0 :: nat)) (gforms ?G) @ map (Pair 1) (gtypes ?G) @ map (Pair 2) (gexterns ?G)"
  have "map snd ?ps = Sections ?G" by (simp add: Sections_def o_def)
  moreover have "\<forall>(i, n) \<in> set ?ps. gup (?N n) = Some i" using h(1) by (auto simp: held_def tops_under_def)
  ultimately have "check_tops ?G ?ps (Map.empty, None) = Some None"
    using check_tops_ok [OF step, of ?ps "(Map.empty, None)" sm] sm by simp
  moreover have "first_error (edges_check E) xs = None" using edges_check_ok [OF assms] by (simp add: first_error_None)
  ultimately show ?thesis using held_Walk [OF h] by (simp add: Check_def)
qed


lemma sound_dangling:
  assumes "sound E xs ts"
  shows "3 \<le> dUse d \<Longrightarrow> d \<in> set (Dangling E) \<longleftrightarrow> still_dangling E d"
proof
  have h: "held (eg E) xs" "3 \<le> gnext (eg E)" using assms by (simp_all add: sound_def sound_shape_def)
  assume "d \<in> set (Dangling E)"
  then show "still_dangling E d" by (auto simp: Dangling_def still_dangling_def Uses_def split: if_splits)
next
  have h: "held (eg E) xs" "3 \<le> gnext (eg E)" using assms by (simp_all add: sound_def sound_shape_def)
  assume d: "3 \<le> dUse d" "still_dangling E d"
  then have x: "dUse d \<in> set xs" using held_live [OF h] by (auto simp: still_dangling_def isTop_def)
  obtain u t b where r: "d = \<lparr>dUse = u, dTarget = t, dTyped = b\<rparr>" by (cases d) simp
  show "d \<in> set (Dangling E)"
    using sound_edge_recorded [OF assms x] d(2) by (cases b) (auto simp: r still_dangling_def refersTo_def)
qed

lemma sound_uses:
  assumes "sound E xs ts" "3 \<le> u"
  shows "u \<in> set (Uses E t) \<longleftrightarrow> gLive (eg E) u \<and> t \<in> set (grefs (enodes E u))"
proof -
  have h: "held (eg E) xs" "3 \<le> gnext (eg E)" using assms by (simp_all add: sound_def sound_shape_def)
  have "u \<in> set xs" if "gLive (eg E) u" using that held_live [OF h] assms(2) by (auto simp: isTop_def)
  with assms(1) show ?thesis by (auto simp: Uses_def refersTo_def sound_def sound_index_def)
qed

subsection \<open>A graph of two forms\<close>

text \<open>A form of the typed section, and two forms of the file, the second an edge to the first.\<close>

definition pair_node :: "nat \<Rightarrow> gnode" where
  "pair_node n =
     \<lparr>gid = (if n \<in> {3, 4, 5} then word_of_nat n else 0), gatom = [], gkids = [],
      grefs = (if n = 4 then [3] else []), gtype = (if n = 4 then Some 5 else None),
      glist = (n \<in> {3, 4, 5}), gup = None\<rparr>"

definition pair_graph :: graph where
  "pair_graph = \<lparr>gnodes = pair_node, gnext = 6, gforms = [3, 4], gtypes = [5], gexterns = [], glast = 5,
     journals = (\<lambda>_. \<lparr>jsaved = {}, jnodes = [], jforms = [], jtypes = [], jexterns = [], jids = 0, jdone = False\<rparr>),
     jnext = 0, recording = None\<rparr>"

lemma pair_whole: "whole pair_graph [3, 4, 5] [5]"
  unfolding whole_def
proof (intro conjI)
  show "forest (gnodes pair_graph) (Sections pair_graph) [3, 4, 5]" by (rule walked_forest [of 7]) code_simp
  show "fixed_part pair_graph [5]" unfolding fixed_part_def by (rule walked_forest [of 7]) code_simp
  show "quiet (gnodes pair_graph) [5]" "distinct [3, 4, 5 :: nat]" by code_simp+
  show "bounded pair_graph" by (auto simp: bounded_def pair_graph_def pair_node_def)
  show "\<forall>n. n \<notin> set [3, 4, 5] \<longrightarrow> gup (gnodes pair_graph n) = None" by (simp add: pair_graph_def pair_node_def)
  show "\<forall>x \<in> set [3, 4, 5]. set (grefs (gnodes pair_graph x)) \<subseteq> set [3, 4, 5] \<and>
      (\<forall>t. gtype (gnodes pair_graph x) = Some t \<longrightarrow> t \<in> set [3, 4, 5]) \<and> unat (gid (gnodes pair_graph x)) + 2 < 2 ^ 32"
    by (simp add: pair_graph_def pair_node_def)
  show "3 \<le> gnext pair_graph" "set [3, 4, 5] \<subseteq> {3..<gnext pair_graph}" by (simp_all add: pair_graph_def)
qed

text \<open>The first form deleted, a new one put in its place and the use pointed at it; settled, the use goes.\<close>

definition pair_edits :: "gedit list" where
  "pair_edits = [GDelete 3, GNew [] True [] [] None, GBefore 4 [6], GRetarget 4 0 6, GSettle, GDelete 4]"

lemma pair_allowed: "allowed_run edit_ok do_edit pair_edits (the (NewEditor pair_graph))"
  by code_simp

lemma pair_editor: "NewEditor pair_graph = Some (the (NewEditor pair_graph))"
  using NewEditor_built [OF pair_whole] by auto

subsection \<open>The properties\<close>

text \<open>After edits, the editor is sound.\<close>

lemma edits_sound:
  assumes "whole G xs ts" "NewEditor G = Some E" "allowed_run edit_ok do_edit os E"
  shows "\<exists>E' ys. after_all do_edit os E = Some E' \<and> sound E' ys ts"
proof -
  have "\<exists>xs. sound E xs ts" using NewEditor_built [OF assms(1)] assms(2) by auto
  from edits.after_all_kept [OF this assms(3)] show ?thesis by blast
qed

lemma pair_deleted:
  "allowed_run edit_ok do_edit [GDelete 3] (the (NewEditor pair_graph))"
  "after_all do_edit [GDelete 3] (the (NewEditor pair_graph)) = Some (the (do_edit (GDelete 3) (the (NewEditor pair_graph))))"
proof -
  show a: "allowed_run edit_ok do_edit [GDelete 3] (the (NewEditor pair_graph))" by code_simp
  show "after_all do_edit [GDelete 3] (the (NewEditor pair_graph)) = Some (the (do_edit (GDelete 3) (the (NewEditor pair_graph))))"
    using edits_sound [OF pair_whole pair_editor a] by (auto simp del: do_edit.simps simp: bind_eq_Some_conv)
qed

text \<open>
  C23.  Whatever nodes, deletions, replacements, insertions, retargets and settled edits a caller
  makes of a whole graph, no operation fails to return, and the editor's own check of the graph
  afterwards finds nothing: every node is contained once and under the node it says, and every
  edge has a target in the graph or a record of the edge's dangling.
\<close>

theorem edits_checked:
  assumes "whole G xs ts" "allowed_run edit_ok do_edit os (the (NewEditor G))"
  shows "\<exists>E E'. NewEditor G = Some E \<and> after_all do_edit os E = Some E' \<and> Check E' = Some None"
proof -
  obtain E where E: "NewEditor G = Some E" using NewEditor_built [OF assms(1)] by blast
  with assms(2) have "allowed_run edit_ok do_edit os E" by simp
  from edits_sound [OF assms(1) E this] E sound_Check show ?thesis by blast
qed

theorem edits_checked_witness:
  "\<exists>E E'. NewEditor pair_graph = Some E \<and> after_all do_edit pair_edits E = Some E' \<and> Check E' = Some None"
  by (rule edits_checked [OF pair_whole pair_allowed])

text \<open>
  C24.  After any such edits the dangling records are exactly the edges that dangle: an edge of a
  node in the graph, by name or by type, whose target is out of it.  None is lost, and an edge
  that was pointed elsewhere or went with its node has no record left.
\<close>

theorem dangling_exact:
  assumes "whole G xs ts" "NewEditor G = Some E" "allowed_run edit_ok do_edit os E" "after_all do_edit os E = Some E'"
    and "3 \<le> dUse d"
  shows "d \<in> set (Dangling E') \<longleftrightarrow> still_dangling E' d"
  using edits_sound [OF assms(1-3)] assms(4,5) sound_dangling by auto

theorem dangling_exact_witness:
  "\<lparr>dUse = 4, dTarget = 3, dTyped = False\<rparr> \<in> set (Dangling (the (do_edit (GDelete 3) (the (NewEditor pair_graph)))))"
proof -
  have "still_dangling (the (do_edit (GDelete 3) (the (NewEditor pair_graph)))) \<lparr>dUse = 4, dTarget = 3, dTyped = False\<rparr>"
    by code_simp
  with dangling_exact [OF pair_whole pair_editor pair_deleted] show ?thesis by simp
qed

text \<open>
  C25.  After any such edits the uses the index answers of a node are the nodes of the graph that
  have a refers edge to it, each one and no other.
\<close>

theorem uses_exact:
  assumes "whole G xs ts" "NewEditor G = Some E" "allowed_run edit_ok do_edit os E" "after_all do_edit os E = Some E'"
    and "3 \<le> u"
  shows "u \<in> set (Uses E' t) \<longleftrightarrow> gLive (eg E') u \<and> t \<in> set (grefs (enodes E' u))"
  using edits_sound [OF assms(1-3)] assms(4,5) sound_uses by auto

theorem uses_exact_witness:
  "4 \<in> set (Uses (the (do_edit (GDelete 3) (the (NewEditor pair_graph)))) 3)"
proof -
  have "gLive (eg (the (do_edit (GDelete 3) (the (NewEditor pair_graph))))) 4"
    "3 \<in> set (grefs (enodes (the (do_edit (GDelete 3) (the (NewEditor pair_graph)))) 4))" by code_simp+
  with uses_exact [OF pair_whole pair_editor pair_deleted] show ?thesis by simp
qed

text \<open>
  C26.  The index an editor is made with, the counting sort of the refers edges by the id of
  their targets with the rest in a table, answers for each node of a graph whose ids are distinct
  the starts of the edges to it, in the order the graph is walked.
\<close>

theorem index_is_uses:
  assumes "whole G xs ts"
    and "\<forall>x \<in> set xs. \<forall>y \<in> set xs. gid (gnodes G x) = gid (gnodes G y) \<longrightarrow> gid (gnodes G x) \<noteq> 0 \<longrightarrow> x = y"
  shows "\<exists>E. NewEditor G = Some E \<and>
    (\<forall>t \<in> set xs. usesOf E t = map fst (filter (\<lambda>(x, r). r = t) (refers_edges (gnodes G) xs)))"
proof -
  let ?N = "gnodes G" and ?es = "refers_edges (gnodes G) xs"
  have "filter (\<lambda>(x, r). gid (?N r) = gid (?N t)) ?es = filter (\<lambda>(x, r). r = t) ?es"
    if "t \<in> set xs" "gid (?N t) \<noteq> 0" for t
  proof (rule filter_cong [OF refl])
    fix e assume "e \<in> set ?es"
    then obtain x where x: "x \<in> set xs" "snd e \<in> set (grefs (?N x))" by (auto simp: refers_edges_def)
    from x(1) have "set (grefs (?N x)) \<subseteq> set xs" using assms(1) by (simp add: whole_def)
    then have "snd e \<in> set xs" using x(2) ..
    with that assms(2) show "(case e of (x, r) \<Rightarrow> gid (?N r) = gid (?N t)) = (case e of (x, r) \<Rightarrow> r = t)"
      by (auto split: prod.splits)
  qed
  then have "uses_in ?N m ?es t = map fst (filter (\<lambda>(x, r). r = t) ?es)" if "t \<in> set xs" for m t
    using that by (simp add: uses_in_def by_id_def)
  with NewEditor_built [OF assms(1)] show ?thesis by auto
qed

theorem index_is_uses_witness:
  "\<exists>E. NewEditor pair_graph = Some E \<and> (\<forall>t \<in> set [3, 4, 5]. usesOf E t = (if t = 3 then [4] else []))"
proof -
  have "\<forall>x \<in> set [3, 4, 5]. \<forall>y \<in> set [3, 4, 5]. gid (gnodes pair_graph x) = gid (gnodes pair_graph y) \<longrightarrow>
      gid (gnodes pair_graph x) \<noteq> 0 \<longrightarrow> x = y" by (simp add: pair_graph_def pair_node_def)
  from index_is_uses [OF pair_whole this] show ?thesis by (simp add: refers_edges_def pair_graph_def pair_node_def)
qed

end
