(* ===== verification/GraphMoves.thy ===== *)
theory GraphMoves
  imports GraphChecked
begin

text \<open>
  What the operations of the editor do to the graph, as the few changes they are made of.  An
  invariant of the graph that these changes keep is kept by every edit; the journal's and the
  ids' are the two below.
\<close>

subsection \<open>Changes of a graph\<close>

fun room_for :: "(graph \<Rightarrow> bool) \<Rightarrow> gedit \<Rightarrow> editor \<Rightarrow> bool" where
  "room_for room (GNew a l ks rs t) E = room (eg E)"
| "room_for room x E = True"

locale graph_moves =
  fixes P :: "graph \<Rightarrow> bool" and room :: "graph \<Rightarrow> bool"
  assumes P_up: "P G \<Longrightarrow> P (put n (\<lambda>k. k\<lparr>gup := u\<rparr>) G)"
    and P_kids: "P G \<Longrightarrow> P (put n (\<lambda>k. k\<lparr>gkids := ks\<rparr>) (save n G))"
    and P_type: "P G \<Longrightarrow> P (put n (\<lambda>k. k\<lparr>gtype := None\<rparr>) (save n G))"
    and P_refs: "P G \<Longrightarrow> P (put n (\<lambda>k. k\<lparr>grefs := (grefs k)[i := r]\<rparr>) (save n G))"
    and P_forms: "P G \<Longrightarrow> P (G\<lparr>gforms := ks\<rparr>)" "P G \<Longrightarrow> P (G\<lparr>gtypes := ks\<rparr>)" "P G \<Longrightarrow> P (G\<lparr>gexterns := ks\<rparr>)"
    and P_fresh: "P G \<Longrightarrow> gid (gnodes G n) = 0 \<Longrightarrow> glist (gnodes G n) \<or> grefs (gnodes G n) \<noteq> [] \<Longrightarrow> P (Fresh n G)"
    and P_saw: "P G \<Longrightarrow> gid (gnodes G n) \<noteq> 0 \<Longrightarrow> P (SawId (gid (gnodes G n)) G)"
    and P_new: "P G \<Longrightarrow> room G \<Longrightarrow> P (snd (NewNode a l ls rs t G))"
begin

lemma set_ups_kept: "P G \<Longrightarrow> P (G\<lparr>gnodes := set_ups ps (gnodes G)\<rparr>)"
proof (induction ps arbitrary: G)
  case (Cons p ps)
  obtain k x where p: "p = (k, x)" by force
  from Cons.IH [OF P_up [OF Cons.prems, of k "Some x"]] show ?case by (simp add: p set_ups_def put_def del: fun_upd_apply)
qed (simp add: set_ups_def)

lemma place_under_kept: "P G \<Longrightarrow> place_under p w G = Some G' \<Longrightarrow> P G'"
  unfolding place_under_def by (auto simp only: map_option_eq_Some intro: set_ups_kept)

lemma take_out_kept: "P (eg E) \<Longrightarrow> P (eg (take_out x E))"
  using P_up [of "eg E" x None] by (simp add: take_out_def on_graph_def Let_def)

lemma fold_take_out_kept: "P (eg E) \<Longrightarrow> P (eg (fold take_out xs E))"
  by (induction xs arbitrary: E) (simp_all add: take_out_kept)

lemma set_kids_kept: "P G \<Longrightarrow> P (set_kids p ks G)"
  by (simp add: set_kids_def P_kids P_forms)

lemma place_new_kept: "P (eg E) \<Longrightarrow> place_new p w E = Some E' \<Longrightarrow> P (eg E')"
  using place_under_kept by (auto simp: place_new_def bind_eq_Some_conv)

lemma places_kept: "P (eg E) \<Longrightarrow> opt_fold (place_new p) ws E = Some E' \<Longrightarrow> P (eg E')"
  by (induction ws arbitrary: E) (auto split: option.splits dest: place_new_kept)

lemma admit_kept: "P (eg E) \<Longrightarrow> P (eg (fst (admit x (E, new))))"
  using P_fresh [of "eg E" x] P_saw [of "eg E" x] by (simp add: admit_def on_graph_def Let_def)

lemma admits_kept: "P (eg E) \<Longrightarrow> fold admit xs (E, new) = (E', new') \<Longrightarrow> P (eg E')"
proof (induction xs arbitrary: E new)
  case (Cons x xs)
  obtain F new1 where f: "admit x (E, new) = (F, new1)" by force
  with admit_kept [OF Cons.prems(1), of x new] have "P (eg F)" by simp
  from Cons.IH [OF this] Cons.prems(2) f show ?case by simp
qed simp

lemma untype_kept: "P (eg E) \<Longrightarrow> P (eg (untype n E))"
  by (simp add: untype_def)

lemma clear_types_kept: "P (eg E) \<Longrightarrow> clear_types f q E = Some E' \<Longrightarrow> P (eg E')"
proof (induction f arbitrary: q E)
  case (Suc f)
  show ?case
  proof (cases q)
    case (Some n)
    have "P (eg (untype n (on_graph (put n (\<lambda>k. k\<lparr>gtype := None\<rparr>) \<circ> save n) E)))"
      using P_type [OF Suc.prems(1)] by (intro untype_kept) (simp add: on_graph_def)
    from Suc.IH [OF this] Suc.prems Some show ?thesis by (auto simp: Let_def split: if_splits)
  qed (use Suc.prems in simp)
qed simp

lemma retype_kept:
  assumes "P (eg E)" "retype p old new E = Some E'"
  shows "P (eg E')"
proof -
  define E1 where "E1 = (if glist (enodes E new) \<and> gtype (enodes E new) = None \<and> \<not> IsStatement (enodes E) new then untype new E else E)"
  have "P (eg E1)" using untype_kept [OF assms(1)] assms(1) by (simp add: E1_def)
  moreover have "E' = E1 \<or> clear_types (gnext (eg E) + 1) (Some p) E1 = Some E'"
    using assms(2) unfolding retype_def Let_def E1_def [symmetric] by (simp split: if_splits del: clear_types.simps)
  ultimately show ?thesis using clear_types_kept by blast
qed

lemma apply_splice_kept:
  assumes "P (eg E)" "apply_splice op p lo hi new old c E = Some E'"
  shows "P (eg E')"
proof -
  let ?ks = "kids_of (eg E) p"
  define E1 where "E1 = (if p = 0 then E\<lparr>ewasTop := ewasTop E \<union> set (take (hi - lo) (drop lo ?ks))\<rparr> else E)"
  define E3 where "E3 = on_graph (set_kids p (take lo ?ks @ new @ drop hi ?ks)) (fold take_out (filter (\<lambda>x. x \<notin> seen c) old) E1)"
  have "P (eg E1)" using assms(1) by (simp add: E1_def)
  then have 3: "P (eg E3)" using fold_take_out_kept set_kids_kept by (simp add: E3_def on_graph_def)
  obtain E4 where 4: "opt_fold (place_new p) new E3 = Some E4"
    using assms(2) unfolding apply_splice_def Let_def E3_def E1_def by (auto simp: bind_eq_Some_conv)
  obtain E5 given where 5: "fold admit (fresh c) (E4, []) = (E5, given)" by force
  have "P (eg E5)" using admits_kept [OF places_kept [OF 3 4] 5] .
  moreover obtain gone moved where "let E6 = record_splice op p new gone moved given E5 in
      (if hi = lo + 1 \<and> length new = 1 \<and> place_at E6 p lo = placeFixed \<and> \<not> IsStatement (enodes E6) (?ks ! lo)
       then retype p (?ks ! lo) (hd new) E6 else Some E6) = Some E'"
    using assms(2) 4 5 unfolding apply_splice_def Let_def E3_def E1_def by (simp del: placed_def)
  moreover have "eg (record_splice op p new gone moved given E5) = eg E5" for gone moved
    by (simp add: record_splice_def Let_def)
  ultimately have "P (eg E') \<or> (\<exists>F q old new. P (eg F) \<and> retype q old new F = Some E')"
    unfolding Let_def by (metis option.inject)
  then show ?thesis using retype_kept by blast
qed

lemma spliceAs_kept: "P (eg E) \<Longrightarrow> spliceAs op p lo hi new pl E = Some (err, E') \<Longrightarrow> P (eg E')"
  unfolding spliceAs_def Let_def
  by (auto simp: bind_eq_Some_conv split: option.splits dest: apply_splice_kept)

lemma gsplice_kept: "P (eg E) \<Longrightarrow> gsplice op p lo hi new E = Some (err, E') \<Longrightarrow> P (eg E')"
  unfolding gsplice_def by (rule spliceAs_kept)

lemma at_index_kept:
  "P (eg E) \<Longrightarrow> map_option snd (case index (eg E) n of None \<Rightarrow> Some (Some (NotInGraph n), E)
    | Some (p, i) \<Rightarrow> gsplice op p (lo i) (hi i) new E) = Some E' \<Longrightarrow> P (eg E')"
  by (auto split: option.splits dest: gsplice_kept)

lemma retarget_kept: "P (eg E) \<Longrightarrow> P (eg (snd (Retarget use i to E)))"
  using P_refs [of "eg E" use "nat i" to] by (simp add: Retarget_def on_graph_def Let_def)

lemma do_edit_kept: "P (eg E) \<Longrightarrow> room_for room x E \<Longrightarrow> do_edit x E = Some E' \<Longrightarrow> P (eg E')"
proof (cases x)
  case (GNew a l ks rs t)
  then show "P (eg E) \<Longrightarrow> room_for room x E \<Longrightarrow> do_edit x E = Some E' \<Longrightarrow> ?thesis"
    using P_new [of "eg E" a l ks rs t] by (auto simp: on_graph_def)
next
  case (GRetarget use i to)
  then show "P (eg E) \<Longrightarrow> room_for room x E \<Longrightarrow> do_edit x E = Some E' \<Longrightarrow> ?thesis"
    using retarget_kept by auto
next
  case GSettle
  then show "P (eg E) \<Longrightarrow> room_for room x E \<Longrightarrow> do_edit x E = Some E' \<Longrightarrow> ?thesis" by (auto simp: Settle_def)
qed (simp_all only: do_edit.simps gDelete_def gReplace_def gInsertBefore_def gInsertAfter_def,
    (rule at_index_kept [where lo = "\<lambda>i. i" and hi = "\<lambda>i. i + 1"] at_index_kept [where lo = "\<lambda>i. i" and hi = "\<lambda>i. i"]
      at_index_kept [where lo = "\<lambda>i. i + 1" and hi = "\<lambda>i. i + 1"]; assumption)+)

lemma edits_kept:
  assumes "P (eg E)" "allowed_run may do_edit os E" "after_all do_edit os E = Some E'"
    and may: "\<And>x E. may x E \<Longrightarrow> room_for room x E"
  shows "P (eg E')"
  using assms(1-3)
proof (induction os arbitrary: E)
  case (Cons x os)
  obtain F where F: "do_edit x E = Some F" "after_all do_edit os F = Some E'"
    using Cons.prems(3) by (auto simp: bind_eq_Some_conv)
  with Cons.prems(2) have "may x E" "allowed_run may do_edit os F" by (simp_all del: do_edit.simps)
  then show ?case using Cons.IH [of F] do_edit_kept [OF Cons.prems(1) may F(1)] F(2) by blast
qed simp

end

end
