(* ===== verification/GraphUndo.thy ===== *)
theory GraphUndo
  imports GraphMoves
begin

text \<open>
  The journal of crefactor/graph/journal.go: what the edits since \<open>Begin\<close> changed is put back by
  \<open>Undo\<close>.
\<close>

subsection \<open>Putting states back\<close>

lemma state_of_eq:
  "state_of N n = state_of M n \<longleftrightarrow> gatom (N n) = gatom (M n) \<and> gkids (N n) = gkids (M n) \<and> grefs (N n) = grefs (M n) \<and>
     gtype (N n) = gtype (M n) \<and> gid (N n) = gid (M n)"
  by (auto simp: state_of_def)

lemma put_back_state:
  "state_of (put_back s N) n = (if n = sn s then s else state_of N n)" "glist (put_back s N n) = glist (N n)"
  by (cases s; simp add: put_back_def state_of_def)+

lemma puts_back:
  "distinct (map sn ss) \<Longrightarrow> (\<forall>s \<in> set ss. sn s = n \<longrightarrow> state_of (fold put_back ss N) n = s) \<and>
     (n \<notin> sn ` set ss \<longrightarrow> state_of (fold put_back ss N) n = state_of N n) \<and> glist (fold put_back ss N n) = glist (N n)"
proof (induction ss arbitrary: N)
  case (Cons s ss)
  have "n \<notin> sn ` set ss" if "sn s = n" using that Cons.prems by auto
  with Cons.IH [of "put_back s N"] Cons.prems show ?case by (auto simp: put_back_state)
qed simp

subsection \<open>What a journal keeps\<close>

text \<open>
  A node that was there at \<open>Begin\<close> and needs no id given: it has one, or it is an atom no edge
  starts from.
\<close>

definition steady :: "graph \<Rightarrow> nat \<Rightarrow> bool" where
  "steady G0 n \<longleftrightarrow> n < gnext G0 \<and> (gid (gnodes G0 n) = 0 \<longrightarrow> \<not> glist (gnodes G0 n) \<and> grefs (gnodes G0 n) = [])"

definition kept_node :: "gstore \<Rightarrow> nat set \<Rightarrow> gstore \<Rightarrow> nat \<Rightarrow> bool" where
  "kept_node M saved N n \<longleftrightarrow>
     (n \<notin> saved \<longrightarrow> state_of N n = state_of M n) \<and> gid (N n) = gid (M n) \<and> glist (N n) = glist (M n) \<and>
     (gid (M n) = 0 \<longrightarrow> grefs (N n) = [])"

definition kept_journal :: "graph \<Rightarrow> journal \<Rightarrow> bool" where
  "kept_journal G0 J \<longleftrightarrow>
     \<not> jdone J \<and> jforms J = gforms G0 \<and> jtypes J = gtypes G0 \<and> jexterns J = gexterns G0 \<and> jids J = glast G0 \<and>
     jsaved J = sn ` set (jnodes J) \<and> distinct (map sn (jnodes J)) \<and>
     (\<forall>s \<in> set (jnodes J). steady G0 (sn s) \<longrightarrow> s = state_of (gnodes G0) (sn s))"

definition journalled :: "graph \<Rightarrow> nat \<Rightarrow> graph \<Rightarrow> bool" where
  "journalled G0 j G \<longleftrightarrow>
     recording G = Some j \<and> gnext G0 \<le> gnext G \<and> kept_journal G0 (journals G j) \<and>
     (\<forall>n. steady G0 n \<longrightarrow> kept_node (gnodes G0) (jsaved (journals G j)) (gnodes G) n)"

lemma journalledD:
  assumes "journalled G0 j G"
  shows "recording G = Some j" "gnext G0 \<le> gnext G" "kept_journal G0 (journals G j)"
    and "steady G0 n \<Longrightarrow> kept_node (gnodes G0) (jsaved (journals G j)) (gnodes G) n"
  using assms by (simp_all add: journalled_def)

lemma journalled_same:
  assumes "journalled G0 j G" "recording G' = recording G" "gnext G \<le> gnext G'" "journals G' = journals G"
    and "\<And>n. steady G0 n \<Longrightarrow> state_of (gnodes G') n = state_of (gnodes G) n \<and> glist (gnodes G' n) = glist (gnodes G n)"
  shows "journalled G0 j G'"
  unfolding journalled_def assms(2,4)
proof (intro conjI allI impI)
  note d = journalledD [OF assms(1)]
  show "recording G = Some j" "kept_journal G0 (journals G j)" by (rule d)+
  show "gnext G0 \<le> gnext G'" using d(2) assms(3) by simp
  fix n assume n: "steady G0 n"
  from d(4) [OF n] assms(5) [OF n] show "kept_node (gnodes G0) (jsaved (journals G j)) (gnodes G') n"
    by (simp add: kept_node_def state_of_eq)
qed

lemma save_saves:
  assumes "journalled G0 j G"
  shows "journalled G0 j (save n G)" "n \<in> jsaved (journals (save n G) j)"
proof -
  let ?J = "journals G j"
  have r: "recording G = Some j" by (rule journalledD [OF assms])
  have k: "kept_journal G0 ?J" by (rule journalledD [OF assms])
  show "n \<in> jsaved (journals (save n G) j)" by (simp add: save_def r Let_def)
  show "journalled G0 j (save n G)"
  proof (cases "n \<in> jsaved ?J")
    case True
    with assms r show ?thesis by (simp add: save_def)
  next
    case False
    let ?J' = "?J\<lparr>jsaved := insert n (jsaved ?J), jnodes := jnodes ?J @ [state_of (gnodes G) n]\<rparr>"
    have s: "save n G = G\<lparr>journals := (journals G)(j := ?J')\<rparr>" using r False by (simp add: save_def Let_def)
    have n: "sn (state_of N n) = n" for N by (simp add: state_of_def)
    have "state_of (gnodes G) n = state_of (gnodes G0) n" if "steady G0 n"
      using journalledD(4) [OF assms that] False by (simp add: kept_node_def)
    then have "kept_journal G0 ?J'" using k False by (auto simp: kept_journal_def n)
    moreover have "kept_node (gnodes G0) (insert n (jsaved ?J)) (gnodes G) m" if "steady G0 m" for m
      using journalledD(4) [OF assms that] by (simp add: kept_node_def)
    ultimately show ?thesis using r journalledD(2) [OF assms] by (simp add: s journalled_def)
  qed
qed

text \<open>A change of a node that was saved, which leaves its id, its kind and an edgeless node edgeless.\<close>

lemma change_saved:
  assumes "journalled G0 j G" and f: "\<And>k. gid (f k) = gid k" "\<And>k. glist (f k) = glist k" "\<And>k. grefs k = [] \<Longrightarrow> grefs (f k) = []"
  shows "journalled G0 j (put n f (save n G))"
proof -
  let ?G = "save n G"
  note s = save_saves [OF assms(1), of n]
  have "kept_node (gnodes G0) (jsaved (journals ?G j)) (gnodes (put n f ?G)) m" if "steady G0 m" for m
    using journalledD(4) [OF s(1) that] s(2) f by (auto simp: kept_node_def put_def state_of_eq)
  with s(1) show ?thesis by (simp add: journalled_def) (simp add: put_def)
qed

interpretation undoing: graph_moves "journalled G0 j" "\<lambda>_. True" for G0 j
proof unfold_locales
  fix G n assume j: "journalled G0 j G"
  show "journalled G0 j (put n (\<lambda>k. k\<lparr>gup := u\<rparr>) G)" for u
    by (rule journalled_same [OF j]) (auto simp: put_def state_of_eq)
  show "journalled G0 j (put n (\<lambda>k. k\<lparr>gkids := ks\<rparr>) (save n G))" for ks by (rule change_saved [OF j]) simp_all
  show "journalled G0 j (put n (\<lambda>k. k\<lparr>gtype := None\<rparr>) (save n G))" by (rule change_saved [OF j]) simp_all
  show "journalled G0 j (put n (\<lambda>k. k\<lparr>grefs := (grefs k)[i := r]\<rparr>) (save n G))" for i r by (rule change_saved [OF j]) simp_all
  show "journalled G0 j (G\<lparr>gforms := ks\<rparr>)" "journalled G0 j (G\<lparr>gtypes := ks\<rparr>)" "journalled G0 j (G\<lparr>gexterns := ks\<rparr>)" for ks
    by (rule journalled_same [OF j]; simp)+
  show "journalled G0 j (Fresh n G)" if new: "gid (gnodes G n) = 0" "glist (gnodes G n) \<or> grefs (gnodes G n) \<noteq> []"
  proof (rule journalled_same [OF j])
    show "recording (Fresh n G) = recording G" "gnext G \<le> gnext (Fresh n G)" "journals (Fresh n G) = journals G"
      by (simp_all add: Fresh_def NextId_def set_node_def)
    fix m assume m: "steady G0 m"
    have "m \<noteq> n" using journalledD(4) [OF j m] m new by (auto simp: kept_node_def steady_def)
    then show "state_of (gnodes (Fresh n G)) m = state_of (gnodes G) m \<and> glist (gnodes (Fresh n G) m) = glist (gnodes G m)"
      by (simp add: Fresh_simps state_of_eq)
  qed
  show "journalled G0 j (SawId (gid (gnodes G n)) G)"
    by (rule journalled_same [OF j]) (simp_all add: SawId_def)
  show "journalled G0 j (snd (NewNode a l ls rs t G))" for a l ls rs t
  proof (rule journalled_same [OF j])
    fix m assume "steady G0 m"
    then have "m \<noteq> gnext G" using journalledD(2) [OF j] by (simp add: steady_def)
    then show "state_of (gnodes (snd (NewNode a l ls rs t G))) m = state_of (gnodes G) m \<and>
        glist (gnodes (snd (NewNode a l ls rs t G)) m) = glist (gnodes G m)" by (simp add: NewNode_def state_of_eq)
  qed (simp_all add: NewNode_def)
qed

subsection \<open>Begin, edits, Undo\<close>

lemma Begin_simps:
  "gnodes (snd (Begin G)) = gnodes G" "gnext (snd (Begin G)) = gnext G" "gforms (snd (Begin G)) = gforms G"
  "gtypes (snd (Begin G)) = gtypes G" "gexterns (snd (Begin G)) = gexterns G" "glast (snd (Begin G)) = glast G"
  by (simp_all add: Begin_def)

lemma Begin_journalled: "journalled G (fst (Begin G)) (snd (Begin G))"
  by (auto simp: journalled_def Begin_def kept_journal_def kept_node_def steady_def)

lemma Undo_restores:
  assumes "journalled G0 j G"
  shows "gforms (Undo j G) = gforms G0" "gtypes (Undo j G) = gtypes G0" "gexterns (Undo j G) = gexterns G0"
    "glast (Undo j G) = glast G0"
    "steady G0 n \<Longrightarrow> state_of (gnodes (Undo j G)) n = state_of (gnodes G0) n \<and> glist (gnodes (Undo j G) n) = glist (gnodes G0 n)"
proof -
  let ?J = "journals G j" and ?G = "End j G"
  note d = journalledD [OF assms]
  have e: "journals ?G = journals G" "gnodes ?G = gnodes G" by (simp_all add: End_def)
  have u: "Undo j G = ?G\<lparr>journals := (journals ?G)(j := ?J\<lparr>jdone := True\<rparr>), gnodes := fold put_back (rev (jnodes ?J)) (gnodes G),
        gforms := jforms ?J, gtypes := jtypes ?J, gexterns := jexterns ?J, glast := jids ?J\<rparr>"
    using d(3) by (simp add: Undo_def Let_def e kept_journal_def)
  show "gforms (Undo j G) = gforms G0" "gtypes (Undo j G) = gtypes G0" "gexterns (Undo j G) = gexterns G0"
    "glast (Undo j G) = glast G0" using d(3) by (simp_all add: u kept_journal_def)
  assume n: "steady G0 n"
  have "distinct (map sn (rev (jnodes ?J)))" using d(3) by (simp add: kept_journal_def rev_map [symmetric])
  note restored = puts_back [OF this, of n "gnodes G"]
  have N: "gnodes (Undo j G) = fold put_back (rev (jnodes ?J)) (gnodes G)" by (simp add: u)
  show "state_of (gnodes (Undo j G)) n = state_of (gnodes G0) n \<and> glist (gnodes (Undo j G) n) = glist (gnodes G0 n)"
  proof (cases "n \<in> jsaved ?J")
    case True
    then obtain s where s: "s \<in> set (jnodes ?J)" "sn s = n" using d(3) by (auto simp: kept_journal_def)
    then have "s = state_of (gnodes G0) n" using d(3) n by (auto simp: kept_journal_def)
    with restored s d(4) [OF n] show ?thesis by (simp add: N kept_node_def)
  next
    case False
    then have "n \<notin> sn ` set (rev (jnodes ?J))" using d(3) by (simp add: kept_journal_def)
    with restored d(4) [OF n] False show ?thesis by (simp add: N kept_node_def)
  qed
qed

lemma Begin_sound: "sound E xs ts \<Longrightarrow> sound (on_graph (snd \<circ> Begin) E) xs ts"
proof -
  assume s: "sound E xs ts"
  let ?E = "on_graph (snd \<circ> Begin) E"
  have f: "enodes ?E = enodes E" "gnext (eg ?E) = gnext (eg E)" "gforms (eg ?E) = gforms (eg E)" "gtypes (eg ?E) = gtypes (eg E)"
    "gexterns (eg ?E) = gexterns (eg E)" "etypedBy ?E = etypedBy E" "eremoved ?E = eremoved E" "epending ?E = epending E"
    by (simp_all add: on_graph_def Begin_def)
  have u: "usesOf ?E r = usesOf E r" for r by (rule usesOf_cong) (simp_all add: on_graph_def Begin_def)
  show ?thesis
    using s unfolding sound_def sound_shape_def sound_targets_def sound_index_def held_def bounded_def fixed_part_def
      tops_under_def Sections_def f u by blast
qed

text \<open>
  C27.  A journal begun at any point of an editor's work and undone after any further edits puts
  the graph back: the three sections, the last id given, and of every node that was there, its
  atom, elements, refers edges, typed edge and id.  Only a node an id was still to be given to,
  a list or an edge's start without one, is not promised: giving an id is not journaled.
\<close>

theorem undo_restores:
  assumes "whole G xs ts" "NewEditor G = Some E" "allowed_run edit_ok do_edit os E" "after_all do_edit os E = Some E1"
    and "allowed_run edit_ok do_edit os' (on_graph (snd \<circ> Begin) E1)"
  shows "\<exists>E2. after_all do_edit os' (on_graph (snd \<circ> Begin) E1) = Some E2 \<and>
    (let G1 = eg E1; G2 = Undo (fst (Begin G1)) (eg E2) in
       gforms G2 = gforms G1 \<and> gtypes G2 = gtypes G1 \<and> gexterns G2 = gexterns G1 \<and> glast G2 = glast G1 \<and>
       (\<forall>n. steady G1 n \<longrightarrow> state_of (gnodes G2) n = state_of (gnodes G1) n \<and> glist (gnodes G2 n) = glist (gnodes G1 n)))"
proof -
  let ?E = "on_graph (snd \<circ> Begin) E1"
  obtain ys where "sound E1 ys ts" using edits_sound [OF assms(1-3)] assms(4) by auto
  then have "\<exists>xs. sound ?E xs ts" using Begin_sound by blast
  from edits.after_all_kept [OF this assms(5)] obtain E2 where E2: "after_all do_edit os' ?E = Some E2" by blast
  have "journalled (eg E1) (fst (Begin (eg E1))) (eg ?E)" by (simp add: on_graph_def Begin_journalled)
  from undoing.edits_kept [OF this assms(5) E2]
  have j: "journalled (eg E1) (fst (Begin (eg E1))) (eg E2)" by (metis room_for.elims(3))
  show ?thesis unfolding Let_def using E2 Undo_restores [OF j] by blast
qed

theorem undo_restores_witness:
  "\<exists>E2. after_all do_edit [GRetarget 4 0 4, GDelete 3] (on_graph (snd \<circ> Begin) (the (NewEditor pair_graph))) = Some E2 \<and>
    (let G1 = eg (the (NewEditor pair_graph)); G2 = Undo (fst (Begin G1)) (eg E2) in
       gforms G2 = gforms G1 \<and> gtypes G2 = gtypes G1 \<and> gexterns G2 = gexterns G1 \<and> glast G2 = glast G1 \<and>
       (\<forall>n. steady G1 n \<longrightarrow> state_of (gnodes G2) n = state_of (gnodes G1) n \<and> glist (gnodes G2 n) = glist (gnodes G1 n)))"
proof (rule undo_restores [OF pair_whole pair_editor, of "[]"])
  show "allowed_run edit_ok do_edit [GRetarget 4 0 4, GDelete 3] (on_graph (snd \<circ> Begin) (the (NewEditor pair_graph)))" by code_simp
qed simp_all

subsection \<open>Ids\<close>

lemma allowed_run_mono: "allowed_run may go os E \<Longrightarrow> (\<And>x E. may x E \<Longrightarrow> may' x E) \<Longrightarrow> allowed_run may' go os E"
  by (induction os arbitrary: E) (auto split: option.splits)

text \<open>Ids given so far, those still to be given, and what an id promises.\<close>

definition idless :: "graph \<Rightarrow> nat set" where
  "idless G = {n. n < gnext G \<and> gid (gnodes G n) = 0}"

definition proper_ids :: "graph \<Rightarrow> bool" where
  "proper_ids G \<longleftrightarrow>
     (\<forall>n. gid (gnodes G n) \<noteq> 0 \<longrightarrow> n < gnext G \<and> gid (gnodes G n) \<le> glast G) \<and>
     (\<forall>n \<ge> gnext G. \<not> glist (gnodes G n) \<and> grefs (gnodes G n) = []) \<and>
     (\<forall>m n. gid (gnodes G m) = gid (gnodes G n) \<longrightarrow> gid (gnodes G m) \<noteq> 0 \<longrightarrow> m = n) \<and>
     unat (glast G) + card (idless G) < 2 ^ 32"

definition id_room :: "graph \<Rightarrow> bool" where
  "id_room G \<longleftrightarrow> unat (glast G) + card (idless G) + 1 < 2 ^ 32"

definition same_ids :: "gstore \<Rightarrow> graph \<Rightarrow> bool" where
  "same_ids M G \<longleftrightarrow> proper_ids G \<and> (\<forall>n. gid (M n) \<noteq> 0 \<longrightarrow> gid (gnodes G n) = gid (M n))"

lemma proper_idsD:
  assumes "proper_ids G"
  shows "gid (gnodes G n) \<noteq> 0 \<Longrightarrow> n < gnext G \<and> gid (gnodes G n) \<le> glast G"
    and "gnext G \<le> n \<Longrightarrow> \<not> glist (gnodes G n) \<and> grefs (gnodes G n) = []"
    and "gid (gnodes G m) = gid (gnodes G n) \<Longrightarrow> gid (gnodes G m) \<noteq> 0 \<Longrightarrow> m = n"
    and "unat (glast G) + card (idless G) < 2 ^ 32"
  using assms by (simp_all add: proper_ids_def)

lemma same_ids_same:
  assumes "same_ids M G" "gnext G' = gnext G" "glast G' = glast G" "\<And>n. gid (gnodes G' n) = gid (gnodes G n)"
    and "\<And>n. glist (gnodes G' n) = glist (gnodes G n)" "\<And>n. grefs (gnodes G n) = [] \<Longrightarrow> grefs (gnodes G' n) = []"
  shows "same_ids M G'"
  using assms(1,6) unfolding same_ids_def proper_ids_def idless_def assms(2-5) by blast

lemma fresh_ids:
  assumes "same_ids M G" "gid (gnodes G n) = 0" "glist (gnodes G n) \<or> grefs (gnodes G n) \<noteq> []"
  shows "same_ids M (Fresh n G)"
proof -
  have p: "proper_ids G" using assms(1) by (simp add: same_ids_def)
  note d = proper_idsD [OF p]
  have n: "n < gnext G" using d(2) [of n] assms(3) by (cases "gnext G \<le> n") auto
  have fin: "finite (idless G)" by (simp add: idless_def)
  have mem: "n \<in> idless G" using n assms(2) by (simp add: idless_def)
  have c: "card (idless G) = Suc (card (idless G - {n}))" using fin mem by (rule card.remove)
  have up: "unat (glast G + 1) = unat (glast G) + 1"
    using d(4) c unat_add_lem [of "glast G" 1] by simp
  let ?G = "Fresh n G"
  have more: "gid (gnodes G m) < glast G + 1" if "gid (gnodes G m) \<noteq> 0" for m
    using d(1) [OF that] up by (simp add: word_less_nat_alt word_le_nat_alt)
  have pos: "glast G + 1 \<noteq> 0" using up by (metis add_is_0 unat_0 zero_neq_one)
  have "proper_ids ?G" unfolding proper_ids_def
  proof (intro conjI allI impI)
    fix m assume m: "gid (gnodes ?G m) \<noteq> 0"
    show "m < gnext ?G" using m n d(1) by (auto simp: Fresh_simps split: if_splits)
    show "gid (gnodes ?G m) \<le> glast ?G" using m more by (auto simp: Fresh_simps intro: less_imp_le split: if_splits)
  next
    fix m assume "gnext ?G \<le> m"
    then show "\<not> glist (gnodes ?G m)" "grefs (gnodes ?G m) = []" using d(2) [of m] n by (auto simp: Fresh_simps)
  next
    fix m k assume "gid (gnodes ?G m) = gid (gnodes ?G k)" "gid (gnodes ?G m) \<noteq> 0"
    then show "m = k" using d(3) [of m k] more [of m] more [of k] by (auto simp: Fresh_simps split: if_splits)
  next
    have "idless ?G = idless G - {n}" using pos by (auto simp: idless_def Fresh_simps)
    then show "unat (glast ?G) + card (idless ?G) < 2 ^ 32" using d(4) c up by (simp add: Fresh_simps)
  qed
  then show ?thesis using assms(1,2) by (auto simp: same_ids_def Fresh_simps)
qed

interpretation ids: graph_moves "same_ids M" id_room for M
proof unfold_locales
  fix G n assume j: "same_ids M G"
  note d = proper_idsD [of G]
  show "same_ids M (put n (\<lambda>k. k\<lparr>gup := u\<rparr>) G)" for u by (rule same_ids_same [OF j]) (auto simp: put_def)
  have sv: "gnodes (save n G) = gnodes G" "gnext (save n G) = gnext G" "glast (save n G) = glast G"
    by (auto simp: save_def Let_def split: option.splits)
  show "same_ids M (put n (\<lambda>k. k\<lparr>gkids := ks\<rparr>) (save n G))" for ks by (rule same_ids_same [OF j]) (auto simp: put_def sv)
  show "same_ids M (put n (\<lambda>k. k\<lparr>gtype := None\<rparr>) (save n G))" by (rule same_ids_same [OF j]) (auto simp: put_def sv)
  show "same_ids M (put n (\<lambda>k. k\<lparr>grefs := (grefs k)[i := r]\<rparr>) (save n G))" for i r
    by (rule same_ids_same [OF j]) (auto simp: put_def sv)
  show "same_ids M (G\<lparr>gforms := ks\<rparr>)" "same_ids M (G\<lparr>gtypes := ks\<rparr>)" "same_ids M (G\<lparr>gexterns := ks\<rparr>)" for ks
    by (rule same_ids_same [OF j]; simp)+
  show "same_ids M (Fresh n G)" if "gid (gnodes G n) = 0" "glist (gnodes G n) \<or> grefs (gnodes G n) \<noteq> []"
    by (rule fresh_ids [OF j that])
  show "same_ids M (SawId (gid (gnodes G n)) G)" if "gid (gnodes G n) \<noteq> 0"
  proof -
    have "gid (gnodes G n) \<le> glast G" using d(1) [OF _ that] j by (simp add: same_ids_def)
    then have "SawId (gid (gnodes G n)) G = G" by (simp add: SawId_def)
    with j show ?thesis by simp
  qed
  show "same_ids M (snd (NewNode a l ls rs t G))" if room: "id_room G" for a l ls rs t
  proof -
    let ?G = "snd (NewNode a l ls rs t G)"
    have p: "proper_ids G" using j by (simp add: same_ids_def)
    note d = proper_idsD [OF p]
    have z: "gid (gnodes G (gnext G)) = 0" using d(1) [of "gnext G"] by auto
    have g: "gid (gnodes ?G m) = gid (gnodes G m)" "gnext ?G = gnext G + 1" "glast ?G = glast G" for m
      using z by (auto simp: NewNode_def)
    have "idless ?G = insert (gnext G) (idless G)" using z by (auto simp: idless_def g less_Suc_eq)
    moreover have "gnext G \<notin> idless G" "finite (idless G)" by (simp_all add: idless_def)
    ultimately have "unat (glast ?G) + card (idless ?G) < 2 ^ 32" using room by (simp add: id_room_def g)
    moreover have "\<not> glist (gnodes ?G m) \<and> grefs (gnodes ?G m) = []" if "gnext ?G \<le> m" for m
      using d(2) [of m] that by (simp add: NewNode_def)
    ultimately have "proper_ids ?G" unfolding proper_ids_def g(1,3) using d(1,3) g(2) by (metis less_SucI Suc_eq_plus1)
    with j show ?thesis by (simp add: same_ids_def g)
  qed
qed

text \<open>
  C28.  Ids are given once: after any edits of a graph whose ids are distinct and at most the last
  given, they are so still, every node that had an id has it, and the graph's last id never
  goes past the 32 bits, as long as the nodes a caller makes leave room for their ids.
\<close>

theorem ids_given_once:
  assumes "whole G xs ts" "NewEditor G = Some E" "proper_ids (eg E)"
    and "allowed_run (\<lambda>x F. edit_ok x F \<and> room_for id_room x F) do_edit os E"
  shows "\<exists>E'. after_all do_edit os E = Some E' \<and> proper_ids (eg E') \<and>
    (\<forall>n. gid (enodes E n) \<noteq> 0 \<longrightarrow> gid (enodes E' n) = gid (enodes E n))"
proof -
  have "allowed_run edit_ok do_edit os E" by (rule allowed_run_mono [OF assms(4)]) simp
  from edits_sound [OF assms(1,2) this] obtain E' where E': "after_all do_edit os E = Some E'" by blast
  have "same_ids (enodes E) (eg E)" using assms(3) by (simp add: same_ids_def)
  from ids.edits_kept [OF this assms(4) E'] E' show ?thesis by (auto simp: same_ids_def)
qed

lemma pair_ids: "proper_ids (eg (the (NewEditor pair_graph)))"
proof -
  have "same_but_up (gnodes (with_sentinels pair_graph)) (enodes (the (NewEditor pair_graph)))"
    "gnext (eg (the (NewEditor pair_graph))) = 6"
    using NewEditor_built [OF pair_whole] by (auto simp: pair_graph_def)
  moreover have "glast (eg (the (NewEditor pair_graph))) = 5" by code_simp
  moreover have "gid (gnodes (with_sentinels pair_graph) n) = (if n \<in> {3, 4, 5} then word_of_nat n else 0)"
    "glist (gnodes (with_sentinels pair_graph) n) \<longleftrightarrow> n \<in> {3, 4, 5}"
    "grefs (gnodes (with_sentinels pair_graph) n) = (if n = 4 then [3] else [])" for n
    by (auto simp: with_sentinels_def sentinel_def pair_graph_def pair_node_def)
  moreover have "card (idless (eg (the (NewEditor pair_graph)))) \<le> 6"
    using calculation(2) card_mono [of "{..<6}" "idless (eg (the (NewEditor pair_graph)))"] by (auto simp: idless_def)
  ultimately show ?thesis by (auto simp: proper_ids_def same_but_upD split: if_splits)
qed

theorem ids_given_once_witness:
  "\<exists>E'. after_all do_edit [GDelete 3] (the (NewEditor pair_graph)) = Some E' \<and> proper_ids (eg E') \<and>
    (\<forall>n. gid (enodes (the (NewEditor pair_graph)) n) \<noteq> 0 \<longrightarrow> gid (enodes E' n) = gid (enodes (the (NewEditor pair_graph)) n))"
proof (rule ids_given_once [OF pair_whole pair_editor pair_ids])
  have "gnext (eg (the (NewEditor pair_graph))) = 6" using NewEditor_built [OF pair_whole] by (auto simp: pair_graph_def)
  then show "allowed_run (\<lambda>x F. edit_ok x F \<and> room_for id_room x F) do_edit [GDelete 3] (the (NewEditor pair_graph))"
    by (simp del: do_edit.simps split: option.splits)
qed

subsection \<open>Number\<close>

lemma number_one_ids:
  assumes "same_ids M G"
  shows "same_ids M (number_one n G)"
    and "gid (gnodes (number_one n G) n) = 0 \<Longrightarrow> \<not> glist (gnodes G n) \<and> grefs (gnodes G n) = []"
    and "gid (gnodes G m) \<noteq> 0 \<Longrightarrow> gid (gnodes (number_one n G) m) = gid (gnodes G m)"
    and "gnext (number_one n G) = gnext G" "glist (gnodes (number_one n G) m) = glist (gnodes G m)"
    and "grefs (gnodes (number_one n G) m) = grefs (gnodes G m)"
proof -
  have f: "same_ids (gnodes (Fresh n G)) (Fresh n G)"
    if "gid (gnodes G n) = 0" "glist (gnodes G n) \<or> grefs (gnodes G n) \<noteq> []"
    using fresh_ids [OF assms that] by (simp add: same_ids_def)
  have new: "glast G + 1 \<noteq> 0" if "gid (gnodes G n) = 0" "glist (gnodes G n) \<or> grefs (gnodes G n) \<noteq> []"
  proof -
    note d = proper_idsD [of G]
    have p: "proper_ids G" using assms by (simp add: same_ids_def)
    have "n \<in> idless G" using d(2) [OF p, of n] that by (cases "gnext G \<le> n") (auto simp: idless_def)
    then have "card (idless G) \<noteq> 0" by (auto simp: idless_def)
    then have "unat (glast G) + 1 < 2 ^ 32" using d(4) [OF p] by linarith
    then have "unat (glast G + 1) = unat (glast G) + 1" using unat_add_lem [of "glast G" 1] by simp
    then show ?thesis by (metis add_is_0 unat_0 zero_neq_one)
  qed
  show "same_ids M (number_one n G)" using assms fresh_ids [OF assms] by (auto simp: number_one_def Let_def)
  show "gid (gnodes (number_one n G) n) = 0 \<Longrightarrow> \<not> glist (gnodes G n) \<and> grefs (gnodes G n) = []"
    using new by (auto simp: number_one_def Let_def Fresh_simps split: if_splits)
  show "gid (gnodes G m) \<noteq> 0 \<Longrightarrow> gid (gnodes (number_one n G) m) = gid (gnodes G m)"
    by (auto simp: number_one_def Let_def Fresh_simps)
  show "gnext (number_one n G) = gnext G" "glist (gnodes (number_one n G) m) = glist (gnodes G m)"
    "grefs (gnodes (number_one n G) m) = grefs (gnodes G m)"
    by (auto simp: number_one_def Let_def Fresh_simps)
qed

lemma fold_number_ids:
  assumes "same_ids M G"
  shows "same_ids M (fold number_one xs G) \<and> gnext (fold number_one xs G) = gnext G \<and>
    (\<forall>x. glist (gnodes (fold number_one xs G) x) = glist (gnodes G x) \<and> grefs (gnodes (fold number_one xs G) x) = grefs (gnodes G x) \<and>
      (gid (gnodes G x) \<noteq> 0 \<longrightarrow> gid (gnodes (fold number_one xs G) x) \<noteq> 0)) \<and>
    (\<forall>x \<in> set xs. gid (gnodes (fold number_one xs G) x) = 0 \<longrightarrow> \<not> glist (gnodes G x) \<and> grefs (gnodes G x) = [])"
  using assms
proof (induction xs arbitrary: G)
  case (Cons x xs)
  note one = number_one_ids [where n = x, OF Cons.prems]
  have "gid (gnodes G m) \<noteq> 0 \<Longrightarrow> gid (gnodes (number_one x G) m) \<noteq> 0" for m using one(3) by simp
  with Cons.IH [OF one(1)] one(2,4-6) show ?case by auto
qed simp

text \<open>
  C29.  \<open>Number\<close> gives an id to every list of the graph and to every atom an edge starts from,
  changes no id there is and leaves the ids distinct: after it, a journal's undo restores every
  node of the graph.
\<close>

theorem Number_steady:
  assumes "whole G xs ts" "proper_ids G"
  shows "\<exists>G'. Number G = Some G' \<and> (\<forall>x \<in> set xs. steady G' x) \<and> proper_ids G' \<and>
    (\<forall>n. gid (gnodes G n) \<noteq> 0 \<longrightarrow> gid (gnodes G' n) = gid (gnodes G n))"
proof -
  have f: "forest (gnodes G) (Sections G) xs" "distinct xs" "set xs \<subseteq> {3..<gnext G}" using assms(1) by (simp_all add: whole_def)
  have "length xs \<le> gnext G" using card_mono [OF _ f(3)] f(2) by (simp add: distinct_card)
  then have "Number G = Some (fold number_one xs G)" using walk_forest [OF f(1)] by (simp add: Number_def gWalk_def)
  moreover have "same_ids (gnodes G) G" using assms(2) by (simp add: same_ids_def)
  note fold_number_ids [OF this, of xs]
  moreover have "x < gnext G" if "x \<in> set xs" for x using f(3) that by auto
  ultimately show ?thesis by (auto simp: steady_def same_ids_def)
qed

text \<open>The graph of two forms, before any id is given.\<close>

definition bare_graph :: graph where
  "bare_graph = pair_graph\<lparr>gnodes := (\<lambda>n. (pair_node n)\<lparr>gid := 0\<rparr>), glast := 0\<rparr>"

lemma bare_whole: "whole bare_graph [3, 4, 5] [5]"
  unfolding whole_def
proof (intro conjI)
  show "forest (gnodes bare_graph) (Sections bare_graph) [3, 4, 5]" by (rule walked_forest [of 7]) code_simp
  show "fixed_part bare_graph [5]" unfolding fixed_part_def by (rule walked_forest [of 7]) code_simp
  show "quiet (gnodes bare_graph) [5]" "distinct [3, 4, 5 :: nat]" by code_simp+
  show "bounded bare_graph" by (auto simp: bounded_def bare_graph_def pair_graph_def pair_node_def)
  show "\<forall>n. n \<notin> set [3, 4, 5] \<longrightarrow> gup (gnodes bare_graph n) = None" by (simp add: bare_graph_def pair_graph_def pair_node_def)
  show "\<forall>x \<in> set [3, 4, 5]. set (grefs (gnodes bare_graph x)) \<subseteq> set [3, 4, 5] \<and>
      (\<forall>t. gtype (gnodes bare_graph x) = Some t \<longrightarrow> t \<in> set [3, 4, 5]) \<and> unat (gid (gnodes bare_graph x)) + 2 < 2 ^ 32"
    by (simp add: bare_graph_def pair_graph_def pair_node_def)
  show "3 \<le> gnext bare_graph" "set [3, 4, 5] \<subseteq> {3..<gnext bare_graph}" by (simp_all add: bare_graph_def pair_graph_def)
qed

theorem Number_steady_witness:
  "\<exists>G'. Number bare_graph = Some G' \<and> (\<forall>x \<in> set [3, 4, 5]. steady G' x) \<and> proper_ids G' \<and>
    (\<forall>n. gid (gnodes bare_graph n) \<noteq> 0 \<longrightarrow> gid (gnodes G' n) = gid (gnodes bare_graph n))"
proof (rule Number_steady [OF bare_whole])
  have "card (idless bare_graph) \<le> 6"
    using card_mono [of "{..<6}" "idless bare_graph"] by (auto simp: idless_def bare_graph_def pair_graph_def)
  then show "proper_ids bare_graph" by (auto simp: proper_ids_def bare_graph_def pair_graph_def pair_node_def)
qed

end
