(* ===== verification/GraphLimits.thy ===== *)
theory GraphLimits
  imports GraphUndo
begin

text \<open>
  Where the editor's questions have other answers than their comments say: \<open>Item\<close> of a node in
  the sections of types and externals, and \<open>Live\<close> of a node an undone edit had put in.
\<close>

subsection \<open>Item\<close>

lemma sections_item:
  assumes "sound_shape E xs ts"
  shows "live_up f (enodes E) (Some n) \<Longrightarrow> n = 1 \<or> n = 2 \<or> n \<in> set ts \<Longrightarrow> item_from f E n = Panic"
proof (induction f arbitrary: n)
  case (Suc f)
  have h: "held (eg E) xs" "3 \<le> gnext (eg E)" "fixed_part (eg E) ts" using assms by (simp_all add: sound_shape_def)
  obtain fs where x: "xs = fs @ ts" using fixed_split h(1,3) by metis
  show ?case
  proof (cases "isTop n")
    case False
    with Suc.prems(2) have n: "n \<in> set ts" by (auto simp: isTop_def)
    have "live_up f (enodes E) (gup (enodes E n))" using Suc.prems(1) False by simp
    then obtain p where p: "gup (enodes E n) = Some p" "live_up f (enodes E) (Some p)" by (cases "gup (enodes E n)") auto
    have pp: "p = 1 \<or> p = 2 \<or> p \<in> set ts" by (rule fixed_parent [OF h(1,3) n p(1)])
    have f: "forest (enodes E) (gtypes (eg E) @ gexterns (eg E)) ts" using h(3) by (simp add: fixed_part_def)
    have "n \<in> set (kids_of (eg E) p)"
    proof -
      consider "n \<in> set (gtypes (eg E) @ gexterns (eg E))" | y where "y \<in> set ts" "n \<in> set (gkids (enodes E y))"
        using forest_set [OF f] n by blast
      then show ?thesis
      proof cases
        case 1
        with h(1) p(1) show ?thesis by (auto simp: held_def tops_under_def kids_of_def)
      next
        case 2
        then have "y \<in> set xs" using x by simp
        then have "p = y" "\<not> isTop y" using held_kid [OF h(1) _ 2(2)] held_not_top [OF h(1)] p(1) by auto
        with 2 show ?thesis by (simp add: kids_of_node)
      qed
    qed
    moreover have "gLive (eg E) n" using held_live [OF h(1,2)] n x by simp
    ultimately obtain i where i: "index (eg E) n = Some (p, i)" using p(1) by (auto simp: index_def position_def)
    with Suc.IH [OF p(2) pp] sections_place(1) [OF assms pp] False show ?thesis by simp
  qed simp
qed simp

text \<open>
  C30.  \<open>Item\<close>, asked of any node of the types or the externals after any edits, panics, where its
  comment promises \<open>nil\<close> when there is no item: it climbs to the section's sentinel and asks for
  the place of that in a container that is not there.
\<close>

theorem Item_panics:
  assumes "whole G xs ts" "NewEditor G = Some E" "allowed_run edit_ok do_edit os E" "after_all do_edit os E = Some E'"
    and "x \<in> set ts"
  shows "Item E' x = Panic"
proof -
  obtain ys where "sound E' ys ts" using edits_sound [OF assms(1-3)] assms(4) by auto
  then have s: "sound_shape E' ys ts" by (simp add: sound_def)
  have h: "held (eg E') ys" "3 \<le> gnext (eg E')" "fixed_part (eg E') ts" using s by (simp_all add: sound_shape_def)
  obtain fs where "ys = fs @ ts" using fixed_split h(1,3) by metis
  then have "gLive (eg E') x" using held_live [OF h(1,2)] assms(5) by simp
  then have "live_up (gnext (eg E') + 2) (enodes E') (Some x)" unfolding gLive_def by (rule live_up_mono) simp
  from sections_item [OF s this] assms(5) show ?thesis by (simp add: Item_def)
qed

theorem Item_panics_witness: "Item (the (NewEditor pair_graph)) 5 = Panic"
  by (rule Item_panics [OF pair_whole pair_editor, of "[]"]) simp_all

subsection \<open>Live\<close>

lemma put_back_up: "gup (fold put_back ss N n) = gup (N n)"
  by (induction ss arbitrary: N) (simp_all add: put_back_def)

lemma Undo_up: "gup (gnodes (Undo j G) n) = gup (gnodes G n)" "gnext (Undo j G) = gnext G"
  by (simp_all add: Undo_def Let_def put_back_up) (simp_all add: End_def)

text \<open>A new editor of a graph whose sections hold the nodes \<open>ys\<close>: what is live, whatever else there is.\<close>

lemma new_editor_holds:
  assumes f: "forest (gnodes G) (Sections G) ys" "distinct ys" "set ys \<subseteq> {3..<gnext G}" "3 \<le> gnext G"
    and new: "NewEditor G = Some E" and x: "x \<notin> set ys" "\<not> isTop x"
  shows "gWalk (eg E) (Sections (eg E)) = Some ys"
    and "gup (gnodes G x) = Some p \<Longrightarrow> isTop p \<Longrightarrow> \<not> gLive (eg E) x"
    and "gup (gnodes G x) = Some p \<Longrightarrow> p \<in> set ys \<Longrightarrow> gLive (eg E) x"
proof -
  let ?S = "with_sentinels G"
  have same: "gnodes ?S n = unheld (gnodes G n)" if "3 \<le> n" for n using that by (simp add: with_sentinels_def)
  have secs: "Sections ?S = Sections G" "gnext ?S = gnext G" by (simp_all add: with_sentinels_def Sections_def)
  have ge: "3 \<le> n" if "n \<in> set ys" for n using f(3) that by auto
  have fs: "forest (gnodes ?S) (Sections ?S) ys" unfolding secs by (rule forest_cong [OF f(1)]) (simp add: same ge)
  obtain N where N: "contain_all ?S = Some (?S\<lparr>gnodes := N\<rparr>)" "kids_under N ys" "tops_under (?S\<lparr>gnodes := N\<rparr>)"
      "same_but_up (gnodes ?S) N" "\<forall>n. n \<notin> set ys \<longrightarrow> N n = gnodes ?S n"
    using contain_all_places [OF fs f(2)] f(3) secs by auto
  let ?H = "?S\<lparr>gnodes := N\<rparr>"
  have E: "eg E = ?H" using new N(1) by (auto simp: NewEditor_def Let_def bind_eq_Some_conv split: prod.splits)
  have fN: "forest N (Sections ?H) ys"
    using forest_cong [OF fs, of N] same_but_upD(1) [OF N(4)] by (simp add: Sections_def)
  have "length ys \<le> card {3..<gnext G}" using f(2,3) by (metis card_mono distinct_card finite_atLeastLessThan)
  then have len: "length ys + 3 \<le> gnext G" using f(4) by simp
  show "gWalk (eg E) (Sections (eg E)) = Some ys"
    unfolding E gWalk_def using fN len secs by (intro walk_forest) simp_all
  have up: "gup (N x) = gup (unheld (gnodes G x))" using N(5) x same [of x] by (simp add: isTop_def)
  show "\<not> gLive (eg E) x" if "gup (gnodes G x) = Some p" "isTop p"
    using that up x(2) unfolding E gLive_def by (simp add: unheld_def)
  show "gLive (eg E) x" if p: "gup (gnodes G x) = Some p" "p \<in> set ys"
  proof -
    have "\<not> isTop p" using ge [OF p(2)] by (simp add: isTop_def)
    then have "gup (N x) = Some p" using up p(1) by (simp add: unheld_def)
    moreover have "live_up (2 + length ys) N (Some p)"
    proof (rule live_forest [OF fN N(2) _ p(2)])
      fix k assume "k \<in> set (Sections ?H)"
      then show "live_up 2 N (Some k)" using N(3) by (auto simp: tops_under_def Sections_def isTop_def numeral_2_eq_2)
    qed
    ultimately have "live_up (Suc (2 + length ys)) N (Some x)" by simp
    then have "live_up (gnext G + 1) N (Some x)" by (rule live_up_mono) (use len in simp)
    then show ?thesis unfolding E gLive_def using secs by simp
  qed
qed

text \<open>
  C31.  After a journal is undone, a node that the undone edits put under a node of the graph is in
  no section, and an editor made of the graph then says it is in the graph: \<open>Undo\<close> leaves the
  node's container as it was, and \<open>Live\<close> follows containers only.  A node they put at the top of
  a section is not live, for the new editor's sections are new.  The graph is numbered: when the
  journal is begun every list, and every atom an edge starts from, has an id.
\<close>

theorem undone_node_live:
  assumes graph: "whole G xs ts" "NewEditor G = Some E" "allowed_run edit_ok do_edit os E" "after_all do_edit os E = Some E1"
    and began: "gWalk (eg E1) (Sections (eg E1)) = Some ys" "\<forall>n \<in> set ys. steady (eg E1) n"
    and edits: "allowed_run edit_ok do_edit os' (on_graph (snd \<circ> Begin) E1)"
      "after_all do_edit os' (on_graph (snd \<circ> Begin) E1) = Some E2"
    and undone: "NewEditor (Undo (fst (Begin (eg E1))) (eg E2)) = Some E3"
    and x: "x \<notin> set ys" "\<not> isTop x" "gup (enodes E2 x) = Some p"
  shows "gWalk (eg E3) (Sections (eg E3)) = Some ys \<and> (isTop p \<longrightarrow> \<not> gLive (eg E3) x) \<and> (p \<in> set ys \<longrightarrow> gLive (eg E3) x)"
proof -
  let ?U = "Undo (fst (Begin (eg E1))) (eg E2)"
  obtain zs where "sound E1 zs ts" using edits_sound [OF graph(1-3)] graph(4) by auto
  then have h: "held (eg E1) zs" "3 \<le> gnext (eg E1)" by (simp_all add: sound_def sound_shape_def)
  have "gWalk (eg E1) (Sections (eg E1)) = Some zs" by (rule held_Walk [OF h])
  then have "held (eg E1) ys" using h(1) began(1) by simp
  then have f: "forest (enodes E1) (Sections (eg E1)) ys" "distinct ys" "set ys \<subseteq> {3..<gnext (eg E1)}"
    by (simp_all add: held_def)
  have "journalled (eg E1) (fst (Begin (eg E1))) (eg (on_graph (snd \<circ> Begin) E1))" by (simp add: on_graph_def Begin_journalled)
  from undoing.edits_kept [OF this edits]
  have j: "journalled (eg E1) (fst (Begin (eg E1))) (eg E2)" by (metis room_for.elims(3))
  note u = Undo_restores [OF j] and d = journalledD(2) [OF j]
  have "Sections ?U = Sections (eg E1)" using u(1-3) by (simp add: Sections_def)
  moreover have "gkids (gnodes ?U n) = gkids (enodes E1 n)" if "n \<in> set ys" for n
    using u(5) [of n] began(2) that by (simp add: state_of_eq)
  ultimately have fU: "forest (gnodes ?U) (Sections ?U) ys" using forest_cong [OF f(1), of "gnodes ?U"] by simp
  have bound: "set ys \<subseteq> {3..<gnext ?U}" "3 \<le> gnext ?U" using f(3) d h(2) by (auto simp: Undo_up)
  note n = new_editor_holds [OF fU f(2) bound undone x(1,2)]
  show ?thesis using n x(3) by (auto simp: Undo_up)
qed

text \<open>A block in the file, and the node that is put in it and taken back.\<close>

definition block_node :: "nat \<Rightarrow> gnode" where
  "block_node n =
     \<lparr>gid = (if n = 3 then 1 else 0), gatom = (if n = 4 then ''block'' else []), gkids = (if n = 3 then [4] else []),
      grefs = [], gtype = None, glist = (n = 3), gup = None\<rparr>"

definition block_graph :: graph where
  "block_graph = pair_graph\<lparr>gnodes := block_node, gnext := 5, gforms := [3], gtypes := [], glast := 1\<rparr>"

definition block_begun :: editor where
  "block_begun = on_graph (snd \<circ> Begin) (the (NewEditor block_graph))"

definition block_edited :: editor where
  "block_edited = the (after_all do_edit [GNew [] True [] [] None, GAfter 4 [5]] block_begun)"

lemma block_whole: "whole block_graph [3, 4] []"
proof -
  have "forest block_node [4] [4]" using forest_Cons [of block_node 4 "[]" "[]" "[]"] forest_Nil by (simp add: block_node_def)
  then have "forest block_node [3] [3, 4]" using forest_Cons [of block_node 3 "[4]" "[]" "[]"] forest_Nil by (simp add: block_node_def)
  then show ?thesis
    by (auto simp: whole_def block_graph_def pair_graph_def Sections_def bounded_def fixed_part_def quiet_def block_node_def
        forest_Nil)
qed

theorem undone_node_live_witness:
  "gWalk (eg (the (NewEditor (Undo 0 (eg block_edited))))) [3] = Some [3, 4] \<and>
    gLive (eg (the (NewEditor (Undo 0 (eg block_edited))))) 5"
proof -
  have E: "NewEditor block_graph = Some (the (NewEditor block_graph))" using NewEditor_built [OF block_whole] by auto
  have j: "fst (Begin (eg (the (NewEditor block_graph)))) = 0" "Sections (eg (the (NewEditor (Undo 0 (eg block_edited))))) = [3]"
    by code_simp+
  have "gWalk (eg (the (NewEditor (Undo 0 (eg block_edited))))) (Sections (eg (the (NewEditor (Undo 0 (eg block_edited)))))) = Some [3, 4] \<and>
    (isTop 3 \<longrightarrow> \<not> gLive (eg (the (NewEditor (Undo 0 (eg block_edited))))) 5) \<and>
    ((3 :: nat) \<in> set [3, 4] \<longrightarrow> gLive (eg (the (NewEditor (Undo 0 (eg block_edited))))) 5)"
  proof (rule undone_node_live [OF block_whole E, of "[]"])
    show "gWalk (eg (the (NewEditor block_graph))) (Sections (eg (the (NewEditor block_graph)))) = Some [3, 4]" by code_simp
    show "\<forall>n \<in> set [3, 4]. steady (eg (the (NewEditor block_graph))) n" by code_simp
    show "allowed_run edit_ok do_edit [GNew [] True [] [] None, GAfter 4 [5]] (on_graph (snd \<circ> Begin) (the (NewEditor block_graph)))"
      by code_simp
    show "gup (enodes block_edited 5) = Some 3" by code_simp
    have "after_all do_edit [GNew [] True [] [] None, GAfter 4 [5]] block_begun \<noteq> None" by code_simp
    then show "after_all do_edit [GNew [] True [] [] None, GAfter 4 [5]] (on_graph (snd \<circ> Begin) (the (NewEditor block_graph))) =
        Some block_edited" by (auto simp: block_edited_def block_begun_def simp del: do_edit.simps after_all.simps)
    have "NewEditor (Undo 0 (eg block_edited)) \<noteq> None" by code_simp
    then show "NewEditor (Undo (fst (Begin (eg (the (NewEditor block_graph))))) (eg block_edited)) =
        Some (the (NewEditor (Undo 0 (eg block_edited))))" by (simp add: j(1))
  qed (simp_all add: isTop_def)
  then show ?thesis by (simp add: j(2))
qed

end
