(* ===== verification/GraphText.thy ===== *)
theory GraphText
  imports GraphEdit Sexp
begin

text \<open>
  The graph as Lisp, crefactor/graph/lisp.go: the writer \<open>Lisp\<close> of the forms, the types, the
  externals and the last id, each node with its id before it and its edges after it, and the
  reader \<open>Read\<close>, which makes the nodes in the order of the text and then gives the edges their
  targets.  The writer's recursions have the fuel of an editor's walks, the reader's the text's
  length; \<open>None\<close> is running out of it.
\<close>

subsection \<open>The writer: one line\<close>

definition of_id :: "id \<Rightarrow> bytes" where
  "of_id i = decimal (unat i)"

definition gprefix :: "gnode \<Rightarrow> bytes" where
  "gprefix k = (if gid k = 0 then [] else ''#'' @ of_id (gid k) @ (if glist k then [] else '':''))"

definition gsuffix :: "gstore \<Rightarrow> gnode \<Rightarrow> bytes" where
  "gsuffix N k =
     concat (map (\<lambda>r. ''@'' @ of_id (gid (N r))) (grefs k)) @
     (case gtype k of None \<Rightarrow> [] | Some t \<Rightarrow> ''@:'' @ of_id (gid (N t)))"

fun spaced :: "bytes list \<Rightarrow> bytes" where
  "spaced [] = []"
| "spaced [s] = s"
| "spaced (s # t # ts) = s @ '' '' @ spaced (t # ts)"

primrec gflat :: "nat \<Rightarrow> gstore \<Rightarrow> nat \<Rightarrow> bytes option" where
  "gflat 0 N n = None"
| "gflat (Suc fuel) N n =
     (let k = N n in
      map_option (\<lambda>s. gprefix k @ s @ gsuffix N k)
        (if glist k then map_option (\<lambda>ss. ''('' @ spaced ss @ '')'') (those (map (gflat fuel N) (gkids k)))
         else Some (gatom k)))"

subsection \<open>Widths\<close>

fun digits_of :: "nat \<Rightarrow> nat" where
  "digits_of n = (if n \<ge> 10 then Suc (digits_of (n div 10)) else 1)"

declare digits_of.simps [simp del]

definition digits :: "id \<Rightarrow> nat" where
  "digits i = digits_of (unat i)"

definition marksLen :: "gstore \<Rightarrow> gnode \<Rightarrow> int" where
  "marksLen N k =
     (if gid k \<noteq> 0 then 2 + int (digits (gid k)) else 0) +
     sum_list (map (\<lambda>r. 1 + int (digits (gid (N r)))) (grefs k)) +
     (case gtype k of None \<Rightarrow> 0 | Some t \<Rightarrow> 2 + int (digits (gid (N t))))"

text \<open>The loop over a list's elements, which stops once the limit is passed.\<close>

fun len_loop :: "(nat \<Rightarrow> int \<Rightarrow> int option) \<Rightarrow> int \<Rightarrow> nat list \<Rightarrow> int \<Rightarrow> int option" where
  "len_loop f limit [] l = Some l"
| "len_loop f limit (k # ks) l =
     (if l > limit then Some l else Option.bind (f k (limit - l)) (\<lambda>m. len_loop f limit ks (l + m)))"

primrec flatLen :: "nat \<Rightarrow> gstore \<Rightarrow> nat \<Rightarrow> int \<Rightarrow> int option" where
  "flatLen 0 N n limit = None"
| "flatLen (Suc fuel) N n limit =
     (let k = N n; l = marksLen N k in
      if \<not> glist k then Some (l + int (length (gatom k)))
      else len_loop (flatLen fuel N) limit (gkids k) (l + 2 + int (length (gkids k))))"

definition gfits :: "nat \<Rightarrow> gstore \<Rightarrow> nat \<Rightarrow> int \<Rightarrow> bool option" where
  "gfits fuel N n w = map_option (\<lambda>l. l \<le> w) (flatLen fuel N n (w + 1))"

subsection \<open>The writer: broken forms\<close>

fun any_kid :: "(nat \<Rightarrow> bool option) \<Rightarrow> nat list \<Rightarrow> bool option" where
  "any_kid f [] = Some False"
| "any_kid f (k # ks) = Option.bind (f k) (\<lambda>b. if b then Some True else any_kid f ks)"

primrec gbroken :: "nat \<Rightarrow> gstore \<Rightarrow> nat \<Rightarrow> bool option" where
  "gbroken 0 N n = None"
| "gbroken (Suc fuel) N n =
     (let ks = gkids (N n); h = gHead N n in
      if h = ''defn'' then Some True
      else if h = ''block'' \<or> h = ''stmt-expr'' then
        (if length ks > 2 then Some True
         else if length ks = 2 \<and> glist (N (ks ! 1)) then gbroken fuel N (ks ! 1)
         else Some False)
      else if h \<in> {''if'', ''while'', ''for'', ''do'', ''switch''} then any_kid (gbroken fuel N) (drop 1 ks)
      else Some False)"

definition keepArgs :: "gstore \<Rightarrow> nat \<Rightarrow> nat" where
  "keepArgs N n =
     (let h = gHead N n; atoms = length (takeWhile (\<lambda>a. \<not> glist (N a)) (gArgs N n)) in
      if h \<in> {''if'', ''while'', ''switch'', ''return'', ''case'', ''cast'', ''call'', ''='', ''static_assert'', ''?''} then 1
      else if h = ''for'' then 3
      else if h \<in> {''def'', ''typedef'', ''defn''} \<and> gdefNameAt N n > 0 then gdefNameAt N n
      else atoms)"

text \<open>
  The loop over a broken form's elements after the first: \<open>lay\<close> lays out, \<open>len\<close> is the width;
  \<open>i\<close> counts, \<open>k\<close> and \<open>at\<close> are the loop's variables.
\<close>

fun layout_loop :: "(nat \<Rightarrow> int \<Rightarrow> bytes option) \<Rightarrow> (nat \<Rightarrow> int \<Rightarrow> int option) \<Rightarrow> gstore \<Rightarrow> nat list \<Rightarrow> nat \<Rightarrow> nat \<Rightarrow> int \<Rightarrow> int \<Rightarrow>
    bytes option" where
  "layout_loop lay len N [] i k pos inner = Some []"
| "layout_loop lay len N (x # xs) i k pos inner = do {
     w \<leftarrow> len x (int Width - pos - 1 + 1);
     if i < k \<and> (w \<le> int Width - pos - 1 \<or> i = 0 \<and> \<not> glist (N x)) then do {
       s \<leftarrow> lay x (pos + 1);
       l \<leftarrow> len x (int Width);
       t \<leftarrow> layout_loop lay len N xs (Suc i) k (pos + 1 + l) inner;
       Some ('' '' @ s @ t) }
     else do {
       s \<leftarrow> lay x inner;
       t \<leftarrow> layout_loop lay len N xs (Suc i) 0 pos inner;
       Some (newline # replicate (nat inner) (CHR '' '') @ s @ t) } }"

primrec glayout :: "nat \<Rightarrow> gstore \<Rightarrow> nat \<Rightarrow> int \<Rightarrow> bytes option" where
  "glayout 0 N n col = None"
| "glayout (Suc fuel) N n col = do {
     let k = N n;
     b \<leftarrow> gbroken (Suc fuel) N n;
     f \<leftarrow> gfits (Suc fuel) N n (int Width - col);
     if \<not> glist k \<or> \<not> b \<and> f then gflat (Suc fuel) N n
     else (case gkids k of
         [] \<Rightarrow> Some (gprefix k @ ''()'' @ gsuffix N k)
       | x # xs \<Rightarrow> do {
           let pos = col + marksLen N k + 1;
           s \<leftarrow> glayout fuel N x pos;
           l \<leftarrow> flatLen fuel N x (int Width);
           t \<leftarrow> (if \<not> glist (N x) then layout_loop (glayout fuel N) (flatLen fuel N) N xs 0 (keepArgs N n) (pos + l) (col + 2)
                 else layout_loop (glayout fuel N) (flatLen fuel N) N xs 0 0 pos (col + 1));
           Some (gprefix k @ ''('' @ s @ t @ '')'' @ gsuffix N k) }) }"

subsection \<open>The writer: the file\<close>

definition heading :: bytes where
  "heading = '';; a C translation unit as a graph: crefactor/graph'' @ [newline]"

text \<open>The units cut so far and the buffer.\<close>

type_synonym units = "bytes list \<times> bytes"

definition cut :: "units \<Rightarrow> units" where
  "cut u = (fst u @ [snd u], [])"

definition emit :: "bytes \<Rightarrow> units \<Rightarrow> units" where
  "emit s u = (fst u, snd u @ s)"

fun form_units :: "nat \<Rightarrow> gstore \<Rightarrow> nat option \<Rightarrow> nat list \<Rightarrow> units \<Rightarrow> units option" where
  "form_units fuel N prev [] u = Some u"
| "form_units fuel N prev (f # fs) u = do {
     s \<leftarrow> glayout fuel N f 0;
     let sep = (case prev of
         None \<Rightarrow> []
       | Some p \<Rightarrow> if gIs N f ''include'' \<and> gIs N p ''include'' then [] else [newline]);
     form_units fuel N (Some f) fs (emit (sep @ s @ [newline]) (cut u)) }"

fun node_units :: "nat \<Rightarrow> gstore \<Rightarrow> nat list \<Rightarrow> units \<Rightarrow> units option" where
  "node_units fuel N [] u = Some u"
| "node_units fuel N (n # ns) u = do {
     s \<leftarrow> glayout fuel N n 2;
     node_units fuel N ns (emit (newline # ''  '' @ s) (cut u)) }"

definition section_units :: "nat \<Rightarrow> gstore \<Rightarrow> bytes \<Rightarrow> nat list \<Rightarrow> units \<Rightarrow> units option" where
  "section_units fuel N head ns u =
     map_option (emit ('')'' @ [newline])) (node_units fuel N ns (emit (newline # ''('' @ head) (cut u)))"

definition LispUnits :: "graph \<Rightarrow> bytes list option" where
  "LispUnits G = do {
     let fuel = gnext G + 1;
     u1 \<leftarrow> form_units fuel (gnodes G) None (gforms G) (emit heading ([], []));
     u2 \<leftarrow> section_units fuel (gnodes G) ''types'' (gtypes G) u1;
     u3 \<leftarrow> section_units fuel (gnodes G) ''externs'' (gexterns G) u2;
     Some (fst (cut (emit (newline # ''(ids '' @ of_id (glast G) @ '')'' @ [newline]) u3))) }"

definition Lisp :: "graph \<Rightarrow> bytes option" where
  "Lisp G = map_option concat (LispUnits G)"

subsection \<open>The reader\<close>

text \<open>The last error is the run-time panic of an index out of range.\<close>

datatype graph_error =
    GUnclosedIds nat
  | GUnclosedSection bytes nat
  | GIdExpected nat
  | GMarksNothing id nat
  | GUnclosedList nat
  | GUnexpected nat
  | GLiteral read_error
  | GTwoNodes id
  | GNoTarget nat id
  | GPanicked

text \<open>Where an edge's target goes: the type of a node, or one of its refers edges.\<close>

datatype slot = TypeOf nat | RefOf nat nat

record greader =
  gr_text :: bytes
  gr_line :: nat
  gr_nodes :: gstore
  gr_next :: nat
  gr_ids :: "nat list"
  gr_edges :: "(slot \<times> id \<times> nat) list"
  gr_max :: id

definition gspace :: "greader \<Rightarrow> greader" where
  "gspace R = (let (t, ln) = space (gr_text R) (gr_line R) in R\<lparr>gr_text := t, gr_line := ln\<rparr>)"

definition is_space :: "byte \<Rightarrow> bool" where
  "is_space c \<longleftrightarrow> c = newline \<or> is_blank c"

text \<open>The text at a parenthesis is that head and a space, or the list's end.\<close>

definition word_at :: "bytes \<Rightarrow> bytes \<Rightarrow> bool" where
  "word_at w s \<longleftrightarrow> has_prefix s w \<and> (case drop (length w) s of [] \<Rightarrow> False | c # _ \<Rightarrow> is_space c \<or> c = CHR '')'')"

fun num_loop :: "64 word \<Rightarrow> bytes \<Rightarrow> 64 word \<times> bytes" where
  "num_loop v [] = (v, [])"
| "num_loop v (c # s) = (if is_digit c then num_loop (v * 10 + of_nat (byte_val c - 48)) s else (v, c # s))"

definition gnumber :: "nat \<Rightarrow> bytes \<Rightarrow> graph_error + id \<times> bytes" where
  "gnumber ln s =
     (let (v, t) = num_loop 0 s in
      if t = s \<or> v = 0 \<or> v > 2 ^ 32 - 1 then Inl (GIdExpected ln) else Inr (ucast v, t))"

text \<open>An atom's text; \<open>@\<close> ends one too.\<close>

function gatom_loop :: "byte option \<Rightarrow> nat \<Rightarrow> bytes \<Rightarrow> read_error + bytes \<times> bytes" where
  "gatom_loop start ln [] = Inr ([], [])"
| "gatom_loop start ln (c # s) =
     (if is_delim c \<or> c = CHR ''@'' then Inr ([], c # s)
      else if c = dquote \<or> c = squote then
        (if c = squote \<and> in_number start then prepend [c] (gatom_loop (start_of start c) ln s)
         else (case literal c ln s of
             Inl e \<Rightarrow> Inl e
           | Inr (l, s') \<Rightarrow> prepend (c # l) (gatom_loop (start_of start c) ln s')))
      else prepend [c] (gatom_loop (start_of start c) ln s))"
  by pat_completeness auto
termination
  by (relation "measure (\<lambda>(st, ln, s). length s)") (auto dest!: literal_split)

text \<open>A node's edges as the text has them: whether typed, and the id.\<close>

lemma num_loop_length: "num_loop v s = (w, t) \<Longrightarrow> length t \<le> length s"
  by (induction v s rule: num_loop.induct) (auto split: if_splits)

lemma gnumber_length: "gnumber ln s = Inr (i, t) \<Longrightarrow> length t \<le> length s"
  by (auto simp: gnumber_def Let_def num_loop_length split: prod.splits if_splits)

function gmarks :: "nat \<Rightarrow> bytes \<Rightarrow> graph_error + (bool \<times> id) list \<times> bytes" where
  "gmarks ln [] = Inr ([], [])"
| "gmarks ln (c # s) =
     (if c \<noteq> CHR ''@'' then Inr ([], c # s)
      else (let typed = (case s of [] \<Rightarrow> False | d # _ \<Rightarrow> d = CHR '':''); s1 = (if typed then tl s else s) in
        case gnumber ln s1 of
          Inl e \<Rightarrow> Inl e
        | Inr (i, t) \<Rightarrow> (case gmarks ln t of Inl e \<Rightarrow> Inl e | Inr (ms, t') \<Rightarrow> Inr ((typed, i) # ms, t'))))"
  by pat_completeness auto
termination
  by (relation "measure (\<lambda>(ln, s). length s)") (auto dest!: gnumber_length simp: Let_def split: list.splits if_splits)

text \<open>The typed edges are noted as they are read, the refers edges after them.\<close>

definition gsuffixed :: "nat \<Rightarrow> greader \<Rightarrow> graph_error + greader" where
  "gsuffixed n R =
     (case gmarks (gr_line R) (gr_text R) of
        Inl e \<Rightarrow> Inl e
      | Inr (ms, t) \<Rightarrow>
          (let types = map snd (filter fst ms); refs = map snd (filter (\<lambda>m. \<not> fst m) ms); ln = gr_line R in
           Inr (R\<lparr>gr_text := t,
             gr_nodes := (gr_nodes R)(n := (gr_nodes R n)\<lparr>grefs := replicate (length refs) 0\<rparr>),
             gr_edges := gr_edges R @ map (\<lambda>i. (TypeOf n, i, ln)) types @
               map (\<lambda>(j, i). (RefOf n j, i, ln)) (enumerate 0 refs)\<rparr>)))"

definition blank_node :: gnode where
  "blank_node = \<lparr>gid = 0, gatom = [], gkids = [], grefs = [], gtype = None, glist = False, gup = None\<rparr>"

definition galloc :: "greader \<Rightarrow> nat \<times> greader" where
  "galloc R = (gr_next R, R\<lparr>gr_nodes := (gr_nodes R)(gr_next R := blank_node), gr_next := gr_next R + 1\<rparr>)"

definition with_node :: "nat \<Rightarrow> (gnode \<Rightarrow> gnode) \<Rightarrow> greader \<Rightarrow> greader" where
  "with_node n f R = R\<lparr>gr_nodes := (gr_nodes R)(n := f (gr_nodes R n))\<rparr>"

definition gatom_read :: "nat \<Rightarrow> greader \<Rightarrow> graph_error + nat \<times> greader" where
  "gatom_read n R =
     (case gatom_loop None (gr_line R) (gr_text R) of
        Inl e \<Rightarrow> Inl (GLiteral e)
      | Inr (a, t) \<Rightarrow>
          (case gsuffixed n (with_node n (\<lambda>k. k\<lparr>gatom := a\<rparr>) (R\<lparr>gr_text := t\<rparr>)) of
             Inl e \<Rightarrow> Inl e
           | Inr R' \<Rightarrow> Inr (n, R')))"

text \<open>A node's id: the reader past it, and whether what follows is an atom for certain.\<close>

definition gmark_id :: "nat \<Rightarrow> greader \<Rightarrow> graph_error + bool \<times> greader" where
  "gmark_id n R =
     (case gr_text R of
        c # s \<Rightarrow>
          if c \<noteq> CHR ''#'' then Inr (False, R)
          else (case gnumber (gr_line R) s of
              Inl e \<Rightarrow> Inl e
            | Inr (i, t) \<Rightarrow>
                (let R1 = with_node n (\<lambda>k. k\<lparr>gid := i\<rparr>) (R\<lparr>gr_text := t, gr_max := max (gr_max R) i, gr_ids := gr_ids R @ [n]\<rparr>) in
                 case t of
                   d # t' \<Rightarrow>
                     if d = CHR '':'' then Inr (True, R1\<lparr>gr_text := t'\<rparr>)
                     else if d = CHR ''('' then Inr (False, R1)
                     else Inl (GMarksNothing i (gr_line R))
                 | [] \<Rightarrow> Inl (GMarksNothing i (gr_line R))))
      | [] \<Rightarrow> Inl GPanicked)"

fun gnode_read :: "nat \<Rightarrow> greader \<Rightarrow> (graph_error + nat \<times> greader) option"
  and gitems_read :: "nat \<Rightarrow> greader \<Rightarrow> (graph_error + nat list \<times> greader) option" where
  "gnode_read 0 R = None"
| "gnode_read (Suc fuel) R0 =
     (let (n, R) = galloc R0 in
      case gmark_id n R of
        Inl e \<Rightarrow> Some (Inl e)
      | Inr (True, R1) \<Rightarrow> Some (gatom_read n R1)
      | Inr (False, R1) \<Rightarrow>
          (case gr_text R1 of
             [] \<Rightarrow> Some (Inl GPanicked)
           | c # s \<Rightarrow>
               if c = CHR ''('' then
                 (case gitems_read fuel (with_node n (\<lambda>k. k\<lparr>glist := True\<rparr>) (R1\<lparr>gr_text := s\<rparr>)) of
                    None \<Rightarrow> None
                  | Some (Inl e) \<Rightarrow> Some (Inl e)
                  | Some (Inr (ks, R2)) \<Rightarrow>
                      (case gsuffixed n (with_node n (\<lambda>k. k\<lparr>gkids := ks\<rparr>) R2) of
                         Inl e \<Rightarrow> Some (Inl e)
                       | Inr R3 \<Rightarrow> Some (Inr (n, R3))))
               else if c = CHR '')'' then Some (Inl (GUnexpected (gr_line R1)))
               else if c = CHR ''@'' then
                 (case gsuffixed n R1 of Inl e \<Rightarrow> Some (Inl e) | Inr R2 \<Rightarrow> Some (Inr (n, R2)))
               else Some (gatom_read n R1)))"
| "gitems_read 0 R = None"
| "gitems_read (Suc fuel) R0 =
     (let R = gspace R0 in
      case gr_text R of
        [] \<Rightarrow> Some (Inl (GUnclosedList (gr_line R)))
      | c # s \<Rightarrow>
          if c = CHR '')'' then Some (Inr ([], R\<lparr>gr_text := s\<rparr>))
          else (case gnode_read fuel R of
              None \<Rightarrow> None
            | Some (Inl e) \<Rightarrow> Some (Inl e)
            | Some (Inr (k, R1)) \<Rightarrow>
                (case gitems_read fuel R1 of
                   None \<Rightarrow> None
                 | Some (Inl e) \<Rightarrow> Some (Inl e)
                 | Some (Inr (ks, R2)) \<Rightarrow> Some (Inr (k # ks, R2)))))"

text \<open>The file: the forms, the types, the externals and the last id, in the order of the text.\<close>

record gfile =
  gf_forms :: "nat list"
  gf_types :: "nat list"
  gf_externs :: "nat list"
  gf_last :: id

fun gsection_read :: "nat \<Rightarrow> bytes \<Rightarrow> greader \<Rightarrow> (graph_error + nat list \<times> greader) option" where
  "gsection_read 0 head R = None"
| "gsection_read (Suc fuel) head R0 =
     (let R = gspace R0 in
      case gr_text R of
        [] \<Rightarrow> Some (Inl (GUnclosedSection head (gr_line R)))
      | c # s \<Rightarrow>
          if c = CHR '')'' then Some (Inr ([], R\<lparr>gr_text := s\<rparr>))
          else (case gnode_read fuel R of
              None \<Rightarrow> None
            | Some (Inl e) \<Rightarrow> Some (Inl e)
            | Some (Inr (k, R1)) \<Rightarrow>
                (case gsection_read fuel head R1 of
                   None \<Rightarrow> None
                 | Some (Inl e) \<Rightarrow> Some (Inl e)
                 | Some (Inr (ks, R2)) \<Rightarrow> Some (Inr (k # ks, R2)))))"

definition gids_read :: "greader \<Rightarrow> graph_error + id \<times> greader" where
  "gids_read R0 =
     (let R = gspace R0 in
      case gnumber (gr_line R) (gr_text R) of
        Inl e \<Rightarrow> Inl e
      | Inr (i, t) \<Rightarrow>
          (let R1 = gspace (R\<lparr>gr_text := t\<rparr>) in
           case gr_text R1 of
             c # s \<Rightarrow> if c = CHR '')'' then Inr (i, R1\<lparr>gr_text := s\<rparr>) else Inl (GUnclosedIds (gr_line R1))
           | [] \<Rightarrow> Inl (GUnclosedIds (gr_line R1))))"

fun gfile_read :: "nat \<Rightarrow> gfile \<Rightarrow> greader \<Rightarrow> (graph_error + gfile \<times> greader) option" where
  "gfile_read 0 F R = None"
| "gfile_read (Suc fuel) F R0 =
     (let R = gspace R0 in
      case gr_text R of
        [] \<Rightarrow> Some (Inr (F, R))
      | c # s \<Rightarrow>
          if c = CHR ''('' \<and> word_at ''ids'' s then
            (case gids_read (R\<lparr>gr_text := drop 3 s\<rparr>) of
               Inl e \<Rightarrow> Some (Inl e)
             | Inr (i, R1) \<Rightarrow> gfile_read fuel (F\<lparr>gf_last := i\<rparr>) R1)
          else if c = CHR ''('' \<and> (word_at ''types'' s \<or> word_at ''externs'' s) then
            (let head = (if word_at ''externs'' s then ''externs'' else ''types'') in
             case gsection_read fuel head (R\<lparr>gr_text := drop (length head) s\<rparr>) of
               None \<Rightarrow> None
             | Some (Inl e) \<Rightarrow> Some (Inl e)
             | Some (Inr (ns, R1)) \<Rightarrow>
                 gfile_read fuel (if head = ''types'' then F\<lparr>gf_types := gf_types F @ ns\<rparr>
                   else F\<lparr>gf_externs := gf_externs F @ ns\<rparr>) R1)
          else (case gnode_read fuel R of
              None \<Rightarrow> None
            | Some (Inl e) \<Rightarrow> Some (Inl e)
            | Some (Inr (n, R1)) \<Rightarrow> gfile_read fuel (F\<lparr>gf_forms := gf_forms F @ [n]\<rparr>) R1))"

text \<open>
  The nodes by their id, in a slice of one more than the greatest: an \<open>ID\<close> is 32 bits, and one
  more than the greatest of those is none, so that the first index panics.
\<close>

fun by_ids :: "gstore \<Rightarrow> id \<Rightarrow> nat list \<Rightarrow> (id \<Rightarrow> nat option) \<Rightarrow> graph_error + (id \<Rightarrow> nat option)" where
  "by_ids N bound [] m = Inr m"
| "by_ids N bound (n # ns) m =
     (if gid (N n) \<ge> bound then Inl GPanicked
      else if m (gid (N n)) \<noteq> None then Inl (GTwoNodes (gid (N n)))
      else by_ids N bound ns (m(gid (N n) := Some n)))"

fun fill :: "slot \<Rightarrow> nat \<Rightarrow> gstore \<Rightarrow> gstore" where
  "fill (TypeOf n) t N = N(n := (N n)\<lparr>gtype := Some t\<rparr>)"
| "fill (RefOf n j) t N = N(n := (N n)\<lparr>grefs := (grefs (N n))[j := t]\<rparr>)"

fun fill_all :: "(id \<Rightarrow> nat option) \<Rightarrow> (slot \<times> id \<times> nat) list \<Rightarrow> gstore \<Rightarrow> graph_error + gstore" where
  "fill_all m [] N = Inr N"
| "fill_all m ((s, i, ln) # es) N =
     (case m i of None \<Rightarrow> Inl (GNoTarget ln i) | Some t \<Rightarrow> fill_all m es (fill s t N))"

definition no_journal :: journal where
  "no_journal = \<lparr>jsaved = {}, jnodes = [], jforms = [], jtypes = [], jexterns = [], jids = 0, jdone = False\<rparr>"

definition gRead :: "bytes \<Rightarrow> (graph_error + graph) option" where
  "gRead src =
     (case gfile_read (2 * length src + 2) \<lparr>gf_forms = [], gf_types = [], gf_externs = [], gf_last = 0\<rparr>
        \<lparr>gr_text = src, gr_line = 1, gr_nodes = (\<lambda>_. blank_node), gr_next = 3, gr_ids = [], gr_edges = [], gr_max = 0\<rparr> of
        None \<Rightarrow> None
      | Some (Inl e) \<Rightarrow> Some (Inl e)
      | Some (Inr (F, R)) \<Rightarrow>
          (case by_ids (gr_nodes R) (gr_max R + 1) (gr_ids R) Map.empty of
             Inl e \<Rightarrow> Some (Inl e)
           | Inr m \<Rightarrow>
               (case fill_all m (gr_edges R) (gr_nodes R) of
                  Inl e \<Rightarrow> Some (Inl e)
                | Inr N \<Rightarrow>
                    Some (Inr (SawId (gf_last F) (SawId (gr_max R)
                      \<lparr>gnodes = N, gnext = gr_next R, gforms = gf_forms F, gtypes = gf_types F, gexterns = gf_externs F,
                       glast = 0, journals = (\<lambda>_. no_journal), jnext = 0, recording = None\<rparr>))))))"

end
