(* ===== verification/GraphSpell.thy ===== *)
theory GraphSpell
  imports GraphText GraphForest
begin

text \<open>
  Reading back a spelling of a graph's nodes (crefactor/graph/lisp.go): a text that spells a node,
  whatever its line breaks, is read as that node, its elements named in the order they are met.
\<close>

subsection \<open>Numbers and atoms\<close>

definition no_digit :: "bytes \<Rightarrow> bool" where
  "no_digit r \<longleftrightarrow> (case r of [] \<Rightarrow> True | c # _ \<Rightarrow> \<not> is_digit c)"

lemma num_loop_digits:
  "\<forall>c \<in> set s. is_digit c \<Longrightarrow> no_digit r \<Longrightarrow> digits_value 10 a s = Some v \<Longrightarrow> num_loop (of_nat a) (s @ r) = (of_nat v, r)"
proof (induction s arbitrary: a)
  case Nil
  then show ?case by (cases r) (auto simp: no_digit_def)
next
  case (Cons c s)
  have d: "digit_value c = Some (byte_val c - 48)" "is_digit c" using Cons.prems(1) by (simp_all add: digit_value_def)
  then have "byte_val c - 48 < (10 :: nat)" unfolding is_digit_def by linarith
  with d Cons.prems have "digits_value 10 (a * 10 + (byte_val c - 48)) s = Some v" by simp
  from Cons.IH [OF _ Cons.prems(2) this] Cons.prems(1) d(2) show ?case by (simp add: ac_simps)
qed

lemma small_word: "n < 2 ^ 32 \<Longrightarrow> unat (of_nat n :: 64 word) = n \<and> (ucast (of_nat n :: 64 word) :: id) = of_nat n"
proof -
  assume n: "n < 2 ^ 32"
  have u: "unat (of_nat n :: 64 word) = n" using n by (simp add: unsigned_of_nat take_bit_nat_eq_self)
  have "ucast (of_nat n :: 64 word) = (of_nat (unat (of_nat n :: 64 word)) :: id)" by simp
  with u show ?thesis by metis
qed

lemma gnumber_of_id:
  assumes "i \<noteq> 0" "no_digit r"
  shows "gnumber ln (of_id i @ r) = Inr (i, r)"
proof -
  obtain n where n: "i = of_nat n" "n = unat i" "n < 2 ^ 32" using unsigned_less [of i] by simp
  define v where "v = (of_nat n :: 64 word)"
  have run: "num_loop 0 (of_id i @ r) = (v, r)"
    using num_loop_digits [OF decimal_digits assms(2) digits_value_decimal, of n] unfolding of_id_def v_def n(2) [symmetric] by simp
  have v: "unat v = n" "ucast v = i" using small_word [OF n(3)] n(1) by (simp_all add: v_def)
  have "n \<noteq> 0" using assms(1) n(2) by (simp only: unat_eq_0 not_False_eq_True)
  then have "v \<noteq> 0" using v(1) by (cases "v = 0") simp_all
  moreover have "unat (2 ^ 32 - 1 :: 64 word) = 2 ^ 32 - 1" by simp
  then have "\<not> v > 2 ^ 32 - 1" using v(1) n(3) unfolding word_less_nat_alt by linarith
  moreover have "r \<noteq> of_id i @ r" using decimal_ne by (simp add: of_id_def)
  ultimately show ?thesis unfolding gnumber_def run Let_def prod.case using v(2) by simp
qed

lemma of_id_head: "\<exists>c s. of_id i = c # s \<and> is_digit c"
  using decimal_ne [of "unat i"] decimal_digits [of "unat i"] by (cases "decimal (unat i)") (auto simp: of_id_def)

definition gends :: "bytes \<Rightarrow> bool" where
  "gends r \<longleftrightarrow> (case r of [] \<Rightarrow> True | c # _ \<Rightarrow> is_delim c \<or> c = CHR ''@'')"

lemma gatom_loop_cases [consumes 1, case_names delim number quoted plain]:
  assumes "gatom_loop st ln (c # s) = Inr (a, t)"
  obtains "is_delim c \<or> c = CHR ''@''" "a = []" "t = c # s"
  | a' where "\<not> (is_delim c \<or> c = CHR ''@'')" "c = squote" "in_number st" "a = c # a'"
      "gatom_loop (start_of st c) ln s = Inr (a', t)"
  | l s' a' where "\<not> (is_delim c \<or> c = CHR ''@'')" "c = dquote \<or> c = squote" "\<not> (c = squote \<and> in_number st)"
      "literal c ln s = Inr (l, s')" "a = c # l @ a'" "gatom_loop (start_of st c) ln s' = Inr (a', t)"
  | a' where "\<not> (is_delim c \<or> c = CHR ''@'')" "c \<noteq> dquote" "c \<noteq> squote" "a = c # a'"
      "gatom_loop (start_of st c) ln s = Inr (a', t)"
proof (cases "is_delim c \<or> c = CHR ''@''")
  case False
  consider "c = squote" "in_number st" | "c = dquote \<or> c = squote" "\<not> (c = squote \<and> in_number st)"
    | "c \<noteq> dquote" "c \<noteq> squote" by blast
  then show ?thesis
  proof cases
    case 2
    with False assms obtain l s' where l: "literal c ln s = Inr (l, s')" by (cases "literal c ln s") auto
    with False 2 assms obtain a' where "a = c # l @ a'" "gatom_loop (start_of st c) ln s' = Inr (a', t)" by auto
    with l False 2 show ?thesis by (intro that(3))
  qed (use False assms that(2,4) in auto)
qed (use assms that(1) in auto)

lemma gatom_loop_extend:
  "gatom_loop st ln s = Inr (a, []) \<Longrightarrow> gends r \<Longrightarrow> gatom_loop st ln' (s @ r) = Inr (a, r)"
proof (induction st ln s arbitrary: a rule: gatom_loop.induct)
  case (1 st ln)
  then show ?case by (cases r) (auto simp: gends_def)
next
  case (2 st ln c s)
  from "2.prems"(1) show ?case
  proof (cases rule: gatom_loop_cases)
    case (number a')
    with "2.IH"(1) "2.prems"(2) show ?thesis by simp
  next
    case (quoted l s' a')
    with "2.IH"(2) [of "(l, s')"] "2.prems"(2) have "gatom_loop (start_of st c) ln' (s' @ r) = Inr (a', r)" by auto
    with quoted literal_extend [OF quoted(4), of ln' r] show ?thesis by auto
  next
    case (plain a')
    with "2.IH"(3) "2.prems"(2) show ?thesis by simp
  qed simp
qed

subsection \<open>Edges\<close>

definition marks_ok :: "gstore \<Rightarrow> gnode \<Rightarrow> bool" where
  "marks_ok N k \<longleftrightarrow> (\<forall>r \<in> set (grefs k). gid (N r) \<noteq> 0) \<and> (\<forall>t. gtype k = Some t \<longrightarrow> gid (N t) \<noteq> 0)"

definition type_mark :: "gstore \<Rightarrow> gnode \<Rightarrow> (bool \<times> id) list" where
  "type_mark N k = (case gtype k of None \<Rightarrow> [] | Some t \<Rightarrow> [(True, gid (N t))])"

lemma gsuffix_head: "ends r \<Longrightarrow> gends (gsuffix N k @ r) \<and> no_digit (gsuffix N k @ r)"
proof -
  assume r: "ends r"
  have delim: "\<not> is_digit c" if "is_delim c" for c
    using that by (auto simp: is_delim_def is_blank_def is_digit_def)
  have "gends r \<and> no_digit r" using r delim by (cases r) (auto simp: ends_def gends_def no_digit_def)
  then show ?thesis
    by (cases "grefs k") (auto simp: gsuffix_def gends_def no_digit_def is_digit_def split: option.splits)
qed

lemma gmarks_stop: "ends r \<Longrightarrow> gmarks ln r = Inr ([], r)"
  by (cases r) (auto simp: ends_def is_delim_def is_blank_def)

lemma gmarks_suffix:
  assumes "marks_ok N k" "ends r"
  shows "gmarks ln (gsuffix N k @ r) = Inr (map (\<lambda>t. (False, gid (N t))) (grefs k) @ type_mark N k, r)"
proof -
  define ty where "ty = (case gtype k of None \<Rightarrow> [] | Some t \<Rightarrow> ''@:'' @ of_id (gid (N t)))"
  have nd: "no_digit r" "no_digit (ty @ r)"
    using gsuffix_head [OF assms(2), of N "k\<lparr>grefs := []\<rparr>"] gsuffix_head [OF assms(2), of N "k\<lparr>grefs := [], gtype := None\<rparr>"]
    by (simp_all add: gsuffix_def ty_def)
  have t: "gmarks ln (ty @ r) = Inr (type_mark N k, r)"
  proof (cases "gtype k")
    case None
    then show ?thesis by (simp add: ty_def type_mark_def gmarks_stop [OF assms(2)])
  next
    case (Some t)
    then have "gnumber ln (of_id (gid (N t)) @ r) = Inr (gid (N t), r)"
      using assms(1) nd(1) by (intro gnumber_of_id) (auto simp: marks_ok_def)
    with Some show ?thesis by (simp add: ty_def type_mark_def gmarks_stop [OF assms(2)])
  qed
  have "gmarks ln (concat (map (\<lambda>t. ''@'' @ of_id (gid (N t))) rs) @ ty @ r) =
      Inr (map (\<lambda>t. (False, gid (N t))) rs @ type_mark N k, r)" if "\<forall>t \<in> set rs. gid (N t) \<noteq> 0" for rs
    using that
  proof (induction rs)
    case (Cons u rs)
    let ?r = "concat (map (\<lambda>t. ''@'' @ of_id (gid (N t))) rs) @ ty @ r"
    have "no_digit ?r" using nd(2) by (cases rs) (auto simp: no_digit_def is_digit_def)
    then have g: "gnumber ln (of_id (gid (N u)) @ ?r) = Inr (gid (N u), ?r)" using Cons.prems by (intro gnumber_of_id) auto
    obtain c s where c: "of_id (gid (N u)) = c # s" "is_digit c" using of_id_head by blast
    then have "c \<noteq> CHR '':''" by (auto simp: is_digit_def)
    with c g Cons show ?case by simp
  qed (simp add: t)
  with assms(1) show ?thesis by (simp add: gsuffix_def ty_def marks_ok_def)
qed

subsection \<open>Spellings\<close>

text \<open>An atom the text can hold, and a list that is named.\<close>

definition writable :: "gnode \<Rightarrow> bool" where
  "writable k \<longleftrightarrow>
     (if glist k then gid k \<noteq> 0 \<and> gatom k = []
      else gkids k = [] \<and> gatom_loop None 0 (gatom k) = Inr (gatom k, []) \<and>
        (gid k = 0 \<longrightarrow> (if gatom k = [] then grefs k \<noteq> [] \<or> gtype k \<noteq> None else hd (gatom k) \<noteq> CHR ''#'')))"

inductive spells :: "gstore \<Rightarrow> nat \<Rightarrow> bytes \<Rightarrow> bool" and spells_list :: "gstore \<Rightarrow> nat list \<Rightarrow> bytes \<Rightarrow> bool" for N where
  spells_atom: "\<not> glist (N n) \<Longrightarrow> writable (N n) \<Longrightarrow> marks_ok N (N n) \<Longrightarrow>
    spells N n (gprefix (N n) @ gatom (N n) @ gsuffix N (N n))"
| spells_lst: "glist (N n) \<Longrightarrow> writable (N n) \<Longrightarrow> marks_ok N (N n) \<Longrightarrow> spells_list N (gkids (N n)) s \<Longrightarrow>
    spells N n (gprefix (N n) @ ''('' @ s @ '')'' @ gsuffix N (N n))"
| spells_nil: "spells_list N [] []"
| spells_one: "spells N x s \<Longrightarrow> spells_list N [x] s"
| spells_cons: "spells N x s \<Longrightarrow> is_gap g \<Longrightarrow> g \<noteq> [] \<Longrightarrow> spells_list N (y # ys) t \<Longrightarrow> spells_list N (x # y # ys) (s @ g @ t)"

lemma not_delim_simps [simp]: "\<not> is_delim (CHR ''#'')" "\<not> is_delim (CHR ''@'')" "\<not> is_delim (CHR '':'')"
  by (auto simp: is_delim_def is_blank_def)

lemma of_id_ne [simp]: "of_id i \<noteq> []"
  using of_id_head [of i] by auto

lemma gsuffix_ne: "grefs k \<noteq> [] \<or> gtype k \<noteq> None \<Longrightarrow> \<exists>s. gsuffix N k = CHR ''@'' # s"
  by (cases "grefs k") (auto simp: gsuffix_def split: option.splits)

lemma writable_atom:
  assumes "writable k" "\<not> glist k" "gid k = 0"
  shows "(\<exists>c s. gatom k = c # s \<and> \<not> is_delim c \<and> c \<noteq> CHR ''#'' \<and> c \<noteq> CHR ''@'') \<or> gatom k = [] \<and> (\<exists>s. gsuffix N k = CHR ''@'' # s)"
proof (cases "gatom k")
  case Nil
  with assms have "grefs k \<noteq> [] \<or> gtype k \<noteq> None" by (auto simp: writable_def)
  with gsuffix_ne Nil show ?thesis by blast
next
  case (Cons c s)
  with assms have "c \<noteq> CHR ''#''" "gatom_loop None 0 (c # s) = Inr (c # s, [])" by (auto simp: writable_def)
  moreover from this(2) have "\<not> is_delim c \<and> c \<noteq> CHR ''@''" by (auto split: if_splits)
  ultimately show ?thesis using Cons by blast
qed

lemma spells_head:
  assumes "spells N n s"
  shows "\<exists>c t. s = c # t \<and> \<not> is_delim c"
  using assms
proof cases
  case spells_atom
  show ?thesis
  proof (cases "gid (N n) = 0")
    case True
    with writable_atom [OF spells_atom(3,2) True, of N] spells_atom(1) show ?thesis by (auto simp: gprefix_def)
  qed (simp add: spells_atom(1) gprefix_def)
next
  case (spells_lst t)
  then show ?thesis by (simp add: gprefix_def writable_def)
qed

subsection \<open>What reading a spelling makes\<close>

text \<open>A node as it is read, its edges' targets still to be found; \<open>f\<close> gives the names.\<close>

definition raw :: "(nat \<Rightarrow> nat) \<Rightarrow> gnode \<Rightarrow> gnode" where
  "raw f k = \<lparr>gid = gid k, gatom = gatom k, gkids = map f (gkids k), grefs = replicate (length (grefs k)) 0,
     gtype = None, glist = glist k, gup = None\<rparr>"

definition node_slots :: "(nat \<Rightarrow> nat) \<Rightarrow> gstore \<Rightarrow> nat \<Rightarrow> (slot \<times> id) set" where
  "node_slots f N n =
     {(RefOf (f n) j, gid (N (grefs (N n) ! j))) | j. j < length (grefs (N n))} \<union>
     {(TypeOf (f n), gid (N t)) | t. gtype (N n) = Some t}"

definition slots_of :: "(slot \<times> id \<times> nat) list \<Rightarrow> (slot \<times> id) set" where
  "slots_of es = (\<lambda>(s, i, ln). (s, i)) ` set es"

lemma slots_of_append [simp]: "slots_of (es @ fs) = slots_of es \<union> slots_of fs"
  by (simp add: slots_of_def image_Un)

definition max_of :: "gstore \<Rightarrow> nat list \<Rightarrow> id \<Rightarrow> id" where
  "max_of N W m = fold (\<lambda>x. max (gid (N x))) W m"

definition reads :: "(nat \<Rightarrow> nat) \<Rightarrow> gstore \<Rightarrow> nat list \<Rightarrow> greader \<Rightarrow> greader \<Rightarrow> bytes \<Rightarrow> bool" where
  "reads f N W R R' r \<longleftrightarrow>
     gr_text R' = r \<and> gr_next R' = gr_next R + length W \<and>
     gr_ids R' = gr_ids R @ map f (filter (\<lambda>x. gid (N x) \<noteq> 0) W) \<and> gr_max R' = max_of N W (gr_max R) \<and>
     (\<forall>x \<in> set W. gr_nodes R' (f x) = raw f (N x)) \<and> (\<forall>m. m \<notin> f ` set W \<longrightarrow> gr_nodes R' m = gr_nodes R m) \<and>
     slots_of (gr_edges R') = slots_of (gr_edges R) \<union> (\<Union>x \<in> set W. node_slots f N x)"

lemma reads_text [simp]: "reads f N W (R\<lparr>gr_text := t, gr_line := l\<rparr>) R' r = reads f N W R R' r"
  by (simp add: reads_def)

lemma reads_Nil [simp]: "reads f N [] R (R\<lparr>gr_text := r\<rparr>) r"
  by (simp add: reads_def max_of_def)

lemma named_split:
  "map f (ys @ zs) = [b..<b + length (ys @ zs)] \<Longrightarrow>
     map f ys = [b..<b + length ys] \<and> map f zs = [b + length ys..<b + length ys + length zs]"
proof -
  assume "map f (ys @ zs) = [b..<b + length (ys @ zs)]"
  then have "map f ys @ map f zs = [b..<b + length ys] @ [b + length ys..<b + length ys + length zs]"
    using upt_add_eq_append [of b "b + length ys" "length zs"] by (simp add: add.assoc)
  then show ?thesis by (subst (asm) append_eq_append_conv) simp_all
qed

lemma reads_append:
  assumes "reads f N ys R R1 t" "reads f N zs R1 R2 r" "map f (ys @ zs) = [b..<b + length (ys @ zs)]"
  shows "reads f N (ys @ zs) R R2 r"
proof -
  have "distinct (map f (ys @ zs))" using assms(3) by simp
  then have d: "f ` set ys \<inter> f ` set zs = {}" by auto
  have "gr_nodes R2 (f x) = raw f (N x)" if "x \<in> set ys" for x
  proof -
    have "f x \<notin> f ` set zs" using d that by blast
    with assms(1,2) that show ?thesis by (simp add: reads_def)
  qed
  with assms(1,2) show ?thesis by (auto simp: reads_def max_of_def image_Un)
qed

lemma gsuffixed_ok:
  assumes "marks_ok N k" "ends r" "gr_text R = gsuffix N k @ r"
  shows "\<exists>es. gsuffixed n R = Inr (R\<lparr>gr_text := r,
      gr_nodes := (gr_nodes R)(n := (gr_nodes R n)\<lparr>grefs := replicate (length (grefs k)) 0\<rparr>), gr_edges := gr_edges R @ es\<rparr>) \<and>
    slots_of es = {(RefOf n j, gid (N (grefs k ! j))) | j. j < length (grefs k)} \<union> {(TypeOf n, gid (N t)) | t. gtype k = Some t}"
proof -
  let ?ms = "map (\<lambda>t. (False, gid (N t))) (grefs k) @ type_mark N k" and ?ln = "gr_line R"
  have m: "gmarks ?ln (gr_text R) = Inr (?ms, r)" unfolding assms(3) by (rule gmarks_suffix [OF assms(1,2)])
  have types: "map snd (filter fst ?ms) = map snd (type_mark N k)"
    by (simp add: type_mark_def filter_empty_conv split: option.splits)
  have refs: "map snd (filter (\<lambda>m. \<not> fst m) ?ms) = map (\<lambda>t. gid (N t)) (grefs k)"
    by (auto simp: type_mark_def filter_map o_def split: option.splits)
  let ?es = "map (\<lambda>i. (TypeOf n, i, ?ln)) (map snd (type_mark N k)) @
    map (\<lambda>(j, i). (RefOf n j, i, ?ln)) (enumerate 0 (map (\<lambda>t. gid (N t)) (grefs k)))"
  have "slots_of ?es = {(RefOf n j, gid (N (grefs k ! j))) | j. j < length (grefs k)} \<union> {(TypeOf n, gid (N t)) | t. gtype k = Some t}"
    by (auto simp: slots_of_def type_mark_def set_zip enumerate_eq_zip image_iff split: option.splits) force
  moreover have "gsuffixed n R = Inr (R\<lparr>gr_text := r,
      gr_nodes := (gr_nodes R)(n := (gr_nodes R n)\<lparr>grefs := replicate (length (grefs k)) 0\<rparr>), gr_edges := gr_edges R @ ?es\<rparr>)"
    unfolding gsuffixed_def m sum.case prod.case Let_def types refs by simp
  ultimately show ?thesis by blast
qed

subsection \<open>Reading a spelling\<close>

lemma gspace_stop: "gr_text R = c # s \<Longrightarrow> \<not> is_delim c \<or> c = CHR ''('' \<or> c = CHR '')'' \<Longrightarrow> gspace R = R"
  by (simp add: gspace_def space_stop)

lemma gspace_gap:
  assumes "gr_text R = g @ s" "is_gap g"
  shows "\<exists>ln. gspace R = gspace (R\<lparr>gr_text := s, gr_line := ln\<rparr>)"
proof -
  obtain ln where "space (g @ s) (gr_line R) = space s ln" using space_gap [OF assms(2)] by blast
  then show ?thesis by (intro exI [of _ ln]) (simp add: gspace_def assms(1) split: prod.splits)
qed

text \<open>The reader past a node's id: the node has it.\<close>

lemma gmark_id_ok:
  assumes "gid k \<noteq> 0" "gr_text R = gprefix k @ s" "glist k \<Longrightarrow> \<exists>t. s = CHR ''('' # t"
  shows "gmark_id n R = Inr (\<not> glist k, R\<lparr>gr_text := s, gr_ids := gr_ids R @ [n], gr_max := max (gr_max R) (gid k),
    gr_nodes := (gr_nodes R)(n := (gr_nodes R n)\<lparr>gid := gid k\<rparr>)\<rparr>)"
proof -
  let ?r = "(if glist k then [] else '':'') @ s"
  have "no_digit ?r" using assms(3) by (auto simp: no_digit_def is_digit_def)
  then have "gnumber (gr_line R) (of_id (gid k) @ ?r) = Inr (gid k, ?r)" by (rule gnumber_of_id [OF assms(1)])
  with assms show ?thesis by (auto simp: gmark_id_def gprefix_def with_node_def Let_def)
qed

lemma gatom_read_ok:
  assumes w: "writable k" "\<not> glist k" "marks_ok N k" and r: "ends r" and t: "gr_text R = gatom k @ gsuffix N k @ r"
  shows "\<exists>es. gatom_read n R = Inr (n, R\<lparr>gr_text := r,
      gr_nodes := (gr_nodes R)(n := (gr_nodes R n)\<lparr>gatom := gatom k, grefs := replicate (length (grefs k)) 0\<rparr>), gr_edges := gr_edges R @ es\<rparr>) \<and>
    slots_of es = {(RefOf n j, gid (N (grefs k ! j))) | j. j < length (grefs k)} \<union> {(TypeOf n, gid (N t)) | t. gtype k = Some t}"
proof -
  let ?R = "with_node n (\<lambda>k'. k'\<lparr>gatom := gatom k\<rparr>) (R\<lparr>gr_text := gsuffix N k @ r\<rparr>)"
  have a: "gatom_loop None (gr_line R) (gr_text R) = Inr (gatom k, gsuffix N k @ r)"
    unfolding t by (rule gatom_loop_extend) (use w gsuffix_head [OF r, of N k] in \<open>auto simp: writable_def\<close>)
  have "gr_text ?R = gsuffix N k @ r" by (simp add: with_node_def)
  from gsuffixed_ok [OF w(3) r this, of n] a show ?thesis by (auto simp: gatom_read_def with_node_def)
qed

lemma read_spells:
  shows "spells N n s \<Longrightarrow> forest N [n] W \<Longrightarrow> gr_text R = s @ r \<Longrightarrow> ends r \<Longrightarrow>
      map f W = [gr_next R..<gr_next R + length W] \<Longrightarrow> 2 * length s \<le> fuel \<Longrightarrow>
      \<exists>R'. gnode_read fuel R = Some (Inr (f n, R')) \<and> reads f N W R R' r"
    and "spells_list N ns s \<Longrightarrow> forest N ns W \<Longrightarrow> gr_text R = s @ CHR '')'' # r \<Longrightarrow>
      map f W = [gr_next R..<gr_next R + length W] \<Longrightarrow> 2 * length s < fuel \<Longrightarrow>
      \<exists>R'. gitems_read fuel R = Some (Inr (map f ns, R')) \<and> reads f N W R R' r"
proof (induction arbitrary: W R r fuel and W R r fuel rule: spells_spells_list.inducts)
  case (spells_atom n)
  let ?k = "N n" and ?b = "gr_next R"
  let ?R = "R\<lparr>gr_nodes := (gr_nodes R)(?b := blank_node), gr_next := ?b + 1\<rparr>"
  have kids: "gkids ?k = []" using spells_atom(1,2) by (simp add: writable_def)
  then have W: "W = [n]" using spells_atom.prems(1) by auto
  then have fn: "f n = ?b" using spells_atom.prems(4) by simp
  obtain c t where "gprefix ?k @ gatom ?k @ gsuffix N ?k = c # t"
    using spells_head [OF spells_spells_list.spells_atom [OF spells_atom(1-3)]] by blast
  then obtain g where g: "fuel = Suc g" using spells_atom.prems(5) by (cases fuel) auto
  have al: "galloc R = (?b, ?R)" by (simp add: galloc_def)
  have fin: "\<exists>R'. Inr (?b, R1\<lparr>gr_text := r, gr_nodes := (gr_nodes R1)(?b := (gr_nodes R1 ?b)\<lparr>gatom := gatom ?k,
        grefs := replicate (length (grefs ?k)) 0\<rparr>), gr_edges := gr_edges R1 @ es\<rparr>) = (Inr (f n, R') :: graph_error + _) \<and> reads f N W R R' r"
    if "slots_of es = {(RefOf ?b j, gid (N (grefs ?k ! j))) | j. j < length (grefs ?k)} \<union> {(TypeOf ?b, gid (N t)) | t. gtype ?k = Some t}"
      "gr_next R1 = ?b + 1" "gr_edges R1 = gr_edges R" "gr_ids R1 = gr_ids R @ (if gid ?k \<noteq> 0 then [?b] else [])"
      "gr_max R1 = max (gr_max R) (gid ?k)" "gr_nodes R1 = (gr_nodes R)(?b := blank_node\<lparr>gid := gid ?k\<rparr>)" for R1 es
    using that spells_atom(1) kids
    by (auto simp: W fn reads_def max_of_def raw_def blank_node_def node_slots_def max.commute)
  show ?case
  proof (cases "gid ?k = 0")
    case False
    let ?s = "gatom ?k @ gsuffix N ?k @ r"
    have "gr_text ?R = gprefix ?k @ ?s" using spells_atom.prems(2) by (simp add: galloc_def)
    note m = gmark_id_ok [OF False this, of ?b]
    obtain R1 where m1: "gmark_id ?b ?R = Inr (True, R1)" "gr_text R1 = ?s" "gr_next R1 = ?b + 1" "gr_edges R1 = gr_edges R"
      "gr_ids R1 = gr_ids R @ [?b]" "gr_max R1 = max (gr_max R) (gid ?k)" "gr_nodes R1 = (gr_nodes R)(?b := blank_node\<lparr>gid := gid ?k\<rparr>)"
      using m spells_atom(1) by (simp add: galloc_def)
    from gatom_read_ok [OF spells_atom(2,1,3) spells_atom.prems(3) m1(2), of ?b] obtain es where
      a: "gatom_read ?b R1 = Inr (?b, R1\<lparr>gr_text := r, gr_nodes := (gr_nodes R1)(?b := (gr_nodes R1 ?b)\<lparr>gatom := gatom ?k,
        grefs := replicate (length (grefs ?k)) 0\<rparr>), gr_edges := gr_edges R1 @ es\<rparr>)"
      "slots_of es = {(RefOf ?b j, gid (N (grefs ?k ! j))) | j. j < length (grefs ?k)} \<union> {(TypeOf ?b, gid (N t)) | t. gtype ?k = Some t}"
      by (elim exE conjE) (rule that)
    have "gnode_read fuel R = Some (gatom_read ?b R1)" using m1(1) by (simp add: g al)
    moreover have "gr_ids R1 = gr_ids R @ (if gid ?k \<noteq> 0 then [?b] else [])" using m1(5) False by simp
    from fin [OF a(2) m1(3,4) this m1(6,7)] have "\<exists>R'. gatom_read ?b R1 = Inr (f n, R') \<and> reads f N W R R' r" by (simp only: a(1))
    ultimately show ?thesis by (simp only: option.inject)
  next
    case True
    let ?s = "gatom ?k @ gsuffix N ?k @ r"
    have t: "gr_text ?R = ?s" using spells_atom.prems(2) True by (simp add: galloc_def gprefix_def)
    from writable_atom [OF spells_atom(2,1) True, of N] show ?thesis
    proof (elim disjE conjE exE)
      fix c u assume c: "gatom ?k = c # u" "\<not> is_delim c" "c \<noteq> CHR ''#''" "c \<noteq> CHR ''@''"
      have m: "gmark_id ?b ?R = Inr (False, ?R)" using t c by (simp add: gmark_id_def)
      from gatom_read_ok [OF spells_atom(2,1,3) spells_atom.prems(3) t, of ?b] obtain es where
        a: "gatom_read ?b ?R = Inr (?b, ?R\<lparr>gr_text := r, gr_nodes := (gr_nodes ?R)(?b := (gr_nodes ?R ?b)\<lparr>gatom := gatom ?k,
          grefs := replicate (length (grefs ?k)) 0\<rparr>), gr_edges := gr_edges ?R @ es\<rparr>)"
        "slots_of es = {(RefOf ?b j, gid (N (grefs ?k ! j))) | j. j < length (grefs ?k)} \<union> {(TypeOf ?b, gid (N t)) | t. gtype ?k = Some t}"
        by (elim exE conjE) (rule that)
      have "c \<noteq> CHR ''(''" "c \<noteq> CHR '')''" using c(2) by auto
      then have "gnode_read fuel R = Some (gatom_read ?b ?R)" using m t c by (simp add: g al)
      moreover have "\<exists>R'. gatom_read ?b ?R = Inr (f n, R') \<and> reads f N W R R' r"
        unfolding a(1) by (rule fin [OF a(2)]) (use True in \<open>simp_all add: galloc_def blank_node_def\<close>)
      ultimately show ?thesis by (simp only: option.inject)
    next
      fix u assume c: "gatom ?k = []" "gsuffix N ?k = CHR ''@'' # u"
      have m: "gmark_id ?b ?R = Inr (False, ?R)" using t c by (simp add: gmark_id_def)
      have "gr_text ?R = gsuffix N ?k @ r" using t c(1) by simp
      from gsuffixed_ok [OF spells_atom(3) spells_atom.prems(3) this, of ?b] obtain es where
        a: "gsuffixed ?b ?R = Inr (?R\<lparr>gr_text := r, gr_nodes := (gr_nodes ?R)(?b := (gr_nodes ?R ?b)\<lparr>
          grefs := replicate (length (grefs ?k)) 0\<rparr>), gr_edges := gr_edges ?R @ es\<rparr>)"
        "slots_of es = {(RefOf ?b j, gid (N (grefs ?k ! j))) | j. j < length (grefs ?k)} \<union> {(TypeOf ?b, gid (N t)) | t. gtype ?k = Some t}"
        by (elim exE conjE) (rule that)
      have "gnode_read fuel R = (case gsuffixed ?b ?R of Inl e \<Rightarrow> Some (Inl e) | Inr R2 \<Rightarrow> Some (Inr (?b, R2)))"
        using m t c by (simp add: g al)
      moreover have "gr_nodes ?R ?b = (gr_nodes ?R ?b)\<lparr>gatom := gatom ?k\<rparr>" using c(1) by (simp add: galloc_def blank_node_def)
      moreover have "\<exists>R'. Inr (?b, ?R\<lparr>gr_text := r, gr_nodes := (gr_nodes ?R)(?b := (gr_nodes ?R ?b)\<lparr>gatom := gatom ?k,
          grefs := replicate (length (grefs ?k)) 0\<rparr>), gr_edges := gr_edges ?R @ es\<rparr>) = (Inr (f n, R') :: graph_error + _) \<and> reads f N W R R' r"
        by (rule fin [OF a(2)]) (use True in \<open>simp_all add: galloc_def blank_node_def\<close>)
      ultimately show ?thesis using a(1) by (simp add: fn)
    qed
  qed
next
  case (spells_lst n s)
  let ?k = "N n" and ?b = "gr_next R"
  let ?R = "R\<lparr>gr_nodes := (gr_nodes R)(?b := blank_node), gr_next := ?b + 1\<rparr>"
  obtain ys where W: "W = n # ys" "forest N (gkids ?k) ys" using spells_lst.prems(1) by auto
  then have fn: "f n = ?b" and ys: "map f ys = [?b + 1..<?b + 1 + length ys]"
    using spells_lst.prems(4) by (simp_all add: upt_conv_Cons del: upt_Suc)
  obtain g where g: "fuel = Suc g" "2 * length s < g" using spells_lst.prems(5) by (cases fuel) auto
  have id: "gid ?k \<noteq> 0" using spells_lst(1,2) by (simp add: writable_def)
  have atom: "gatom ?k = []" using spells_lst(1,2) by (simp add: writable_def)
  let ?s = "CHR ''('' # s @ CHR '')'' # gsuffix N ?k @ r"
  have al: "galloc R = (?b, ?R)" by (simp add: galloc_def)
  have "gr_text ?R = gprefix ?k @ ?s" using spells_lst.prems(2) by (simp add: galloc_def)
  note m = gmark_id_ok [OF id this, of ?b]
  obtain R1 where m1: "gmark_id ?b ?R = Inr (False, R1)" "gr_text R1 = ?s" "gr_next R1 = ?b + 1" "gr_edges R1 = gr_edges R"
      "gr_ids R1 = gr_ids R @ [?b]" "gr_max R1 = max (gr_max R) (gid ?k)" "gr_nodes R1 = (gr_nodes R)(?b := blank_node\<lparr>gid := gid ?k\<rparr>)"
    using m spells_lst(1) by (simp add: galloc_def)
  let ?R2 = "with_node ?b (\<lambda>k. k\<lparr>glist := True\<rparr>) (R1\<lparr>gr_text := s @ CHR '')'' # gsuffix N ?k @ r\<rparr>)"
  have "gr_text ?R2 = s @ CHR '')'' # gsuffix N ?k @ r" "gr_next ?R2 = ?b + 1" using m1(3) by (simp_all add: with_node_def)
  with spells_lst(5) [OF W(2), of ?R2 "gsuffix N ?k @ r" g] ys g(2) obtain R3 where
    R3: "gitems_read g ?R2 = Some (Inr (map f (gkids ?k), R3))" "reads f N ys ?R2 R3 (gsuffix N ?k @ r)" by auto
  let ?R4 = "with_node ?b (\<lambda>k'. k'\<lparr>gkids := map f (gkids ?k)\<rparr>) R3"
  have "gr_text ?R4 = gsuffix N ?k @ r" using R3(2) by (simp add: with_node_def reads_def)
  from gsuffixed_ok [OF spells_lst(3) spells_lst.prems(3) this, of ?b] obtain es where
    es: "gsuffixed ?b ?R4 = Inr (?R4\<lparr>gr_text := r, gr_nodes := (gr_nodes ?R4)(?b := (gr_nodes ?R4 ?b)\<lparr>
      grefs := replicate (length (grefs ?k)) 0\<rparr>), gr_edges := gr_edges ?R4 @ es\<rparr>)"
    "slots_of es = {(RefOf ?b j, gid (N (grefs ?k ! j))) | j. j < length (grefs ?k)} \<union> {(TypeOf ?b, gid (N t)) | t. gtype ?k = Some t}"
    by (elim exE conjE) (rule that)
  let ?R5 = "?R4\<lparr>gr_text := r, gr_nodes := (gr_nodes ?R4)(?b := (gr_nodes ?R4 ?b)\<lparr>
      grefs := replicate (length (grefs ?k)) 0\<rparr>), gr_edges := gr_edges ?R4 @ es\<rparr>"
  have run: "gnode_read fuel R = Some (Inr (f n, ?R5))" using m1(1,2) R3(1) es(1) by (simp add: g(1) al fn)
  have "f ` set ys = {?b + 1..<?b + 1 + length ys}" 
    using arg_cong [OF ys, of set] unfolding set_map set_upt .
  then have out: "?b \<notin> f ` set ys" by simp
  then have nodes: "gr_nodes R3 ?b = blank_node\<lparr>gid := gid ?k, glist := True\<rparr>" using R3(2) m1(7) by (simp add: reads_def with_node_def)
  have "reads f N W R ?R5 r"
    unfolding W(1) reads_def
  proof (intro conjI ballI allI impI)
    show "gr_text ?R5 = r" by simp
    show "gr_next ?R5 = ?b + length (n # ys)" using R3(2) m1(3) by (simp add: reads_def with_node_def)
    show "gr_ids ?R5 = gr_ids R @ map f (filter (\<lambda>x. gid (N x) \<noteq> 0) (n # ys))"
      using R3(2) m1(5) id fn by (simp add: reads_def with_node_def)
    show "gr_max ?R5 = max_of N (n # ys) (gr_max R)" using R3(2) m1(6) by (simp add: reads_def with_node_def max_of_def max.commute)
    show "slots_of (gr_edges ?R5) = slots_of (gr_edges R) \<union> (\<Union>x \<in> set (n # ys). node_slots f N x)"
      using R3(2) m1(4) es(2) fn by (auto simp: reads_def with_node_def node_slots_def)
    show "gr_nodes ?R5 (f x) = raw f (N x)" if "x \<in> set (n # ys)" for x
    proof (cases "x = n")
      case True
      then show ?thesis using nodes spells_lst(1) atom by (simp add: fn with_node_def raw_def blank_node_def)
    next
      case False
      then have x: "x \<in> set ys" using that by simp
      then have "f x \<in> f ` set ys" by simp
      then have "f x \<noteq> ?b" using out by metis
      with R3(2) x show ?thesis by (simp add: reads_def with_node_def)
    qed
    show "gr_nodes ?R5 m = gr_nodes R m" if "m \<notin> f ` set (n # ys)" for m
      using that R3(2) m1(7) fn by (simp add: reads_def with_node_def)
  qed
  with run show ?case by blast
next
  case spells_nil
  then obtain g where "fuel = Suc g" by (cases fuel) auto
  moreover have "gspace R = R" using spells_nil.prems(2) by (intro gspace_stop [of R "CHR '')''" r]) simp_all
  ultimately show ?case using spells_nil.prems by (auto simp: Let_def)
next
  case (spells_one x s)
  then obtain g where g: "fuel = Suc g" "2 * length s \<le> g" by (cases fuel) auto
  obtain c t where s: "s = c # t" "\<not> is_delim c" using spells_head [OF spells_one(1)] by blast
  have sp: "gspace R = R" using spells_one.prems(2) s by (intro gspace_stop [of R c]) simp_all
  obtain R1 where R1: "gnode_read g R = Some (Inr (f x, R1))" "reads f N W R R1 (CHR '')'' # r)"
    using spells_one(2) [OF spells_one.prems(1,2) _ spells_one.prems(3) g(2)] by (auto simp: ends_def)
  obtain h where h: "g = Suc h" using g(2) s by (cases g) auto
  have t1: "gr_text R1 = CHR '')'' # r" using R1(2) by (simp add: reads_def)
  then have "gspace R1 = R1" by (intro gspace_stop [of R1 "CHR '')''" r]) simp_all
  then have "gitems_read g R1 = Some (Inr ([], R1\<lparr>gr_text := r\<rparr>))" using t1 by (simp add: h Let_def)
  moreover have "c \<noteq> CHR '')''" using s(2) by auto
  ultimately have "gitems_read fuel R = Some (Inr ([f x], R1\<lparr>gr_text := r\<rparr>))"
    using R1(1) sp spells_one.prems(2) s by (simp add: g(1) Let_def)
  moreover have "reads f N W R (R1\<lparr>gr_text := r\<rparr>) r" using R1(2) by (simp add: reads_def)
  ultimately show ?case by auto
next
  case (spells_cons x s gap y ys t)
  then obtain g where g: "fuel = Suc g" "2 * length s + 2 * length gap + 2 * length t \<le> g" by (cases fuel) auto
  obtain as bs where W: "W = as @ bs" "forest N [x] as" "forest N (y # ys) bs"
  proof -
    have "forest N ([x] @ y # ys) W" using spells_cons.prems(1) by simp
    from iffD1 [OF forest_append this] show thesis by (elim exE conjE) (rule that)
  qed
  note names = named_split [OF spells_cons.prems(3) [unfolded W(1)]]
  obtain c u where s: "s = c # u" "\<not> is_delim c" using spells_head [OF spells_cons(1)] by blast
  let ?r = "gap @ t @ CHR '')'' # r"
  have sp: "gspace R = R" using spells_cons.prems(2) s by (intro gspace_stop [of R c]) simp_all
  obtain R1 where R1: "gnode_read g R = Some (Inr (f x, R1))" "reads f N as R R1 ?r"
    using spells_cons(2) [OF W(2), of R ?r g] spells_cons.prems(2) names ends_gap [OF spells_cons.hyps] g(2) by auto
  obtain ln where gap: "gspace R1 = gspace (R1\<lparr>gr_text := t @ CHR '')'' # r, gr_line := ln\<rparr>)"
    using gspace_gap [OF _ spells_cons.hyps(1), of R1] R1(2) by (auto simp: reads_def)
  have "2 * length t < g" using g(2) spells_cons.hyps(2) by (cases gap) auto
  moreover have "gr_next R1 = gr_next R + length as" using R1(2) by (simp add: reads_def)
  ultimately obtain R2 where R2: "gitems_read g (R1\<lparr>gr_text := t @ CHR '')'' # r, gr_line := ln\<rparr>) = Some (Inr (map f (y # ys), R2))"
      "reads f N bs R1 R2 r"
    using spells_cons(4) [OF W(3), of "R1\<lparr>gr_text := t @ CHR '')'' # r, gr_line := ln\<rparr>" r g] names by auto
  obtain h where h: "g = Suc h" using g(2) s by (cases g) auto
  have "gitems_read g R1 = Some (Inr (map f (y # ys), R2))" using R2(1) gap by (simp add: h)
  moreover have "c \<noteq> CHR '')''" using s(2) by auto
  ultimately have "gitems_read fuel R = Some (Inr (map f (x # y # ys), R2))"
    using R1(1) sp spells_cons.prems(2) s by (simp add: g(1) Let_def)
  moreover have "reads f N W R R2 r" unfolding W(1) using reads_append [OF R1(2) R2(2)] spells_cons.prems(3) W(1) by blast
  ultimately show ?case by blast
qed

end
