(* ===== verification/GraphLisp.thy ===== *)
theory GraphLisp
  imports GraphSpell
begin

text \<open>
  The round trip of a graph through its Lisp (crefactor/graph/lisp.go): the writer's layout
  spells every node, the file is read section by section, and the edges find their targets.
\<close>

subsection \<open>The writer returns\<close>

lemma those_None: "those xs = None \<longleftrightarrow> None \<in> set xs"
  by (induction xs) (auto split: option.splits)

lemma those_Cons: "those (x # xs) = Some ys \<longleftrightarrow> (\<exists>y ys'. x = Some y \<and> those xs = Some ys' \<and> ys = y # ys')"
  by (auto split: option.splits)

lemma those_Some: "(\<exists>ys. those xs = Some ys) \<longleftrightarrow> None \<notin> set xs"
  using those_None [of xs] by auto

lemma walk_kids: "walk_nodes (Suc f) N n \<noteq> None \<Longrightarrow> k \<in> set (gkids (N n)) \<Longrightarrow> walk_nodes f N k \<noteq> None"
proof
  assume "walk_nodes (Suc f) N n \<noteq> None" and k: "k \<in> set (gkids (N n))" "walk_nodes f N k = None"
  moreover have "None \<in> set (map (walk_nodes f N) (gkids (N n)))" using image_eqI [of None "walk_nodes f N" k] k by simp
  then have "those (map (walk_nodes f N) (gkids (N n))) = None" unfolding those_None .
  ultimately show False by simp
qed

lemma gflat_returns: "walk_nodes f N n \<noteq> None \<Longrightarrow> gflat f N n \<noteq> None"
proof (induction f arbitrary: n)
  case (Suc f)
  have "None \<notin> gflat f N ` set (gkids (N n))" using Suc.IH walk_kids [OF Suc.prems] by fastforce
  then show ?case by (auto simp: Let_def those_Some)
qed simp

lemma len_loop_returns: "(\<And>k m. k \<in> set ks \<Longrightarrow> f k m \<noteq> None) \<Longrightarrow> len_loop f limit ks l \<noteq> None"
proof (induction ks arbitrary: l)
  case (Cons k ks)
  obtain m where "f k (limit - l) = Some m" using Cons.prems [of k] by auto
  moreover have "len_loop f limit ks (l + m) \<noteq> None" using Cons by simp
  ultimately show ?case by simp
qed simp

lemma flatLen_returns: "walk_nodes f N n \<noteq> None \<Longrightarrow> flatLen f N n limit \<noteq> None"
proof (induction f arbitrary: n limit)
  case (Suc f)
  have "len_loop (flatLen f N) limit (gkids (N n)) l \<noteq> None" for l
    by (rule len_loop_returns) (rule Suc.IH [OF walk_kids [OF Suc.prems]])
  then show ?case by (simp add: Let_def)
qed simp

lemma any_kid_returns: "(\<And>k. k \<in> set ks \<Longrightarrow> f k \<noteq> None) \<Longrightarrow> any_kid f ks \<noteq> None"
proof (induction ks)
  case (Cons k ks)
  obtain b where "f k = Some b" using Cons.prems [of k] by auto
  moreover have "any_kid f ks \<noteq> None" using Cons by simp
  ultimately show ?case by (cases b) simp_all
qed simp

lemma gbroken_returns: "walk_nodes f N n \<noteq> None \<Longrightarrow> gbroken f N n \<noteq> None"
proof (induction f arbitrary: n)
  case (Suc f)
  note kid = Suc.IH [OF walk_kids [OF Suc.prems]]
  have "any_kid (gbroken f N) (drop 1 (gkids (N n))) \<noteq> None" by (rule any_kid_returns) (rule kid, erule in_set_dropD)
  moreover have "gbroken f N (gkids (N n) ! 1) \<noteq> None" if "length (gkids (N n)) = 2" using that by (intro kid nth_mem) simp
  ultimately show ?case by (auto simp: Let_def)
qed simp

lemma layout_loop_returns:
  "(\<And>x c. x \<in> set xs \<Longrightarrow> lay x c \<noteq> None \<and> len x c \<noteq> None) \<Longrightarrow> layout_loop lay len N xs i k pos inner \<noteq> None"
proof (induction xs arbitrary: i k pos)
  case (Cons x xs)
  have "\<exists>v. lay x c = Some v" "\<exists>w. len x c = Some w" for c using Cons.prems [of x c] by auto
  then obtain a b where ab: "\<And>c. lay x c = Some (a c)" "\<And>c. len x c = Some (b c)" by metis
  have "\<exists>t. layout_loop lay len N xs i k pos inner = Some t" for i k pos using Cons by simp
  then obtain g where "\<And>i k pos. layout_loop lay len N xs i k pos inner = Some (g i k pos)" by metis
  with ab show ?case by (simp add: Let_def)
qed simp

lemma glayout_returns: "walk_nodes f N n \<noteq> None \<Longrightarrow> glayout f N n col \<noteq> None"
proof (induction f arbitrary: n col)
  case (Suc f)
  note kid = walk_kids [OF Suc.prems]
  obtain b where b: "gbroken (Suc f) N n = Some b" using gbroken_returns [OF Suc.prems] by auto
  obtain l where l: "flatLen (Suc f) N n (int Width - col + 1) = Some l" using flatLen_returns [OF Suc.prems] by auto
  obtain s where s: "gflat (Suc f) N n = Some s" using gflat_returns [OF Suc.prems] by auto
  show ?case
  proof (cases "gkids (N n)")
    case Nil
    then show ?thesis using b l s by (simp add: Let_def gfits_def del: gbroken.simps flatLen.simps gflat.simps)
  next
    case (Cons x xs)
    have x: "walk_nodes f N y \<noteq> None" if "y \<in> set (x # xs)" for y using kid that Cons by simp
    obtain m where m: "flatLen f N x (int Width) = Some m" using flatLen_returns x by fastforce
    obtain u where u: "glayout f N x (col + marksLen N (N n) + 1) = Some u" using Suc.IH x by fastforce
    have "layout_loop (glayout f N) (flatLen f N) N xs i k pos inner \<noteq> None" for i k pos inner
      by (rule layout_loop_returns) (use Suc.IH flatLen_returns x in \<open>simp del: walk_nodes.simps\<close>)
    then have "\<exists>t. layout_loop (glayout f N) (flatLen f N) N xs i k pos inner = Some t" for i k pos inner by blast
    then obtain t where "\<And>i k pos inner. layout_loop (glayout f N) (flatLen f N) N xs i k pos inner = Some (t i k pos inner)" by metis
    then show ?thesis using b l s m u Cons
      by (simp add: Let_def gfits_def del: gbroken.simps flatLen.simps gflat.simps)
  qed
qed simp

subsection \<open>The writer spells\<close>

text \<open>A set of nodes, closed under elements, that the text can hold.\<close>

definition closed :: "gstore \<Rightarrow> nat set \<Rightarrow> bool" where
  "closed N X \<longleftrightarrow> (\<forall>x \<in> X. writable (N x) \<and> marks_ok N (N x) \<and> set (gkids (N x)) \<subseteq> X)"

lemma spells_spaced:
  "(\<And>x s. x \<in> set xs \<Longrightarrow> f x = Some s \<Longrightarrow> spells N x s) \<Longrightarrow> those (map f xs) = Some ss \<Longrightarrow> spells_list N xs (spaced ss)"
proof (induction xs arbitrary: ss)
  case (Cons x xs)
  obtain s ss' where s: "f x = Some s" "those (map f xs) = Some ss'" "ss = s # ss'"
    using Cons.prems(2) unfolding list.map those_Cons by blast
  have x: "spells N x s" using Cons.prems(1) s(1) by simp
  have ih: "spells_list N xs (spaced ss')" using Cons.IH [OF Cons.prems(1) s(2)] by simp
  show ?case
  proof (cases xs)
    case Nil
    with s x show ?thesis by (simp add: spells_one)
  next
    case Cons2: (Cons y ys)
    then obtain t ts where "ss' = t # ts" using s(2) unfolding Cons2 list.map those_Cons by blast
    with s(3) spells_cons [OF x _ _ ih [unfolded Cons2], of "'' ''"] Cons2 show ?thesis by (simp add: is_gap_def is_blank_def)
  qed
qed (simp add: spells_nil)

lemma gflat_spells: "closed N X \<Longrightarrow> n \<in> X \<Longrightarrow> gflat f N n = Some s \<Longrightarrow> spells N n s"
proof (induction f arbitrary: n s)
  case (Suc f)
  have n: "writable (N n)" "marks_ok N (N n)" "set (gkids (N n)) \<subseteq> X" using Suc.prems(1,2) by (auto simp: closed_def)
  show ?case
  proof (cases "glist (N n)")
    case True
    then obtain ss where ss: "those (map (gflat f N) (gkids (N n))) = Some ss" "s = gprefix (N n) @ (''('' @ spaced ss @ '')'') @ gsuffix N (N n)"
      using Suc.prems(3) by (auto simp: Let_def)
    have "spells_list N (gkids (N n)) (spaced ss)"
      by (rule spells_spaced [OF _ ss(1)]) (use Suc.IH [OF Suc.prems(1)] n(3) in blast)
    from spells_lst [OF True n(1,2) this] ss(2) show ?thesis by simp
  next
    case False
    with Suc.prems(3) spells_atom [OF False n(1,2)] show ?thesis by (simp add: Let_def)
  qed
qed simp

lemma layout_loop_spells:
  assumes "\<And>x c s. x \<in> set xs \<Longrightarrow> lay x c = Some s \<Longrightarrow> spells N x s"
  shows "layout_loop lay len N xs i k pos inner = Some t \<Longrightarrow> spells N y s \<Longrightarrow> spells_list N (y # xs) (s @ t)"
  using assms
proof (induction xs arbitrary: i k pos t y s)
  case Nil
  then show ?case by (simp add: spells_one)
next
  case (Cons x xs)
  obtain w where "len x (int Width - pos - 1 + 1) = Some w"
    using Cons.prems(1) by (auto simp: bind_eq_Some_conv)
  note w = this
  obtain g u c t' i' k' pos' where u: "t = g @ u @ t'" "lay x c = Some u"
      "layout_loop lay len N xs i' k' pos' inner = Some t'" "g = '' '' \<or> g = newline # replicate (nat inner) (CHR '' '')"
  proof (cases "i < k \<and> (w \<le> int Width - pos - 1 \<or> i = 0 \<and> \<not> glist (N x))")
    case True
    with Cons.prems(1) w obtain u l t' where "lay x (pos + 1) = Some u" "t = '' '' @ u @ t'"
        "layout_loop lay len N xs (Suc i) k (pos + 1 + l) inner = Some t'"
      by (auto simp: bind_eq_Some_conv)
    then show thesis by (intro that [of "'' ''" u t']) simp_all
  next
    case False
    with Cons.prems(1) w obtain u t' where "lay x inner = Some u" "t = (newline # replicate (nat inner) (CHR '' '')) @ u @ t'"
        "layout_loop lay len N xs (Suc i) 0 pos inner = Some t'"
      unfolding layout_loop.simps w bind.bind_lunit if_not_P [OF False] by (auto simp: bind_eq_Some_conv)
    then show thesis by (intro that [of "newline # replicate (nat inner) (CHR '' '')" u t']) simp_all
  qed
  have x: "spells N x u" using Cons.prems(3) u(2) by simp
  have "spells_list N (x # xs) (u @ t')" using Cons.IH [OF u(3) x] Cons.prems(3) by simp
  from spells_cons [OF Cons.prems(2) _ _ this, of g] u(1,4) show ?case by (auto simp: is_gap_def is_blank_def)
qed

lemma glayout_spells: "closed N X \<Longrightarrow> n \<in> X \<Longrightarrow> glayout f N n col = Some s \<Longrightarrow> spells N n s"
proof (induction f arbitrary: n col s)
  case (Suc f)
  have n: "writable (N n)" "marks_ok N (N n)" "set (gkids (N n)) \<subseteq> X" using Suc.prems(1,2) by (auto simp: closed_def)
  obtain b l where bl: "gbroken (Suc f) N n = Some b" "gfits (Suc f) N n (int Width - col) = Some l"
    using Suc.prems(3) by (auto simp: bind_eq_Some_conv Let_def simp del: gbroken.simps)
  show ?case
  proof (cases "\<not> glist (N n) \<or> \<not> b \<and> l")
    case True
    then have "gflat (Suc f) N n = Some s" using Suc.prems(3) bl by (simp add: Let_def del: gbroken.simps gflat.simps)
    from gflat_spells [OF Suc.prems(1,2) this] show ?thesis .
  next
    case False
    then have lst: "glist (N n)" by simp
    show ?thesis
    proof (cases "gkids (N n)")
      case Nil
      then have "s = gprefix (N n) @ ''('' @ [] @ '')'' @ gsuffix N (N n)"
        using Suc.prems(3) bl False by (cases b; cases l) (simp_all add: Let_def del: gbroken.simps gflat.simps)
      with spells_lst [OF lst n(1,2), of "[]"] Nil show ?thesis by (simp add: spells_nil)
    next
      case (Cons x xs)
      obtain u t i k pos inner c where u: "glayout f N x c = Some u" "layout_loop (glayout f N) (flatLen f N) N xs i k pos inner = Some t"
          "s = gprefix (N n) @ ''('' @ u @ t @ '')'' @ gsuffix N (N n)"
        using Suc.prems(3) bl False Cons
        by (auto simp: Let_def bind_eq_Some_conv simp del: gbroken.simps gflat.simps split: if_splits)
      have kid: "y \<in> set (x # xs) \<Longrightarrow> glayout f N y c = Some v \<Longrightarrow> spells N y v" for y c v
        using Suc.IH [OF Suc.prems(1)] n(3) Cons by auto
      have "spells_list N (x # xs) (u @ t)"
        by (rule layout_loop_spells [OF _ u(2)]) (use kid u(1) in auto)
      from spells_lst [OF lst n(1,2) this [folded Cons]] u(3) show ?thesis by simp
    qed
  qed
qed simp

subsection \<open>The text of the file\<close>

inductive forms_spelled :: "gstore \<Rightarrow> nat list \<Rightarrow> bytes \<Rightarrow> bool" for N where
  forms_nil: "forms_spelled N [] []"
| forms_cons: "is_gap g \<Longrightarrow> spells N n s \<Longrightarrow> forms_spelled N ns t \<Longrightarrow> forms_spelled N (n # ns) (g @ s @ newline # t)"

inductive nodes_spelled :: "gstore \<Rightarrow> nat list \<Rightarrow> bytes \<Rightarrow> bool" for N where
  nodes_nil: "nodes_spelled N [] []"
| nodes_cons: "is_gap g \<Longrightarrow> g \<noteq> [] \<Longrightarrow> spells N n s \<Longrightarrow> nodes_spelled N ns t \<Longrightarrow> nodes_spelled N (n # ns) (g @ s @ t)"

definition unit_text :: "units \<Rightarrow> bytes" where
  "unit_text u = concat (fst u) @ snd u"

lemma unit_text_simps [simp]: "unit_text (cut u) = unit_text u" "unit_text (emit s u) = unit_text u @ s" "concat (fst (cut u)) = unit_text u"
  by (simp_all add: unit_text_def cut_def emit_def)

lemma form_units_spell:
  assumes "closed N X"
  shows "set ns \<subseteq> X \<Longrightarrow> form_units f N prev ns u = Some u' \<Longrightarrow> \<exists>t. unit_text u' = unit_text u @ t \<and> forms_spelled N ns t"
proof (induction ns arbitrary: prev u)
  case Nil
  then show ?case by (auto intro: forms_nil)
next
  case (Cons n ns)
  obtain s where s: "glayout f N n 0 = Some s" using Cons.prems(2) by (auto simp: bind_eq_Some_conv)
  define sep where "sep = (case prev of None \<Rightarrow> [] | Some p \<Rightarrow> if gIs N n ''include'' \<and> gIs N p ''include'' then [] else [newline])"
  have run: "form_units f N (Some n) ns (emit (sep @ s @ [newline]) (cut u)) = Some u'"
    using Cons.prems(2) s by (simp add: sep_def)
  have "set ns \<subseteq> X" using Cons.prems(1) by simp
  from Cons.IH [OF this run] obtain t where t: "unit_text u' = (unit_text u @ sep @ s @ [newline]) @ t" "forms_spelled N ns t" by auto
  have "is_gap sep" by (auto simp: sep_def is_gap_def split: option.splits)
  from forms_cons [OF this glayout_spells [OF assms _ s] t(2)] Cons.prems(1) t(1) show ?case by auto
qed

lemma node_units_spell:
  assumes "closed N X"
  shows "set ns \<subseteq> X \<Longrightarrow> node_units f N ns u = Some u' \<Longrightarrow> \<exists>t. unit_text u' = unit_text u @ t \<and> nodes_spelled N ns t"
proof (induction ns arbitrary: u)
  case Nil
  then show ?case by (auto intro: nodes_nil)
next
  case (Cons n ns)
  obtain s where s: "glayout f N n 2 = Some s" using Cons.prems(2) by (auto simp: bind_eq_Some_conv)
  let ?g = "newline # ''  ''"
  have run: "node_units f N ns (emit (?g @ s) (cut u)) = Some u'" using Cons.prems(2) s by simp
  have "set ns \<subseteq> X" using Cons.prems(1) by simp
  from Cons.IH [OF this run] obtain t where t: "unit_text u' = (unit_text u @ ?g @ s) @ t" "nodes_spelled N ns t" by auto
  have "is_gap ?g" by (auto simp: is_gap_def is_blank_def)
  from nodes_cons [OF this _ glayout_spells [OF assms _ s] t(2)] Cons.prems(1) t(1) show ?case by auto
qed

lemma units_return:
  assumes "\<And>n. n \<in> set ns \<Longrightarrow> walk_nodes f N n \<noteq> None"
  shows "form_units f N prev ns u \<noteq> None" "node_units f N ns u \<noteq> None"
proof -
  have "\<exists>v. glayout f N n c = Some v" if "n \<in> set ns" for n c using glayout_returns [OF assms [OF that]] by blast
  then show "form_units f N prev ns u \<noteq> None" "node_units f N ns u \<noteq> None"
  proof (induction ns arbitrary: prev u)
    case (Cons n ns)
    {
      case 1
      obtain v where v: "glayout f N n 0 = Some v" using 1 by fastforce
      with Cons.IH(1) 1 show ?case by (simp add: Let_def del: not_None_eq)
    next
      case 2
      obtain v where v: "glayout f N n 2 = Some v" using 2 by fastforce
      with Cons.IH(2) 2 show ?case by (simp del: not_None_eq)
    }
  qed simp_all
qed

text \<open>The whole text, by its parts.\<close>

lemma Lisp_text:
  assumes X: "closed (gnodes G) X" "set (Sections G) \<subseteq> X" and w: "\<forall>n \<in> set (Sections G). walk_nodes (gnext G + 1) (gnodes G) n \<noteq> None"
  shows "\<exists>F T S. Lisp G = Some (heading @ F @ (newline # ''(types'') @ T @ ('')'' @ [newline]) @ (newline # ''(externs'') @ S @
      ('')'' @ [newline]) @ (newline # ''(ids '' @ of_id (glast G) @ '')'' @ [newline])) \<and>
    forms_spelled (gnodes G) (gforms G) F \<and> nodes_spelled (gnodes G) (gtypes G) T \<and> nodes_spelled (gnodes G) (gexterns G) S"
proof -
  let ?f = "gnext G + 1" and ?N = "gnodes G"
  have sub: "set (gforms G) \<subseteq> X" "set (gtypes G) \<subseteq> X" "set (gexterns G) \<subseteq> X" using X(2) by (auto simp: Sections_def)
  have wk: "\<And>n. n \<in> set (gforms G) \<Longrightarrow> walk_nodes ?f ?N n \<noteq> None" "\<And>n. n \<in> set (gtypes G) \<Longrightarrow> walk_nodes ?f ?N n \<noteq> None"
    "\<And>n. n \<in> set (gexterns G) \<Longrightarrow> walk_nodes ?f ?N n \<noteq> None" using w by (auto simp: Sections_def simp del: walk_nodes.simps)
  obtain u1 where u1: "form_units ?f ?N None (gforms G) (emit heading ([], [])) = Some u1" using units_return(1) [OF wk(1)] by blast
  let ?v1 = "emit (newline # ''('' @ ''types'') (cut u1)"
  obtain v2 where v2: "node_units ?f ?N (gtypes G) ?v1 = Some v2" using units_return(2) [OF wk(2)] by blast
  let ?u2 = "emit ('')'' @ [newline]) v2"
  let ?v2 = "emit (newline # ''('' @ ''externs'') (cut ?u2)"
  obtain v3 where v3: "node_units ?f ?N (gexterns G) ?v2 = Some v3" using units_return(2) [OF wk(3)] by blast
  let ?u3 = "emit ('')'' @ [newline]) v3"
  have L: "Lisp G = Some (unit_text (emit (newline # ''(ids '' @ of_id (glast G) @ '')'' @ [newline]) ?u3))"
    unfolding Lisp_def LispUnits_def Let_def section_units_def u1 bind.bind_lunit v2 option.map(2) v3 by (simp add: unit_text_def cut_def)
  obtain F where F: "unit_text u1 = heading @ F" "forms_spelled ?N (gforms G) F"
    using form_units_spell [OF X(1) sub(1) u1] by (auto simp: unit_text_def emit_def)
  obtain T where T: "unit_text v2 = unit_text ?v1 @ T" "nodes_spelled ?N (gtypes G) T" using node_units_spell [OF X(1) sub(2) v2] by blast
  obtain S where S: "unit_text v3 = unit_text ?v2 @ S" "nodes_spelled ?N (gexterns G) S" using node_units_spell [OF X(1) sub(3) v3] by blast
  show ?thesis using L F T S by (intro exI [of _ F] exI [of _ T] exI [of _ S]) simp
qed

subsection \<open>Reading the file\<close>

lemma newline_ends [simp]: "ends (newline # r)" "ends (CHR '')'' # r)"
  by (simp_all add: ends_def)

lemma gap_newline [simp]: "is_gap [newline]"
  by (simp add: is_gap_def)

lemma reads_line [simp]: "reads f N W (R\<lparr>gr_line := l, gr_text := t\<rparr>) R' r = reads f N W R R' r"
  by (simp add: reads_def)

lemma greader_swap: "R\<lparr>gr_text := t, gr_line := l\<rparr> = (R\<lparr>gr_line := l, gr_text := t\<rparr> :: greader)"
  by (cases R) simp

lemma gspace_gap_stop:
  assumes "gr_text R = g @ c # s" "is_gap g" "\<not> is_delim c \<or> c = CHR ''('' \<or> c = CHR '')''"
  shows "\<exists>ln. gspace R = R\<lparr>gr_line := ln, gr_text := c # s\<rparr>"
proof -
  obtain ln where "gspace R = gspace (R\<lparr>gr_text := c # s, gr_line := ln\<rparr>)" using gspace_gap [OF assms(1,2)] by blast
  then have "gspace R = gspace (R\<lparr>gr_line := ln, gr_text := c # s\<rparr>)" by (simp only: greader_swap)
  moreover have "gspace (R\<lparr>gr_line := ln, gr_text := c # s\<rparr>) = R\<lparr>gr_line := ln, gr_text := c # s\<rparr>"
    by (rule gspace_stop [OF _ assms(3)]) simp
  ultimately show ?thesis by auto
qed

lemma spells_not_nil: "spells N n s \<Longrightarrow> s \<noteq> []"
  using spells_head by blast

lemma read_forms_file:
  "forms_spelled N ns t \<Longrightarrow> forest N ns W \<Longrightarrow> gr_text R = g @ t @ r \<Longrightarrow> is_gap g \<Longrightarrow>
     map f W = [gr_next R..<gr_next R + length W] \<Longrightarrow> 2 * length t + k \<le> fuel \<Longrightarrow>
     \<exists>R' g' fuel'. gfile_read fuel F R = gfile_read fuel' (F\<lparr>gf_forms := gf_forms F @ map f ns\<rparr>) R' \<and> is_gap g' \<and>
       reads f N W R R' (g' @ r) \<and> k \<le> fuel'"
proof (induction arbitrary: W R g fuel F rule: forms_spelled.induct)
  case forms_nil
  then have "W = []" by auto
  with forms_nil show ?case by (intro exI [of _ R] exI [of _ g] exI [of _ fuel]) (auto simp: reads_def max_of_def)
next
  case (forms_cons gap n s ns t)
  then obtain h where h: "fuel = Suc h" "2 * length s + 2 * length t + k \<le> h" by (cases fuel) auto
  obtain as bs where W: "W = as @ bs" "forest N [n] as" "forest N ns bs"
  proof -
    have "forest N ([n] @ ns) W" using forms_cons.prems(1) by simp
    from iffD1 [OF forest_append this] show thesis by (elim exE conjE) (rule that)
  qed
  note names = named_split [OF forms_cons.prems(4) [unfolded W(1)]]
  obtain c u where s: "s = c # u" "\<not> is_delim c" using spells_head [OF forms_cons.hyps(2)] by blast
  let ?r = "newline # t @ r"
  have "gr_text R = (g @ gap) @ c # u @ ?r" "is_gap (g @ gap)"
    using forms_cons.prems(2,3) forms_cons.hyps(1) s(1) by (auto simp: is_gap_def)
  from gspace_gap_stop [OF this] s(2) obtain ln where sp: "gspace R = R\<lparr>gr_line := ln, gr_text := c # u @ ?r\<rparr>" by blast
  let ?R = "R\<lparr>gr_line := ln, gr_text := c # u @ ?r\<rparr>"
  have fuel: "2 * length s \<le> h" using h(2) by simp
  obtain R1 where R1: "gnode_read h ?R = Some (Inr (f n, R1))" "reads f N as R R1 ?r"
    using read_spells(1) [OF forms_cons.hyps(2) W(2), of ?R ?r f h] names s(1) fuel by auto
  have t1: "gr_text R1 = [newline] @ t @ r" "gr_next R1 = gr_next R + length as" using R1(2) by (simp_all add: reads_def)
  have "2 * length t + k \<le> h" using h(2) by simp
  from forms_cons.IH [OF W(3) t1(1) gap_newline _ this, of "F\<lparr>gf_forms := gf_forms F @ [f n]\<rparr>"] names t1(2)
  obtain R2 g' fuel' where R2: "gfile_read h (F\<lparr>gf_forms := gf_forms F @ [f n]\<rparr>) R1 =
      gfile_read fuel' (F\<lparr>gf_forms := gf_forms F @ map f (n # ns)\<rparr>) R2" "is_gap g'" "reads f N bs R1 R2 (g' @ r)" "k \<le> fuel'"
    by auto
  have "c \<noteq> CHR ''(''" using s(2) by auto
  then have "gfile_read fuel F R = gfile_read h (F\<lparr>gf_forms := gf_forms F @ [f n]\<rparr>) R1"
    using sp R1(1) by (simp add: h(1) Let_def)
  moreover have "reads f N W R R2 (g' @ r)" unfolding W(1) using reads_append [OF R1(2) R2(3)] forms_cons.prems(4) W(1) by blast
  ultimately show ?case using R2(1,2,4) by auto
qed

lemma nodes_ends: "nodes_spelled N ns t \<Longrightarrow> ends (t @ CHR '')'' # r)"
  by (erule nodes_spelled.cases) (auto simp: ends_gap)

lemma read_section:
  "nodes_spelled N ns t \<Longrightarrow> forest N ns W \<Longrightarrow> gr_text R = t @ CHR '')'' # r \<Longrightarrow>
     map f W = [gr_next R..<gr_next R + length W] \<Longrightarrow> 2 * length t < fuel \<Longrightarrow>
     \<exists>R'. gsection_read fuel head R = Some (Inr (map f ns, R')) \<and> reads f N W R R' r"
proof (induction arbitrary: W R fuel rule: nodes_spelled.induct)
  case nodes_nil
  then have "W = []" by auto
  obtain h where "fuel = Suc h" using nodes_nil.prems(4) by (cases fuel) auto
  moreover have "gspace R = R" using nodes_nil.prems(2) by (intro gspace_stop [of R "CHR '')''" r]) simp_all
  ultimately show ?case using nodes_nil.prems(2) \<open>W = []\<close> by (simp add: Let_def)
next
  case (nodes_cons gap n s ns t)
  then obtain h where h: "fuel = Suc h" "2 * length s + 2 * length t < h" by (cases fuel; cases gap) auto
  obtain as bs where W: "W = as @ bs" "forest N [n] as" "forest N ns bs"
  proof -
    have "forest N ([n] @ ns) W" using nodes_cons.prems(1) by simp
    from iffD1 [OF forest_append this] show thesis by (elim exE conjE) (rule that)
  qed
  note names = named_split [OF nodes_cons.prems(3) [unfolded W(1)]]
  obtain c u where s: "s = c # u" "\<not> is_delim c" using spells_head [OF nodes_cons.hyps(3)] by blast
  let ?r = "t @ CHR '')'' # r"
  have "gr_text R = gap @ c # u @ ?r" using nodes_cons.prems(2) s(1) by simp
  from gspace_gap_stop [OF this nodes_cons.hyps(1)] s(2) obtain ln where sp: "gspace R = R\<lparr>gr_line := ln, gr_text := c # u @ ?r\<rparr>"
    by blast
  let ?R = "R\<lparr>gr_line := ln, gr_text := c # u @ ?r\<rparr>"
  have fuel: "2 * length s \<le> h" "2 * length t < h" using h(2) by simp_all
  obtain R1 where R1: "gnode_read h ?R = Some (Inr (f n, R1))" "reads f N as R R1 ?r"
    using read_spells(1) [OF nodes_cons.hyps(3) W(2), of ?R ?r f h] names s(1) fuel(1) nodes_ends [OF nodes_cons.hyps(4)] by auto
  have t1: "gr_text R1 = ?r" "gr_next R1 = gr_next R + length as" using R1(2) by (simp_all add: reads_def)
  obtain R2 where R2: "gsection_read h head R1 = Some (Inr (map f ns, R2))" "reads f N bs R1 R2 r"
    using nodes_cons.IH [OF W(3) t1(1) _ fuel(2)] names t1(2) by auto
  have "c \<noteq> CHR '')''" using s(2) by auto
  then have "gsection_read fuel head R = Some (Inr (map f (n # ns), R2))"
    using sp R1(1) R2(1) by (simp add: h(1) Let_def)
  moreover have "reads f N W R R2 r" unfolding W(1) using reads_append [OF R1(2) R2(2)] nodes_cons.prems(3) W(1) by blast
  ultimately show ?case by blast
qed

text \<open>A section of the file, its head read.\<close>

lemma word_at_head: "ends (t @ r) \<Longrightarrow> t @ r \<noteq> [] \<Longrightarrow> hd (t @ r) \<noteq> CHR '';'' \<Longrightarrow> hd (t @ r) \<noteq> CHR ''('' \<Longrightarrow> word_at w (w @ t @ r)"
  by (cases "t @ r") (auto simp: word_at_def ends_def is_space_def is_delim_def)

lemma nodes_hd: "nodes_spelled N ns t \<Longrightarrow> hd (t @ CHR '')'' # r) \<noteq> CHR '';'' \<and> hd (t @ CHR '')'' # r) \<noteq> CHR ''(''"
proof (erule nodes_spelled.cases)
  fix g n s ns' t' assume "t = g @ s @ t'" "is_gap g" "g \<noteq> []"
  then obtain c g' where "t = c # g' @ s @ t'" "c = newline \<or> is_blank c" by (cases g) (auto simp: is_gap_def)
  then show ?thesis by (auto simp: is_blank_def)
qed simp

lemma read_section_file:
  assumes head: "head = ''types'' \<or> head = ''externs''"
    and t: "nodes_spelled N ns t" "forest N ns W" "gr_text R = g @ ''('' @ head @ t @ CHR '')'' # r" "is_gap g"
    and names: "map f W = [gr_next R..<gr_next R + length W]" and fuel: "2 * length t + 2 + k \<le> fuel"
  shows "\<exists>R' fuel'. gfile_read fuel F R = gfile_read fuel' (if head = ''types'' then F\<lparr>gf_types := gf_types F @ map f ns\<rparr>
      else F\<lparr>gf_externs := gf_externs F @ map f ns\<rparr>) R' \<and> reads f N W R R' r \<and> k \<le> fuel'"
proof -
  obtain h where h: "fuel = Suc h" "2 * length t < h" "k \<le> h" using fuel by (cases fuel) auto
  let ?s = "head @ t @ CHR '')'' # r"
  from gspace_gap_stop [of R g "CHR ''(''" ?s] t(3,4) obtain ln where sp: "gspace R = R\<lparr>gr_line := ln, gr_text := CHR ''('' # ?s\<rparr>" by auto
  have w: "word_at head ?s"
    by (rule word_at_head) (use nodes_ends [OF t(1)] nodes_hd [OF t(1)] in simp_all)
  have other: "\<not> word_at ''ids'' ?s" "head = ''types'' \<Longrightarrow> \<not> word_at ''externs'' ?s"
    using head by (auto simp: word_at_def has_prefix_def)
  let ?R = "R\<lparr>gr_line := ln, gr_text := t @ CHR '')'' # r\<rparr>"
  obtain R' where R': "gsection_read h head ?R = Some (Inr (map f ns, R'))" "reads f N W R R' r"
    using read_section [OF t(1,2), of ?R r f h head] names h(2) by auto
  have "gfile_read fuel F R = gfile_read h (if head = ''types'' then F\<lparr>gf_types := gf_types F @ map f ns\<rparr>
      else F\<lparr>gf_externs := gf_externs F @ map f ns\<rparr>) R'"
  proof (cases "head = ''types''")
    case True
    with sp w other R'(1) show ?thesis by (simp add: h(1) Let_def)
  next
    case False
    with head have e: "head = ''externs''" by simp
    with sp w other R'(1) show ?thesis by (simp add: h(1) Let_def)
  qed
  with R'(2) h(3) show ?thesis by blast
qed

lemma read_ids_file:
  assumes "gr_text R = g @ ''(ids '' @ of_id i @ '')'' @ [newline]" "is_gap g" "i \<noteq> 0" "2 \<le> fuel"
  shows "\<exists>R' F'. gfile_read fuel F R = Some (Inr (F\<lparr>gf_last := i\<rparr>, R')) \<and> reads f N [] R R' []"
proof -
  obtain h where h: "fuel = Suc (Suc h)" using assms(4) by (metis Suc_le_D numeral_2_eq_2 Suc_le_mono)
  let ?s = "''ids '' @ of_id i @ '')'' @ [newline]"
  from gspace_gap_stop [of R g "CHR ''(''" ?s] assms(1,2) obtain ln where sp: "gspace R = R\<lparr>gr_line := ln, gr_text := CHR ''('' # ?s\<rparr>" by auto
  have w: "word_at ''ids'' ?s" by (simp add: word_at_def has_prefix_def is_space_def is_blank_def)
  obtain c u where c: "of_id i = c # u" "is_digit c" using of_id_head by blast
  have cd: "\<not> is_delim c" using c(2) by (auto simp: is_digit_def is_delim_def is_blank_def)
  let ?R = "R\<lparr>gr_line := ln, gr_text := '' '' @ of_id i @ '')'' @ [newline]\<rparr>"
  have "is_gap '' ''" by (simp add: is_gap_def is_blank_def)
  from gspace_gap_stop [of ?R "'' ''" c "u @ '')'' @ [newline]", OF _ this] c(1) cd obtain ln1 where
    sp1: "gspace ?R = R\<lparr>gr_line := ln1, gr_text := of_id i @ '')'' @ [newline]\<rparr>" by auto
  have n: "gnumber ln1 (of_id i @ '')'' @ [newline]) = Inr (i, '')'' @ [newline])"
    by (rule gnumber_of_id [OF assms(3)]) (simp add: no_digit_def is_digit_def)
  let ?R1 = "R\<lparr>gr_line := ln1, gr_text := '')'' @ [newline]\<rparr>"
  have sp2: "gspace ?R1 = ?R1" by (rule gspace_stop [of _ "CHR '')''" "[newline]"]) simp_all
  have ids: "gids_read ?R = Inr (i, R\<lparr>gr_line := ln1, gr_text := [newline]\<rparr>)"
    unfolding gids_read_def sp1 Let_def using n sp2 by simp
  have "gspace (R\<lparr>gr_line := ln1, gr_text := [newline]\<rparr>) = R\<lparr>gr_line := Suc ln1, gr_text := []\<rparr>"
    by (simp add: gspace_def space.simps(2) greader_swap)
  then have "gfile_read fuel F R = Some (Inr (F\<lparr>gf_last := i\<rparr>, R\<lparr>gr_line := Suc ln1, gr_text := []\<rparr>))"
    using sp w ids by (simp add: h Let_def)
  then show ?thesis by (auto simp: reads_def max_of_def)
qed

subsection \<open>Targets\<close>

lemma by_ids_ok:
  "distinct (map (\<lambda>n. gid (N n)) ns) \<Longrightarrow> (\<And>n. n \<in> set ns \<Longrightarrow> gid (N n) < b \<and> m (gid (N n)) = None) \<Longrightarrow>
     \<exists>m'. by_ids N b ns m = Inr m' \<and> (\<forall>n \<in> set ns. m' (gid (N n)) = Some n) \<and> (\<forall>i. i \<notin> (\<lambda>n. gid (N n)) ` set ns \<longrightarrow> m' i = m i)"
proof (induction ns arbitrary: m)
  case (Cons n ns)
  have fresh: "gid (N k) < b \<and> (m(gid (N n) := Some n)) (gid (N k)) = None" if "k \<in> set ns" for k
    using Cons.prems that by (auto simp: image_iff)
  have d: "distinct (map (\<lambda>n. gid (N n)) ns)" using Cons.prems(1) by simp
  have "\<exists>m'. by_ids N b ns (m(gid (N n) := Some n)) = Inr m' \<and> (\<forall>k \<in> set ns. m' (gid (N k)) = Some k) \<and>
      (\<forall>i. i \<notin> (\<lambda>n. gid (N n)) ` set ns \<longrightarrow> m' i = (m(gid (N n) := Some n)) i)"
    by (rule Cons.IH [OF d]) (rule fresh)
  then obtain m' where m': "by_ids N b ns (m(gid (N n) := Some n)) = Inr m'"
      "\<forall>k \<in> set ns. m' (gid (N k)) = Some k" "\<forall>i. i \<notin> (\<lambda>n. gid (N n)) ` set ns \<longrightarrow> m' i = (m(gid (N n) := Some n)) i"
    by (elim exE conjE) (rule that)
  have n: "\<not> b \<le> gid (N n)" "m (gid (N n)) = None" using Cons.prems(2) [of n] by auto
  have "m' (gid (N n)) = Some n" using m'(3) Cons.prems(1) by simp
  with m' n show ?case by (intro exI [of _ m']) auto
qed simp

text \<open>The nodes with the edges' targets, when each slot has one.\<close>

definition filled :: "(slot \<Rightarrow> nat) \<Rightarrow> slot set \<Rightarrow> gstore \<Rightarrow> gstore" where
  "filled v S N n = (N n)\<lparr>gtype := (if TypeOf n \<in> S then Some (v (TypeOf n)) else gtype (N n)),
     grefs := map (\<lambda>j. if RefOf n j \<in> S then v (RefOf n j) else grefs (N n) ! j) [0..<length (grefs (N n))]\<rparr>"

lemma fill_all_ok:
  "\<forall>(s, i) \<in> slots_of es. m i = Some (v s) \<Longrightarrow> fill_all m es N = Inr (filled v (fst ` slots_of es) N)"
proof (induction es arbitrary: N)
  case Nil
  have "filled v {} N = N" by (rule ext) (simp add: filled_def map_nth)
  then show ?case by (simp add: slots_of_def)
next
  case (Cons e es)
  obtain s i ln where e: "e = (s, i, ln)" by (cases e)
  have S: "slots_of (e # es) = insert (s, i) (slots_of es)" by (simp add: e slots_of_def)
  have m: "m i = Some (v s)" using Cons.prems S by auto
  have ih: "fill_all m es (fill s (v s) N) = Inr (filled v (fst ` slots_of es) (fill s (v s) N))"
    by (rule Cons.IH) (use Cons.prems S in auto)
  have "filled v (fst ` slots_of es) (fill s (v s) N) = filled v (fst ` slots_of (e # es)) N"
  proof (rule ext)
    fix n
    show "filled v (fst ` slots_of es) (fill s (v s) N) n = filled v (fst ` slots_of (e # es)) N n"
      unfolding S by (cases s) (auto simp: filled_def nth_list_update)
  qed
  with ih m show ?case by (simp add: e)
qed

subsection \<open>The round trip\<close>

text \<open>The names the reader gives: the nodes in the order of the walk, from the first free name on.\<close>

definition rank :: "nat list \<Rightarrow> nat \<Rightarrow> nat" where
  "rank xs x = 3 + length (takeWhile (\<lambda>y. y \<noteq> x) xs)"

lemma rank_map: "distinct xs \<Longrightarrow> map (rank xs) xs = [3..<3 + length xs]"
proof -
  assume d: "distinct xs"
  have "takeWhile (\<lambda>y. y \<noteq> xs ! i) xs = take i xs" if "i < length xs" for i
    by (rule takeWhile_eq_take_P_nth) (use that d in \<open>auto simp: nth_eq_iff_index_eq\<close>)
  then show ?thesis by (intro nth_equalityI) (simp_all add: rank_def)
qed

definition renamed :: "(nat \<Rightarrow> nat) \<Rightarrow> gnode \<Rightarrow> gnode" where
  "renamed f k = k\<lparr>gkids := map f (gkids k), grefs := map f (grefs k), gtype := map_option f (gtype k), gup := None\<rparr>"

text \<open>
  A graph that can be written: its nodes are held once, its lists are named, its atoms are tokens,
  and its edges end at named nodes of its own; ids are distinct and at most the last given. The
  reader's room for the nodes by id wants one more than the last.
\<close>

definition written :: "graph \<Rightarrow> nat list \<Rightarrow> bool" where
  "written G xs \<longleftrightarrow>
     forest (gnodes G) (Sections G) xs \<and> distinct xs \<and> set xs \<subseteq> {..<gnext G} \<and>
     (\<forall>x \<in> set xs. writable (gnodes G x) \<and> marks_ok (gnodes G) (gnodes G x) \<and>
        set (grefs (gnodes G x)) \<subseteq> set xs \<and> (\<forall>t. gtype (gnodes G x) = Some t \<longrightarrow> t \<in> set xs) \<and> gid (gnodes G x) \<le> glast G) \<and>
     (\<forall>x \<in> set xs. \<forall>y \<in> set xs. gid (gnodes G x) = gid (gnodes G y) \<longrightarrow> gid (gnodes G x) \<noteq> 0 \<longrightarrow> x = y) \<and> glast G \<noteq> 0"

definition printable :: "graph \<Rightarrow> nat list \<Rightarrow> bool" where
  "printable G xs \<longleftrightarrow> written G xs \<and> glast G + 1 \<noteq> 0"

lemma max_of_bounds: "m \<le> max_of N xs m \<and> (\<forall>x \<in> set xs. gid (N x) \<le> max_of N xs m) \<and> ((\<forall>x \<in> set xs. gid (N x) \<le> b) \<longrightarrow> m \<le> b \<longrightarrow> max_of N xs m \<le> b)"
proof (induction xs arbitrary: m)
  case (Cons x xs)
  from Cons.IH [of "max (gid (N x)) m"] show ?case unfolding max_of_def by (auto simp: max_def split: if_splits)
qed (simp add: max_of_def)

lemma is_gap_Nil [simp]: "is_gap []"
  by (simp add: is_gap_def)

lemma gspace_heading: "gr_text R = heading @ s \<Longrightarrow> gspace R = gspace (R\<lparr>gr_text := s, gr_line := Suc (gr_line R)\<rparr>)"
  by (simp add: gspace_def heading_def space.simps(2) is_blank_def)

lemma written_walk: "written G xs \<Longrightarrow> n \<in> set (Sections G) \<Longrightarrow> walk_nodes (gnext G + 1) (gnodes G) n \<noteq> None"
proof -
  assume p: "written G xs" and n: "n \<in> set (Sections G)"
  have f: "forest (gnodes G) (Sections G) xs" "distinct xs" "set xs \<subseteq> {..<gnext G}" using p by (simp_all add: written_def)
  have "length xs \<le> gnext G" using card_mono [OF _ f(3)] f(2) by (simp add: distinct_card)
  then have "walk_list (gnext G + 1) (gnodes G) (Sections G) = Some xs" by (intro walk_forest [OF f(1)]) simp
  then have "those (map (walk_nodes (gnext G + 1) (gnodes G)) (Sections G)) \<noteq> None" unfolding walk_list_def by auto
  then have "None \<notin> set (map (walk_nodes (gnext G + 1) (gnodes G)) (Sections G))" unfolding those_None .
  with n show ?thesis by (metis image_eqI list.set_map)
qed

lemma read_whole:
  assumes F: "forms_spelled N fs F" "forest N fs as" and T: "nodes_spelled N ts T" "forest N ts bs"
    and S: "nodes_spelled N es S" "forest N es cs" and names: "map f (as @ bs @ cs) = [3..<3 + length (as @ bs @ cs)]"
    and i: "i \<noteq> 0" and R: "gr_next R = 3"
    and src: "gr_text R = heading @ F @ (newline # ''(types'') @ T @ ('')'' @ [newline]) @ (newline # ''(externs'') @ S @
      ('')'' @ [newline]) @ (newline # ''(ids '' @ of_id i @ '')'' @ [newline])" and fuel: "fuel = 2 * length (gr_text R) + 2"
  shows "\<exists>R'. gfile_read fuel \<lparr>gf_forms = [], gf_types = [], gf_externs = [], gf_last = 0\<rparr> R =
    Some (Inr (\<lparr>gf_forms = map f fs, gf_types = map f ts, gf_externs = map f es, gf_last = i\<rparr>, R')) \<and> reads f N (as @ bs @ cs) R R' []"
proof -
  let ?r3 = "newline # newline # ''(ids '' @ of_id i @ '')'' @ [newline]"
  let ?r2 = "newline # newline # ''(externs'' @ S @ CHR '')'' # ?r3"
  let ?r1 = "newline # ''(types'' @ T @ CHR '')'' # ?r2"
  let ?R0 = "R\<lparr>gr_text := F @ ?r1, gr_line := Suc (gr_line R)\<rparr>"
  let ?F = "\<lparr>gf_forms = [], gf_types = [], gf_externs = [], gf_last = 0\<rparr>"
  have t: "gr_text R = heading @ F @ ?r1" using src by simp
  obtain fu where fu: "fuel = Suc fu" using fuel by simp
  have start: "gfile_read fuel ?F R = gfile_read fuel ?F ?R0" using gspace_heading [OF t] by (simp add: fu)
  have len: "2 * length F + (2 * length T + 2 + (2 * length S + 2 + 2)) \<le> fuel" unfolding fuel t by simp
  note n1 = named_split [OF names]
  note n2 = named_split [OF n1 [THEN conjunct2, unfolded length_append [symmetric]]]
  have p1: "map f as = [gr_next ?R0..<gr_next ?R0 + length as]" using n1 R by simp
  have "gr_text ?R0 = [] @ F @ ?r1" by simp
  from read_forms_file [OF F this is_gap_Nil p1 len, of ?F]
  obtain R1 g fuel1 where R1: "gfile_read fuel ?F ?R0 = gfile_read fuel1 (?F\<lparr>gf_forms := gf_forms ?F @ map f fs\<rparr>) R1" "is_gap g"
      "reads f N as ?R0 R1 (g @ ?r1)" "2 * length T + 2 + (2 * length S + 2 + 2) \<le> fuel1"
    by (elim exE conjE) (rule that)
  have x1: "gr_text R1 = (g @ [newline]) @ ''('' @ ''types'' @ T @ CHR '')'' # ?r2" "gr_next R1 = 3 + length as"
    using R1(3) R by (simp_all add: reads_def)
  have g1: "is_gap (g @ [newline])" using R1(2) by (auto simp: is_gap_def)
  obtain R2 fuel2 where R2: "gfile_read fuel1 (?F\<lparr>gf_forms := gf_forms ?F @ map f fs\<rparr>) R1 =
      gfile_read fuel2 \<lparr>gf_forms = map f fs, gf_types = map f ts, gf_externs = [], gf_last = 0\<rparr> R2" "reads f N bs R1 R2 ?r2" "2 * length S + 2 + 2 \<le> fuel2"
    using read_section_file [of "''types''", OF _ T x1(1) g1 _ R1(4), of f "?F\<lparr>gf_forms := gf_forms ?F @ map f fs\<rparr>"] n2 x1(2) by auto
  have x2: "gr_text R2 = [newline, newline] @ ''('' @ ''externs'' @ S @ CHR '')'' # ?r3" "gr_next R2 = 3 + length as + length bs"
    using R2(2) x1(2) by (simp_all add: reads_def)
  have g2: "is_gap [newline, newline]" by (simp add: is_gap_def)
  obtain R3 fuel3 where R3: "gfile_read fuel2 \<lparr>gf_forms = map f fs, gf_types = map f ts, gf_externs = [], gf_last = 0\<rparr> R2 =
      gfile_read fuel3 \<lparr>gf_forms = map f fs, gf_types = map f ts, gf_externs = map f es, gf_last = 0\<rparr> R3" "reads f N cs R2 R3 ?r3" "2 \<le> fuel3"
    using read_section_file [of "''externs''", OF _ S x2(1) g2 _ R2(3), of f "\<lparr>gf_forms = map f fs, gf_types = map f ts, gf_externs = [], gf_last = 0\<rparr>"]
      n2 x2(2) by (auto simp: add.assoc)
  have x3: "gr_text R3 = [newline, newline] @ ''(ids '' @ of_id i @ '')'' @ [newline]" using R3(2) by (simp add: reads_def)
  obtain R4 where R4: "gfile_read fuel3 \<lparr>gf_forms = map f fs, gf_types = map f ts, gf_externs = map f es, gf_last = 0\<rparr> R3 =
      Some (Inr (\<lparr>gf_forms = map f fs, gf_types = map f ts, gf_externs = map f es, gf_last = i\<rparr>, R4))" "reads f N [] R3 R4 []"
    using read_ids_file [OF x3 g2 i R3(3), of "\<lparr>gf_forms = map f fs, gf_types = map f ts, gf_externs = map f es, gf_last = 0\<rparr>" f N] by auto
  have "reads f N (bs @ cs) R1 R3 ?r3" by (rule reads_append [OF R2(2) R3(2), of "3 + length as"]) (use n1 in \<open>simp add: add.assoc\<close>)
  then have "reads f N (as @ bs @ cs) ?R0 R3 ?r3" by (rule reads_append [OF R1(3)]) (use names in simp)
  from reads_append [OF this R4(2)] names have "reads f N (as @ bs @ cs) R R4 []" by simp
  with start R1(1) R2(1) R3(1) R4(1) show ?thesis by auto
qed


lemma below_next: "i \<le> m \<Longrightarrow> m \<le> l \<Longrightarrow> l + 1 \<noteq> 0 \<Longrightarrow> i < m + (1 :: id)"
proof -
  assume le: "i \<le> m" "m \<le> l" and l: "l + 1 \<noteq> 0"
  have "m \<noteq> - 1"
  proof
    assume "m = - 1"
    with le(2) have "l = - 1" by (simp add: word_order.extremum_unique)
    with l show False by simp
  qed
  then have "1 + m \<noteq> 0" by (metis add_eq_0_iff)
  from unatSuc [OF this] le(1) have "unat i < unat (1 + m)" by (simp add: word_le_nat_alt)
  then show "i < m + 1" by (simp add: word_less_nat_alt add.commute)
qed

text \<open>What the read makes of nodes named and marked: the nodes by their ids, and the edges' targets.\<close>

lemma targets_found:
  assumes r: "reads f N xs R R' []" and R: "gr_ids R = []" "gr_edges R = []" "gr_max R = 0" and inj: "inj_on f (set xs)" "distinct xs"
    and ids: "\<forall>x \<in> set xs. \<forall>y \<in> set xs. gid (N x) = gid (N y) \<longrightarrow> gid (N x) \<noteq> 0 \<longrightarrow> x = y"
    and last: "\<forall>x \<in> set xs. gid (N x) \<le> l" "l + 1 \<noteq> 0"
    and marks: "\<forall>x \<in> set xs. marks_ok N (N x) \<and> set (grefs (N x)) \<subseteq> set xs \<and> (\<forall>t. gtype (N x) = Some t \<longrightarrow> t \<in> set xs)"
  shows "\<exists>m N'. by_ids (gr_nodes R') (gr_max R' + 1) (gr_ids R') Map.empty = Inr m \<and> fill_all m (gr_edges R') (gr_nodes R') = Inr N' \<and>
    (\<forall>x \<in> set xs. N' (f x) = renamed f (N x)) \<and> gr_max R' \<le> l"
proof -
  let ?ns = "filter (\<lambda>x. gid (N x) \<noteq> 0) xs" and ?g = "the_inv_into (set xs) f"
  have g: "?g (f x) = x" if "x \<in> set xs" for x using inj(1) that by (rule the_inv_into_f_f)
  have nodes: "gr_nodes R' (f x) = raw f (N x)" if "x \<in> set xs" for x using r that by (simp add: reads_def)
  have gids: "gid (gr_nodes R' (f x)) = gid (N x)" if "x \<in> set xs" for x using nodes [OF that] by (simp add: raw_def)
  have x: "gr_ids R' = map f ?ns" "gr_max R' = max_of N xs 0" using r R by (simp_all add: reads_def)
  have top: "gr_max R' \<le> l" "\<And>y. y \<in> set xs \<Longrightarrow> gid (N y) \<le> gr_max R'"
    unfolding x(2) using max_of_bounds [of 0 N xs l] last(1) by simp_all
  have "map (\<lambda>n. gid (gr_nodes R' n)) (map f ?ns) = map (\<lambda>x. gid (N x)) ?ns" by (auto simp: gids)
  moreover have "distinct (map (\<lambda>x. gid (N x)) ?ns)" using inj(2) ids by (auto simp: distinct_map inj_on_def)
  ultimately have d: "distinct (map (\<lambda>n. gid (gr_nodes R' n)) (gr_ids R'))" unfolding x(1) by (simp only:)
  have b: "gid (gr_nodes R' n) < gr_max R' + 1 \<and> Map.empty (gid (gr_nodes R' n)) = None" if "n \<in> set (gr_ids R')" for n
  proof -
    from that obtain y where "y \<in> set xs" "n = f y" by (auto simp: x(1))
    with top below_next [OF _ top(1) last(2)] show ?thesis by (simp add: gids)
  qed
  have "\<exists>m. by_ids (gr_nodes R') (gr_max R' + 1) (gr_ids R') Map.empty = Inr m \<and> (\<forall>n \<in> set (gr_ids R'). m (gid (gr_nodes R' n)) = Some n) \<and>
      (\<forall>i. i \<notin> (\<lambda>n. gid (gr_nodes R' n)) ` set (gr_ids R') \<longrightarrow> m i = None)"
    by (rule by_ids_ok [OF d]) (rule b)
  then obtain m where m: "by_ids (gr_nodes R') (gr_max R' + 1) (gr_ids R') Map.empty = Inr m"
      "\<forall>n \<in> set (gr_ids R'). m (gid (gr_nodes R' n)) = Some n" by (elim exE conjE) (rule that)
  have found: "m (gid (N y)) = Some (f y)" if y: "y \<in> set xs" "gid (N y) \<noteq> 0" for y
  proof -
    have "f y \<in> set (gr_ids R')" using y by (simp add: x(1))
    with m(2) have "m (gid (gr_nodes R' (f y))) = Some (f y)" by (rule bspec)
    then show ?thesis by (simp only: gids [OF y(1)])
  qed
  define v where "v s = (case s of TypeOf k \<Rightarrow> f (the (gtype (N (?g k)))) | RefOf k j \<Rightarrow> f (grefs (N (?g k)) ! j))" for s
  have S: "slots_of (gr_edges R') = (\<Union>x \<in> set xs. node_slots f N x)" using r R by (simp add: reads_def slots_of_def)
  have "m i = Some (v s)" if si: "(s, i) \<in> slots_of (gr_edges R')" for s i
  proof -
    obtain x where x: "x \<in> set xs" "(s, i) \<in> node_slots f N x" using si unfolding S by blast
    consider j where "s = RefOf (f x) j" "i = gid (N (grefs (N x) ! j))" "j < length (grefs (N x))"
      | t where "s = TypeOf (f x)" "i = gid (N t)" "gtype (N x) = Some t"
      using x(2) by (auto simp: node_slots_def)
    then show ?thesis
    proof cases
      case 1
      then have r: "grefs (N x) ! j \<in> set (grefs (N x))" by simp
      have "set (grefs (N x)) \<subseteq> set xs" "marks_ok N (N x)" using marks x(1) by blast+
      with r have "grefs (N x) ! j \<in> set xs" "gid (N (grefs (N x) ! j)) \<noteq> 0" unfolding marks_ok_def by blast+
      with found 1 x(1) show ?thesis by (simp add: v_def g)
    next
      case 2
      then have "t \<in> set xs" "i \<noteq> 0" using marks x(1) by (auto simp: marks_ok_def)
      with found 2 x(1) show ?thesis by (simp add: v_def g)
    qed
  qed
  then have "\<forall>(s, i) \<in> slots_of (gr_edges R'). m i = Some (v s)" by blast
  from fill_all_ok [OF this] have fill: "fill_all m (gr_edges R') (gr_nodes R') = Inr (filled v (fst ` slots_of (gr_edges R')) (gr_nodes R'))" .
  have "filled v (fst ` slots_of (gr_edges R')) (gr_nodes R') (f x) = renamed f (N x)" if x: "x \<in> set xs" for x
  proof -
    have ref: "RefOf (f x) j \<in> fst ` slots_of (gr_edges R')" if "j < length (grefs (N x))" for j
      unfolding S node_slots_def using x that by force
    have ty: "TypeOf (f x) \<in> fst ` slots_of (gr_edges R') \<longleftrightarrow> gtype (N x) \<noteq> None"
      unfolding S node_slots_def using x inj(1) by (force simp: inj_on_def)
    have refs: "map (\<lambda>j. if RefOf (f x) j \<in> fst ` slots_of (gr_edges R') then v (RefOf (f x) j) else grefs (raw f (N x)) ! j)
        [0..<length (grefs (N x))] = map f (grefs (N x))"
      by (rule nth_equalityI) (simp_all add: ref v_def g [OF x])
    show ?thesis
    proof (rule gnode.equality)
      show "gtype (filled v (fst ` slots_of (gr_edges R')) (gr_nodes R') (f x)) = gtype (renamed f (N x))"
        using ty unfolding filled_def nodes [OF x] by (cases "gtype (N x)") (simp_all add: raw_def renamed_def v_def g [OF x])
      show "grefs (filled v (fst ` slots_of (gr_edges R')) (gr_nodes R') (f x)) = grefs (renamed f (N x))"
        using refs unfolding filled_def nodes [OF x] by (simp add: raw_def renamed_def)
    qed (simp_all add: filled_def nodes [OF x] raw_def renamed_def)
  qed
  with m(1) fill top(1) show ?thesis by blast
qed

lemma writtenD:
  assumes "written G xs"
  shows "forest (gnodes G) (Sections G) xs" "distinct xs" "glast G \<noteq> 0"
    "\<forall>x \<in> set xs. writable (gnodes G x) \<and> marks_ok (gnodes G) (gnodes G x) \<and>
        set (grefs (gnodes G x)) \<subseteq> set xs \<and> (\<forall>t. gtype (gnodes G x) = Some t \<longrightarrow> t \<in> set xs) \<and> gid (gnodes G x) \<le> glast G"
    "\<forall>x \<in> set xs. \<forall>y \<in> set xs. gid (gnodes G x) = gid (gnodes G y) \<longrightarrow> gid (gnodes G x) \<noteq> 0 \<longrightarrow> x = y"
  using assms unfolding written_def by - (elim conjE, assumption)+

text \<open>The text of a written graph, and what the reader has when it has read it all.\<close>

definition fresh_reader :: "bytes \<Rightarrow> greader" where
  "fresh_reader s = \<lparr>gr_text = s, gr_line = 1, gr_nodes = (\<lambda>_. blank_node), gr_next = 3, gr_ids = [], gr_edges = [], gr_max = 0\<rparr>"

lemma read_written:
  assumes w: "written G xs"
  shows "\<exists>s R'. Lisp G = Some s \<and> gfile_read (2 * length s + 2) \<lparr>gf_forms = [], gf_types = [], gf_externs = [], gf_last = 0\<rparr> (fresh_reader s) =
      Some (Inr (\<lparr>gf_forms = map (rank xs) (gforms G), gf_types = map (rank xs) (gtypes G), gf_externs = map (rank xs) (gexterns G),
        gf_last = glast G\<rparr>, R')) \<and> reads (rank xs) (gnodes G) xs (fresh_reader s) R' []"
proof -
  let ?N = "gnodes G" and ?f = "rank xs"
  note p = writtenD [OF w]
  have cl: "closed ?N (set xs)" unfolding closed_def using p(4) forest_kids [OF p(1)] by blast
  have walks: "\<forall>n \<in> set (Sections G). walk_nodes (gnext G + 1) ?N n \<noteq> None" using written_walk [OF w] by blast
  obtain F T S where s: "Lisp G = Some (heading @ F @ (newline # ''(types'') @ T @ ('')'' @ [newline]) @ (newline # ''(externs'') @ S @
      ('')'' @ [newline]) @ (newline # ''(ids '' @ of_id (glast G) @ '')'' @ [newline]))" (is "_ = Some ?s")
    "forms_spelled ?N (gforms G) F" "nodes_spelled ?N (gtypes G) T" "nodes_spelled ?N (gexterns G) S"
    using Lisp_text [OF cl forest_tops [OF p(1)] walks] by (elim exE conjE) (rule that)
  obtain as bs cs where W: "xs = as @ bs @ cs" "forest ?N (gforms G) as" "forest ?N (gtypes G) bs" "forest ?N (gexterns G) cs"
    using p(1) unfolding Sections_def forest_append by blast
  have names: "map ?f (as @ bs @ cs) = [3..<3 + length (as @ bs @ cs)]" using rank_map [OF p(2)] by (simp only: W(1))
  have R: "gr_next (fresh_reader ?s) = 3" "gr_text (fresh_reader ?s) = ?s" by (simp_all add: fresh_reader_def)
  have "2 * length ?s + 2 = 2 * length (gr_text (fresh_reader ?s)) + 2" by (simp only: R(2))
  from read_whole [OF s(2) W(2) s(3) W(3) s(4) W(4) names p(3) R this] s(1)
  show ?thesis unfolding W(1) [symmetric] by blast
qed

lemma reads_fresh: "gr_ids (fresh_reader s) = []" "gr_edges (fresh_reader s) = []" "gr_max (fresh_reader s) = 0"
  by (simp_all add: fresh_reader_def)

text \<open>
  C32. Writing a graph and reading it back gives the same graph.  Of a graph that can be printed --
  each node in it once, its atoms tokens (one without an id does not start with #, and is empty only
  where an edge starts from it), its edges to nodes of the graph, an id for each list and for each
  edge's target, all different and none past the last given, which is neither 0 nor the greatest of
  32 bits -- \<open>Read\<close> accepts what \<open>Lisp\<close> writes,
  whatever lines the layout breaks, and makes as many nodes as were written; each holds the id,
  the atom, the kids, the typed edge and the refers edges of the node it was written from, its
  neighbours under their own new names, the sections list the same nodes in the same order, and
  the last id given is kept.
\<close>

theorem Lisp_roundtrip:
  assumes "printable G xs"
  shows "\<exists>s G'. Lisp G = Some s \<and> gRead s = Some (Inr G') \<and> gforms G' = map (rank xs) (gforms G) \<and>
    gtypes G' = map (rank xs) (gtypes G) \<and> gexterns G' = map (rank xs) (gexterns G) \<and> glast G' = glast G \<and>
    gnext G' = 3 + length xs \<and> (\<forall>x \<in> set xs. gnodes G' (rank xs x) = renamed (rank xs) (gnodes G x))"
proof -
  let ?N = "gnodes G" and ?f = "rank xs"
  have w: "written G xs" "glast G + 1 \<noteq> 0" using assms by (simp_all add: printable_def)
  note p = writtenD [OF w(1)]
  obtain s R' where s: "Lisp G = Some s" and whole: "gfile_read (2 * length s + 2) \<lparr>gf_forms = [], gf_types = [], gf_externs = [], gf_last = 0\<rparr>
      (fresh_reader s) = Some (Inr (\<lparr>gf_forms = map ?f (gforms G), gf_types = map ?f (gtypes G), gf_externs = map ?f (gexterns G),
        gf_last = glast G\<rparr>, R'))" and R': "reads ?f ?N xs (fresh_reader s) R' []"
    using read_written [OF w(1)] by (elim exE conjE) (rule that)
  have inj: "inj_on ?f (set xs)" using rank_map [OF p(2)] distinct_upt [of 3 "3 + length xs"] by (metis distinct_map)
  have last: "\<forall>x \<in> set xs. gid (?N x) \<le> glast G" using p(4) by blast
  have marks: "\<forall>x \<in> set xs. marks_ok ?N (?N x) \<and> set (grefs (?N x)) \<subseteq> set xs \<and> (\<forall>t. gtype (?N x) = Some t \<longrightarrow> t \<in> set xs)"
    using p(4) by blast
  obtain m N' where t: "by_ids (gr_nodes R') (gr_max R' + 1) (gr_ids R') Map.empty = Inr m" "fill_all m (gr_edges R') (gr_nodes R') = Inr N'"
      "\<forall>x \<in> set xs. N' (?f x) = renamed ?f (?N x)" "gr_max R' \<le> glast G"
    using targets_found [OF R' reads_fresh inj p(2,5) last w(2) marks] by (elim exE conjE) (rule that)
  let ?G0 = "\<lparr>gnodes = N', gnext = gr_next R', gforms = map ?f (gforms G), gtypes = map ?f (gtypes G), gexterns = map ?f (gexterns G),
    glast = 0, journals = (\<lambda>_. no_journal), jnext = 0, recording = None\<rparr>"
  let ?G = "SawId (glast G) (SawId (gr_max R') ?G0)"
  have read: "gRead s = Some (Inr ?G)"
    unfolding gRead_def fresh_reader_def [symmetric] whole by (simp add: t(1,2))
  have saw: "gnodes ?G = N'" "gnext ?G = gr_next R'" "gforms ?G = map ?f (gforms G)" "gtypes ?G = map ?f (gtypes G)"
      "gexterns ?G = map ?f (gexterns G)" "glast ?G = glast G"
    using t(4) p(3) by (auto simp: SawId_def word_neq_0_conv)
  have "gr_next R' = 3 + length xs" using R' by (simp add: reads_def fresh_reader_def)
  then show ?thesis using s read t(3) saw by (intro exI [of _ s] exI [of _ ?G]) (simp only: HOL.simp_thms)
qed

text \<open>
  C33. A graph whose last id is the greatest of 32 bits, and held by a node, is written as any other
  is; reading what was written panics: the reader makes room for one more than the greatest id,
  which is none of 32 bits, and the first node it puts there is out of range.
\<close>

theorem Lisp_last_id:
  assumes "written G xs" "glast G + 1 = 0" "x \<in> set xs" "gid (gnodes G x) = glast G"
  shows "\<exists>s. Lisp G = Some s \<and> gRead s = Some (Inl GPanicked)"
proof -
  note p = writtenD [OF assms(1)]
  obtain s R' F where s: "Lisp G = Some s" and whole: "gfile_read (2 * length s + 2) \<lparr>gf_forms = [], gf_types = [], gf_externs = [], gf_last = 0\<rparr>
      (fresh_reader s) = Some (Inr (F, R'))" and R': "reads (rank xs) (gnodes G) xs (fresh_reader s) R' []"
    using read_written [OF assms(1)] by (elim exE conjE) (rule that)
  have top: "gr_max R' = max_of (gnodes G) xs 0" using R' by (simp add: reads_def reads_fresh)
  have "\<forall>x \<in> set xs. gid (gnodes G x) \<le> glast G" using p(4) by blast
  then have "gr_max R' = glast G"
    unfolding top using max_of_bounds [of 0 "gnodes G" xs "glast G"] assms(3,4) by (metis order.antisym word_zero_le)
  then have "gr_max R' + 1 = 0" using assms(2) by simp
  moreover have "gr_ids R' \<noteq> []" 
  proof -
    have "x \<in> set (filter (\<lambda>x. gid (gnodes G x) \<noteq> 0) xs)" using assms(3,4) p(3) by simp
    then show ?thesis using R' by (auto simp: reads_def reads_fresh simp del: set_filter)
  qed
  then obtain n ns where "gr_ids R' = n # ns" by (cases "gr_ids R'") auto
  ultimately have "by_ids (gr_nodes R') (gr_max R' + 1) (gr_ids R') Map.empty = Inl GPanicked" by simp
  then have "gRead s = Some (Inl GPanicked)" unfolding gRead_def fresh_reader_def [symmetric] whole by simp
  with s show ?thesis by blast
qed

text \<open>
  C34. A graph with no forms, and so no id given, is written with \<open>0\<close> for its last id; what was
  written is refused, for the reader takes no \<open>0\<close> for an id.
\<close>

theorem Lisp_of_nothing:
  assumes "Sections G = []" "glast G = 0"
  shows "\<exists>s. Lisp G = Some s \<and> gRead s = Some (Inl (GIdExpected 7))"
proof -
  let ?s = "heading @ (newline # ''(types)'') @ [newline] @ (newline # ''(externs)'') @ [newline] @ (newline # ''(ids 0)'') @ [newline]"
  have of_nothing: "of_id 0 = ''0''" by code_simp
  have "gforms G = []" "gtypes G = []" "gexterns G = []" using assms(1) by (simp_all add: Sections_def)
  then have "Lisp G = Some ?s"
    using assms(2) by (simp add: Lisp_def LispUnits_def section_units_def Let_def cut_def emit_def of_nothing)
  moreover have "case gRead ?s of Some (Inl e) \<Rightarrow> e = GIdExpected 7 | _ \<Rightarrow> False" by code_simp
  then have "gRead ?s = Some (Inl (GIdExpected 7))" by (auto split: option.splits sum.splits)
  ultimately show ?thesis by blast
qed

subsection \<open>Graphs to write\<close>

text \<open>A form of two atoms, the second an edge to the first and the first typed; and the greatest id.\<close>

definition small_node :: "nat \<Rightarrow> gnode" where
  "small_node n =
     (if n = 3 then \<lparr>gid = 1, gatom = [], gkids = [4, 5], grefs = [], gtype = None, glist = True, gup = None\<rparr>
      else if n = 4 then \<lparr>gid = 2, gatom = ''x'', gkids = [], grefs = [], gtype = Some 6, glist = False, gup = None\<rparr>
      else if n = 5 then \<lparr>gid = 0, gatom = ''y'', gkids = [], grefs = [4], gtype = None, glist = False, gup = None\<rparr>
      else \<lparr>gid = (if n = 6 then 3 else if n = 7 then - 1 else 0), gatom = [], gkids = [], grefs = [], gtype = None, glist = True, gup = None\<rparr>)"

definition small_graph :: "nat list \<Rightarrow> nat list \<Rightarrow> id \<Rightarrow> graph" where
  "small_graph fs ts i = \<lparr>gnodes = small_node, gnext = 8, gforms = fs, gtypes = ts, gexterns = [], glast = i,
     journals = (\<lambda>_. no_journal), jnext = 0, recording = None\<rparr>"

lemma small_printable: "printable (small_graph [3] [6] 3) [3, 4, 5, 6]"
proof -
  have "forest (gnodes (small_graph [3] [6] 3)) (Sections (small_graph [3] [6] 3)) [3, 4, 5, 6]"
    by (rule walked_forest [of 9]) code_simp
  moreover have "\<forall>x \<in> set [3, 4, 5, 6]. writable (small_node x) \<and> (\<forall>r \<in> set (grefs (small_node x)). gid (small_node r) \<noteq> 0)" by code_simp
  ultimately show ?thesis
    by (simp add: printable_def written_def small_graph_def marks_ok_def) (simp add: small_node_def)
qed

lemma small_written: "written (small_graph [7] [] (- 1)) [7]"
proof -
  have "forest (gnodes (small_graph [7] [] (- 1))) (Sections (small_graph [7] [] (- 1))) [7]"
    by (rule walked_forest [of 9]) code_simp
  then show ?thesis by (simp add: written_def small_graph_def marks_ok_def small_node_def writable_def)
qed

theorem Lisp_roundtrip_witness:
  "\<exists>s G'. Lisp (small_graph [3] [6] 3) = Some s \<and> gRead s = Some (Inr G') \<and> gforms G' = [3] \<and> gtypes G' = [6] \<and>
     gatom (gnodes G' 5) = ''y'' \<and> grefs (gnodes G' 5) = [4] \<and> gtype (gnodes G' 4) = Some 6"
  using Lisp_roundtrip [OF small_printable] by (force simp: small_graph_def small_node_def rank_def renamed_def)

theorem Lisp_last_id_witness:
  "\<exists>s. Lisp (small_graph [7] [] (- 1)) = Some s \<and> gRead s = Some (Inl GPanicked)"
  by (rule Lisp_last_id [OF small_written, of 7]) (simp_all add: small_graph_def small_node_def)

theorem Lisp_of_nothing_witness:
  "\<exists>s. Lisp (small_graph [] [] 0) = Some s \<and> gRead s = Some (Inl (GIdExpected 7))"
  by (rule Lisp_of_nothing) (simp_all add: small_graph_def Sections_def)

end
