(* ===== verification/VmmSmp.thy ===== *)
theory VmmSmp
  imports Prelude
begin

text \<open>
  A Go guest on several vCPUs, vmm/smp.go and vmm/park_linux.go: the count of vCPUs running the
  guest, the parks with their wake tokens, the lock of the Host, the start of the other vCPUs.
  Each vCPU's thread is a phase, what it does next; an action is one thread's passage from a
  phase to the next, whole where the code holds \<open>smp\<close>'s mutex or makes one atomic operation, and
  the clock's.  The acts of different threads come in any order.
\<close>

subsection \<open>The machine\<close>

datatype parkState = notParked | parkedLimited | parkedUntilWoken

text \<open>
  A thread waits to be started, is started and counted, runs the guest, is in \<open>CPUStart\<close> of another
  with its claim made, in \<open>wakeParked\<close> with some to wake, waits for the Host, is in it, has left
  it; in \<open>parkFor\<close> it is at the loop's top, waits (whether limited, and until when), is back from
  the wait (whether woken, whether limited), asks whether anything runs, leaves; or has stopped.
\<close>

datatype phase =
    ToStart | Started | InGuest | Claimed nat | Waking "nat list" | HostWait | InHost | HostDone
  | ParkTop | ParkWait bool "int option" | ParkBack bool bool | ParkAsk | ParkLeave | Stopped

record vcpu =
  v_phase :: phase
  v_state :: parkState
  v_word :: bool
  v_deadline :: "int option"
  v_limit :: "int option"
  v_started :: bool

text \<open>The machine: its vCPUs, the count and the limit of \<open>smp\<close>, the clock, the Host's lock, \<open>quit\<close>.\<close>

record smp_machine =
  m_count :: nat
  m_cpu :: "nat \<Rightarrow> vcpu"
  m_running :: int
  m_limit :: int
  m_now :: int
  m_host :: "nat option"
  m_quit :: bool

definition at_cpu :: "nat \<Rightarrow> (vcpu \<Rightarrow> vcpu) \<Rightarrow> smp_machine \<Rightarrow> smp_machine" where
  "at_cpu c f M = M\<lparr>m_cpu := (m_cpu M)(c := f (m_cpu M c))\<rparr>"

abbreviation phase_of :: "smp_machine \<Rightarrow> nat \<Rightarrow> phase" where
  "phase_of M c \<equiv> v_phase (m_cpu M c)"

definition goto :: "nat \<Rightarrow> phase \<Rightarrow> smp_machine \<Rightarrow> smp_machine" where
  "goto c p = at_cpu c (\<lambda>k. k\<lparr>v_phase := p\<rparr>)"

definition run_more :: "int \<Rightarrow> smp_machine \<Rightarrow> smp_machine" where
  "run_more d M = M\<lparr>m_running := m_running M + d\<rparr>"

text \<open>The boot vCPU runs the guest; the others wait to be started.\<close>

definition new_cpu :: "phase \<Rightarrow> vcpu" where
  "new_cpu p = \<lparr>v_phase = p, v_state = notParked, v_word = False, v_deadline = None, v_limit = None, v_started = False\<rparr>"

definition boot_machine :: "nat \<Rightarrow> int \<Rightarrow> smp_machine" where
  "boot_machine n l =
     \<lparr>m_count = n, m_cpu = (\<lambda>c. new_cpu (if c = 0 then InGuest else ToStart)), m_running = 1, m_limit = l, m_now = 0,
      m_host = None, m_quit = False\<rparr>"

subsection \<open>Wakes and resumes\<close>

text \<open>The token is set, and kept until a wait takes it.\<close>

definition wake :: "nat \<Rightarrow> smp_machine \<Rightarrow> smp_machine" where
  "wake c = at_cpu c (\<lambda>k. k\<lparr>v_word := True\<rparr>)"

definition woken_with :: "vcpu \<Rightarrow> vcpu" where
  "woken_with k = (if v_state k = parkedUntilWoken then k\<lparr>v_state := parkedLimited, v_word := True\<rparr> else k)"

definition resume :: "nat \<Rightarrow> smp_machine \<Rightarrow> smp_machine" where
  "resume c M =
     (let M1 = run_more 1 (at_cpu c (\<lambda>k. k\<lparr>v_state := notParked\<rparr>) M) in
      if m_running M1 \<noteq> 1 then M1
      else M1\<lparr>m_cpu := (\<lambda>x. if x \<noteq> c \<and> x < m_count M then woken_with (m_cpu M1 x) else m_cpu M1 x)\<rparr>)"

subsection \<open>A park\<close>

definition parkFor :: "nat \<Rightarrow> int \<Rightarrow> smp_machine \<Rightarrow> smp_machine" where
  "parkFor c ns M =
     (let M1 = run_more (- 1) M in
      at_cpu c (\<lambda>k. k\<lparr>v_phase := ParkTop, v_state := (if m_running M1 > 0 then parkedLimited else parkedUntilWoken),
        v_deadline := (if ns \<ge> 0 then Some (m_now M + ns) else None), v_limit := None\<rparr>) M1)"

text \<open>The wait's end: the deadline, or the limit when it is sooner.\<close>

definition sooner :: "int option \<Rightarrow> int \<Rightarrow> int" where
  "sooner d l = (case d of None \<Rightarrow> l | Some t \<Rightarrow> if l < t then l else t)"

definition park_look :: "nat \<Rightarrow> smp_machine \<Rightarrow> smp_machine" where
  "park_look c M =
     at_cpu c (\<lambda>k.
       if v_state k = parkedLimited then
         (let l = (case v_limit k of None \<Rightarrow> m_now M + m_limit M | Some l \<Rightarrow> l) in
          k\<lparr>v_limit := Some l, v_phase := ParkWait True (Some (sooner (v_deadline k) l))\<rparr>)
       else k\<lparr>v_phase := ParkWait False (v_deadline k)\<rparr>) M"

definition wait_taken :: "nat \<Rightarrow> smp_machine \<Rightarrow> smp_machine option" where
  "wait_taken c M =
     (case phase_of M c of
        ParkWait lim until \<Rightarrow>
          if v_word (m_cpu M c) then Some (at_cpu c (\<lambda>k. k\<lparr>v_word := False, v_phase := ParkBack True lim\<rparr>) M) else None
      | _ \<Rightarrow> None)"

definition wait_over :: "nat \<Rightarrow> smp_machine \<Rightarrow> smp_machine option" where
  "wait_over c M =
     (case phase_of M c of
        ParkWait lim (Some t) \<Rightarrow> if t \<le> m_now M then Some (goto c (ParkBack False lim) M) else None
      | _ \<Rightarrow> None)"

definition passed :: "int option \<Rightarrow> int \<Rightarrow> bool" where
  "passed d t = (case d of None \<Rightarrow> False | Some u \<Rightarrow> u \<le> t)"

definition park_back :: "nat \<Rightarrow> bool \<Rightarrow> bool \<Rightarrow> smp_machine \<Rightarrow> smp_machine" where
  "park_back c woken lim M =
     (let k = m_cpu M c in
      goto c (if m_quit M then Stopped else if woken then ParkLeave else if passed (v_deadline k) (m_now M) then ParkLeave
        else if lim \<and> (v_limit k = None \<or> passed (v_limit k) (m_now M)) then ParkAsk else ParkTop) M)"

definition park_ask :: "nat \<Rightarrow> smp_machine \<Rightarrow> smp_machine" where
  "park_ask c M =
     (if m_running M = 0 then at_cpu c (\<lambda>k. k\<lparr>v_state := parkedUntilWoken, v_phase := ParkTop\<rparr>) M else goto c ParkLeave M)"

subsection \<open>The Host's lock\<close>

definition lockHost :: "nat \<Rightarrow> smp_machine \<Rightarrow> smp_machine" where
  "lockHost c M = goto c HostWait (if m_count M > 1 then run_more (- 1) M else M)"

definition take_host :: "nat \<Rightarrow> smp_machine \<Rightarrow> smp_machine option" where
  "take_host c M = (if m_host M = None then Some (goto c InHost (M\<lparr>m_host := Some c\<rparr>)) else None)"

definition give_host :: "nat \<Rightarrow> smp_machine \<Rightarrow> smp_machine" where
  "give_host c M = goto c HostDone (M\<lparr>m_host := None\<rparr>)"

definition unlockHost :: "nat \<Rightarrow> smp_machine \<Rightarrow> smp_machine" where
  "unlockHost c M = goto c InGuest (if m_count M > 1 then resume c M else M)"

subsection \<open>The vCPUs' own calls\<close>

datatype smp_call = CPUSelf | CPUWake int | CPUStart int | CPUPark int

text \<open>The answer when the call has one at once, and the machine after the call's first step.\<close>

definition smpCall :: "nat \<Rightarrow> smp_call \<Rightarrow> smp_machine \<Rightarrow> int option \<times> smp_machine" where
  "smpCall c call M =
     (case call of
        CPUSelf \<Rightarrow> (Some (int c), M)
      | CPUWake a \<Rightarrow>
          if a = - 1 then (None, goto c (Waking (filter (\<lambda>x. x \<noteq> c) [0..<m_count M])) M)
          else if a < 0 \<or> a \<ge> int (m_count M) then (Some (- 1), M)
          else (Some 0, wake (nat a) M)
      | CPUStart a \<Rightarrow>
          if a < 1 \<or> a \<ge> int (m_count M) then (Some (- 1), M)
          else if v_started (m_cpu M (nat a)) then (Some (- 1), M)
          else (None, goto c (Claimed (nat a)) (at_cpu (nat a) (\<lambda>k. k\<lparr>v_started := True\<rparr>) M))
      | CPUPark ns \<Rightarrow> (None, parkFor c ns M))"

definition wake_next :: "nat \<Rightarrow> smp_machine \<Rightarrow> smp_machine option" where
  "wake_next c M =
     (case phase_of M c of
        Waking [] \<Rightarrow> Some (goto c InGuest M)
      | Waking (x # xs) \<Rightarrow> Some (goto c (Waking xs) (wake x M))
      | _ \<Rightarrow> None)"

text \<open>
  The claimed vCPU is counted, under the mutex, and sent its start, after it; one act, since only
  the vCPU that is started, which waits for the start, could tell them apart.
\<close>

definition count_start :: "nat \<Rightarrow> smp_machine \<Rightarrow> smp_machine option" where
  "count_start c M =
     (case phase_of M c of Claimed t \<Rightarrow> Some (goto c InGuest (goto t Started (run_more 1 M))) | _ \<Rightarrow> None)"

definition halt :: "smp_machine \<Rightarrow> smp_machine" where
  "halt M = M\<lparr>m_quit := True, m_cpu := (\<lambda>c. (m_cpu M c)\<lparr>v_word := True\<rparr>)\<rparr>"

subsection \<open>The actions\<close>

datatype act =
    Tick nat | Call nat smp_call | WakeNext nat | CountStart nat | Launch nat | LockHost nat | TakeHost nat | GiveHost nat
  | UnlockHost nat | Look nat | WaitTaken nat | WaitOver nat | Back nat | Ask nat | Leave nat | Halt | Stop nat

text \<open>Whether a thread, once the run has ended, leaves: it waits for a start or the Host, or runs the guest.\<close>

definition leaves :: "phase \<Rightarrow> bool" where
  "leaves p \<longleftrightarrow> p = ToStart \<or> p = HostWait \<or> p = InGuest"

definition from_phase :: "nat \<Rightarrow> phase \<Rightarrow> smp_machine \<Rightarrow> smp_machine \<Rightarrow> smp_machine option" where
  "from_phase c p M' M = (if phase_of M c = p then Some M' else None)"

definition cpu_act :: "act \<Rightarrow> nat \<Rightarrow> smp_machine \<Rightarrow> smp_machine option" where
  "cpu_act a c M =
     (case a of
        Call _ call \<Rightarrow> from_phase c InGuest (snd (smpCall c call M)) M
      | WakeNext _ \<Rightarrow> wake_next c M
      | CountStart _ \<Rightarrow> count_start c M
      | Launch _ \<Rightarrow> from_phase c Started (goto c InGuest M) M
      | LockHost _ \<Rightarrow> from_phase c InGuest (lockHost c M) M
      | TakeHost _ \<Rightarrow> (if phase_of M c = HostWait then take_host c M else None)
      | GiveHost _ \<Rightarrow> from_phase c InHost (give_host c M) M
      | UnlockHost _ \<Rightarrow> from_phase c HostDone (unlockHost c M) M
      | Look _ \<Rightarrow> from_phase c ParkTop (park_look c M) M
      | WaitTaken _ \<Rightarrow> wait_taken c M
      | WaitOver _ \<Rightarrow> wait_over c M
      | Back _ \<Rightarrow> (case phase_of M c of ParkBack woken lim \<Rightarrow> Some (park_back c woken lim M) | _ \<Rightarrow> None)
      | Ask _ \<Rightarrow> from_phase c ParkAsk (park_ask c M) M
      | Leave _ \<Rightarrow> from_phase c ParkLeave (goto c InGuest (resume c M)) M
      | Stop _ \<Rightarrow> (if m_quit M \<and> leaves (phase_of M c) then Some (goto c Stopped M) else None)
      | _ \<Rightarrow> None)"

fun actor :: "act \<Rightarrow> nat option" where
  "actor (Tick d) = None" | "actor Halt = None" | "actor (Call c _) = Some c" | "actor (WakeNext c) = Some c"
| "actor (CountStart c) = Some c" | "actor (Launch c) = Some c" | "actor (LockHost c) = Some c" | "actor (TakeHost c) = Some c"
| "actor (GiveHost c) = Some c" | "actor (UnlockHost c) = Some c" | "actor (Look c) = Some c" | "actor (WaitTaken c) = Some c"
| "actor (WaitOver c) = Some c" | "actor (Back c) = Some c" | "actor (Ask c) = Some c" | "actor (Leave c) = Some c"
| "actor (Stop c) = Some c"

definition smp_act :: "act \<Rightarrow> smp_machine \<Rightarrow> smp_machine option" where
  "smp_act a M =
     (case actor a of
        Some c \<Rightarrow> if c < m_count M then cpu_act a c M else None
      | None \<Rightarrow> (case a of Tick d \<Rightarrow> Some (M\<lparr>m_now := m_now M + int d\<rparr>) | _ \<Rightarrow> Some (halt M)))"

fun smp_acts :: "act list \<Rightarrow> smp_machine \<Rightarrow> smp_machine option" where
  "smp_acts [] M = Some M"
| "smp_acts (a # as) M = Option.bind (smp_act a M) (smp_acts as)"

inductive smp_reached :: "nat \<Rightarrow> int \<Rightarrow> smp_machine \<Rightarrow> bool" for n l where
  reached_boot: "smp_reached n l (boot_machine n l)"
| reached_act: "smp_reached n l M \<Longrightarrow> smp_act a M = Some M' \<Longrightarrow> smp_reached n l M'"

lemma smp_reached_acts: "smp_acts as M = Some M' \<Longrightarrow> smp_reached n l M \<Longrightarrow> smp_reached n l M'"
  by (induction as arbitrary: M) (auto simp: bind_eq_Some_conv intro: reached_act)

subsection \<open>The count\<close>

text \<open>Who is counted as running the guest: with one vCPU the Host's calls count too.\<close>

definition counted :: "nat \<Rightarrow> phase \<Rightarrow> bool" where
  "counted n p =
     (case p of
        Started \<Rightarrow> True | InGuest \<Rightarrow> True | Claimed t \<Rightarrow> True | Waking xs \<Rightarrow> True
      | HostWait \<Rightarrow> n = 1 | InHost \<Rightarrow> n = 1 | HostDone \<Rightarrow> n = 1 | _ \<Rightarrow> False)"

lemma counted_simps [simp]:
  "counted n Started" "counted n InGuest" "counted n (Claimed t)" "counted n (Waking xs)" "\<not> counted n ToStart"
  "counted n HostWait \<longleftrightarrow> n = 1" "counted n InHost \<longleftrightarrow> n = 1" "counted n HostDone \<longleftrightarrow> n = 1" "\<not> counted n ParkTop"
  "\<not> counted n (ParkWait b u)" "\<not> counted n (ParkBack b b')" "\<not> counted n ParkAsk" "\<not> counted n ParkLeave" "\<not> counted n Stopped"
  by (simp_all add: counted_def)

definition in_guest :: "smp_machine \<Rightarrow> int" where
  "in_guest M = (\<Sum>c<m_count M. of_bool (counted (m_count M) (phase_of M c)))"

text \<open>What an update of one vCPU leaves.\<close>

lemma at_cpu_simps [simp]:
  "m_count (at_cpu c f M) = m_count M" "m_running (at_cpu c f M) = m_running M" "m_limit (at_cpu c f M) = m_limit M"
  "m_now (at_cpu c f M) = m_now M" "m_host (at_cpu c f M) = m_host M" "m_quit (at_cpu c f M) = m_quit M"
  "m_cpu (at_cpu c f M) x = (if x = c then f (m_cpu M c) else m_cpu M x)"
  by (simp_all add: at_cpu_def)

lemma goto_simps [simp]:
  "m_count (goto c p M) = m_count M" "m_running (goto c p M) = m_running M" "m_limit (goto c p M) = m_limit M"
  "m_now (goto c p M) = m_now M" "m_host (goto c p M) = m_host M" "m_quit (goto c p M) = m_quit M"
  "m_cpu (goto c p M) x = (if x = c then (m_cpu M c)\<lparr>v_phase := p\<rparr> else m_cpu M x)"
  by (simp_all add: goto_def)

lemma run_more_simps [simp]:
  "m_count (run_more d M) = m_count M" "m_running (run_more d M) = m_running M + d" "m_limit (run_more d M) = m_limit M"
  "m_now (run_more d M) = m_now M" "m_host (run_more d M) = m_host M" "m_quit (run_more d M) = m_quit M"
  "m_cpu (run_more d M) = m_cpu M"
  by (simp_all add: run_more_def)

lemma resume_simps [simp]:
  "m_count (resume c M) = m_count M" "m_running (resume c M) = m_running M + 1" "m_limit (resume c M) = m_limit M"
  "m_now (resume c M) = m_now M" "m_host (resume c M) = m_host M" "m_quit (resume c M) = m_quit M"
  "m_cpu (resume c M) x = (if x = c then (m_cpu M c)\<lparr>v_state := notParked\<rparr>
     else if m_running M = 0 \<and> x < m_count M then woken_with (m_cpu M x) else m_cpu M x)"
  by (simp_all add: resume_def Let_def)

lemma wake_simps [simp]:
  "m_count (wake c M) = m_count M" "m_running (wake c M) = m_running M" "m_limit (wake c M) = m_limit M"
  "m_now (wake c M) = m_now M" "m_host (wake c M) = m_host M" "m_quit (wake c M) = m_quit M"
  "m_cpu (wake c M) x = (if x = c then (m_cpu M c)\<lparr>v_word := True\<rparr> else m_cpu M x)"
  by (simp_all add: wake_def)

lemma woken_with_simps [simp]:
  "v_phase (woken_with k) = v_phase k" "v_deadline (woken_with k) = v_deadline k" "v_limit (woken_with k) = v_limit k"
  "v_started (woken_with k) = v_started k" "v_state (woken_with k) = notParked \<longleftrightarrow> v_state k = notParked"
  "v_state (woken_with k) \<noteq> parkedUntilWoken" "v_word k \<Longrightarrow> v_word (woken_with k)"
  "v_state k = parkedUntilWoken \<Longrightarrow> v_word (woken_with k)" "v_state k = parkedLimited \<Longrightarrow> woken_with k = k"
  by (simp_all add: woken_with_def)

lemma in_guest_change:
  assumes "c < m_count M" "m_count M' = m_count M" "\<And>x. x \<noteq> c \<Longrightarrow> x < m_count M \<Longrightarrow> phase_of M' x = phase_of M x"
  shows "in_guest M' = in_guest M - of_bool (counted (m_count M) (phase_of M c)) + of_bool (counted (m_count M) (phase_of M' c))"
proof -
  have "in_guest M' - of_bool (counted (m_count M) (phase_of M' c)) = (\<Sum>x\<in>{..<m_count M} - {c}. of_bool (counted (m_count M) (phase_of M' x)))"
    unfolding in_guest_def assms(2) by (subst sum.remove [of _ c]) (use assms(1) in auto)
  also have "\<dots> = (\<Sum>x\<in>{..<m_count M} - {c}. of_bool (counted (m_count M) (phase_of M x)))"
    by (rule sum.cong) (use assms(3) in auto)
  also have "\<dots> = in_guest M - of_bool (counted (m_count M) (phase_of M c))"
    unfolding in_guest_def by (subst (2) sum.remove [of _ c]) (use assms(1) in auto)
  finally show ?thesis by simp
qed

lemma in_guest_same: "m_count M' = m_count M \<Longrightarrow> (\<And>x. phase_of M' x = phase_of M x) \<Longrightarrow> in_guest M' = in_guest M"
  by (simp add: in_guest_def)

text \<open>The threads that claimed a vCPU to start, and those claimed.\<close>

definition starts_ok :: "smp_machine \<Rightarrow> bool" where
  "starts_ok M \<longleftrightarrow>
     (\<forall>c<m_count M. \<forall>t. phase_of M c = Claimed t \<longrightarrow> t < m_count M \<and> phase_of M t = ToStart \<and> v_started (m_cpu M t) \<and>
        (\<forall>d<m_count M. phase_of M d = Claimed t \<longrightarrow> d = c)) \<and>
     (\<forall>t<m_count M. 0 < t \<longrightarrow> \<not> v_started (m_cpu M t) \<longrightarrow> phase_of M t = ToStart)"

definition host_ok :: "smp_machine \<Rightarrow> bool" where
  "host_ok M \<longleftrightarrow> (\<forall>c<m_count M. phase_of M c = InHost \<longleftrightarrow> m_host M = Some c)"

text \<open>A parked vCPU: its state says so, none is parked until woken while one runs the guest, and its wait is bounded or a token waits.\<close>

definition parking :: "phase \<Rightarrow> bool" where
  "parking p = (case p of ParkTop \<Rightarrow> True | ParkWait lim u \<Rightarrow> True | ParkBack w lim \<Rightarrow> True | ParkAsk \<Rightarrow> True | ParkLeave \<Rightarrow> True | _ \<Rightarrow> False)"

definition fine :: "int \<Rightarrow> int \<Rightarrow> vcpu \<Rightarrow> bool" where
  "fine r t k \<longleftrightarrow>
     (v_state k = notParked \<longleftrightarrow> \<not> parking (v_phase k)) \<and> (r > 0 \<longrightarrow> v_state k \<noteq> parkedUntilWoken) \<and>
     (\<forall>u. v_phase k = ParkWait False u \<longrightarrow> v_state k = parkedLimited \<longrightarrow> v_word k) \<and>
     (\<forall>u. v_phase k = ParkWait True u \<longrightarrow> (\<exists>l. v_limit k = Some l \<and> u = Some (sooner (v_deadline k) l))) \<and>
     (\<forall>l. v_limit k = Some l \<longrightarrow> l \<le> t)"

definition parks_ok :: "smp_machine \<Rightarrow> bool" where
  "parks_ok M \<longleftrightarrow> (\<forall>c<m_count M. fine (m_running M) (m_now M + m_limit M) (m_cpu M c))"

lemma parking_simps [simp]:
  "parking ParkTop" "parking (ParkWait b u)" "parking (ParkBack b b')" "parking ParkAsk" "parking ParkLeave"
  "\<not> parking Started" "\<not> parking InGuest" "\<not> parking (Claimed t)" "\<not> parking (Waking xs)" "\<not> parking ToStart"
  "\<not> parking HostWait" "\<not> parking InHost" "\<not> parking HostDone" "\<not> parking Stopped"
  by (simp_all add: parking_def)

lemmas act_defs = smp_act_def cpu_act_def from_phase_def smpCall_def parkFor_def park_look_def wait_taken_def wait_over_def
  park_back_def park_ask_def lockHost_def take_host_def give_host_def unlockHost_def wake_next_def count_start_def halt_def

lemma act_count: "smp_act a M = Some M' \<Longrightarrow> m_count M' = m_count M \<and> m_limit M' = m_limit M \<and> m_now M \<le> m_now M' \<and> (m_quit M \<longrightarrow> m_quit M')"
  by (cases a) (auto simp: act_defs Let_def split: if_splits smp_call.splits phase.splits option.splits list.splits)

text \<open>The passages of a running machine.  A plain one changes the phase of one vCPU and nothing else.\<close>

definition plain :: "smp_machine \<Rightarrow> vcpu \<Rightarrow> phase \<Rightarrow> bool" where
  "plain M k p \<longleftrightarrow>
     (v_phase k = InGuest \<and> (\<exists>xs. p = Waking xs)) \<or> (v_phase k = Waking [] \<and> p = InGuest) \<or> (v_phase k = Started \<and> p = InGuest) \<or>
     (\<exists>lim t. v_phase k = ParkWait lim (Some t) \<and> p = ParkBack False lim) \<or>
     (\<exists>w lim. v_phase k = ParkBack w lim \<and> (p = ParkLeave \<or> p = ParkTop \<or> p = ParkAsk)) \<or> (v_phase k = ParkAsk \<and> p = ParkLeave)"

lemma smp_passage:
  assumes act: "smp_act a M = Some M'" and q: "\<not> m_quit M'"
  obtains (tick) d where "M' = M\<lparr>m_now := m_now M + int d\<rparr>"
  | (same) "M' = M"
  | (woke) t where "M' = wake t M"
  | (plain) c p where "c < m_count M" "plain M (m_cpu M c) p" "M' = goto c p M"
  | (waking) c x xs where "c < m_count M" "phase_of M c = Waking (x # xs)" "M' = goto c (Waking xs) (wake x M)"
  | (claim) c t where "c < m_count M" "phase_of M c = InGuest" "t < m_count M" "0 < t" "\<not> v_started (m_cpu M t)"
      "M' = goto c (Claimed t) (at_cpu t (\<lambda>k. k\<lparr>v_started := True\<rparr>) M)"
  | (start) c t where "c < m_count M" "phase_of M c = Claimed t" "M' = goto c InGuest (goto t Started (run_more 1 M))"
  | (lock) c where "c < m_count M" "phase_of M c = InGuest" "M' = lockHost c M"
  | (take) c where "c < m_count M" "phase_of M c = HostWait" "m_host M = None" "M' = goto c InHost (M\<lparr>m_host := Some c\<rparr>)"
  | (give) c where "c < m_count M" "phase_of M c = InHost" "M' = give_host c M"
  | (unlock) c where "c < m_count M" "phase_of M c = HostDone" "M' = unlockHost c M"
  | (park) c ns where "c < m_count M" "phase_of M c = InGuest" "M' = parkFor c ns M"
  | (look) c where "c < m_count M" "phase_of M c = ParkTop" "M' = park_look c M"
  | (taken) c lim u where "c < m_count M" "phase_of M c = ParkWait lim u"
      "M' = at_cpu c (\<lambda>k. k\<lparr>v_word := False, v_phase := ParkBack True lim\<rparr>) M"
  | (idle) c where "c < m_count M" "phase_of M c = ParkAsk" "m_running M = 0"
      "M' = at_cpu c (\<lambda>k. k\<lparr>v_state := parkedUntilWoken, v_phase := ParkTop\<rparr>) M"
  | (leave) c where "c < m_count M" "phase_of M c = ParkLeave" "M' = goto c InGuest (resume c M)"
proof (cases a)
  case (Tick d)
  with act have "M' = M\<lparr>m_now := m_now M + int d\<rparr>" by (simp add: smp_act_def)
  then show ?thesis by (rule tick)
next
  case Halt
  with act q show ?thesis by (auto simp: smp_act_def halt_def)
next
  case (Call c call)
  with act have c: "c < m_count M" "phase_of M c = InGuest" "M' = snd (smpCall c call M)"
    by (simp_all add: smp_act_def cpu_act_def from_phase_def split: if_splits)
  have pl: "plain M (m_cpu M c) (Waking xs)" for xs using c(2) by (simp add: plain_def)
  show ?thesis
  proof (cases call)
    case CPUSelf
    with c(3) same show ?thesis by (simp add: smpCall_def)
  next
    case (CPUWake t)
    with c(3) same plain [OF c(1) pl] woke show ?thesis by (simp add: smpCall_def split: if_splits)
  next
    case (CPUStart t)
    with c same claim [OF c(1,2), of "nat t"] show ?thesis by (simp add: smpCall_def split: if_splits)
  next
    case (CPUPark ns)
    with c park show ?thesis by (simp add: smpCall_def)
  qed
next
  case (WakeNext c)
  with act waking plain [of c InGuest] show ?thesis
    by (auto simp: smp_act_def cpu_act_def wake_next_def plain_def split: if_splits phase.splits list.splits)
next
  case (CountStart c)
  with act start show ?thesis by (auto simp: smp_act_def cpu_act_def count_start_def split: if_splits phase.splits)
next
  case (Launch c)
  with act plain [of c InGuest] show ?thesis by (auto simp: smp_act_def cpu_act_def from_phase_def plain_def split: if_splits)
next
  case (LockHost c)
  with act lock show ?thesis by (auto simp: smp_act_def cpu_act_def from_phase_def split: if_splits)
next
  case (TakeHost c)
  with act take show ?thesis by (auto simp: smp_act_def cpu_act_def take_host_def split: if_splits)
next
  case (GiveHost c)
  with act give show ?thesis by (auto simp: smp_act_def cpu_act_def from_phase_def split: if_splits)
next
  case (UnlockHost c)
  with act unlock show ?thesis by (auto simp: smp_act_def cpu_act_def from_phase_def split: if_splits)
next
  case (Look c)
  with act look show ?thesis by (auto simp: smp_act_def cpu_act_def from_phase_def split: if_splits)
next
  case (WaitTaken c)
  with act taken show ?thesis by (auto simp: smp_act_def cpu_act_def wait_taken_def split: if_splits phase.splits)
next
  case (WaitOver c)
  with act plain [of c] show ?thesis
    by (auto simp: smp_act_def cpu_act_def wait_over_def plain_def split: if_splits phase.splits option.splits)
next
  case (Back c)
  with act obtain w lim where b: "c < m_count M" "phase_of M c = ParkBack w lim" "M' = park_back c w lim M"
    by (auto simp: smp_act_def cpu_act_def split: if_splits phase.splits)
  with q have "\<not> m_quit M" by (auto simp: park_back_def Let_def split: if_splits)
  with b have "\<exists>p. (p = ParkLeave \<or> p = ParkTop \<or> p = ParkAsk) \<and> M' = goto c p M" by (auto simp: park_back_def Let_def)
  with b plain [of c] show ?thesis by (auto simp: plain_def)
next
  case (Ask c)
  with act plain [of c ParkLeave] idle show ?thesis
    by (auto simp: smp_act_def cpu_act_def from_phase_def park_ask_def plain_def split: if_splits)
next
  case (Leave c)
  with act leave show ?thesis by (auto simp: smp_act_def cpu_act_def from_phase_def split: if_splits)
next
  case (Stop c)
  with act q show ?thesis by (auto simp: smp_act_def cpu_act_def split: if_splits)
qed

lemma plain_phases:
  assumes "plain M k p"
  shows "v_phase k \<noteq> ToStart" "p \<noteq> ToStart" "v_phase k \<noteq> Claimed t" "p \<noteq> Claimed t" "v_phase k \<noteq> InHost" "p \<noteq> InHost"
    "counted n p = counted n (v_phase k)" "parking p = parking (v_phase k)" "p \<noteq> ParkWait b u"
  using assms unfolding plain_def by (elim disjE conjE exE; simp)+

lemma starts_same:
  assumes "starts_ok M" "m_count M' = m_count M" "\<And>x t. phase_of M' x = Claimed t \<longleftrightarrow> phase_of M x = Claimed t"
    "\<And>x. phase_of M' x = ToStart \<longleftrightarrow> phase_of M x = ToStart" "\<And>x. v_started (m_cpu M' x) = v_started (m_cpu M x)"
  shows "starts_ok M'"
  using assms(1) by (simp only: starts_ok_def assms(2-5))

lemma plain_goto:
  assumes "plain M (m_cpu M c) p"
  shows "phase_of (goto c p M) x = Claimed t \<longleftrightarrow> phase_of M x = Claimed t" "phase_of (goto c p M) x = ToStart \<longleftrightarrow> phase_of M x = ToStart"
    "phase_of (goto c p M) x = InHost \<longleftrightarrow> phase_of M x = InHost"
  by (simp_all add: plain_phases(1-6) [OF assms])

lemma claimed_idle:
  assumes "starts_ok M" "c < m_count M" "phase_of M c = Claimed t"
  shows "t < m_count M" "phase_of M t = ToStart" "v_started (m_cpu M t)" "d < m_count M \<Longrightarrow> phase_of M d = Claimed t \<Longrightarrow> d = c"
  using assms unfolding starts_ok_def by blast+

lemma unstarted_idle: "starts_ok M \<Longrightarrow> t < m_count M \<Longrightarrow> 0 < t \<Longrightarrow> \<not> v_started (m_cpu M t) \<Longrightarrow> phase_of M t = ToStart"
  unfolding starts_ok_def by blast

lemma starts_okI:
  assumes "\<And>c t. c < m_count M \<Longrightarrow> phase_of M c = Claimed t \<Longrightarrow> t < m_count M \<and> phase_of M t = ToStart \<and> v_started (m_cpu M t)"
    "\<And>c d t. c < m_count M \<Longrightarrow> d < m_count M \<Longrightarrow> phase_of M c = Claimed t \<Longrightarrow> phase_of M d = Claimed t \<Longrightarrow> d = c"
    "\<And>t. t < m_count M \<Longrightarrow> 0 < t \<Longrightarrow> \<not> v_started (m_cpu M t) \<Longrightarrow> phase_of M t = ToStart"
  shows "starts_ok M"
  unfolding starts_ok_def using assms by blast

lemma starts_kept:
  assumes "smp_act a M = Some M'" "\<not> m_quit M'" and st: "starts_ok M"
  shows "starts_ok M'"
  using assms(1,2)
proof (cases rule: smp_passage)
  case (plain c p)
  show ?thesis unfolding plain(3) by (rule starts_same [OF st]) (simp_all only: plain_goto [OF plain(2)], simp_all)
next
  case (claim c t)
  note idle = unstarted_idle [OF st claim(3-5)] and old = claimed_idle [OF st]
  have tc: "t \<noteq> c" using idle claim(2) by auto
  have other: "phase_of M d \<noteq> Claimed t" if "d < m_count M" for d using old(3) [OF that] claim(5) by blast
  have other': "phase_of M d \<noteq> Claimed c" if "d < m_count M" for d using old(2) [OF that] claim(2) by fastforce
  show ?thesis unfolding claim(6)
  proof (rule starts_okI, goal_cases)
    case (1 d u)
    show ?case
    proof (cases "d = c")
      case True
      with 1 tc idle claim(3) show ?thesis by simp
    next
      case False
      with 1 have d: "d < m_count M" "phase_of M d = Claimed u" by (simp_all split: if_splits)
      then have "u \<noteq> c" using other' by blast
      with old(1-3) [OF d] idle show ?thesis by auto
    qed
  next
    case (2 d e u)
    have one: "if u = t then x = c else phase_of M x = Claimed u"
      if "x < m_count M" "phase_of (goto c (Claimed t) (at_cpu t (\<lambda>k. k\<lparr>v_started := True\<rparr>) M)) x = Claimed u" for x
      using that other [of x] by (cases "x = c") (auto split: if_splits)
    have x: "d < m_count M" "e < m_count M" using 2(1,2) by simp_all
    show ?case
    proof (cases "u = t")
      case True
      with one [OF x(1) 2(3)] one [OF x(2) 2(4)] show ?thesis by simp
    next
      case False
      with one [OF x(1) 2(3)] one [OF x(2) 2(4)] show ?thesis using old(4) [OF x(1) _ x(2)] by simp
    qed
  next
    case (3 u)
    with tc claim(2) show ?case by (cases "u = c"; cases "u = t") (simp_all add: idle unstarted_idle [OF st])
  qed
next
  case (start c t)
  note t = claimed_idle [OF st start(1,2)] and old = claimed_idle [OF st]
  have tc: "t \<noteq> c" using t(2) start(2) by auto
  show ?thesis unfolding start(3)
  proof (rule starts_okI, goal_cases)
    case (1 d u)
    then have d: "d \<noteq> c" "d \<noteq> t" "d < m_count M" "phase_of M d = Claimed u" by (auto split: if_splits)
    have "u \<noteq> t" using t(4) [OF d(3)] d(1,4) by blast
    moreover have "u \<noteq> c" using old(2) [OF d(3,4)] start(2) by auto
    ultimately show ?case using old(1-3) [OF d(3,4)] by simp
  next
    case (2 d e u)
    have one: "x \<noteq> c \<and> x \<noteq> t \<and> phase_of M x = Claimed u"
      if "phase_of (goto c InGuest (goto t Started (run_more 1 M))) x = Claimed u" for x
      using that tc by (cases "x = c"; cases "x = t"; simp)
    from 2 old(4) [of d u e] one [OF 2(3)] one [OF 2(4)] show ?case by simp
  next
    case (3 u)
    with t(3) start(2) unstarted_idle [OF st, of u] show ?case by (auto split: if_splits)
  qed
next
  case (waking c x xs)
  show ?thesis by (rule starts_same [OF st]) (use waking in auto)
next
  case (lock c)
  show ?thesis by (rule starts_same [OF st]) (use lock in \<open>auto simp: lockHost_def\<close>)
next
  case (take c)
  show ?thesis by (rule starts_same [OF st]) (use take in auto)
next
  case (give c)
  show ?thesis by (rule starts_same [OF st]) (use give in \<open>auto simp: give_host_def\<close>)
next
  case (unlock c)
  show ?thesis by (rule starts_same [OF st]) (use unlock in \<open>auto simp: unlockHost_def\<close>)
next
  case (park c ns)
  show ?thesis by (rule starts_same [OF st]) (use park in \<open>auto simp: parkFor_def Let_def\<close>)
next
  case (look c)
  show ?thesis by (rule starts_same [OF st]) (use look in \<open>auto simp: park_look_def Let_def\<close>)
next
  case (taken c lim u)
  show ?thesis by (rule starts_same [OF st]) (use taken in auto)
next
  case (idle c)
  show ?thesis by (rule starts_same [OF st]) (use idle in auto)
next
  case (leave c)
  show ?thesis by (rule starts_same [OF st]) (use leave in auto)
qed (rule starts_same [OF st]; simp)+

lemma host_same:
  "host_ok M \<Longrightarrow> m_count M' = m_count M \<Longrightarrow> m_host M' = m_host M \<Longrightarrow> (\<And>x. phase_of M' x = InHost \<longleftrightarrow> phase_of M x = InHost) \<Longrightarrow> host_ok M'"
  by (simp add: host_ok_def)

lemma host_kept:
  assumes "smp_act a M = Some M'" "\<not> m_quit M'" and h: "host_ok M" and st: "starts_ok M"
  shows "host_ok M'"
  using assms(1,2)
proof (cases rule: smp_passage)
  case (plain c p)
  show ?thesis unfolding plain(3) by (rule host_same [OF h]) (simp_all only: plain_goto [OF plain(2)], simp_all)
next
  case (take c)
  with h show ?thesis by (auto simp: host_ok_def)
next
  case (give c)
  with h show ?thesis by (auto simp: host_ok_def give_host_def)
next
  case (unlock c)
  show ?thesis by (rule host_same [OF h]) (use unlock in \<open>auto simp: unlockHost_def\<close>)
next
  case (lock c)
  show ?thesis by (rule host_same [OF h]) (use lock in \<open>auto simp: lockHost_def\<close>)
next
  case (claim c t)
  show ?thesis by (rule host_same [OF h]) (use claim in auto)
next
  case (look c)
  show ?thesis by (rule host_same [OF h]) (use look in \<open>auto simp: park_look_def Let_def\<close>)
next
  case (park c ns)
  show ?thesis by (rule host_same [OF h]) (use park in \<open>auto simp: parkFor_def Let_def\<close>)
next
  case (start c t)
  note claimed_idle(2) [OF st start(1,2)]
  with start(2) show ?thesis unfolding start(3) by (intro host_same [OF h]) simp_all
qed (use h in \<open>auto simp: host_ok_def\<close>)

text \<open>The count stays what it counts.\<close>

lemma in_guest_goto:
  "c < m_count M \<Longrightarrow> in_guest (goto c p M) = in_guest M - of_bool (counted (m_count M) (phase_of M c)) + of_bool (counted (m_count M) p)"
  using in_guest_change [of c M "goto c p M"] by simp

lemma in_guest_at:
  "c < m_count M \<Longrightarrow> in_guest (at_cpu c f M) =
     in_guest M - of_bool (counted (m_count M) (phase_of M c)) + of_bool (counted (m_count M) (v_phase (f (m_cpu M c))))"
  using in_guest_change [of c M "at_cpu c f M"] by simp

lemma in_guest_others [simp]: "in_guest (run_more d M) = in_guest M" "in_guest (M\<lparr>m_now := t\<rparr>) = in_guest M"
    "in_guest (M\<lparr>m_host := h\<rparr>) = in_guest M" "in_guest (wake c M) = in_guest M" "in_guest (resume c M) = in_guest M"
  by (rule in_guest_same; simp)+

lemma count_kept:
  assumes "smp_act a M = Some M'" "\<not> m_quit M'" and st: "starts_ok M" and r: "m_running M = in_guest M"
  shows "m_running M' = in_guest M'"
  using assms(1,2)
proof (cases rule: smp_passage)
  case (plain c p)
  then show ?thesis using r plain_phases(7) [OF plain(2)] by (simp add: in_guest_goto)
next
  case (claim c t)
  have "v_phase (m_cpu (at_cpu t (\<lambda>k. k\<lparr>v_started := True\<rparr>) M) c) = InGuest" using claim(2) by auto
  then show ?thesis unfolding claim(6) using claim(1,3) r by (simp add: in_guest_goto in_guest_at del: at_cpu_simps(7))
next
  case (start c t)
  note t = claimed_idle(1,2) [OF st start(1,2)]
  then have "t \<noteq> c" using start(2) by auto
  with start t r show ?thesis by (simp add: in_guest_goto)
next
  case (lock c)
  with r show ?thesis by (auto simp: lockHost_def in_guest_goto)
next
  case (unlock c)
  with r show ?thesis by (auto simp: unlockHost_def in_guest_goto)
next
  case (park c ns)
  with r show ?thesis by (simp add: parkFor_def Let_def in_guest_at)
next
  case (look c)
  with r show ?thesis by (auto simp: park_look_def Let_def in_guest_at)
qed (use r in \<open>auto simp: in_guest_goto in_guest_at give_host_def\<close>)

text \<open>The parks.\<close>

lemma running_counted: "c < m_count M \<Longrightarrow> counted (m_count M) (phase_of M c) \<Longrightarrow> 1 \<le> in_guest M"
proof -
  assume c: "c < m_count M" "counted (m_count M) (phase_of M c)"
  have "of_bool (counted (m_count M) (phase_of M c)) \<le> in_guest M"
    unfolding in_guest_def by (rule member_le_sum) (use c in auto)
  with c(2) show ?thesis by simp
qed

lemma in_guest_nonneg: "0 \<le> in_guest M"
  unfolding in_guest_def by (rule sum_nonneg) simp

lemma fine_mono: "fine r t k \<Longrightarrow> (r' > 0 \<Longrightarrow> r > 0) \<Longrightarrow> t \<le> t' \<Longrightarrow> fine r' t' k"
  unfolding fine_def by (blast intro: order.trans)

lemma fine_woken: "fine 0 t k \<Longrightarrow> fine r t (woken_with k)"
  by (cases "v_state k") (auto simp: fine_def)

lemma fine_word: "fine r t k \<Longrightarrow> fine r t (k\<lparr>v_word := True\<rparr>)"
  by (simp add: fine_def)

lemma fine_phase:
  "fine r t k \<Longrightarrow> parking p = parking (v_phase k) \<Longrightarrow> (\<And>b u. p \<noteq> ParkWait b u) \<Longrightarrow> fine r t (k\<lparr>v_phase := p\<rparr>)"
  by (simp add: fine_def)

lemma fine_started [simp]: "fine r t (k\<lparr>v_started := b\<rparr>) = fine r t k"
  by (simp add: fine_def)

lemma fine_resumed: "fine r t k \<Longrightarrow> \<not> parking p \<Longrightarrow> fine r' t (k\<lparr>v_state := notParked, v_phase := p\<rparr>)"
  by (auto simp: fine_def)

lemma parks_change:
  assumes p: "parks_ok M" and c: "c < m_count M" and m: "m_count M' = m_count M" "m_now M' = m_now M" "m_limit M' = m_limit M"
    and others: "\<And>x. x \<noteq> c \<Longrightarrow> x < m_count M \<Longrightarrow> m_cpu M' x = m_cpu M x \<or> m_running M = 0 \<and> m_cpu M' x = woken_with (m_cpu M x)"
    and run: "m_running M' > 0 \<Longrightarrow> m_running M > 0 \<or> (\<forall>x<m_count M. x \<noteq> c \<longrightarrow> m_cpu M' x = woken_with (m_cpu M x) \<and> m_running M = 0)"
    and self: "fine (m_running M) (m_now M + m_limit M) (m_cpu M c) \<Longrightarrow> fine (m_running M') (m_now M + m_limit M) (m_cpu M' c)"
  shows "parks_ok M'"
  unfolding parks_ok_def m
proof (intro allI impI)
  fix x assume x: "x < m_count M"
  then have f: "fine (m_running M) (m_now M + m_limit M) (m_cpu M x)" using p by (simp add: parks_ok_def)
  show "fine (m_running M') (m_now M + m_limit M) (m_cpu M' x)"
  proof (cases "x = c")
    case True
    with self f show ?thesis by simp
  next
    case False
    show ?thesis
    proof (cases "m_running M = 0 \<and> m_cpu M' x = woken_with (m_cpu M x)")
      case True
      with f fine_woken show ?thesis by simp
    next
      case w: False
      then have "m_cpu M' x = m_cpu M x" using others [OF False x] by blast
      moreover have "m_running M' > 0 \<Longrightarrow> m_running M > 0" using run w False x by blast
      ultimately show ?thesis using fine_mono [OF f] by simp
    qed
  qed
qed

lemma parks_kept:
  assumes "smp_act a M = Some M'" "\<not> m_quit M'" and st: "starts_ok M" and r: "m_running M = in_guest M" and p: "parks_ok M" and l: "0 \<le> m_limit M"
  shows "parks_ok M'"
  using assms(1,2)
proof (cases rule: smp_passage)
  case (tick d)
  show ?thesis unfolding tick parks_ok_def
    by (intro allI impI, rule fine_mono [of "m_running M" "m_now M + m_limit M"]) (use p in \<open>simp_all add: parks_ok_def\<close>)
next
  case same
  with p show ?thesis by simp
next
  case (woke t)
  with p show ?thesis by (auto simp: parks_ok_def fine_word)
next
  case (plain c q)
  show ?thesis unfolding plain(3)
    by (rule parks_change [OF p plain(1)]) (simp_all add: fine_phase plain_phases(8,9) [OF plain(2)])
next
  case (waking c x xs)
  show ?thesis unfolding waking(3)
    by (rule parks_change [where M = "wake x M" and c = c]) (use p waking in \<open>auto simp: parks_ok_def fine_word fine_phase\<close>)
next
  case (claim c t)
  show ?thesis unfolding claim(6)
    by (rule parks_change [where M = "at_cpu t (\<lambda>k. k\<lparr>v_started := True\<rparr>) M" and c = c])
      (use p claim in \<open>auto simp: parks_ok_def fine_phase\<close>)
next
  case (start c t)
  note t = claimed_idle(1,2) [OF st start(1,2)]
  have run: "m_running M > 0" using running_counted [OF start(1)] start(2) r by simp
  have "parks_ok (goto t Started (run_more 1 M))"
    by (rule parks_change [OF p t(1)]) (use run t(2) in \<open>auto intro: fine_mono fine_phase\<close>)
  then show ?thesis unfolding start(3)
    by (rule parks_change [where c = c]) (use start t run in \<open>auto intro!: fine_phase\<close>)
next
  case (lock c)
  show ?thesis unfolding lock(3) lockHost_def
    by (rule parks_change [OF p lock(1)]) (use lock(2) in \<open>auto intro!: fine_phase intro: fine_mono split: if_splits\<close>)
next
  case (take c)
  show ?thesis unfolding take(4)
    by (rule parks_change [OF p take(1)]) (use take(2) in \<open>auto intro!: fine_phase\<close>)
next
  case (give c)
  show ?thesis unfolding give(3) give_host_def
    by (rule parks_change [OF p give(1)]) (use give(2) in \<open>auto intro!: fine_phase\<close>)
next
  case (unlock c)
  show ?thesis unfolding unlock(3) unlockHost_def
    by (rule parks_change [OF p unlock(1)])
      (use unlock(2) r in_guest_nonneg [of M] in \<open>auto intro: fine_phase fine_resumed\<close>)
next
  case (park c ns)
  have "m_running M > 0" using running_counted [OF park(1)] park(2) r by simp
  then show ?thesis unfolding park(3) parkFor_def Let_def
    by (intro parks_change [OF p park(1)]) (auto simp: fine_def)
next
  case (look c)
  show ?thesis unfolding look(3) park_look_def Let_def
    by (rule parks_change [OF p look(1)]) (use look(2) l in \<open>auto simp: fine_def split: option.splits\<close>)
next
  case (taken c lim u)
  show ?thesis unfolding taken(3)
    by (rule parks_change [OF p taken(1)]) (use taken(2) in \<open>auto simp: fine_def\<close>)
next
  case (idle c)
  show ?thesis unfolding idle(4)
    by (rule parks_change [OF p idle(1)]) (use idle in \<open>auto simp: fine_def\<close>)
next
  case (leave c)
  show ?thesis unfolding leave(3)
    by (rule parks_change [OF p leave(1)])
      (use leave(2) r in_guest_nonneg [of M] in \<open>auto intro: fine_resumed\<close>)
qed

subsection \<open>What always holds\<close>

definition smp_inv :: "smp_machine \<Rightarrow> bool" where
  "smp_inv M \<longleftrightarrow> starts_ok M \<and> host_ok M \<and> m_running M = in_guest M \<and> parks_ok M"

lemma boot_inv: "0 < n \<Longrightarrow> 0 \<le> l \<Longrightarrow> smp_inv (boot_machine n l)"
proof -
  assume n: "0 < n" "0 \<le> l"
  have "in_guest (boot_machine n l) = (\<Sum>c<n. of_bool (c = 0))"
    unfolding in_guest_def by (rule sum.cong) (auto simp: boot_machine_def new_cpu_def)
  also have "\<dots> = (1 :: int)" using n by (simp add: of_bool_def)
  finally show ?thesis
    by (auto simp: smp_inv_def starts_ok_def host_ok_def parks_ok_def boot_machine_def new_cpu_def fine_def)
qed

lemma smp_reached_limits: "smp_reached n l M \<Longrightarrow> m_count M = n \<and> m_limit M = l"
  by (induction rule: smp_reached.induct) (auto simp: boot_machine_def dest: act_count)

lemma smp_reached_inv: "smp_reached n l M \<Longrightarrow> 0 < n \<Longrightarrow> 0 \<le> l \<Longrightarrow> \<not> m_quit M \<Longrightarrow> smp_inv M"
proof (induction rule: smp_reached.induct)
  case reached_boot
  then show ?case by (simp add: boot_inv)
next
  case (reached_act M a M')
  have q: "\<not> m_quit M" using act_count [OF reached_act.hyps(2)] reached_act.prems(3) by blast
  then have i: "starts_ok M" "host_ok M" "m_running M = in_guest M" "parks_ok M" using reached_act by (simp_all add: smp_inv_def)
  have l: "0 \<le> m_limit M" using smp_reached_limits [OF reached_act.hyps(1)] reached_act.prems(2) by simp
  note a = reached_act.hyps(2) reached_act.prems(3)
  show ?case unfolding smp_inv_def
    using starts_kept [OF a i(1)] host_kept [OF a i(2,1)] count_kept [OF a i(1,3)] parks_kept [OF a i(1,3,4) l] by blast
qed

text \<open>
  C35.  On two vCPUs or more, while the run lasts, whatever the threads do and in whatever order, the count of running
  vCPUs is the number of those in the guest, and at most one vCPU is in the Host.
\<close>

theorem running_exact:
  assumes "smp_reached n l M" "1 < n" "0 \<le> l" "\<not> m_quit M"
  shows "m_running M = int (card {c. c < n \<and> (phase_of M c = Started \<or> phase_of M c = InGuest \<or>
      (\<exists>t. phase_of M c = Claimed t) \<or> (\<exists>xs. phase_of M c = Waking xs))}) \<and> card {c. c < n \<and> phase_of M c = InHost} \<le> 1"
proof -
  have n: "m_count M = n" using smp_reached_limits [OF assms(1)] by simp
  have i: "smp_inv M" using smp_reached_inv [OF assms(1) _ assms(3,4)] assms(2) by simp
  have iff: "counted n p \<longleftrightarrow> p = Started \<or> p = InGuest \<or> (\<exists>t. p = Claimed t) \<or> (\<exists>xs. p = Waking xs)" for p
    using assms(2) by (cases p) simp_all
  have "{..<n} \<inter> {c. counted n (phase_of M c)} = {c. c < n \<and> counted n (phase_of M c)}" by auto
  then have "in_guest M = int (card {c. c < n \<and> counted n (phase_of M c)})"
    unfolding in_guest_def n by (simp add: of_bool_def sum.If_cases)
  moreover have "{c. c < n \<and> phase_of M c = InHost} \<subseteq> set_option (m_host M)"
    using i n unfolding smp_inv_def host_ok_def by auto
  then have le: "card {c. c < n \<and> phase_of M c = InHost} \<le> card (set_option (m_host M))" by (intro card_mono) simp_all
  have "card (set_option (m_host M)) \<le> 1" by (cases "m_host M") simp_all
  with le have "card {c. c < n \<and> phase_of M c = InHost} \<le> 1" by (rule order.trans)
  moreover have "m_running M = in_guest M" using i unfolding smp_inv_def by blast
  ultimately show ?thesis by (simp only: iff)
qed

text \<open>
  C36.  The invariant of the parks, while the run lasts: while a vCPU runs the guest, none is parked until woken, and a
  vCPU that waits in a park has a token to take or waits no longer than the limit from now.
\<close>

theorem parks_limited:
  assumes "smp_reached n l M" "0 < n" "0 \<le> l" "\<not> m_quit M" "m_running M > 0" "c < n" "phase_of M c = ParkWait lim u"
  shows "v_state (m_cpu M c) = parkedLimited \<and> (v_word (m_cpu M c) \<or> (\<exists>t. u = Some t \<and> t \<le> m_now M + l))"
proof -
  have n: "m_count M = n" "m_limit M = l" using smp_reached_limits [OF assms(1)] by simp_all
  have f: "fine (m_running M) (m_now M + l) (m_cpu M c)"
    using smp_reached_inv [OF assms(1-4)] assms(6) unfolding smp_inv_def parks_ok_def n by blast
  then have s: "v_state (m_cpu M c) = parkedLimited"
    using assms(5,7) by (cases "v_state (m_cpu M c)") (auto simp: fine_def)
  have "sooner d t \<le> t" for d t by (auto simp: sooner_def split: option.splits)
  then have "v_word (m_cpu M c) \<or> (\<exists>t. u = Some t \<and> t \<le> m_now M + l)"
    using f s assms(7) unfolding fine_def by (cases lim) (fastforce intro: order.trans)+
  with s show ?thesis by blast
qed

subsection \<open>Parks end\<close>

text \<open>A run of one vCPU's own acts, the clock's beside them.\<close>

definition own_acts :: "nat \<Rightarrow> act list \<Rightarrow> bool" where
  "own_acts c as \<longleftrightarrow> (\<forall>a\<in>set as. actor a = Some c \<or> (\<exists>d. a = Tick d))"

text \<open>From its state, a vCPU's own acts alone take it back to the guest, by a time.\<close>

definition returns_by :: "nat \<Rightarrow> nat \<Rightarrow> int \<Rightarrow> smp_machine \<Rightarrow> bool" where
  "returns_by c k t M \<longleftrightarrow>
     (\<exists>as M'. length as \<le> k \<and> own_acts c as \<and> smp_acts as M = Some M' \<and> phase_of M' c = InGuest \<and> m_now M' \<le> t)"

lemma returns_act:
  assumes "smp_act a M = Some M1" "actor a = Some c \<or> (\<exists>d. a = Tick d)" "returns_by c k t M1"
  shows "returns_by c (Suc k) t M"
proof -
  obtain as M' where "length as \<le> k" "own_acts c as" "smp_acts as M1 = Some M'" "phase_of M' c = InGuest" "m_now M' \<le> t"
    using assms(3) by (auto simp: returns_by_def)
  then show ?thesis unfolding returns_by_def using assms(1,2)
    by (intro exI [of _ "a # as"] exI [of _ M']) (auto simp: own_acts_def)
qed

lemma returns_more: "returns_by c k t M \<Longrightarrow> k \<le> k' \<Longrightarrow> returns_by c k' t M"
  unfolding returns_by_def by (blast intro: le_trans)

lemma returns_leave: "c < m_count M \<Longrightarrow> phase_of M c = ParkLeave \<Longrightarrow> m_now M \<le> t \<Longrightarrow> returns_by c 1 t M"
  unfolding returns_by_def
  by (rule exI [of _ "[Leave c]"]) (simp add: smp_act_def cpu_act_def from_phase_def own_acts_def)

lemma returns_ask:
  "c < m_count M \<Longrightarrow> phase_of M c = ParkAsk \<Longrightarrow> m_running M > 0 \<Longrightarrow> m_now M \<le> t \<Longrightarrow> returns_by c 2 t M"
  using returns_act [of "Ask c" M "goto c ParkLeave M" c 1 t] returns_leave [of c "goto c ParkLeave M" t]
  by (simp add: smp_act_def cpu_act_def from_phase_def park_ask_def numeral_2_eq_2)

text \<open>Back from a wait that was woken, or whose time has come.\<close>

lemma returns_back:
  assumes "c < m_count M" "phase_of M c = ParkBack w lim" "m_running M > 0" "\<not> m_quit M" "m_now M \<le> t"
    and "w \<or> passed (v_deadline (m_cpu M c)) (m_now M) \<or> lim \<and> passed (v_limit (m_cpu M c)) (m_now M)"
  shows "returns_by c 3 t M"
proof -
  have act: "smp_act (Back c) M = Some (park_back c w lim M)" using assms(1,2) by (simp add: smp_act_def cpu_act_def)
  have "park_back c w lim M = goto c ParkLeave M \<or> park_back c w lim M = goto c ParkAsk M"
    using assms(4,6) by (auto simp: park_back_def Let_def)
  then have "returns_by c 2 t (park_back c w lim M)"
  proof
    assume 1: "park_back c w lim M = goto c ParkLeave M"
    with assms(1,5) show ?thesis by (intro returns_more [OF returns_leave]) simp_all
  next
    assume 2: "park_back c w lim M = goto c ParkAsk M"
    with assms(1,3,5) show ?thesis by (intro returns_ask) simp_all
  qed
  from returns_act [OF act _ this] show ?thesis by (simp add: numeral_3_eq_3 numeral_2_eq_2)
qed

lemma returns_wait:
  assumes "c < m_count M" "phase_of M c = ParkWait lim u" "m_running M > 0" "\<not> m_quit M" "m_now M \<le> t" "m_now M + m_limit M \<le> t"
    and f: "fine (m_running M) (m_now M + m_limit M) (m_cpu M c)"
  shows "returns_by c 5 t M"
proof (cases "v_word (m_cpu M c)")
  case True
  let ?M = "at_cpu c (\<lambda>k. k\<lparr>v_word := False, v_phase := ParkBack True lim\<rparr>) M"
  have 1: "smp_act (WaitTaken c) M = Some ?M" using assms(1,2) True by (simp add: smp_act_def cpu_act_def wait_taken_def)
  have 2: "returns_by c 3 t ?M" by (rule returns_back [of _ _ True lim]) (use assms in simp_all)
  have "returns_by c (Suc 3) t M" by (rule returns_act [OF 1 _ 2]) simp
  then show ?thesis by (rule returns_more) simp
next
  case False
  then have lim: lim using f assms(2,3) by (cases "v_state (m_cpu M c)"; cases lim) (auto simp: fine_def)
  then have ph: "phase_of M c = ParkWait True u" using assms(2) by simp
  obtain l where l: "v_limit (m_cpu M c) = Some l" "u = Some (sooner (v_deadline (m_cpu M c)) l)" "l \<le> m_now M + m_limit M"
    using f ph unfolding fine_def by blast
  let ?s = "sooner (v_deadline (m_cpu M c)) l"
  let ?d = "nat (?s - m_now M)"
  let ?M1 = "M\<lparr>m_now := m_now M + int ?d\<rparr>"
  let ?M2 = "goto c (ParkBack False lim) ?M1"
  have s: "?s \<le> l" "m_now ?M1 \<le> t" "?s \<le> m_now ?M1" using assms(5,6) l(3) by (auto simp: sooner_def split: option.splits if_splits)
  have 1: "smp_act (Tick ?d) M = Some ?M1" by (simp add: smp_act_def)
  have 2: "smp_act (WaitOver c) ?M1 = Some ?M2" using assms(1,2) l(2) s(3) by (simp add: smp_act_def cpu_act_def wait_over_def)
  have "passed (v_deadline (m_cpu M c)) (m_now ?M1) \<or> passed (v_limit (m_cpu M c)) (m_now ?M1)"
    using s(3) l(1) unfolding passed_def sooner_def by (auto split: option.splits if_splits)
  then have 3: "returns_by c 3 t ?M2" by (intro returns_back [of _ _ False lim]) (use assms lim s in auto)
  have "returns_by c (Suc 3) t ?M1" by (rule returns_act [OF 2 _ 3]) simp
  from returns_act [OF 1 _ this] show ?thesis by simp
qed

lemma reached_fine:
  assumes "smp_reached n l M" "0 < n" "0 \<le> l" "\<not> m_quit M" "c < n"
  shows "fine (m_running M) (m_now M + m_limit M) (m_cpu M c)" "m_count M = n" "m_limit M = l"
proof -
  show n: "m_count M = n" "m_limit M = l" using smp_reached_limits [OF assms(1)] by simp_all
  show "fine (m_running M) (m_now M + m_limit M) (m_cpu M c)"
    using smp_reached_inv [OF assms(1-4)] assms(5) unfolding smp_inv_def parks_ok_def n by blast
qed

lemma returns_top:
  assumes r: "smp_reached n l M" "0 < n" "0 \<le> l" "\<not> m_quit M" "c < n" and run: "m_running M > 0" and t: "m_now M + l \<le> t"
    and top: "phase_of M c = ParkTop"
  shows "returns_by c 6 t M"
proof -
  note f = reached_fine [OF r]
  have act: "smp_act (Look c) M = Some (park_look c M)" using r(5) f(2) top by (simp add: smp_act_def cpu_act_def from_phase_def)
  have s: "m_now (park_look c M) = m_now M" "m_running (park_look c M) = m_running M" "m_quit (park_look c M) = m_quit M"
    by (simp_all add: park_look_def)
  note r1 = smp_reached.reached_act [OF r(1) act]
  have q: "\<not> m_quit (park_look c M)" using r(4) s(3) by simp
  note f1 = reached_fine [OF r1 r(2,3) q r(5)]
  obtain lim u where "phase_of (park_look c M) c = ParkWait lim u"
    by (cases "v_state (m_cpu M c) = parkedLimited") (auto simp: park_look_def Let_def)
  then have "returns_by c 5 t (park_look c M)"
    by (rule returns_wait [rotated]) (use r(3,5) f1 q s run t in simp_all)
  from returns_act [OF act _ this] show ?thesis by simp
qed

text \<open>
  C37.  Every park ends within the limit while a vCPU runs the guest: whatever has happened and
  wherever in a park a vCPU is, seven acts of its own at most, no wake of another among them, take
  it back to the guest by the limit from now.
\<close>

theorem parks_end:
  assumes "smp_reached n l M" "0 < n" "0 \<le> l" "\<not> m_quit M" "m_running M > 0" "c < n" "parking (phase_of M c)"
  shows "\<exists>as M'. length as \<le> 7 \<and> own_acts c as \<and> smp_acts as M = Some M' \<and> phase_of M' c = InGuest \<and> m_now M' \<le> m_now M + l"
proof -
  note r = assms(1-4) assms(6) and f = reached_fine [OF assms(1-4,6)]
  have c: "c < m_count M" "m_now M \<le> m_now M + l" using assms(3,6) f(2) by simp_all
  consider "phase_of M c = ParkTop" | lim u where "phase_of M c = ParkWait lim u" | w lim where "phase_of M c = ParkBack w lim"
    | "phase_of M c = ParkAsk" | "phase_of M c = ParkLeave"
    using assms(7) by (cases "phase_of M c") simp_all
  then have "returns_by c 7 (m_now M + l) M"
  proof cases
    case 1
    with returns_top [OF r assms(5), of "m_now M + l"] show ?thesis by (auto intro: returns_more)
  next
    case 2
    with returns_wait [OF c(1) 2 assms(5,4) c(2) _ f(1)] f(3) show ?thesis by (auto intro: returns_more)
  next
    case 3
    show ?thesis
    proof (cases "w \<or> passed (v_deadline (m_cpu M c)) (m_now M) \<or> lim \<and> (v_limit (m_cpu M c) = None \<or> passed (v_limit (m_cpu M c)) (m_now M))")
      case True
      have act: "smp_act (Back c) M = Some (park_back c w lim M)" using c(1) 3 by (simp add: smp_act_def cpu_act_def)
      have "park_back c w lim M = goto c ParkLeave M \<or> park_back c w lim M = goto c ParkAsk M"
        using assms(4) True by (auto simp: park_back_def Let_def)
      then have "returns_by c 2 (m_now M + l) (park_back c w lim M)"
        using c assms(5) by (elim disjE) (auto intro: returns_ask returns_more [OF returns_leave])
      from returns_act [OF act _ this] show ?thesis by (auto intro: returns_more)
    next
      case False
      have act: "smp_act (Back c) M = Some (goto c ParkTop M)"
        using c(1) 3 assms(4) False by (auto simp: smp_act_def cpu_act_def park_back_def Let_def)
      have "returns_by c 6 (m_now M + l) (goto c ParkTop M)"
        by (rule returns_top [OF smp_reached.reached_act [OF r(1) act]]) (use r assms(5) in simp_all)
      from returns_act [OF act _ this] show ?thesis by simp
    qed
  next
    case 4
    with returns_ask [OF c(1) 4 assms(5) c(2)] show ?thesis by (auto intro: returns_more)
  next
    case 5
    with returns_leave [OF c(1) 5 c(2)] show ?thesis by (auto intro: returns_more)
  qed
  then show ?thesis by (simp add: returns_by_def)
qed

subsection \<open>A run of two\<close>

text \<open>The boot vCPU starts the other, which parks; the boot vCPU goes to the Host and back, which wakes it.\<close>

definition two_acts :: "act list" where
  "two_acts = [Call 0 (CPUStart 1), CountStart 0, Launch 1, LockHost 0, Call 1 (CPUPark (- 1)), Look 1, TakeHost 0, GiveHost 0,
     UnlockHost 0]"

definition two_machine :: smp_machine where
  "two_machine = the (smp_acts two_acts (boot_machine 2 5))"

lemma two_reached: "smp_reached 2 5 two_machine"
proof -
  have "\<not> Option.is_none (smp_acts two_acts (boot_machine 2 5))" by code_simp
  then obtain M where M: "smp_acts two_acts (boot_machine 2 5) = Some M" by (auto simp: Option.is_none_def)
  from smp_reached_acts [OF this smp_reached.reached_boot] show ?thesis by (simp add: two_machine_def M)
qed

lemma two_state: "\<not> m_quit two_machine" "m_running two_machine = 1" "phase_of two_machine 1 = ParkWait False None"
    "v_word (m_cpu two_machine 1)" "m_now two_machine = 0"
  by code_simp+

theorem running_exact_witness:
  "m_running two_machine = int (card {c. c < 2 \<and> (phase_of two_machine c = Started \<or> phase_of two_machine c = InGuest \<or>
      (\<exists>t. phase_of two_machine c = Claimed t) \<or> (\<exists>xs. phase_of two_machine c = Waking xs))}) \<and>
   card {c. c < 2 \<and> phase_of two_machine c = InHost} \<le> 1 \<and> m_running two_machine = 1"
  using running_exact [OF two_reached _ _ two_state(1)] two_state(2) by simp

theorem parks_limited_witness:
  "v_state (m_cpu two_machine 1) = parkedLimited \<and> v_word (m_cpu two_machine 1)"
  using parks_limited [OF two_reached _ _ two_state(1), of 1 False None] two_state by simp

theorem parks_end_witness:
  "\<exists>as M'. length as \<le> 7 \<and> own_acts 1 as \<and> smp_acts as two_machine = Some M' \<and> phase_of M' 1 = InGuest \<and> m_now M' \<le> 5"
  using parks_end [OF two_reached _ _ two_state(1), of 1] two_state by simp

end
