(* ===== verification/VmmTables.thy ===== *)
theory VmmTables
  imports Prelude "HOL-Library.Word"
begin

unbundle bit_operations_syntax

text \<open>
  The guest's memory, vmm/layout.go: where everything is (\<open>plan\<close>, \<open>planGo\<close> of vmm/tamago.go) and
  the page tables \<open>buildTables\<close> writes, in the formats of vmm/setup_amd64.go and
  vmm/setup_arm64.go.  The memory is a byte at each address; a slice's offset is the address as a
  number.  The walk that the processor makes of the tables is the specification they are held to.
\<close>

subsection \<open>Memory\<close>

type_synonym memory = "nat \<Rightarrow> 8 word"

text \<open>The eight bytes of a word, least first: \<open>binary.LittleEndian\<close>.\<close>

definition put64 :: "nat \<Rightarrow> 64 word \<Rightarrow> memory \<Rightarrow> memory" where
  "put64 a v m = (\<lambda>x. if a \<le> x \<and> x < a + 8 then ucast (drop_bit (8 * (x - a)) v) else m x)"

definition get64 :: "nat \<Rightarrow> memory \<Rightarrow> 64 word" where
  "get64 a m =
     ucast (m a) OR push_bit 8 (ucast (m (a + 1))) OR push_bit 16 (ucast (m (a + 2))) OR push_bit 24 (ucast (m (a + 3))) OR
     push_bit 32 (ucast (m (a + 4))) OR push_bit 40 (ucast (m (a + 5))) OR push_bit 48 (ucast (m (a + 6))) OR
     push_bit 56 (ucast (m (a + 7)))"

lemma get64_cong: "(\<And>x. a \<le> x \<Longrightarrow> x < a + 8 \<Longrightarrow> m x = m' x) \<Longrightarrow> get64 a m = get64 a m'"
  by (simp add: get64_def)

lemma get64_other: "b + 8 \<le> a \<or> a + 8 \<le> b \<Longrightarrow> get64 b (put64 a v m) = get64 b m"
  by (rule get64_cong) (auto simp: put64_def)

lemma get64_same: "get64 a (put64 a v m) = v"
proof (rule bit_word_eqI)
  fix n assume "n < LENGTH(64)"
  then have n: "n < 64" by simp
  have b: "bit (ucast (put64 a v m (a + i)) :: 64 word) j \<longleftrightarrow> j < 8 \<and> bit v (8 * i + j)" if "i < 8" for i j
    using that by (auto simp: put64_def bit_simps)
  have b0: "bit (ucast (put64 a v m a) :: 64 word) j \<longleftrightarrow> j < 8 \<and> bit v j" for j
    using b [of 0 j] by simp
  have b1: "bit (ucast (put64 a v m (Suc a)) :: 64 word) j \<longleftrightarrow> j < 8 \<and> bit v (8 + j)"
    "bit (ucast (put64 a v m (Suc (Suc a))) :: 64 word) j \<longleftrightarrow> j < 8 \<and> bit v (16 + j)" for j
    using b [of 1 j] b [of 2 j] by simp_all
  show "bit (get64 a (put64 a v m)) n = bit v n"
  proof -
    let ?m = "put64 a v m"
    have or: "bit (get64 a ?m) n \<longleftrightarrow> bit (ucast (?m a) :: 64 word) n \<or> 8 \<le> n \<and> bit (ucast (?m (a + 1)) :: 64 word) (n - 8) \<or>
        16 \<le> n \<and> bit (ucast (?m (a + 2)) :: 64 word) (n - 16) \<or> 24 \<le> n \<and> bit (ucast (?m (a + 3)) :: 64 word) (n - 24) \<or>
        32 \<le> n \<and> bit (ucast (?m (a + 4)) :: 64 word) (n - 32) \<or> 40 \<le> n \<and> bit (ucast (?m (a + 5)) :: 64 word) (n - 40) \<or>
        48 \<le> n \<and> bit (ucast (?m (a + 6)) :: 64 word) (n - 48) \<or> 56 \<le> n \<and> bit (ucast (?m (a + 7)) :: 64 word) (n - 56)"
      using n unfolding get64_def bit_or_iff bit_push_bit_iff by auto
    have "n < 8 \<or> 8 \<le> n \<and> n < 16 \<or> 16 \<le> n \<and> n < 24 \<or> 24 \<le> n \<and> n < 32 \<or> 32 \<le> n \<and> n < 40 \<or> 40 \<le> n \<and> n < 48 \<or>
        48 \<le> n \<and> n < 56 \<or> 56 \<le> n" by arith
    then show ?thesis unfolding or using n by (elim disjE) (auto simp: b0 b1 b)
  qed
qed

lemma get64_zero: "(\<And>x. a \<le> x \<Longrightarrow> x < a + 8 \<Longrightarrow> m x = 0) \<Longrightarrow> get64 a m = 0"
  by (simp add: get64_def)

subsection \<open>The layout\<close>

type_synonym addr = "64 word"
type_synonym perm = "8 word"

abbreviation sysBase :: addr where "sysBase \<equiv> 0x1000"
abbreviation argsEnd :: addr where "argsEnd \<equiv> 0x10000"
abbreviation tablesBase :: addr where "tablesBase \<equiv> 0x10000"
abbreviation tablesEnd :: addr where "tablesEnd \<equiv> 0x200000"
abbreviation imageBase :: addr where "imageBase \<equiv> 0x200000"
abbreviation pageSize :: addr where "pageSize \<equiv> 0x1000"
abbreviation blockSize :: addr where "blockSize \<equiv> 0x200000"
abbreviation Doorbell :: addr where "Doorbell \<equiv> 0xf0000000"
abbreviation StackBytes :: addr where "StackBytes \<equiv> 0x4000000"
abbreviation FaultStackBytes :: addr where "FaultStackBytes \<equiv> 0x10000"
abbreviation HeapBytes :: addr where "HeapBytes \<equiv> 0x40000000"
abbreviation GoRAMBytes :: addr where "GoRAMBytes \<equiv> 0xc0000000"

abbreviation pRead :: perm where "pRead \<equiv> 1"
abbreviation pWrite :: perm where "pWrite \<equiv> 2"
abbreviation pExec :: perm where "pExec \<equiv> 4"
abbreviation pDevice :: perm where "pDevice \<equiv> 8"

record span =
  s_lo :: addr
  s_hi :: addr
  s_perm :: perm

definition roundUp :: "addr \<Rightarrow> addr \<Rightarrow> addr" where
  "roundUp v a = (v + a - 1) AND NOT (a - 1)"

text \<open>A program header of the image, as \<open>debug/elf\<close> gives it: whether it is loaded, where, and its flags.\<close>

record prog =
  p_load :: bool
  p_vaddr :: addr
  p_paddr :: addr
  p_memsz :: addr
  p_r :: bool
  p_w :: bool
  p_x :: bool

record image =
  i_loads :: "prog list"
  i_entry :: addr
  i_vectors :: addr
  i_apEntry :: addr
  i_end :: addr

datatype image_error = WrongMachine | Misplaced addr | NothingToLoad | NoSymbols | NoVectors

fun load_progs :: "prog list \<Rightarrow> image \<Rightarrow> image_error + image" where
  "load_progs [] im = Inr im"
| "load_progs (p # ps) im =
     (if \<not> p_load p \<or> p_memsz p = 0 then load_progs ps im
      else if p_vaddr p < imageBase \<or> p_vaddr p mod pageSize \<noteq> 0 \<or> p_paddr p \<noteq> p_vaddr p then Inl (Misplaced (p_vaddr p))
      else load_progs ps (im\<lparr>i_loads := i_loads im @ [p], i_end := max (i_end im) (p_vaddr p + p_memsz p)\<rparr>))"

fun load_syms :: "(bytes \<times> addr) list \<Rightarrow> image \<Rightarrow> image" where
  "load_syms [] im = im"
| "load_syms ((s, v) # ss) im =
     load_syms ss (if s = ''whim_vectors'' then im\<lparr>i_vectors := v\<rparr> else if s = ''whim_apentry'' then im\<lparr>i_apEntry := v\<rparr> else im)"

text \<open>Whether the image is the machine's, its program headers, its entry, and its symbols if they can be read.\<close>

definition loadImage :: "bool \<Rightarrow> prog list \<Rightarrow> addr \<Rightarrow> (bytes \<times> addr) list option \<Rightarrow> image_error + image" where
  "loadImage ours ps entry syms =
     (if \<not> ours then Inl WrongMachine
      else case load_progs ps \<lparr>i_loads = [], i_entry = entry, i_vectors = 0, i_apEntry = 0, i_end = 0\<rparr> of
        Inl e \<Rightarrow> Inl e
      | Inr im \<Rightarrow>
          if i_loads im = [] then Inl NothingToLoad
          else (case syms of
              None \<Rightarrow> Inl NoSymbols
            | Some ss \<Rightarrow> (let im1 = load_syms ss im in if i_vectors im1 = 0 then Inl NoVectors else Inr im1)))"

record layout =
  l_spans :: "span list"
  l_stackTop :: addr
  l_faultTop :: addr
  l_heap :: addr
  l_size :: addr
  l_ramStart :: addr
  l_cpus :: nat

definition prog_perm :: "prog \<Rightarrow> perm" where
  "prog_perm p = (if p_r p then pRead else 0) OR (if p_w p then pWrite else 0) OR (if p_x p then pExec else 0)"

definition prog_span :: "prog \<Rightarrow> span" where
  "prog_span p = \<lparr>s_lo = p_vaddr p, s_hi = roundUp (p_vaddr p + p_memsz p) pageSize, s_perm = prog_perm p\<rparr>"

definition sys_span :: span where
  "sys_span = \<lparr>s_lo = sysBase, s_hi = argsEnd, s_perm = pRead OR pWrite\<rparr>"

definition door_span :: span where
  "door_span = \<lparr>s_lo = Doorbell, s_hi = Doorbell + pageSize, s_perm = pWrite OR pDevice\<rparr>"

definition plan :: "image \<Rightarrow> nat \<Rightarrow> layout" where
  "plan im cpus =
     (let guard = roundUp (i_end im) blockSize;
        stackLo = guard + pageSize;
        stackTop = stackLo + StackBytes;
        faultTop = stackTop + of_nat cpus * FaultStackBytes;
        heap = roundUp faultTop blockSize;
        top = heap + HeapBytes in
      \<lparr>l_spans = [sys_span] @ map prog_span (i_loads im) @
         [\<lparr>s_lo = stackLo, s_hi = faultTop, s_perm = pRead OR pWrite\<rparr>, \<lparr>s_lo = heap, s_hi = top, s_perm = pRead OR pWrite\<rparr>, door_span],
       l_stackTop = stackTop, l_faultTop = faultTop, l_heap = heap, l_size = top, l_ramStart = 0, l_cpus = cpus\<rparr>)"

definition planGo :: "image \<Rightarrow> nat \<Rightarrow> layout" where
  "planGo im cpus =
     (let base = fold (\<lambda>p b. min b (p_vaddr p)) (i_loads im) Doorbell;
        heap = roundUp (i_end im) pageSize;
        top = base + GoRAMBytes in
      \<lparr>l_spans = [sys_span] @ map prog_span (i_loads im) @ [\<lparr>s_lo = heap, s_hi = top, s_perm = pRead OR pWrite\<rparr>, door_span],
       l_stackTop = top - of_nat cpus * FaultStackBytes, l_faultTop = top, l_heap = heap, l_size = top, l_ramStart = base, l_cpus = cpus\<rparr>)"

fun permAt :: "span list \<Rightarrow> addr \<Rightarrow> perm" where
  "permAt [] va = 0"
| "permAt (s # ss) va = (if s_lo s \<le> va \<and> va < s_hi s then s_perm s else permAt ss va)"

subsection \<open>The page tables\<close>

record ptFormat =
  f_levels :: nat
  f_table :: "addr \<Rightarrow> addr"
  f_leaf :: "addr \<Rightarrow> perm \<Rightarrow> bool \<Rightarrow> addr"

definition amd64_leaf :: "addr \<Rightarrow> perm \<Rightarrow> bool \<Rightarrow> addr" where
  "amd64_leaf pa p big =
     pa OR 1 OR (if p AND pWrite \<noteq> 0 then 2 else 0) OR (if p AND pExec = 0 then push_bit 63 1 else 0) OR (if big then 0x80 else 0)"

definition amd64Format :: ptFormat where
  "amd64Format = \<lparr>f_levels = 4, f_table = (\<lambda>pa. pa OR 1 OR 2), f_leaf = amd64_leaf\<rparr>"

definition arm64_leaf :: "addr \<Rightarrow> perm \<Rightarrow> bool \<Rightarrow> addr" where
  "arm64_leaf pa p big =
     pa OR 1 OR 0x400 OR push_bit 54 1 OR (if \<not> big then 2 else 0) OR (if p AND pDevice \<noteq> 0 then 4 else 0x300) OR
     (if p AND pWrite = 0 then 0x80 else 0) OR (if p AND pExec = 0 then push_bit 53 1 else 0)"

definition arm64Format :: ptFormat where
  "arm64Format = \<lparr>f_levels = 3, f_table = (\<lambda>pa. pa OR 1 OR 2), f_leaf = arm64_leaf\<rparr>"

text \<open>The memory and the next free table.\<close>

record tables =
  t_mem :: memory
  t_next :: addr

definition put_at :: "addr \<Rightarrow> addr \<Rightarrow> tables \<Rightarrow> tables" where
  "put_at a v B = B\<lparr>t_mem := put64 (unat a) v (t_mem B)\<rparr>"

text \<open>A table, or \<open>None\<close> when the area is full.\<close>

definition alloc_table :: "tables \<Rightarrow> (addr \<times> tables) option" where
  "alloc_table B = (if t_next B \<ge> tablesEnd then None else Some (t_next B, B\<lparr>t_next := t_next B + pageSize\<rparr>))"

definition level_shift :: "nat \<Rightarrow> nat \<Rightarrow> nat" where
  "level_shift levels lv = 12 + 9 * (levels - 1 - lv)"

definition table_mask :: addr where
  "table_mask = 0x0000fffffffff000"

text \<open>The loop of \<open>walk\<close>, \<open>k\<close> levels to go, at the table \<open>t\<close> of level \<open>lv\<close>.\<close>

primrec walk_loop :: "nat \<Rightarrow> ptFormat \<Rightarrow> addr \<Rightarrow> nat \<Rightarrow> addr \<Rightarrow> tables \<Rightarrow> (addr \<times> tables) option" where
  "walk_loop 0 f va lv t B = Some (t, B)"
| "walk_loop (Suc k) f va lv t B =
     (let ix = drop_bit (level_shift (f_levels f) lv) va AND 511; e = get64 (unat (t + ix * 8)) (t_mem B) in
      if e = 0 then
        (case alloc_table B of
           None \<Rightarrow> None
         | Some (n, B1) \<Rightarrow> walk_loop k f va (Suc lv) (f_table f n AND table_mask) (put_at (t + ix * 8) (f_table f n) B1))
      else walk_loop k f va (Suc lv) (e AND table_mask) B)"

text \<open>The pages of a block: none when the block's end is past the last address.\<close>

definition block_pages :: "addr \<Rightarrow> addr list" where
  "block_pages b = (if b < b + blockSize then map (\<lambda>i. b + of_nat i * pageSize) [0..<512] else [])"

definition put_page :: "ptFormat \<Rightarrow> span list \<Rightarrow> addr \<Rightarrow> addr \<Rightarrow> tables \<Rightarrow> tables" where
  "put_page f ss pt va B =
     (let p = permAt ss va in
      if p \<noteq> 0 then put_at (pt + (drop_bit 12 va AND 511) * 8) (f_leaf f va p False) B else B)"

definition build_block :: "ptFormat \<Rightarrow> span list \<Rightarrow> addr \<Rightarrow> addr \<Rightarrow> tables \<Rightarrow> tables option" where
  "build_block f ss root b B =
     (let p0 = permAt ss b; uniform = list_all (\<lambda>va. permAt ss va = p0) (block_pages b) in
      case walk_loop (f_levels f - 2) f b 0 root B of
        None \<Rightarrow> None
      | Some (t, B1) \<Rightarrow>
          (let e = t + (drop_bit 21 b AND 511) * 8 in
           if uniform then Some (if p0 \<noteq> 0 then put_at e (f_leaf f b p0 True) B1 else B1)
           else (case alloc_table B1 of
               None \<Rightarrow> None
             | Some (pt, B2) \<Rightarrow> Some (fold (put_page f ss pt) (block_pages b) (put_at e (f_table f pt) B2)))))"

text \<open>
  The loop over a span's blocks, with those seen.  It does not end when the last block of the
  address space is below the span's end, for the next address is the first: then it has no value.
  Its value is \<open>None\<close> in turn when the area is full.
\<close>

partial_function (option) block_loop ::
  "ptFormat \<Rightarrow> span list \<Rightarrow> addr \<Rightarrow> addr \<Rightarrow> addr \<Rightarrow> addr set \<Rightarrow> tables \<Rightarrow> (addr set \<times> tables) option option" where
  "block_loop f ss root hi b D B =
     (if b < hi then
        (if b \<in> D then block_loop f ss root hi (b + blockSize) D B
         else (case build_block f ss root b B of
             None \<Rightarrow> Some None
           | Some B1 \<Rightarrow> block_loop f ss root hi (b + blockSize) (insert b D) B1))
      else Some (Some (D, B)))"

fun span_loop :: "ptFormat \<Rightarrow> span list \<Rightarrow> addr \<Rightarrow> span list \<Rightarrow> addr set \<Rightarrow> tables \<Rightarrow> (addr set \<times> tables) option option" where
  "span_loop f ss root [] D B = Some (Some (D, B))"
| "span_loop f ss root (s # rest) D B =
     (case block_loop f ss root (s_hi s) (s_lo s AND NOT (blockSize - 1)) D B of
        None \<Rightarrow> None
      | Some None \<Rightarrow> Some None
      | Some (Some (D1, B1)) \<Rightarrow> span_loop f ss root rest D1 B1)"

text \<open>The root and what is built; \<open>Some None\<close> is the error of a full area.\<close>

definition buildTables :: "ptFormat \<Rightarrow> span list \<Rightarrow> memory \<Rightarrow> (addr \<times> tables) option option" where
  "buildTables f ss m =
     (case alloc_table \<lparr>t_mem = m, t_next = tablesBase\<rparr> of
        None \<Rightarrow> Some None
      | Some (root, B) \<Rightarrow>
          (case span_loop f ss root ss {} B of
             None \<Rightarrow> None
           | Some None \<Rightarrow> Some None
           | Some (Some (D, B1)) \<Rightarrow> Some (Some (root, B1))))"

end
