(* ===== verification/VmmPaging.thy ===== *)
theory VmmPaging
  imports VmmTables
begin

unbundle bit_operations_syntax

text \<open>
  What the page tables must be: the walk a processor makes of them, \<open>hw_walk\<close>, finds each address
  at itself with the permissions \<open>permAt\<close> gives it, and finds nothing where it gives none.  The
  locale \<open>paging\<close> states what a format promises: how its entries are decoded; it is
  interpreted on both formats of the code.
\<close>

subsection \<open>The processor's walk\<close>

datatype pt_entry = Absent | ToTable addr bool bool | ToPage addr bool bool

text \<open>The walk from a table, \<open>k\<close> levels above the pages; what a table's entry forbids is forbidden below it.\<close>

primrec hw_walk :: "(bool \<Rightarrow> addr \<Rightarrow> pt_entry) \<Rightarrow> nat \<Rightarrow> memory \<Rightarrow> addr \<Rightarrow> addr \<Rightarrow> (addr \<times> bool \<times> bool) option" where
  "hw_walk dec 0 m t va =
     (case dec True (get64 (unat (t + (drop_bit 12 va AND 511) * 8)) m) of
        ToPage pa w x \<Rightarrow> Some (pa OR (va AND mask 12), w, x)
      | _ \<Rightarrow> None)"
| "hw_walk dec (Suc k) m t va =
     (case dec False (get64 (unat (t + (drop_bit (12 + 9 * Suc k) va AND 511) * 8)) m) of
        Absent \<Rightarrow> None
      | ToPage pa w x \<Rightarrow> Some (pa OR (va AND mask (12 + 9 * Suc k)), w, x)
      | ToTable u w x \<Rightarrow> map_option (\<lambda>(pa, w', x'). (pa, w \<and> w', x \<and> x')) (hw_walk dec k m u va))"

text \<open>An entry of amd64: present, a large page, writable, not executable.\<close>

definition amd64_decode :: "bool \<Rightarrow> addr \<Rightarrow> pt_entry" where
  "amd64_decode lowest e =
     (if \<not> bit e 0 then Absent
      else if lowest \<or> bit e 7 then ToPage (e AND 0x000ffffffffff000) (bit e 1) (\<not> bit e 63)
      else ToTable (e AND 0x000ffffffffff000) (bit e 1) (\<not> bit e 63))"

text \<open>A descriptor of arm64: valid, a table or a page; read-only, not executable; a table's limits.\<close>

definition arm64_decode :: "bool \<Rightarrow> addr \<Rightarrow> pt_entry" where
  "arm64_decode lowest e =
     (if \<not> bit e 0 then Absent
      else if lowest then (if bit e 1 then ToPage (e AND 0x0000fffffffff000) (\<not> bit e 7) (\<not> bit e 53) else Absent)
      else if bit e 1 then ToTable (e AND 0x0000fffffffff000) (\<not> bit e 62) (\<not> bit e 59)
      else ToPage (e AND 0x0000fffffffff000) (\<not> bit e 7) (\<not> bit e 53))"

locale paging =
  fixes f :: ptFormat and dec :: "bool \<Rightarrow> addr \<Rightarrow> pt_entry"
  assumes levels: "2 \<le> f_levels f" "f_levels f \<le> 4"
    and absent: "dec b 0 = Absent"
    and table: "a AND mask 12 = 0 \<Longrightarrow> unat a < 2 ^ 21 \<Longrightarrow> dec False (f_table f a) = ToTable a True True \<and> f_table f a AND table_mask = a"
    and page: "a AND mask 12 = 0 \<Longrightarrow> unat a < 2 ^ 48 \<Longrightarrow> dec True (f_leaf f a p False) = ToPage a (p AND pWrite \<noteq> 0) (p AND pExec \<noteq> 0)"
    and large: "a AND mask 21 = 0 \<Longrightarrow> unat a < 2 ^ 48 \<Longrightarrow> dec False (f_leaf f a p True) = ToPage a (p AND pWrite \<noteq> 0) (p AND pExec \<noteq> 0)"

subsection \<open>The formats\<close>

lemma const_bits:
  "bit (1 :: addr) n \<longleftrightarrow> n = 0" "bit (2 :: addr) n \<longleftrightarrow> n = 1" "bit (4 :: addr) n \<longleftrightarrow> n = 2" "bit (0x80 :: addr) n \<longleftrightarrow> n = 7"
  "bit (3 :: addr) n \<longleftrightarrow> n = 0 \<or> n = 1" "bit (0x400 :: addr) n \<longleftrightarrow> n = 10" "bit (0x300 :: addr) n \<longleftrightarrow> n = 8 \<or> n = 9"
  "bit (0x20000000000000 :: addr) n \<longleftrightarrow> n = 53" "bit (0x40000000000000 :: addr) n \<longleftrightarrow> n = 54" "bit (0x8000000000000000 :: addr) n \<longleftrightarrow> n = 63"
proof -
  have e: "(2 :: addr) = push_bit 1 1" "(4 :: addr) = push_bit 2 1" "(0x80 :: addr) = push_bit 7 1"
    "(0x400 :: addr) = push_bit 10 1" "(0x300 :: addr) = push_bit 8 1 OR push_bit 9 1"
    "(0x20000000000000 :: addr) = push_bit 53 1" "(0x40000000000000 :: addr) = push_bit 54 1"
    "(0x8000000000000000 :: addr) = push_bit 63 1" by simp_all
  have three: "(3 :: addr) = 1 OR push_bit 1 1" by simp
  show "bit (1 :: addr) n \<longleftrightarrow> n = 0" by (auto simp: bit_1_iff)
  show "bit (2 :: addr) n \<longleftrightarrow> n = 1" "bit (4 :: addr) n \<longleftrightarrow> n = 2" "bit (0x80 :: addr) n \<longleftrightarrow> n = 7"
    "bit (0x400 :: addr) n \<longleftrightarrow> n = 10" "bit (0x300 :: addr) n \<longleftrightarrow> n = 8 \<or> n = 9"
    "bit (0x20000000000000 :: addr) n \<longleftrightarrow> n = 53" "bit (0x40000000000000 :: addr) n \<longleftrightarrow> n = 54" "bit (0x8000000000000000 :: addr) n \<longleftrightarrow> n = 63"
    unfolding e by (simp_all only: bit_push_bit_iff bit_or_iff bit_1_iff possible_bit_def) auto
  show "bit (3 :: addr) n \<longleftrightarrow> n = 0 \<or> n = 1"
    unfolding three by (simp only: bit_push_bit_iff bit_or_iff bit_1_iff possible_bit_def) auto
qed

lemma field_masks: "(0x000ffffffffff000 :: addr) = push_bit 12 (mask 40)" "(0x0000fffffffff000 :: addr) = push_bit 12 (mask 36)"
  by (simp_all add: mask_eq_exp_minus_1)

lemma addr_bits:
  fixes a :: addr
  assumes "a AND mask k = 0" "unat a < 2 ^ h"
  shows "n < k \<Longrightarrow> \<not> bit a n" "h \<le> n \<Longrightarrow> \<not> bit a n"
proof -
  show "\<not> bit a n" if "n < k"
  proof (rule notI)
    assume b: "bit a n"
    then have "n < 64" using bit_imp_le_length by fastforce
    with b that have "bit (a AND mask k) n" by (simp add: bit_simps)
    with assms(1) show False by simp
  qed
  show "\<not> bit a n" if "h \<le> n"
  proof -
    have "unat a < 2 ^ n" using assms(2) that by (meson less_le_trans one_le_numeral power_increasing)
    moreover have "unat (drop_bit n a) = unat a div 2 ^ n" unfolding unat_drop_bit_eq by (simp add: drop_bit_eq_div)
    ultimately have "unat (drop_bit n a) = 0" by simp
    then have "drop_bit n a = 0" by (simp add: unat_eq_zero)
    then have "\<not> bit (drop_bit n a) 0" by simp
    then show ?thesis by (simp add: bit_drop_bit_eq)
  qed
qed

declare bit_numeral_word_iff [simp del]

lemma addr_bitD: "bit a n \<Longrightarrow> a AND mask k = 0 \<Longrightarrow> unat a < 2 ^ h \<Longrightarrow> k \<le> n \<and> n < h" for a :: addr
  using addr_bits [of a k h n] by (meson not_le)

lemma field_eq:
  fixes a :: addr
  assumes "a AND mask 12 = 0" "unat a < 2 ^ h" "h \<le> 12 + w" "\<And>n. 12 \<le> n \<Longrightarrow> n < 12 + w \<Longrightarrow> n < 64 \<Longrightarrow> bit e n = bit a n"
  shows "e AND push_bit 12 (mask w) = a"
proof (rule bit_word_eqI)
  fix n assume "n < LENGTH(64)"
  then have n: "n < 64" by simp
  show "bit (e AND push_bit 12 (mask w)) n = bit a n"
  proof (cases "12 \<le> n \<and> n < 12 + w")
    case True
    with n assms(4) [of n] show ?thesis by (auto simp: bit_simps)
  next
    case False
    then have "\<not> bit a n" using addr_bitD [OF _ assms(1,2), of n] assms(3) by fastforce
    with False show ?thesis by (auto simp: bit_simps)
  qed
qed

lemma amd64_table: "a AND mask 12 = 0 \<Longrightarrow> unat a < 2 ^ 21 \<Longrightarrow>
    amd64_decode False (a OR 1 OR 2) = ToTable a True True \<and> (a OR 1 OR 2) AND table_mask = a"
proof -
  assume a: "a AND mask 12 = 0" "unat a < 2 ^ 21"
  have b: "\<not> bit a 7" "\<not> bit a 63" using addr_bitD [OF _ a] by fastforce+
  have "(a OR 1 OR 2) AND push_bit 12 (mask 40) = a" "(a OR 1 OR 2) AND push_bit 12 (mask 36) = a"
    by (rule field_eq [OF a]; simp add: bit_or_iff const_bits del: or.assoc)+
  then show ?thesis unfolding amd64_decode_def table_mask_def field_masks by (simp add: b bit_or_iff const_bits)
qed

lemma arm64_table: "a AND mask 12 = 0 \<Longrightarrow> unat a < 2 ^ 21 \<Longrightarrow>
    arm64_decode False (a OR 1 OR 2) = ToTable a True True \<and> (a OR 1 OR 2) AND table_mask = a"
proof -
  assume a: "a AND mask 12 = 0" "unat a < 2 ^ 21"
  have b: "\<not> bit a 59" "\<not> bit a 62" using addr_bitD [OF _ a] by fastforce+
  have "(a OR 1 OR 2) AND push_bit 12 (mask 36) = a"
    by (rule field_eq [OF a]; simp add: bit_or_iff const_bits)
  then show ?thesis unfolding arm64_decode_def table_mask_def field_masks by (simp add: b bit_or_iff const_bits)
qed

lemma amd64_page: "a AND mask 12 = 0 \<Longrightarrow> unat a < 2 ^ 48 \<Longrightarrow> lowest \<or> big \<Longrightarrow>
    amd64_decode lowest (amd64_leaf a p big) = ToPage a (p AND pWrite \<noteq> 0) (p AND pExec \<noteq> 0)"
proof -
  assume a: "a AND mask 12 = 0" "unat a < 2 ^ 48" and l: "lowest \<or> big"
  have b: "\<not> bit a 0" "\<not> bit a 1" "\<not> bit a 7" "\<not> bit a 63" using addr_bitD [OF _ a] by fastforce+
  have "amd64_leaf a p big AND push_bit 12 (mask 40) = a"
    by (rule field_eq [OF a]; simp add: amd64_leaf_def bit_simps const_bits)
  moreover have "bit (amd64_leaf a p big) 0" "bit (amd64_leaf a p big) 1 \<longleftrightarrow> p AND pWrite \<noteq> 0"
      "bit (amd64_leaf a p big) 63 \<longleftrightarrow> p AND pExec = 0" "big \<Longrightarrow> bit (amd64_leaf a p big) 7"
    by (simp_all add: amd64_leaf_def bit_simps const_bits b b(2) [unfolded One_nat_def])
  ultimately show ?thesis using l unfolding amd64_decode_def field_masks by auto
qed

lemma arm64_page: "a AND mask 12 = 0 \<Longrightarrow> unat a < 2 ^ 48 \<Longrightarrow>
    arm64_decode (\<not> big) (arm64_leaf a p big) = ToPage a (p AND pWrite \<noteq> 0) (p AND pExec \<noteq> 0)"
proof -
  assume a: "a AND mask 12 = 0" "unat a < 2 ^ 48"
  have b: "\<not> bit a 0" "\<not> bit a 1" "\<not> bit a 7" "\<not> bit a 53" using addr_bitD [OF _ a] by fastforce+
  have "arm64_leaf a p big AND push_bit 12 (mask 36) = a"
    by (rule field_eq [OF a]; simp add: arm64_leaf_def bit_simps const_bits)
  moreover have "bit (arm64_leaf a p big) 0" "bit (arm64_leaf a p big) 1 \<longleftrightarrow> \<not> big"
      "bit (arm64_leaf a p big) 7 \<longleftrightarrow> p AND pWrite = 0" "bit (arm64_leaf a p big) 53 \<longleftrightarrow> p AND pExec = 0"
    by (simp_all add: arm64_leaf_def bit_simps const_bits b b(2) [unfolded One_nat_def])
  ultimately show ?thesis unfolding arm64_decode_def field_masks by auto
qed

lemma mask21_12: "a AND mask 21 = 0 \<Longrightarrow> a AND mask 12 = 0" for a :: addr
proof -
  assume a: "a AND mask 21 = 0"
  have "(mask 12 :: addr) = mask 21 AND mask 12" by (simp add: mask_eq_exp_minus_1)
  then have "a AND mask 12 = (a AND mask 21) AND mask 12" by (simp only: and.assoc)
  with a show ?thesis by simp
qed

interpretation amd64: paging amd64Format amd64_decode
proof (unfold_locales, goal_cases)
  case (3 b)
  show ?case by (simp add: amd64_decode_def)
next
  case (4 a)
  then show ?case using amd64_table by (simp add: amd64Format_def)
next
  case (5 a p)
  then show ?case using amd64_page [of a True False p] by (simp add: amd64Format_def)
next
  case (6 a p)
  then show ?case using amd64_page [OF mask21_12, of a False True p] by (simp add: amd64Format_def)
qed (simp_all add: amd64Format_def)

interpretation arm64: paging arm64Format arm64_decode
proof (unfold_locales, goal_cases)
  case (3 b)
  show ?case by (simp add: arm64_decode_def)
next
  case (4 a)
  then show ?case using arm64_table by (simp add: arm64Format_def)
next
  case (5 a p)
  then show ?case using arm64_page [of a False p] by (simp add: arm64Format_def)
next
  case (6 a p)
  then show ?case using arm64_page [OF mask21_12, of a True p] by (simp add: arm64Format_def)
qed (simp_all add: arm64Format_def)

end
