(* ===== verification/VmmMapped.thy ===== *)
theory VmmMapped
  imports VmmPaging
begin

unbundle bit_operations_syntax

text \<open>
  That \<open>buildTables\<close> builds what the processor's walk needs.  The tables in the memory are followed by
  a ghost: the address of the table of each level and prefix, the blocks mapped whole, the pages
  mapped; the invariant says what every entry of every table is.
\<close>

subsection \<open>Addresses as numbers\<close>

lemma unat_index: "unat (drop_bit s va AND 511) = unat va div 2 ^ s mod 512" for va :: addr
proof -
  have m: "(511 :: addr) = mask 9" by (simp add: mask_eq_exp_minus_1)
  have "unat (take_bit 9 (drop_bit s va)) = take_bit 9 (unat (drop_bit s va))" by (simp only: unsigned_take_bit_eq)
  also have "\<dots> = unat va div 2 ^ s mod 512"
    unfolding unat_drop_bit_eq by (simp add: drop_bit_eq_div take_bit_eq_mod)
  finally show ?thesis unfolding m take_bit_eq_mask .
qed

lemma unat_entry:
  fixes t va :: addr
  assumes "unat t + 4096 \<le> 2 ^ 21"
  shows "unat (t + (drop_bit s va AND 511) * 8) = unat t + 8 * (unat va div 2 ^ s mod 512)"
proof -
  let ?i = "drop_bit s va AND 511"
  have i: "unat ?i = unat va div 2 ^ s mod 512" by (rule unat_index)
  then have "unat ?i < 512" by simp
  then have "unat (?i * 8) = unat ?i * 8" by (simp add: unat_word_ariths(2))
  moreover have "unat ?i * 8 \<le> 4088" using \<open>unat ?i < 512\<close> by simp
  ultimately have "unat (t + ?i * 8) = unat t + unat ?i * 8" using assms by (simp add: unat_word_ariths(1))
  then show ?thesis by (simp only: i mult.commute)
qed

lemma unat_small: "n < 2 ^ 64 \<Longrightarrow> unat (of_nat n :: addr) = n"
proof -
  assume "n < 2 ^ 64"
  then have "n < 2 ^ LENGTH(64)" by simp
  then show ?thesis by (simp add: unsigned_of_nat take_bit_nat_eq_self)
qed

lemma mask_zero: "a AND mask k = 0 \<longleftrightarrow> unat a mod 2 ^ k = 0" for a :: addr
proof -
  have "unat (take_bit k a) = unat a mod 2 ^ k"
    unfolding unsigned_take_bit_eq by (simp only: take_bit_eq_mod)
  then show ?thesis by (simp add: take_bit_eq_mask [symmetric] unat_eq_zero [symmetric] del: unat_eq_zero)
qed

lemma base_or: "of_nat (unat va div 2 ^ k * 2 ^ k) OR (va AND mask k) = (va :: addr)"
proof -
  have "of_nat (unat va div 2 ^ k * 2 ^ k) = push_bit k (drop_bit k va)"
  proof -
    have "drop_bit k va = of_nat (unat (drop_bit k va))" by simp
    also have "\<dots> = of_nat (unat va div 2 ^ k)" unfolding unat_drop_bit_eq by (simp add: drop_bit_eq_div)
    finally have "drop_bit k va = of_nat (unat va div 2 ^ k)" .
    then show ?thesis by (simp only: push_bit_eq_mult of_nat_mult of_nat_power of_nat_numeral)
  qed
  then show ?thesis by (auto intro!: bit_word_eqI simp: bit_simps)
qed

text \<open>Pages and blocks by their numbers.\<close>

definition page_at :: "nat \<Rightarrow> addr" where
  "page_at q = of_nat (q * 2 ^ 12)"

definition block_at :: "nat \<Rightarrow> addr" where
  "block_at n = of_nat (n * 2 ^ 21)"

lemma unat_page_at: "q < 2 ^ 40 \<Longrightarrow> unat (page_at q) = q * 2 ^ 12"
  unfolding page_at_def by (rule unat_small) simp

lemma unat_block_at: "n < 2 ^ 40 \<Longrightarrow> unat (block_at n) = n * 2 ^ 21"
  unfolding block_at_def by (rule unat_small) simp

lemma block_page: "block_at n = page_at (n * 512)"
  by (simp add: block_at_def page_at_def)

lemma page_at_or: "page_at (unat va div 2 ^ 12) OR (va AND mask 12) = va"
  unfolding page_at_def by (rule base_or)

lemma block_at_or: "block_at (unat va div 2 ^ 21) OR (va AND mask 21) = va"
  unfolding block_at_def by (rule base_or)

definition spans_aligned :: "span list \<Rightarrow> bool" where
  "spans_aligned ss \<longleftrightarrow> (\<forall>s \<in> set ss. unat (s_lo s) mod 2 ^ 12 = 0 \<and> unat (s_hi s) mod 2 ^ 12 = 0)"

lemma permAt_page:
  assumes "spans_aligned ss" "unat va < 2 ^ 48"
  shows "permAt ss va = permAt ss (page_at (unat va div 2 ^ 12))"
  using assms(1)
proof (induction ss)
  case (Cons s ss)
  have p: "unat (page_at (unat va div 2 ^ 12)) = unat va div 2 ^ 12 * 2 ^ 12" by (rule unat_page_at) (use assms(2) in simp)
  have a: "unat (s_lo s) mod 2 ^ 12 = 0" "unat (s_hi s) mod 2 ^ 12 = 0" using Cons.prems by (simp_all add: spans_aligned_def)
  have le: "x \<le> y \<longleftrightarrow> x \<le> y div 2 ^ 12 * 2 ^ 12" if "x mod 2 ^ 12 = 0" for x y :: nat
  proof -
    from that obtain c where "x = c * 2 ^ 12" by (metis dvdE mod_0_imp_dvd mult.commute)
    then show ?thesis by (simp add: less_eq_div_iff_mult_less_eq)
  qed
  have "s_lo s \<le> va \<longleftrightarrow> s_lo s \<le> page_at (unat va div 2 ^ 12)" "va < s_hi s \<longleftrightarrow> page_at (unat va div 2 ^ 12) < s_hi s"
    unfolding word_le_nat_alt word_less_nat_alt p using le [OF a(1), of "unat va"] le [OF a(2), of "unat va"] by linarith+
  with Cons show ?case by (simp add: spans_aligned_def)
qed simp

lemma block_pages_at: "n < 2 ^ 27 \<Longrightarrow> block_pages (block_at n) = map (\<lambda>i. page_at (n * 512 + i)) [0..<512]"
proof -
  assume n: "n < 2 ^ 27"
  have u: "unat (block_at n) = n * 2 ^ 21" by (rule unat_block_at) (use n in simp)
  have "unat (block_at n + blockSize) = n * 2 ^ 21 + 2 ^ 21" using n by (simp add: unat_word_ariths(1) u)
  then have "block_at n < block_at n + blockSize" by (simp add: word_less_nat_alt u)
  moreover have "block_at n + of_nat i * pageSize = page_at (n * 512 + i)" for i
    by (simp add: block_at_def page_at_def algebra_simps)
  ultimately show ?thesis by (simp add: block_pages_def)
qed

subsection \<open>The ghost\<close>

type_synonym ghost = "nat \<Rightarrow> nat \<Rightarrow> addr option"

text \<open>What entry \<open>i\<close> of the table of prefix \<open>p\<close>, \<open>k\<close> levels above the pages, must hold.\<close>

definition expected :: "ptFormat \<Rightarrow> span list \<Rightarrow> ghost \<Rightarrow> nat set \<Rightarrow> nat set \<Rightarrow> nat \<Rightarrow> nat \<Rightarrow> nat \<Rightarrow> addr" where
  "expected f ss T D Q k p i =
     (let c = p * 512 + i in
      if k = 0 then (if c \<in> Q \<and> permAt ss (page_at c) \<noteq> 0 then f_leaf f (page_at c) (permAt ss (page_at c)) False else 0)
      else (case T (k - 1) c of
          Some a \<Rightarrow> f_table f a
        | None \<Rightarrow> if k = 1 \<and> c \<in> D \<and> permAt ss (block_at c) \<noteq> 0 then f_leaf f (block_at c) (permAt ss (block_at c)) True else 0))"

definition tables_ok :: "nat \<Rightarrow> addr \<Rightarrow> ghost \<Rightarrow> nat set \<Rightarrow> nat set \<Rightarrow> bool" where
  "tables_ok levels root T D Q \<longleftrightarrow>
     T (levels - 1) 0 = Some root \<and> (\<forall>k p. T k p \<noteq> None \<longrightarrow> k < levels) \<and>
     (\<forall>k p k' p' a. T k p = Some a \<longrightarrow> T k' p' = Some a \<longrightarrow> k' = k \<and> p' = p) \<and>
     (\<forall>k p. T k p \<noteq> None \<longrightarrow> k + 1 < levels \<longrightarrow> T (k + 1) (p div 512) \<noteq> None) \<and>
     (\<forall>n \<in> D. T 1 (n div 512) \<noteq> None) \<and> (\<forall>q \<in> Q. T 0 (q div 512) \<noteq> None)"

definition room_ok :: "ghost \<Rightarrow> tables \<Rightarrow> bool" where
  "room_ok T B \<longleftrightarrow>
     (\<forall>k p a. T k p = Some a \<longrightarrow> unat a mod 4096 = 0 \<and> 0x10000 \<le> unat a \<and> unat a + 4096 \<le> unat (t_next B)) \<and>
     unat (t_next B) mod 4096 = 0 \<and> 0x10000 \<le> unat (t_next B) \<and> unat (t_next B) \<le> 2 ^ 21"

definition mem_ok :: "ptFormat \<Rightarrow> span list \<Rightarrow> memory \<Rightarrow> ghost \<Rightarrow> nat set \<Rightarrow> nat set \<Rightarrow> tables \<Rightarrow> bool" where
  "mem_ok f ss m0 T D Q B \<longleftrightarrow>
     (\<forall>k p a i. T k p = Some a \<longrightarrow> i < 512 \<longrightarrow> get64 (unat a + 8 * i) (t_mem B) = expected f ss T D Q k p i) \<and>
     (\<forall>x. unat (t_next B) \<le> x \<longrightarrow> x < 2 ^ 21 \<longrightarrow> t_mem B x = 0) \<and>
     (\<forall>x. x < 0x10000 \<or> 2 ^ 21 \<le> x \<longrightarrow> t_mem B x = m0 x)"

definition mapped :: "ptFormat \<Rightarrow> span list \<Rightarrow> memory \<Rightarrow> addr \<Rightarrow> ghost \<Rightarrow> nat set \<Rightarrow> nat set \<Rightarrow> tables \<Rightarrow> bool" where
  "mapped f ss m0 root T D Q B \<longleftrightarrow> tables_ok (f_levels f) root T D Q \<and> room_ok T B \<and> mem_ok f ss m0 T D Q B"

lemma tables_parent: "tables_ok levels root T D Q \<Longrightarrow> T k p \<noteq> None \<Longrightarrow> k + 1 < levels \<Longrightarrow> T (k + 1) (p div 512) \<noteq> None"
  unfolding tables_ok_def by blast

lemma tables_one: "tables_ok levels root T D Q \<Longrightarrow> T k p = Some a \<Longrightarrow> T k' p' = Some a \<Longrightarrow> k' = k \<and> p' = p"
  unfolding tables_ok_def by blast

lemma tables_levels: "tables_ok levels root T D Q \<Longrightarrow> T k p = Some a \<Longrightarrow> k < levels"
  unfolding tables_ok_def by blast

lemma room_table: "room_ok T B \<Longrightarrow> T k p = Some a \<Longrightarrow> unat a mod 4096 = 0 \<and> 0x10000 \<le> unat a \<and> unat a + 4096 \<le> unat (t_next B)"
  unfolding room_ok_def by blast

text \<open>A write to one entry leaves the others.\<close>

lemma entries_apart:
  fixes a b :: nat
  assumes "a mod 4096 = 0" "b mod 4096 = 0" "i < 512" "j < 512" "(a, i) \<noteq> (b, j)"
  shows "a + 8 * i + 8 \<le> b + 8 * j \<or> b + 8 * j + 8 \<le> a + 8 * i"
proof -
  obtain c d where "a = 4096 * c" "b = 4096 * d" using assms(1,2) by (metis mod_0_imp_dvd dvdE)
  with assms(3-5) show ?thesis by (cases c d rule: linorder_cases) auto
qed

lemma get_entry:
  assumes r: "room_ok T B" and t: "T k p = Some a" "T k' p' = Some b" "i < 512" "j < 512"
  shows "get64 (unat b + 8 * j) (put64 (unat a + 8 * i) v m) = (if b = a \<and> j = i then v else get64 (unat b + 8 * j) m)"
proof (cases "b = a \<and> j = i")
  case False
  then have "(unat a, i) \<noteq> (unat b, j)" by (auto simp: word_unat_eq_iff)
  moreover have "unat a mod 4096 = 0" "unat b mod 4096 = 0" using r t(1,2) unfolding room_ok_def by blast+
  ultimately have "unat a + 8 * i + 8 \<le> unat b + 8 * j \<or> unat b + 8 * j + 8 \<le> unat a + 8 * i"
    using t(3,4) by (intro entries_apart) auto
  then have "get64 (unat b + 8 * j) (put64 (unat a + 8 * i) v m) = get64 (unat b + 8 * j) m" by (intro get64_other) auto
  with False show ?thesis by auto
qed (simp add: get64_same)

lemma put_entry_else:
  assumes r: "room_ok T B" and t: "T k p = Some a" "i < 512" and x: "unat (t_next B) \<le> x \<or> x < 0x10000 \<or> 2 ^ 21 \<le> x"
  shows "put64 (unat a + 8 * i) v m x = m x"
proof -
  have "0x10000 \<le> unat a" "unat a + 4096 \<le> unat (t_next B)" "unat (t_next B) \<le> 2 ^ 21" using r t(1) unfolding room_ok_def by blast+
  with t(2) x show ?thesis by (auto simp: put64_def)
qed

lemma expected_zero:
  assumes t: "tables_ok levels root T D Q" and n: "T k c = None" "k < levels" and j: "j < 512"
  shows "expected f ss T D Q k c j = 0"
proof -
  have c: "(c * 512 + j) div 512 = c" using j by simp
  show ?thesis
  proof (cases k)
    case 0
    have "c * 512 + j \<notin> Q" using t n(1) c unfolding tables_ok_def 0 by (metis (no_types))
    then show ?thesis by (simp add: expected_def Let_def 0)
  next
    case (Suc h)
    have "T h (c * 512 + j) = None"
    proof (rule ccontr)
      assume "T h (c * 512 + j) \<noteq> None"
      then have "T (h + 1) ((c * 512 + j) div 512) \<noteq> None" by (rule tables_parent [OF t]) (use n(2) Suc in simp)
      with n(1) show False unfolding c Suc by simp
    qed
    moreover have "h = 0 \<Longrightarrow> c * 512 + j \<notin> D" using t n(1) c Suc unfolding tables_ok_def by (metis One_nat_def)
    ultimately show ?thesis by (auto simp: expected_def Let_def Suc)
  qed
qed

subsection \<open>What each write does\<close>

lemma mem_put:
  assumes m: "mem_ok f ss m0 T D Q B" and r: "room_ok T B" and t: "tables_ok levels root T D Q" and a: "T k p = Some a" "i < 512"
    and e: "\<And>k' p' (j :: nat). T k' p' \<noteq> None \<Longrightarrow> j < 512 \<Longrightarrow> expected f ss T D' Q' k' p' j = (if k' = k \<and> p' = p \<and> j = i then v else expected f ss T D Q k' p' j)"
  shows "mem_ok f ss m0 T D' Q' (B\<lparr>t_mem := put64 (unat a + 8 * i) v (t_mem B)\<rparr>)"
  unfolding mem_ok_def
proof (intro conjI allI impI)
  fix k' p' and b :: addr and j :: nat assume b: "T k' p' = Some b" "j < 512"
  have "b = a \<and> j = i \<longleftrightarrow> k' = k \<and> p' = p \<and> j = i" for i using tables_one [OF t a(1), of k' p'] b(1) a(1) by auto
  then show "get64 (unat b + 8 * j) (t_mem (B\<lparr>t_mem := put64 (unat a + 8 * i) v (t_mem B)\<rparr>)) = expected f ss T D' Q' k' p' j"
    using get_entry [OF r a(1) b(1) a(2) b(2)] e [OF _ b(2), of k' p'] b m unfolding mem_ok_def by auto
next
  fix x assume "unat (t_next (B\<lparr>t_mem := put64 (unat a + 8 * i) v (t_mem B)\<rparr>)) \<le> x" "x < 2 ^ 21"
  then show "t_mem (B\<lparr>t_mem := put64 (unat a + 8 * i) v (t_mem B)\<rparr>) x = 0"
    using put_entry_else [OF r a, of x] m unfolding mem_ok_def by simp
next
  fix x :: nat assume "x < 0x10000 \<or> 2 ^ 21 \<le> x"
  then show "t_mem (B\<lparr>t_mem := put64 (unat a + 8 * i) v (t_mem B)\<rparr>) x = m0 x"
    using put_entry_else [OF r a, of x] m unfolding mem_ok_def by auto
qed

lemma alloc_room:
  assumes r: "room_ok T B" and a: "alloc_table B = Some (n, B1)"
  shows "n = t_next B" "t_mem B1 = t_mem B" "unat (t_next B1) = unat (t_next B) + 4096" "unat n < 2 ^ 21"
    "room_ok T B1" "room_ok (T(k := (T k)(c := Some n))) B1" "\<And>k p. T k p \<noteq> Some n"
proof -
  have n: "t_next B < tablesEnd" "n = t_next B" "B1 = B\<lparr>t_next := t_next B + pageSize\<rparr>"
    using a by (auto simp: alloc_table_def split: if_splits)
  have u: "unat (t_next B) < 2 ^ 21" using n(1) by (simp add: word_less_nat_alt)
  then have s: "unat (t_next B + pageSize) = unat (t_next B) + 4096" by (simp add: unat_word_ariths(1))
  have b: "unat (t_next B) mod 4096 = 0" "0x10000 \<le> unat (t_next B)" using r unfolding room_ok_def by blast+
  then obtain d where "unat (t_next B) = 4096 * d" by (metis mod_0_imp_dvd dvdE)
  with u have le: "unat (t_next B) + 4096 \<le> 2 ^ 21" by simp
  show "n = t_next B" "t_mem B1 = t_mem B" "unat (t_next B1) = unat (t_next B) + 4096" "unat n < 2 ^ 21"
    using n s u by simp_all
  have mm: "(unat (t_next B) + 4096) mod 4096 = 0" using b(1) by simp
  have all: "unat x mod 4096 = 0 \<and> 0x10000 \<le> unat x \<and> unat x + 4096 \<le> unat (t_next B) + 4096" if "T h p = Some x" for h p x
    using room_table [OF r that] by linarith
  show "room_ok T B1" "room_ok (T(k := (T k)(c := Some n))) B1"
    unfolding room_ok_def using all b mm le by (auto simp: n s fun_upd_def)
  show "T k p \<noteq> Some n" for k p using room_table [OF r, of k p] n by auto
qed

text \<open>A new table, empty, and its address in the entry above it.\<close>

lemma mapped_new:
  assumes m: "mapped f ss m0 root T D Q B" and t: "T (Suc k) p = Some a" "i < 512" and new: "T k (p * 512 + i) = None"
    and n: "alloc_table B = Some (n, B1)"
  shows "mapped f ss m0 root (T(k := (T k)(p * 512 + i := Some n))) D Q (B1\<lparr>t_mem := put64 (unat a + 8 * i) (f_table f n) (t_mem B1)\<rparr>)"
proof -
  let ?c = "p * 512 + i"
  let ?T = "T(k := (T k)(?c := Some n))"
  have ok: "tables_ok (f_levels f) root T D Q" "room_ok T B" "mem_ok f ss m0 T D Q B" using m by (simp_all add: mapped_def)
  note r = alloc_room [OF ok(2) n]
  have lv: "Suc k < f_levels f" using tables_levels [OF ok(1) t(1)] .
  have up: "?T h q \<noteq> None" if "T h q \<noteq> None" for h q using that by auto
  have par: "?c div 512 = p" using t(2) by simp
  have t': "tables_ok (f_levels f) root ?T D Q"
    unfolding tables_ok_def
  proof (intro conjI allI impI ballI)
    show "?T (f_levels f - 1) 0 = Some root" using ok(1) new unfolding tables_ok_def by auto
    show "h < f_levels f" if "?T h q \<noteq> None" for h q
      using that tables_levels [OF ok(1), of h q] lv by (auto split: if_splits)
    show "h' = h" "q' = q" if "?T h q = Some x" "?T h' q' = Some x" for h q h' q' x
      using that tables_one [OF ok(1), of h q x h' q'] r(7) by (auto split: if_splits)
    show "?T (h + 1) (q div 512) \<noteq> None" if "?T h q \<noteq> None" "h + 1 < f_levels f" for h q
    proof (cases "h = k \<and> q = ?c")
      case True
      with t(1) par show ?thesis by simp
    next
      case False
      then have "T h q \<noteq> None" using that(1) by (auto split: if_splits)
      from up [OF tables_parent [OF ok(1) this that(2)]] show ?thesis .
    qed
    show "?T 1 (b div 512) \<noteq> None" if "b \<in> D" for b by (rule up) (use ok(1) that in \<open>auto simp: tables_ok_def\<close>)
    show "?T 0 (q div 512) \<noteq> None" if "q \<in> Q" for q by (rule up) (use ok(1) that in \<open>auto simp: tables_ok_def\<close>)
  qed
  have fresh: "t_mem B1 x = 0" if "unat n \<le> x" "x < unat n + 4096" for x
  proof -
    have "unat (t_next B1) \<le> 2 ^ 21" using r(5) unfolding room_ok_def by blast
    with that r(1,3) have "unat (t_next B) \<le> x" "x < 2 ^ 21" by simp_all
    with ok(3) r(2) show ?thesis unfolding mem_ok_def by simp
  qed
  have m1: "mem_ok f ss m0 T D Q B1" using ok(3) r(2,3) unfolding mem_ok_def by simp
  have ok1: "room_ok T B1" by (rule r(5))
  have exp: "expected f ss ?T D Q h q j = (if h = Suc k \<and> q = p \<and> j = i then f_table f n else expected f ss T D Q h q j)"
    if "j < 512" for h q j
  proof -
    have c: "q * 512 + j = ?c \<longleftrightarrow> q = p \<and> j = i"
    proof
      assume e: "q * 512 + j = ?c"
      have "q = (q * 512 + j) div 512" "j = (q * 512 + j) mod 512" using that by simp_all
      moreover have "p = ?c div 512" "i = ?c mod 512" using t(2) by simp_all
      ultimately show "q = p \<and> j = i" unfolding e by simp
    qed simp
    show ?thesis
    proof (cases "h = Suc k \<and> q * 512 + j = ?c")
      case True
      then have "expected f ss ?T D Q h q j = f_table f n" by (simp add: expected_def Let_def)
      with True c show ?thesis by simp
    next
      case False
      have "expected f ss ?T D Q h q j = expected f ss T D Q h q j"
      proof (cases h)
        case (Suc g)
        with False have e: "?T g (q * 512 + j) = T g (q * 512 + j)" by auto
        show ?thesis unfolding expected_def Let_def Suc diff_Suc_1 e ..
      qed (simp add: expected_def Let_def)
      with False c show ?thesis by auto
    qed
  qed
  have "mem_ok f ss m0 ?T D Q (B1\<lparr>t_mem := put64 (unat a + 8 * i) (f_table f n) (t_mem B1)\<rparr>)"
    unfolding mem_ok_def
  proof (intro conjI allI impI)
    fix h q and b :: addr and j :: nat assume b: "?T h q = Some b" "j < 512"
    let ?m = "t_mem (B1\<lparr>t_mem := put64 (unat a + 8 * i) (f_table f n) (t_mem B1)\<rparr>)"
    show "get64 (unat b + 8 * j) ?m = expected f ss ?T D Q h q j"
    proof (cases "h = k \<and> q = ?c")
      case True
      then have bn: "b = n" using b(1) by simp
      have "unat a + 4096 \<le> unat n" using room_table [OF ok(2) t(1)] r(1) by simp
      then have "get64 (unat n + 8 * j) ?m = get64 (unat n + 8 * j) (t_mem B1)" using t(2) by (simp add: get64_other)
      also have "\<dots> = 0" by (rule get64_zero) (use fresh b(2) in auto)
      finally have "get64 (unat b + 8 * j) ?m = 0" by (simp only: bn)
      moreover have "expected f ss ?T D Q h q j = expected f ss T D Q h q j" using exp [OF b(2), of h q] True by simp
      moreover have "expected f ss T D Q h q j = 0"
        using expected_zero [OF ok(1) new _ b(2)] True lv by simp
      ultimately show ?thesis by simp
    next
      case False
      then have bT: "T h q = Some b" using b(1) by (auto split: if_splits)
      have "b = a \<and> j = i \<longleftrightarrow> h = Suc k \<and> q = p \<and> j = i" using tables_one [OF ok(1) t(1), of h q] bT t(1) by auto
      then show ?thesis
        using get_entry [OF ok1 t(1) bT t(2) b(2)] exp [OF b(2), of h q] m1 bT b(2) unfolding mem_ok_def by auto
    qed
  next
    fix x assume x: "unat (t_next (B1\<lparr>t_mem := put64 (unat a + 8 * i) (f_table f n) (t_mem B1)\<rparr>)) \<le> x" "x < 2 ^ 21"
    then show "t_mem (B1\<lparr>t_mem := put64 (unat a + 8 * i) (f_table f n) (t_mem B1)\<rparr>) x = 0"
      using put_entry_else [OF ok1 t, of x] m1 unfolding mem_ok_def by simp
  next
    fix x :: nat assume "x < 0x10000 \<or> 2 ^ 21 \<le> x"
    then show "t_mem (B1\<lparr>t_mem := put64 (unat a + 8 * i) (f_table f n) (t_mem B1)\<rparr>) x = m0 x"
      using put_entry_else [OF ok1 t, of x] m1 unfolding mem_ok_def by auto
  qed
  with t' r(6) show ?thesis by (simp add: mapped_def room_ok_def)
qed

lemma slot_of: "i < 512 \<Longrightarrow> j < 512 \<Longrightarrow> q * 512 + j = p * 512 + i \<longleftrightarrow> q = p \<and> j = i" for i j p q :: nat
proof
  assume i: "i < 512" "j < 512" and e: "q * 512 + j = p * 512 + i"
  have "q = (q * 512 + j) div 512" "j = (q * 512 + j) mod 512" using i by simp_all
  moreover have "p = (p * 512 + i) div 512" "i = (p * 512 + i) mod 512" using i by simp_all
  ultimately show "q = p \<and> j = i" unfolding e by simp
qed simp

lemma mem_unchanged:
  assumes "mem_ok f ss m0 T D Q B" "\<And>k p j. T k p \<noteq> None \<Longrightarrow> j < 512 \<Longrightarrow> expected f ss T D' Q' k p j = expected f ss T D Q k p j"
  shows "mem_ok f ss m0 T D' Q' B"
  using assms unfolding mem_ok_def by auto

text \<open>A block mapped whole.\<close>

lemma mapped_block:
  assumes m: "mapped f ss m0 root T D Q B" and t: "T 1 p = Some a" "i < 512" and new: "T 0 (p * 512 + i) = None"
  defines "n \<equiv> p * 512 + i"
  shows "mapped f ss m0 root T (insert n D) Q (if permAt ss (block_at n) \<noteq> 0
     then B\<lparr>t_mem := put64 (unat a + 8 * i) (f_leaf f (block_at n) (permAt ss (block_at n)) True) (t_mem B)\<rparr> else B)"
proof -
  have ok: "tables_ok (f_levels f) root T D Q" "room_ok T B" "mem_ok f ss m0 T D Q B" using m by (simp_all add: mapped_def)
  have "n div 512 = p" using t(2) by (simp add: n_def)
  then have t': "tables_ok (f_levels f) root T (insert n D) Q" using ok(1) t(1) unfolding tables_ok_def by simp
  have exp: "expected f ss T (insert n D) Q k q j =
      (if k = 1 \<and> q = p \<and> j = i then (if permAt ss (block_at n) \<noteq> 0 then f_leaf f (block_at n) (permAt ss (block_at n)) True else 0)
       else expected f ss T D Q k q j)" if "j < 512" for k q j
  proof (cases "k = 1 \<and> q = p \<and> j = i")
    case True
    with new show ?thesis by (simp add: expected_def Let_def n_def)
  next
    case False
    have "k = 1 \<Longrightarrow> q * 512 + j \<noteq> n" using slot_of [OF t(2) that, of q p] False by (auto simp: n_def)
    then have "k = 1 \<Longrightarrow> (q * 512 + j \<in> insert n D) = (q * 512 + j \<in> D)" by auto
    then have "expected f ss T (insert n D) Q k q j = expected f ss T D Q k q j"
      unfolding expected_def Let_def by (cases "k = 1"; cases "T 0 (q * 512 + j)") (simp_all del: insert_iff)
    with False show ?thesis by auto
  qed
  have room: "room_ok T (B\<lparr>t_mem := x\<rparr>)" for x using ok(2) by (simp add: room_ok_def)
  show ?thesis
  proof (cases "permAt ss (block_at n) \<noteq> 0")
    case True
    have "mem_ok f ss m0 T (insert n D) Q (B\<lparr>t_mem := put64 (unat a + 8 * i) (f_leaf f (block_at n) (permAt ss (block_at n)) True) (t_mem B)\<rparr>)"
      by (rule mem_put [OF ok(3,2,1) t]) (use exp True in simp)
    with t' room True show ?thesis by (simp add: mapped_def)
  next
    case False
    have z: "expected f ss T D Q 1 p i = 0" using new False by (simp add: expected_def Let_def n_def)
    have "mem_ok f ss m0 T (insert n D) Q B"
      by (rule mem_unchanged [OF ok(3)]) (use exp False z in auto)
    with t' ok(2) False show ?thesis by (simp add: mapped_def)
  qed
qed

text \<open>A page mapped.\<close>

lemma mapped_page:
  assumes m: "mapped f ss m0 root T D Q B" and t: "T 0 p = Some a" "i < 512"
  defines "n \<equiv> p * 512 + i"
  shows "mapped f ss m0 root T D (insert n Q) (if permAt ss (page_at n) \<noteq> 0
     then B\<lparr>t_mem := put64 (unat a + 8 * i) (f_leaf f (page_at n) (permAt ss (page_at n)) False) (t_mem B)\<rparr> else B)"
proof -
  have ok: "tables_ok (f_levels f) root T D Q" "room_ok T B" "mem_ok f ss m0 T D Q B" using m by (simp_all add: mapped_def)
  have "n div 512 = p" using t(2) by (simp add: n_def)
  then have t': "tables_ok (f_levels f) root T D (insert n Q)" using ok(1) t(1) unfolding tables_ok_def by simp
  have exp: "expected f ss T D (insert n Q) k q j =
      (if k = 0 \<and> q = p \<and> j = i then (if permAt ss (page_at n) \<noteq> 0 then f_leaf f (page_at n) (permAt ss (page_at n)) False else 0)
       else expected f ss T D Q k q j)" if "j < 512" for k q j
  proof (cases "k = 0 \<and> q = p \<and> j = i")
    case True
    then show ?thesis by (simp add: expected_def Let_def n_def)
  next
    case False
    have "k = 0 \<Longrightarrow> q * 512 + j \<noteq> n" using slot_of [OF t(2) that, of q p] False by (auto simp: n_def)
    then have "k = 0 \<Longrightarrow> (q * 512 + j \<in> insert n Q) = (q * 512 + j \<in> Q)" by auto
    then have "expected f ss T D (insert n Q) k q j = expected f ss T D Q k q j"
      unfolding expected_def Let_def by (cases "k = 0") (simp_all del: insert_iff)
    with False show ?thesis by auto
  qed
  have room: "room_ok T (B\<lparr>t_mem := x\<rparr>)" for x using ok(2) by (simp add: room_ok_def)
  show ?thesis
  proof (cases "permAt ss (page_at n) \<noteq> 0")
    case True
    have "mem_ok f ss m0 T D (insert n Q) (B\<lparr>t_mem := put64 (unat a + 8 * i) (f_leaf f (page_at n) (permAt ss (page_at n)) False) (t_mem B)\<rparr>)"
      by (rule mem_put [OF ok(3,2,1) t]) (use exp True in simp)
    with t' room True show ?thesis by (simp add: mapped_def)
  next
    case False
    have z: "expected f ss T D Q 0 p i = 0" using False by (simp add: expected_def Let_def n_def)
    have "mem_ok f ss m0 T D (insert n Q) B"
      by (rule mem_unchanged [OF ok(3)]) (use exp False z in auto)
    with t' ok(2) False show ?thesis by (simp add: mapped_def)
  qed
qed

subsection \<open>The code's loops\<close>

text \<open>The prefix of an address in the tables \<open>k\<close> levels above the pages.\<close>

definition prefix_at :: "nat \<Rightarrow> addr \<Rightarrow> nat" where
  "prefix_at k va = unat va div 2 ^ (12 + 9 * (k + 1))"

lemma prefix_step: "prefix_at (Suc k) va * 512 + unat va div 2 ^ (12 + 9 * Suc k) mod 512 = prefix_at k va"
proof -
  have "unat va div 2 ^ (12 + 9 * (Suc k + 1)) = unat va div 2 ^ (12 + 9 * Suc k) div 512"
    by (simp add: div_mult2_eq [symmetric] power_add)
  then show ?thesis unfolding prefix_at_def by (simp add: mult.commute)
qed

lemma put_at_entry: "unat a = e \<Longrightarrow> put_at a v B = B\<lparr>t_mem := put64 e v (t_mem B)\<rparr>"
  by (simp add: put_at_def)

lemma room_low: "room_ok T B \<Longrightarrow> T k p = Some a \<Longrightarrow> unat a + 4096 \<le> 2 ^ 21"
  unfolding room_ok_def by (meson le_trans)

context paging
begin

lemma table_not_zero: "a AND mask 12 = 0 \<Longrightarrow> unat a < 2 ^ 21 \<Longrightarrow> f_table f a \<noteq> 0"
  using table [of a] absent [of False] by auto

lemma walk_maps:
  "mapped f ss m0 root T D Q B \<Longrightarrow> T (Suc k) (prefix_at (Suc k) va) = Some t \<Longrightarrow> lv + k + 2 = f_levels f \<Longrightarrow>
     walk_loop k f va lv t B = Some (t', B') \<Longrightarrow>
     \<exists>T'. mapped f ss m0 root T' D Q B' \<and> T' 1 (prefix_at 1 va) = Some t' \<and> T' 0 = T 0"
proof (induction k arbitrary: T lv t B)
  case 0
  then show ?case by auto
next
  case (Suc k)
  have ok: "tables_ok (f_levels f) root T D Q" "room_ok T B" "mem_ok f ss m0 T D Q B" using Suc.prems(1) by (simp_all add: mapped_def)
  define z where "z = 12 + 9 * Suc (Suc k)"
  let ?p = "prefix_at (Suc (Suc k)) va"
  let ?i = "unat va div 2 ^ z mod 512"
  let ?e = "get64 (unat t + 8 * ?i) (t_mem B)"
  have shift: "level_shift (f_levels f) lv = z" using Suc.prems(3) by (simp add: level_shift_def z_def)
  have i: "?i < 512" by simp
  have c: "?p * 512 + ?i = prefix_at (Suc k) va" unfolding z_def by (rule prefix_step)
  have at: "unat (t + (drop_bit z va AND 511) * 8) = unat t + 8 * ?i"
    by (rule unat_entry) (rule room_low [OF ok(2) Suc.prems(2)])
  have e: "?e = expected f ss T D Q (Suc (Suc k)) ?p ?i"
    using ok(3) Suc.prems(2) i unfolding mem_ok_def by blast
  also have "\<dots> = (case T (Suc k) (prefix_at (Suc k) va) of Some a \<Rightarrow> f_table f a | None \<Rightarrow> 0)"
    unfolding expected_def Let_def c by simp
  finally have e: "?e = (case T (Suc k) (prefix_at (Suc k) va) of Some a \<Rightarrow> f_table f a | None \<Rightarrow> 0)" .
  show ?case
  proof (cases "T (Suc k) (prefix_at (Suc k) va)")
    case None
    with e have none: "?e = 0" by simp
    obtain n B1 where n: "alloc_table B = Some (n, B1)" "walk_loop k f va (Suc lv) (f_table f n AND table_mask)
        (put_at (t + (drop_bit z va AND 511) * 8) (f_table f n) B1) = Some (t', B')"
      using Suc.prems(4) none by (auto simp: shift at Let_def split: option.splits)
    note r = alloc_room [OF ok(2) n(1)]
    let ?T = "T(Suc k := (T (Suc k))(prefix_at (Suc k) va := Some n))"
    have m: "mapped f ss m0 root ?T D Q (put_at (t + (drop_bit z va AND 511) * 8) (f_table f n) B1)"
      using mapped_new [OF Suc.prems(1,2) i, unfolded c, OF None n(1)] by (simp only: put_at_entry [OF at])
    have "unat n mod 4096 = 0" using r(1) ok(2) unfolding room_ok_def by simp
    then have "f_table f n AND table_mask = n" using table [of n] r(4) by (simp add: mask_zero)
    then have "?T (Suc k) (prefix_at (Suc k) va) = Some (f_table f n AND table_mask)" by simp
    from Suc.IH [OF m this _ n(2)] Suc.prems(3) show ?thesis by auto
  next
    case (Some a)
    have a: "a AND mask 12 = 0" "unat a < 2 ^ 21"
      using room_table [OF ok(2) Some] room_low [OF ok(2) Some] by (simp_all add: mask_zero)
    have ea: "?e = f_table f a" using e Some by simp
    have "?e \<noteq> 0" "?e AND table_mask = a" unfolding ea using table_not_zero [OF a] table [OF a] by simp_all
    then have "walk_loop k f va (Suc lv) a B = Some (t', B')" using Suc.prems(4) by (simp add: shift at Let_def)
    from Suc.IH [OF Suc.prems(1) Some _ this] Suc.prems(3) show ?thesis by simp
  qed
qed

text \<open>The pages of a block, one after another.\<close>

lemma fold_pages:
  assumes "mapped f ss m0 root T D Q B" "T 0 n = Some pt" "n < 2 ^ 27" "j \<le> 512"
  shows "mapped f ss m0 root T D (Q \<union> (\<lambda>i. n * 512 + i) ` {..<j}) (fold (put_page f ss pt) (map (\<lambda>i. page_at (n * 512 + i)) [0..<j]) B)"
  using assms(4)
proof (induction j)
  case 0
  with assms(1) show ?case by simp
next
  case (Suc j)
  let ?B = "fold (put_page f ss pt) (map (\<lambda>i. page_at (n * 512 + i)) [0..<j]) B" and ?Q = "Q \<union> (\<lambda>i. n * 512 + i) ` {..<j}"
  let ?q = "n * 512 + j"
  have m: "mapped f ss m0 root T D ?Q ?B" and j: "j < 512" using Suc by simp_all
  have room: "room_ok T ?B" using m by (simp add: mapped_def)
  have "unat (page_at ?q) = ?q * 2 ^ 12" by (rule unat_page_at) (use assms(3) j in simp)
  then have "unat (page_at ?q) div 2 ^ 12 mod 512 = j" using j by simp
  then have "unat (pt + (drop_bit 12 (page_at ?q) AND 511) * 8) = unat pt + 8 * j"
    using unat_entry [OF room_low [OF room assms(2)], of 12 "page_at ?q"] by simp
  then have "put_page f ss pt (page_at ?q) ?B = (if permAt ss (page_at ?q) \<noteq> 0
      then ?B\<lparr>t_mem := put64 (unat pt + 8 * j) (f_leaf f (page_at ?q) (permAt ss (page_at ?q)) False) (t_mem ?B)\<rparr> else ?B)"
    by (simp add: put_page_def Let_def put_at_def)
  with mapped_page [OF m assms(2) j] have "mapped f ss m0 root T D (insert ?q ?Q) (put_page f ss pt (page_at ?q) ?B)" by simp
  moreover have "Q \<union> (\<lambda>i. n * 512 + i) ` {..<Suc j} = insert ?q ?Q" by (auto simp: lessThan_Suc)
  ultimately show ?case by simp
qed

text \<open>A block that is mapped, and what building one keeps of the others.\<close>

end

definition found :: "span list \<Rightarrow> ghost \<Rightarrow> nat set \<Rightarrow> nat set \<Rightarrow> addr \<Rightarrow> (addr \<times> bool \<times> bool) option" where
  "found ss T D Q va =
     (let n = unat va div 2 ^ 21; q = unat va div 2 ^ 12; p = (if T 0 n \<noteq> None then permAt ss (page_at q) else permAt ss (block_at n)) in
      if (if T 0 n \<noteq> None then q \<in> Q else n \<in> D) \<and> p \<noteq> 0 then Some (va, p AND pWrite \<noteq> 0, p AND pExec \<noteq> 0) else None)"

definition block_done :: "span list \<Rightarrow> ghost \<Rightarrow> nat set \<Rightarrow> nat set \<Rightarrow> nat \<Rightarrow> bool" where
  "block_done ss T D Q n \<longleftrightarrow>
     T 0 n = None \<and> n \<in> D \<and> (\<forall>i<512. permAt ss (page_at (n * 512 + i)) = permAt ss (block_at n)) \<or>
     T 0 n \<noteq> None \<and> (\<forall>i<512. n * 512 + i \<in> Q)"

context paging
begin

lemma block_maps:
  assumes m: "mapped f ss m0 root T D Q B" and n: "n < 2 ^ 27" "n * 2 ^ 21 < 2 ^ (12 + 9 * f_levels f)" and new: "T 0 n = None"
    and b: "build_block f ss root (block_at n) B = Some B'"
  shows "\<exists>T' D' Q'. mapped f ss m0 root T' D' Q' B' \<and> block_done ss T' D' Q' n \<and> D \<subseteq> D' \<and> D' \<subseteq> insert n D \<and> Q \<subseteq> Q' \<and>
    (\<forall>k. k \<noteq> n \<longrightarrow> T' 0 k = T 0 k)"
proof -
  let ?b = "block_at n"
  have lv: "f_levels f \<ge> 2" by (rule levels(1))
  have u: "unat ?b = n * 2 ^ 21" by (rule unat_block_at) (use n(1) in simp)
  have uniform: "list_all (\<lambda>va. permAt ss va = permAt ss ?b) (block_pages ?b) \<longleftrightarrow> (\<forall>i<512. permAt ss (page_at (n * 512 + i)) = permAt ss ?b)"
    unfolding block_pages_at [OF n(1)] by (auto simp: list_all_iff)
  obtain t B1 where w: "walk_loop (f_levels f - 2) f ?b 0 root B = Some (t, B1)" using b by (auto simp: build_block_def Let_def split: option.splits)
  have "unat ?b < 2 ^ (12 + 9 * f_levels f)" using u n(2) by simp
  then have "prefix_at (f_levels f - 1) ?b = 0" using lv by (simp add: prefix_at_def)
  moreover have "T (f_levels f - 1) 0 = Some root" using m by (simp add: mapped_def tables_ok_def)
  moreover have "Suc (f_levels f - 2) = f_levels f - 1" using lv by simp
  ultimately have top: "T (Suc (f_levels f - 2)) (prefix_at (Suc (f_levels f - 2)) ?b) = Some root" by (simp only:)
  obtain T1 where T1: "mapped f ss m0 root T1 D Q B1" "T1 1 (prefix_at 1 ?b) = Some t" "T1 0 = T 0"
  proof -
    have "0 + (f_levels f - 2) + 2 = f_levels f" using lv by simp
    from walk_maps [OF m top this w] show thesis by (elim exE conjE) (rule that)
  qed
  have room: "room_ok T1 B1" using T1(1) by (simp add: mapped_def)
  have pre: "prefix_at 1 ?b = n div 512" "unat ?b div 2 ^ 21 mod 512 = n mod 512"
    unfolding prefix_at_def u by (simp_all add: div_mult2_eq [symmetric])
  then have nn: "n div 512 * 512 + n mod 512 = n" "n mod 512 < 512" by simp_all
  note t1 = T1(2) [unfolded pre]
  have at: "unat (t + (drop_bit 21 ?b AND 511) * 8) = unat t + 8 * (n mod 512)"
    using unat_entry [OF room_low [OF room t1], of 21 ?b] pre(2) by simp
  have new1: "T1 0 (n div 512 * 512 + n mod 512) = None" using new T1(3) nn(1) by simp
  show ?thesis
  proof (cases "\<forall>i<512. permAt ss (page_at (n * 512 + i)) = permAt ss ?b")
    case True
    then have "B' = (if permAt ss ?b \<noteq> 0 then put_at (t + (drop_bit 21 ?b AND 511) * 8) (f_leaf f ?b (permAt ss ?b) True) B1 else B1)"
      using b w uniform by (auto simp: build_block_def Let_def)
    then have "mapped f ss m0 root T1 (insert n D) Q B'"
      using mapped_block [OF T1(1) t1 nn(2) new1, unfolded nn(1)] by (simp only: put_at_entry [OF at])
    moreover have "block_done ss T1 (insert n D) Q n" using True new T1(3) by (simp add: block_done_def)
    ultimately show ?thesis using T1(3) by (intro exI [of _ T1] exI [of _ "insert n D"] exI [of _ Q]) auto
  next
    case False
    obtain pt B2 where p: "alloc_table B1 = Some (pt, B2)"
        "B' = fold (put_page f ss pt) (block_pages ?b) (put_at (t + (drop_bit 21 ?b AND 511) * 8) (f_table f pt) B2)"
      using b w uniform False by (auto simp: build_block_def Let_def split: option.splits)
    let ?T = "T1(0 := (T1 0)(n := Some pt))"
    have "mapped f ss m0 root ?T D Q (put_at (t + (drop_bit 21 ?b AND 511) * 8) (f_table f pt) B2)"
      using mapped_new [of f ss m0 root T1 D Q B1 0, OF T1(1) _ nn(2) new1 p(1)] t1 by (simp add: nn(1) put_at_entry [OF at])
    then have "mapped f ss m0 root ?T D (Q \<union> (\<lambda>i. n * 512 + i) ` {..<512}) B'"
      unfolding p(2) block_pages_at [OF n(1)] by (rule fold_pages) (use n(1) in simp_all)
    moreover have "block_done ss ?T D (Q \<union> (\<lambda>i. n * 512 + i) ` {..<512}) n" by (auto simp: block_done_def)
    ultimately show ?thesis using T1(3)
      by (intro exI [of _ ?T] exI [of _ D] exI [of _ "Q \<union> (\<lambda>i. n * 512 + i) ` {..<512}"]) auto
  qed
qed

text \<open>The walk finds what the ghost says.\<close>

lemma ghost_above:
  "tables_ok (f_levels f) root T D Q \<Longrightarrow> T k (prefix_at k va) \<noteq> None \<Longrightarrow> k + d < f_levels f \<Longrightarrow> T (k + d) (prefix_at (k + d) va) \<noteq> None"
proof (induction d)
  case (Suc d)
  have "prefix_at (k + d) va div 512 = prefix_at (Suc (k + d)) va"
    unfolding prefix_at_def by (simp add: div_mult2_eq [symmetric] power_add)
  moreover have "T (k + d + 1) (prefix_at (k + d) va div 512) \<noteq> None"
    by (rule tables_parent [OF Suc.prems(1)]) (use Suc in simp_all)
  ultimately show ?case by simp
qed simp

lemma walk_finds:
  assumes m: "mapped f ss m0 root T D Q B" and va: "unat va < 2 ^ 48"
  shows "T k (prefix_at k va) = Some t \<Longrightarrow> hw_walk dec k (t_mem B) t va = found ss T D Q va"
proof (induction k arbitrary: t)
  case 0
  have ok: "tables_ok (f_levels f) root T D Q" "room_ok T B" "mem_ok f ss m0 T D Q B" using m by (simp_all add: mapped_def)
  define n q where "n = unat va div 2 ^ 21" and "q = unat va div 2 ^ 12"
  let ?i = "q mod 512"
  have p: "prefix_at 0 va = n" by (simp add: prefix_at_def n_def)
  have nq: "n * 512 + ?i = q"
  proof -
    have "n = q div 512" by (simp add: n_def q_def div_mult2_eq [symmetric])
    then show ?thesis by simp
  qed
  have e: "get64 (unat t + 8 * ?i) (t_mem B) = expected f ss T D Q 0 n ?i"
    using ok(3) 0 unfolding mem_ok_def p by (metis mod_less_divisor zero_less_numeral)
  have at: "unat (t + (drop_bit 12 va AND 511) * 8) = unat t + 8 * ?i"
    unfolding q_def by (rule unat_entry) (rule room_low [OF ok(2) 0])
  have u: "unat (page_at q) = q * 2 ^ 12" by (rule unat_page_at) (use va in \<open>simp add: q_def\<close>)
  have "page_at q AND mask 12 = 0" "unat (page_at q) < 2 ^ 48" unfolding mask_zero u using va by (simp_all add: q_def)
  note pg = page [OF this]
  show ?case
    using 0 unfolding hw_walk.simps at e expected_def Let_def nq found_def p n_def [symmetric] q_def [symmetric]
    by (auto simp: absent pg page_at_or [of va, folded q_def])
next
  case (Suc k)
  have ok: "tables_ok (f_levels f) root T D Q" "room_ok T B" "mem_ok f ss m0 T D Q B" using m by (simp_all add: mapped_def)
  define z where "z = 12 + 9 * Suc k"
  let ?p = "prefix_at (Suc k) va" and ?i = "unat va div 2 ^ z mod 512" and ?n = "unat va div 2 ^ 21"
  have i: "?i < 512" by simp
  have c: "?p * 512 + ?i = prefix_at k va" unfolding z_def by (rule prefix_step)
  have e: "get64 (unat t + 8 * ?i) (t_mem B) = expected f ss T D Q (Suc k) ?p ?i"
    using ok(3) Suc.prems i unfolding mem_ok_def by blast
  have at: "unat (t + (drop_bit z va AND 511) * 8) = unat t + 8 * ?i" by (rule unat_entry) (rule room_low [OF ok(2) Suc.prems])
  have step: "hw_walk dec (Suc k) (t_mem B) t va = (case dec False (expected f ss T D Q (Suc k) ?p ?i) of
      Absent \<Rightarrow> None | ToPage pa w x \<Rightarrow> Some (pa OR (va AND mask z), w, x)
    | ToTable u w x \<Rightarrow> map_option (\<lambda>(pa, w', x'). (pa, w \<and> w', x \<and> x')) (hw_walk dec k (t_mem B) u va))"
    unfolding hw_walk.simps z_def [symmetric] at e ..
  have lv: "Suc k < f_levels f" by (rule tables_levels [OF ok(1) Suc.prems])
  have p0: "prefix_at 0 va = ?n" and p1: "prefix_at 1 va = ?n div 512"
    by (simp_all add: prefix_at_def div_mult2_eq [symmetric])
  show ?case
  proof (cases "T k (prefix_at k va)")
    case (Some a)
    have a: "a AND mask 12 = 0" "unat a < 2 ^ 21"
      using room_table [OF ok(2) Some] room_low [OF ok(2) Some] by (simp_all add: mask_zero)
    have "expected f ss T D Q (Suc k) ?p ?i = f_table f a" unfolding expected_def Let_def c diff_Suc_1 Some by simp
    then have "hw_walk dec (Suc k) (t_mem B) t va = map_option (\<lambda>(pa, w', x'). (pa, True \<and> w', True \<and> x')) (hw_walk dec k (t_mem B) a va)"
      unfolding step using table [OF a] by simp
    with Suc.IH [OF Some] show ?thesis by (simp add: case_prod_eta option.map_id)
  next
    case None
    have n0: "T 0 ?n = None"
    proof (rule ccontr)
      assume "T 0 ?n \<noteq> None"
      then have "T 0 (prefix_at 0 va) \<noteq> None" unfolding p0 .
      from ghost_above [OF ok(1) this, of k] lv None show False by simp
    qed
    show ?thesis
    proof (cases k)
      case 0
      have ex: "expected f ss T D Q (Suc k) ?p ?i =
          (if ?n \<in> D \<and> permAt ss (block_at ?n) \<noteq> 0 then f_leaf f (block_at ?n) (permAt ss (block_at ?n)) True else 0)"
        unfolding expected_def Let_def c diff_Suc_1 None by (simp add: 0 p0 [unfolded 0])
      have u: "unat (block_at ?n) = ?n * 2 ^ 21" by (rule unat_block_at) (use va in simp)
      have "block_at ?n AND mask 21 = 0" "unat (block_at ?n) < 2 ^ 48" unfolding mask_zero u using va by simp_all
      note lg = large [OF this]
      have z: "z = 21" by (simp add: z_def 0)
      show ?thesis unfolding step ex unfolding z found_def Let_def using n0 lg
        by (simp add: absent block_at_or [unfolded power_numeral, simplified])
    next
      case (Suc h)
      have "?n \<notin> D"
      proof
        assume "?n \<in> D"
        then have "T 1 (prefix_at 1 va) \<noteq> None" using ok(1) unfolding tables_ok_def p1 by blast
        from ghost_above [OF ok(1) this, of h] None lv Suc show False by simp
      qed
      moreover have "expected f ss T D Q (Suc k) ?p ?i = 0" unfolding expected_def Let_def c diff_Suc_1 None by (simp add: Suc)
      ultimately show ?thesis unfolding step found_def Let_def using n0 by (simp add: absent)
    qed
  qed
qed

text \<open>The loop over a span's blocks ends, and maps those not seen.\<close>

end

definition ghost_ok :: "ptFormat \<Rightarrow> span list \<Rightarrow> memory \<Rightarrow> addr \<Rightarrow> ghost \<Rightarrow> nat set \<Rightarrow> nat set \<Rightarrow> addr set \<Rightarrow> tables \<Rightarrow> bool" where
  "ghost_ok f ss m0 root T D Q S B \<longleftrightarrow>
     mapped f ss m0 root T D Q B \<and>
     (\<forall>n<2 ^ 27. if block_at n \<in> S then block_done ss T D Q n else T 0 n = None \<and> n \<notin> D)"

lemma block_at_inj: "m < 2 ^ 27 \<Longrightarrow> n < 2 ^ 27 \<Longrightarrow> block_at m = block_at n \<longleftrightarrow> m = n"
proof
  assume m: "m < 2 ^ 27" and n: "n < 2 ^ 27" and e: "block_at m = block_at n"
  have "m < 2 ^ 40" by (rule less_le_trans [OF m]) simp
  moreover have "n < 2 ^ 40" by (rule less_le_trans [OF n]) simp
  ultimately have "unat (block_at m) = m * 2 ^ 21" "unat (block_at n) = n * 2 ^ 21" by (simp_all only: unat_block_at)
  then have "m * 2 ^ 21 = n * 2 ^ 21" unfolding e by (rule trans [OF sym])
  then show "m = n" by simp
qed simp

lemma block_done_mono:
  "block_done ss T D Q n \<Longrightarrow> T' 0 n = T 0 n \<Longrightarrow> D \<subseteq> D' \<Longrightarrow> Q \<subseteq> Q' \<Longrightarrow> block_done ss T' D' Q' n"
  unfolding block_done_def by auto

lemma next_block: "block_at n + blockSize = block_at (Suc n)"
  by (simp add: block_at_def algebra_simps)

context paging
begin

lemma ghost_block:
  assumes g: "ghost_ok f ss m0 root T D Q S B" and n: "n < 2 ^ 27" "n * 2 ^ 21 < 2 ^ (12 + 9 * f_levels f)" "block_at n \<notin> S"
    and b: "build_block f ss root (block_at n) B = Some B'"
  shows "\<exists>T' D' Q'. ghost_ok f ss m0 root T' D' Q' (insert (block_at n) S) B'"
proof -
  have m: "mapped f ss m0 root T D Q B" and others: "\<And>k. k < 2 ^ 27 \<Longrightarrow> if block_at k \<in> S then block_done ss T D Q k else T 0 k = None \<and> k \<notin> D"
    using g unfolding ghost_ok_def by blast+
  have new: "T 0 n = None" using others [OF n(1)] n(3) by simp
  obtain T' D' Q' where x: "mapped f ss m0 root T' D' Q' B'" "block_done ss T' D' Q' n" "D \<subseteq> D'" "D' \<subseteq> insert n D" "Q \<subseteq> Q'"
      "\<forall>k. k \<noteq> n \<longrightarrow> T' 0 k = T 0 k"
    using block_maps [OF m n(1,2) new b] by (elim exE conjE) (rule that)
  have "if block_at k \<in> insert (block_at n) S then block_done ss T' D' Q' k else T' 0 k = None \<and> k \<notin> D'" if k: "k < 2 ^ 27" for k
  proof (cases "k = n")
    case True
    with x(2) show ?thesis by simp
  next
    case False
    then have "block_at k \<in> insert (block_at n) S \<longleftrightarrow> block_at k \<in> S" using block_at_inj [OF k n(1)] by simp
    then show ?thesis
      using others [OF k] block_done_mono [of ss T D Q k T' D' Q'] x(3-6) False by auto
  qed
  with x(1) show ?thesis unfolding ghost_ok_def by blast
qed

lemma block_loop_ends:
  assumes hi: "unat hi \<le> 2 ^ (12 + 9 * f_levels f)"
  shows "ghost_ok f ss m0 root T D Q S B \<Longrightarrow> n \<le> 2 ^ 27 \<Longrightarrow> unat hi \<le> (n + N) * 2 ^ 21 \<Longrightarrow>
    \<exists>r. block_loop f ss root hi (block_at n) S B = Some r \<and>
      (\<forall>S' B'. r = Some (S', B') \<longrightarrow> (\<exists>T' D' Q'. ghost_ok f ss m0 root T' D' Q' S' B') \<and> S \<subseteq> S' \<and>
        (\<forall>k. n \<le> k \<longrightarrow> k * 2 ^ 21 < unat hi \<longrightarrow> block_at k \<in> S'))"
proof (induction N arbitrary: n T D Q S B)
  case 0
  then have "\<not> block_at n < hi" by (simp add: word_less_nat_alt unat_block_at)
  then have "block_loop f ss root hi (block_at n) S B = Some (Some (S, B))" by (simp add: block_loop.simps)
  moreover have "\<not> k * 2 ^ 21 < unat hi" if "n \<le> k" for k using 0(3) that by simp
  ultimately show ?case using 0(1) by blast
next
  case (Suc N)
  have u: "unat (block_at n) = n * 2 ^ 21" by (rule unat_block_at) (use Suc.prems(2) in simp)
  show ?case
  proof (cases "block_at n < hi")
    case False
    then have "block_loop f ss root hi (block_at n) S B = Some (Some (S, B))" by (simp add: block_loop.simps)
    moreover have "\<not> k * 2 ^ 21 < unat hi" if "n \<le> k" for k using False that by (simp add: word_less_nat_alt u)
    ultimately show ?thesis using Suc.prems(1) by blast
  next
    case True
    have "unat hi \<le> 2 ^ 48"
      using hi levels(2) power_increasing [of "12 + 9 * f_levels f" 48 "2 :: nat"] by linarith
    then have n: "n < 2 ^ 27" "n * 2 ^ 21 < 2 ^ (12 + 9 * f_levels f)" using True hi by (simp_all add: word_less_nat_alt u)
    have rest: "Suc n \<le> 2 ^ 27" "unat hi \<le> (Suc n + N) * 2 ^ 21" using n(1) Suc.prems(3) by simp_all
    have later: "(\<forall>k. Suc n \<le> k \<longrightarrow> k * 2 ^ 21 < unat hi \<longrightarrow> block_at k \<in> S') \<Longrightarrow> block_at n \<in> S' \<Longrightarrow>
        (\<forall>k. n \<le> k \<longrightarrow> k * 2 ^ 21 < unat hi \<longrightarrow> block_at k \<in> S')" for S'
      by (metis Suc_leI le_neq_implies_less)
    show ?thesis
    proof (cases "block_at n \<in> S")
      case seen: True
      have e: "block_loop f ss root hi (block_at n) S B = block_loop f ss root hi (block_at (Suc n)) S B"
        using True seen by (subst block_loop.simps) (simp add: next_block)
      from Suc.IH [OF Suc.prems(1) rest] obtain r where r: "block_loop f ss root hi (block_at (Suc n)) S B = Some r"
        "\<And>S' B'. r = Some (S', B') \<Longrightarrow> (\<exists>T' D' Q'. ghost_ok f ss m0 root T' D' Q' S' B') \<and> S \<subseteq> S' \<and>
           (\<forall>k. Suc n \<le> k \<longrightarrow> k * 2 ^ 21 < unat hi \<longrightarrow> block_at k \<in> S')" by blast
      show ?thesis unfolding e r(1)
      proof (intro exI [of _ r] conjI refl allI impI)
        fix S' B' assume "r = Some (S', B')"
        note x = r(2) [OF this]
        then show "\<exists>T' D' Q'. ghost_ok f ss m0 root T' D' Q' S' B'" "S \<subseteq> S'" by blast+
        fix k assume "n \<le> k" "k * 2 ^ 21 < unat hi"
        with later [of S'] x seen show "block_at k \<in> S'" by blast
      qed
    next
      case new: False
      show ?thesis
      proof (cases "build_block f ss root (block_at n) B")
        case None
        then have "block_loop f ss root hi (block_at n) S B = Some None"
          using True new by (subst block_loop.simps) simp
        then show ?thesis by simp
      next
        case (Some B1)
        have e: "block_loop f ss root hi (block_at n) S B = block_loop f ss root hi (block_at (Suc n)) (insert (block_at n) S) B1"
          using True new Some by (subst block_loop.simps) (simp add: next_block)
        obtain T1 D1 Q1 where "ghost_ok f ss m0 root T1 D1 Q1 (insert (block_at n) S) B1"
          using ghost_block [OF Suc.prems(1) n new Some] by blast
        from Suc.IH [OF this rest] obtain r where r: "block_loop f ss root hi (block_at (Suc n)) (insert (block_at n) S) B1 = Some r"
          "\<And>S' B'. r = Some (S', B') \<Longrightarrow> (\<exists>T' D' Q'. ghost_ok f ss m0 root T' D' Q' S' B') \<and> insert (block_at n) S \<subseteq> S' \<and>
             (\<forall>k. Suc n \<le> k \<longrightarrow> k * 2 ^ 21 < unat hi \<longrightarrow> block_at k \<in> S')" by blast
        show ?thesis unfolding e r(1)
        proof (intro exI [of _ r] conjI refl allI impI)
          fix S' B' assume "r = Some (S', B')"
          note x = r(2) [OF this]
          then show "\<exists>T' D' Q'. ghost_ok f ss m0 root T' D' Q' S' B'" "S \<subseteq> S'" by blast+
          fix k assume "n \<le> k" "k * 2 ^ 21 < unat hi"
          with later [of S'] x show "block_at k \<in> S'" by blast
        qed
      qed
    qed
  qed
qed

end

lemma block_floor: "a AND NOT (blockSize - 1) = block_at (unat a div 2 ^ 21)" for a :: addr
proof -
  have b: "block_at (unat a div 2 ^ 21) = push_bit 21 (drop_bit 21 a)"
  proof -
    have "drop_bit 21 a = of_nat (unat (drop_bit 21 a))" by simp
    also have "\<dots> = of_nat (unat a div 2 ^ 21)" unfolding unat_drop_bit_eq by (simp add: drop_bit_eq_div)
    finally show ?thesis by (simp only: block_at_def push_bit_eq_mult of_nat_mult of_nat_power of_nat_numeral)
  qed
  have "blockSize - 1 = mask 21" by (simp add: mask_eq_exp_minus_1)
  then have "a AND NOT (blockSize - 1) = a AND NOT (mask 21)" by (simp only:)
  also have "\<dots> = push_bit 21 (drop_bit 21 a)" by (rule bit_word_eqI) (auto simp: bit_simps)
  finally show ?thesis using b by simp
qed

definition spans_below :: "nat \<Rightarrow> span list \<Rightarrow> bool" where
  "spans_below h ss \<longleftrightarrow> (\<forall>s \<in> set ss. unat (s_lo s) \<le> 2 ^ h \<and> unat (s_hi s) \<le> 2 ^ h)"

lemma permAt_span: "permAt ss va \<noteq> 0 \<Longrightarrow> \<exists>s \<in> set ss. s_lo s \<le> va \<and> va < s_hi s"
  by (induction ss) (auto split: if_splits)

definition first_ghost :: "nat \<Rightarrow> addr \<Rightarrow> ghost" where
  "first_ghost levels root k p = (if k = levels - 1 \<and> p = 0 then Some root else None)"

context paging
begin

lemma span_loop_ends:
  "spans_below (12 + 9 * f_levels f) rest \<Longrightarrow> ghost_ok f ss m0 root T D Q S B \<Longrightarrow>
    \<exists>r. span_loop f ss root rest S B = Some r \<and>
      (\<forall>S' B'. r = Some (S', B') \<longrightarrow> (\<exists>T' D' Q'. ghost_ok f ss m0 root T' D' Q' S' B') \<and> S \<subseteq> S' \<and>
        (\<forall>s \<in> set rest. \<forall>k. unat (s_lo s) div 2 ^ 21 \<le> k \<longrightarrow> k * 2 ^ 21 < unat (s_hi s) \<longrightarrow> block_at k \<in> S'))"
proof (induction rest arbitrary: T D Q S B)
  case Nil
  then show ?case by auto
next
  case (Cons s rest)
  have lo: "unat (s_lo s) \<le> 2 ^ (12 + 9 * f_levels f)" and hi: "unat (s_hi s) \<le> 2 ^ (12 + 9 * f_levels f)"
    and below: "spans_below (12 + 9 * f_levels f) rest" using Cons.prems(1) by (simp_all add: spans_below_def)
  let ?n = "unat (s_lo s) div 2 ^ 21"
  have "unat (s_lo s) \<le> 2 ^ 48" using lo levels(2) power_increasing [of "12 + 9 * f_levels f" 48 "2 :: nat"] by linarith
  then have n: "?n \<le> 2 ^ 27" using div_le_mono [of "unat (s_lo s)" "2 ^ 48" "2 ^ 21"] by simp
  have N: "unat (s_hi s) \<le> (?n + unat (s_hi s)) * 2 ^ 21" by simp
  obtain r where r: "block_loop f ss root (s_hi s) (block_at ?n) S B = Some r"
      "\<And>S' B'. r = Some (S', B') \<Longrightarrow> (\<exists>T' D' Q'. ghost_ok f ss m0 root T' D' Q' S' B') \<and> S \<subseteq> S' \<and>
        (\<forall>k. ?n \<le> k \<longrightarrow> k * 2 ^ 21 < unat (s_hi s) \<longrightarrow> block_at k \<in> S')"
    using block_loop_ends [OF hi Cons.prems(2) n N] by blast
  show ?case
  proof (cases r)
    case None
    have "span_loop f ss root (s # rest) S B = Some None" using r(1) by (simp only: span_loop.simps block_floor None) simp
    then show ?thesis by blast
  next
    case (Some x)
    obtain S1 B1 where x: "r = Some (S1, B1)" using Some by (cases x) simp
    note r1 = r(2) [OF x]
    obtain T1 D1 Q1 where g: "ghost_ok f ss m0 root T1 D1 Q1 S1 B1" using r1 by blast
    obtain r2 where r2: "span_loop f ss root rest S1 B1 = Some r2"
        "\<And>S' B'. r2 = Some (S', B') \<Longrightarrow> (\<exists>T' D' Q'. ghost_ok f ss m0 root T' D' Q' S' B') \<and> S1 \<subseteq> S' \<and>
          (\<forall>s \<in> set rest. \<forall>k. unat (s_lo s) div 2 ^ 21 \<le> k \<longrightarrow> k * 2 ^ 21 < unat (s_hi s) \<longrightarrow> block_at k \<in> S')"
      using Cons.IH [OF below g] by blast
    have "span_loop f ss root (s # rest) S B = Some r2" using r(1) r2(1) by (simp only: span_loop.simps block_floor x) simp
    then show ?thesis
    proof (intro exI [of _ r2] conjI allI impI)
      fix S' B' assume "r2 = Some (S', B')"
      note y = r2(2) [OF this]
      show "\<exists>T' D' Q'. ghost_ok f ss m0 root T' D' Q' S' B'" "S \<subseteq> S'" using y r1 by blast+
      show "\<forall>u \<in> set (s # rest). \<forall>k. unat (s_lo u) div 2 ^ 21 \<le> k \<longrightarrow> k * 2 ^ 21 < unat (s_hi u) \<longrightarrow> block_at k \<in> S'"
      proof (intro ballI allI impI)
        fix u k assume u: "u \<in> set (s # rest)" "unat (s_lo u) div 2 ^ 21 \<le> k" "k * 2 ^ 21 < unat (s_hi u)"
        show "block_at k \<in> S'"
        proof (cases "u = s")
          case True
          have "?n \<le> k" "k * 2 ^ 21 < unat (s_hi s)" using u(2,3) unfolding True by simp_all
          with r1 y show ?thesis by blast
        next
          case False
          then have "u \<in> set rest" using u(1) by simp
          with y u(2,3) show ?thesis by blast
        qed
      qed
    qed
  qed
qed

lemma first_mapped:
  assumes z: "\<And>x. 0x10000 \<le> x \<Longrightarrow> x < 2 ^ 21 \<Longrightarrow> m x = 0"
  shows "mapped f ss m 0x10000 (first_ghost (f_levels f) 0x10000) {} {} \<lparr>t_mem = m, t_next = 0x11000\<rparr>"
proof -
  let ?T = "first_ghost (f_levels f) 0x10000"
  have one: "?T k p = Some a \<longleftrightarrow> k = f_levels f - 1 \<and> p = 0 \<and> a = 0x10000" for k p a by (auto simp: first_ghost_def)
  have "tables_ok (f_levels f) 0x10000 ?T {} {}" using levels(1) unfolding tables_ok_def first_ghost_def by auto
  moreover have "room_ok ?T \<lparr>t_mem = m, t_next = 0x11000\<rparr>" unfolding room_ok_def one by simp
  moreover have "expected f ss ?T {} {} k p i = 0" if "?T k p = Some a" for k p i a
  proof -
    have "?T (k - 1) c = None" for c using that levels(1) unfolding one by (auto simp: first_ghost_def)
    with that levels(1) show ?thesis unfolding one expected_def Let_def by auto
  qed
  moreover have "get64 (0x10000 + 8 * i) m = 0" if "i < 512" for i
    by (rule get64_zero) (use z that in auto)
  ultimately show ?thesis unfolding mapped_def mem_ok_def one using z by simp
qed

theorem build_maps:
  assumes al: "spans_aligned ss" and below: "spans_below (12 + 9 * f_levels f) ss"
    and z: "\<And>x. 0x10000 \<le> x \<Longrightarrow> x < 2 ^ 21 \<Longrightarrow> m x = 0"
  shows "\<exists>r. buildTables f ss m = Some r \<and>
    (\<forall>root B. r = Some (root, B) \<longrightarrow>
      (\<forall>va. unat va < 2 ^ (12 + 9 * f_levels f) \<longrightarrow>
        hw_walk dec (f_levels f - 1) (t_mem B) root va =
          (if permAt ss va = 0 then None else Some (va, permAt ss va AND pWrite \<noteq> 0, permAt ss va AND pExec \<noteq> 0))) \<and>
      (\<forall>x. x < 0x10000 \<or> 2 ^ 21 \<le> x \<longrightarrow> t_mem B x = m x))"
proof -
  let ?T = "first_ghost (f_levels f) 0x10000" and ?B = "\<lparr>t_mem = m, t_next = 0x11000\<rparr>"
  have al0: "alloc_table \<lparr>t_mem = m, t_next = tablesBase\<rparr> = Some (0x10000, ?B)" by (simp add: alloc_table_def)
  have "?T 0 n = None" for n using levels(1) by (simp add: first_ghost_def)
  then have "ghost_ok f ss m 0x10000 ?T {} {} {} ?B" using first_mapped [OF z] by (simp add: ghost_ok_def)
  note g0 = this
  obtain r where ends: "span_loop f ss 0x10000 ss {} ?B = Some r \<and>
      (\<forall>S' B'. r = Some (S', B') \<longrightarrow> (\<exists>T' D' Q'. ghost_ok f ss m 0x10000 T' D' Q' S' B') \<and> {} \<subseteq> S' \<and>
        (\<forall>s \<in> set ss. \<forall>k. unat (s_lo s) div 2 ^ 21 \<le> k \<longrightarrow> k * 2 ^ 21 < unat (s_hi s) \<longrightarrow> block_at k \<in> S'))"
    using span_loop_ends [OF below g0] by (elim exE) (rule that)
  have r: "span_loop f ss 0x10000 ss {} ?B = Some r"
      "\<And>S B. r = Some (S, B) \<Longrightarrow> (\<exists>T D Q. ghost_ok f ss m 0x10000 T D Q S B) \<and>
        (\<forall>s \<in> set ss. \<forall>k. unat (s_lo s) div 2 ^ 21 \<le> k \<longrightarrow> k * 2 ^ 21 < unat (s_hi s) \<longrightarrow> block_at k \<in> S)" for S B
    using ends by (blast, metis)
  show ?thesis
  proof (cases r)
    case None
    with r(1) show ?thesis by (simp add: buildTables_def al0)
  next
    case (Some x)
    obtain S B where x: "r = Some (S, B)" using Some by (cases x) simp
    have built: "buildTables f ss m = Some (Some (0x10000, B))" using r(1) by (simp add: buildTables_def al0 x)
    obtain T D Q where g: "ghost_ok f ss m 0x10000 T D Q S B" using r(2) [OF x] by blast
    have map: "mapped f ss m 0x10000 T D Q B" using g by (simp add: ghost_ok_def)
    have walk: "hw_walk dec (f_levels f - 1) (t_mem B) 0x10000 va =
        (if permAt ss va = 0 then None else Some (va, permAt ss va AND pWrite \<noteq> 0, permAt ss va AND pExec \<noteq> 0))"
      if va: "unat va < 2 ^ (12 + 9 * f_levels f)" for va
    proof -
      define n q where "n = unat va div 2 ^ 21" and "q = unat va div 2 ^ 12"
      have v48: "unat va < 2 ^ 48" using va levels(2) power_increasing [of "12 + 9 * f_levels f" 48 "2 :: nat"] by linarith
      have n27: "n < 2 ^ 27" unfolding n_def using v48 by (simp add: less_mult_imp_div_less)
      have "prefix_at (f_levels f - 1) va = 0" using va levels(1) by (simp add: prefix_at_def)
      then have "T (f_levels f - 1) (prefix_at (f_levels f - 1) va) = Some 0x10000" using map by (simp add: mapped_def tables_ok_def)
      then have w: "hw_walk dec (f_levels f - 1) (t_mem B) 0x10000 va = found ss T D Q va" by (rule walk_finds [OF map v48])
      have pg: "permAt ss va = permAt ss (page_at q)" unfolding q_def by (rule permAt_page [OF al v48])
      have nq: "n * 512 + q mod 512 = q"
      proof -
        have "n = q div 512" by (simp add: n_def q_def div_mult2_eq [symmetric])
        then show ?thesis by simp
      qed
      have state: "if block_at n \<in> S then block_done ss T D Q n else T 0 n = None \<and> n \<notin> D" using g n27 unfolding ghost_ok_def by blast
      have fd: "found ss T D Q va = (let p = (if T 0 n \<noteq> None then permAt ss (page_at q) else permAt ss (block_at n)) in
          if (if T 0 n \<noteq> None then q \<in> Q else n \<in> D) \<and> p \<noteq> 0 then Some (va, p AND pWrite \<noteq> 0, p AND pExec \<noteq> 0) else None)"
        unfolding found_def Let_def n_def q_def ..
      show ?thesis
      proof (cases "block_at n \<in> S")
        case True
        then have d: "block_done ss T D Q n" using state by simp
        have i: "q mod 512 < 512" by simp
        show ?thesis
        proof (cases "T 0 n")
          case None
          then have "n \<in> D" "permAt ss (page_at q) = permAt ss (block_at n)"
            using d i nq unfolding block_done_def by (blast, metis option.distinct(1))
          with None show ?thesis unfolding w fd pg Let_def by simp
        next
          case (Some a)
          then have "q \<in> Q" using d i nq unfolding block_done_def by (metis option.distinct(1))
          with Some show ?thesis unfolding w fd pg Let_def by simp
        qed
      next
        case False
        have "permAt ss va = 0"
        proof (rule ccontr)
          assume "permAt ss va \<noteq> 0"
          then obtain s where s: "s \<in> set ss" "s_lo s \<le> va" "va < s_hi s" using permAt_span by blast
          have "unat (s_lo s) div 2 ^ 21 \<le> n" unfolding n_def using s(2) by (simp add: word_le_nat_alt div_le_mono)
          moreover have "n * 2 ^ 21 \<le> unat va" unfolding n_def by simp
          then have "n * 2 ^ 21 < unat (s_hi s)" using s(3) by (simp add: word_less_nat_alt)
          ultimately have "block_at n \<in> S" using r(2) [OF x] s(1) by blast
          with False show False by simp
        qed
        with state False show ?thesis unfolding w fd Let_def by simp
      qed
    qed
    have "\<forall>x. x < 0x10000 \<or> 2 ^ 21 \<le> x \<longrightarrow> t_mem B x = m x" using map unfolding mapped_def mem_ok_def by blast
    with walk show ?thesis by (simp add: built)
  qed
qed

end

end
