(* ===== verification/VmmGuest.thy ===== *)
theory VmmGuest
  imports VmmMapped
begin

unbundle bit_operations_syntax

text \<open>
  What the monitor promises of a guest's memory: the page tables of either machine map what the
  layout says (\<open>buildTables\<close> through the interpretations of \<open>paging\<close>), the layout of an accepted
  image leaves the null page, the tables and the guard page unmapped, and the monitor's own reads
  and writes of the guest's memory (\<open>guest\<close>, and the call block of \<open>exception\<close>, vmm/vmm.go).
\<close>

subsection \<open>The tables of both machines\<close>

definition maps_spans :: "ptFormat \<Rightarrow> (bool \<Rightarrow> addr \<Rightarrow> pt_entry) \<Rightarrow> span list \<Rightarrow> addr \<Rightarrow> memory \<Rightarrow> bool" where
  "maps_spans f dec ss root m \<longleftrightarrow>
     (\<forall>va. unat va < 2 ^ (12 + 9 * f_levels f) \<longrightarrow>
        hw_walk dec (f_levels f - 1) m root va =
          (if permAt ss va = 0 then None else Some (va, permAt ss va AND pWrite \<noteq> 0, permAt ss va AND pExec \<noteq> 0)))"

definition area_zero :: "memory \<Rightarrow> bool" where
  "area_zero m \<longleftrightarrow> (\<forall>x. 0x10000 \<le> x \<longrightarrow> x < 2 ^ 21 \<longrightarrow> m x = 0)"

definition outside_same :: "memory \<Rightarrow> memory \<Rightarrow> bool" where
  "outside_same m m' \<longleftrightarrow> (\<forall>x. x < 0x10000 \<or> 2 ^ 21 \<le> x \<longrightarrow> m' x = m x)"

text \<open>
  C38.  The page tables refine \<open>permAt\<close>.  Of spans of whole pages, below the top of the space that
  the tables' levels reach (48 bits on amd64, 39 on arm64), and in memory whose table area is
  zero, building them ends on either machine, in the error of a full area or in tables; in these
  the processor's walk finds each address of the space at itself, writable and executable as its
  span says, and finds nothing where no span is; no byte outside the tables' area is written.
\<close>

theorem tables_map:
  assumes "spans_aligned ss" "area_zero m"
  shows "(spans_below 48 ss \<longrightarrow> (\<exists>r. buildTables amd64Format ss m = Some r \<and>
      (\<forall>root B. r = Some (root, B) \<longrightarrow> maps_spans amd64Format amd64_decode ss root (t_mem B) \<and> outside_same m (t_mem B)))) \<and>
    (spans_below 39 ss \<longrightarrow> (\<exists>r. buildTables arm64Format ss m = Some r \<and>
      (\<forall>root B. r = Some (root, B) \<longrightarrow> maps_spans arm64Format arm64_decode ss root (t_mem B) \<and> outside_same m (t_mem B))))"
proof -
  have lv: "12 + 9 * f_levels amd64Format = 48" "12 + 9 * f_levels arm64Format = 39" by (simp_all add: amd64Format_def arm64Format_def)
  have z: "m x = 0" if "0x10000 \<le> x" "x < 2 ^ 21" for x using assms(2) that by (simp add: area_zero_def)
  have amd: "\<exists>r. buildTables amd64Format ss m = Some r \<and>
      (\<forall>root B. r = Some (root, B) \<longrightarrow> maps_spans amd64Format amd64_decode ss root (t_mem B) \<and> outside_same m (t_mem B))"
    if "spans_below 48 ss"
    unfolding maps_spans_def outside_same_def by (rule amd64.build_maps [OF assms(1)]) (simp_all only: lv that z)
  have arm: "\<exists>r. buildTables arm64Format ss m = Some r \<and>
      (\<forall>root B. r = Some (root, B) \<longrightarrow> maps_spans arm64Format arm64_decode ss root (t_mem B) \<and> outside_same m (t_mem B))"
    if "spans_below 39 ss"
    unfolding maps_spans_def outside_same_def by (rule arm64.build_maps [OF assms(1)]) (simp_all only: lv that z)
  show ?thesis using amd arm by blast
qed

lemma tables_map_witness:
  "(\<exists>r. buildTables amd64Format [sys_span, door_span] (\<lambda>_. 0) = Some r \<and>
      (\<forall>root B. r = Some (root, B) \<longrightarrow>
        maps_spans amd64Format amd64_decode [sys_span, door_span] root (t_mem B) \<and> outside_same (\<lambda>_. 0) (t_mem B))) \<and>
    (\<exists>r. buildTables arm64Format [sys_span, door_span] (\<lambda>_. 0) = Some r \<and>
      (\<forall>root B. r = Some (root, B) \<longrightarrow>
        maps_spans arm64Format arm64_decode [sys_span, door_span] root (t_mem B) \<and> outside_same (\<lambda>_. 0) (t_mem B)))"
proof -
  have al: "spans_aligned [sys_span, door_span]" by (simp add: spans_aligned_def sys_span_def door_span_def)
  have below: "spans_below 48 [sys_span, door_span]" "spans_below 39 [sys_span, door_span]"
    by (simp_all add: spans_below_def sys_span_def door_span_def)
  show ?thesis using tables_map [OF al, of "\<lambda>_. 0"] below by (simp add: area_zero_def)
qed

subsection \<open>Rounding\<close>

text \<open>Rounding up to a page or a block, as numbers.\<close>

definition up_to :: "nat \<Rightarrow> nat \<Rightarrow> nat" where
  "up_to k n = (n + (k - 1)) div k * k"

lemma up_to_mod: "up_to k n mod k = 0"
  by (simp add: up_to_def)

lemma up_to_le: "0 < k \<Longrightarrow> n \<le> up_to k n"
proof -
  assume k: "0 < k"
  have "n + (k - 1) = up_to k n + (n + (k - 1)) mod k" unfolding up_to_def by simp
  moreover have "(n + (k - 1)) mod k \<le> k - 1" using mod_less_divisor [OF k, of "n + (k - 1)"] by linarith
  ultimately show ?thesis by linarith
qed

lemma up_to_bound: "0 < k \<Longrightarrow> up_to k n \<le> n + (k - 1)"
  unfolding up_to_def by (rule div_times_less_eq_dividend)

lemma up_to_mono: "m \<le> n \<Longrightarrow> up_to k m \<le> up_to k n"
  unfolding up_to_def by (intro mult_le_mono1 div_le_mono) simp

lemma up_to_block_page: "up_to 0x200000 n mod 4096 = 0"
proof -
  have "up_to 0x200000 n = 4096 * (512 * ((n + (0x200000 - 1)) div 0x200000))" unfolding up_to_def by simp
  then show ?thesis by (simp only: mod_mult_self1_is_0)
qed

lemma up_to_page_le: "n \<le> m \<Longrightarrow> m mod 4096 = 0 \<Longrightarrow> up_to 4096 n \<le> m"
proof -
  assume "n \<le> m" "m mod 4096 = 0"
  then obtain k where "m = 4096 * k" by auto
  then have "up_to 4096 m = m" by (simp add: up_to_def)
  with up_to_mono [OF \<open>n \<le> m\<close>] show ?thesis by metis
qed


lemma page_floor: "a AND NOT (pageSize - 1) = page_at (unat a div 2 ^ 12)" for a :: addr
proof -
  have "page_at (unat a div 2 ^ 12) = push_bit 12 (drop_bit 12 a)"
  proof -
    have "drop_bit 12 a = of_nat (unat (drop_bit 12 a))" by simp
    also have "\<dots> = of_nat (unat a div 2 ^ 12)" unfolding unat_drop_bit_eq by (simp add: drop_bit_eq_div)
    finally show ?thesis by (simp only: page_at_def push_bit_eq_mult of_nat_mult of_nat_power of_nat_numeral)
  qed
  moreover have "pageSize - 1 = mask 12" by (simp add: mask_eq_exp_minus_1)
  then have "a AND NOT (pageSize - 1) = a AND NOT (mask 12)" by (simp only:)
  moreover have "a AND NOT (mask 12) = push_bit 12 (drop_bit 12 a)" by (rule bit_word_eqI) (auto simp: bit_simps)
  ultimately show ?thesis by simp
qed

lemma unat_up_to: "n + (k - 1) < 2 ^ 64 \<Longrightarrow> unat (of_nat (up_to k n) :: addr) = up_to k n"
  by (rule unat_small) (rule le_less_trans [OF div_times_less_eq_dividend [of "n + (k - 1)" k, folded up_to_def]])

lemma roundUp_page: "unat v + 0x1000 \<le> 2 ^ 64 \<Longrightarrow> unat (roundUp v pageSize) = up_to 4096 (unat v)"
proof -
  assume v: "unat v + 0x1000 \<le> 2 ^ 64"
  have u: "unat (v + pageSize - 1) = unat v + 4095"
  proof -
    have "v + pageSize - 1 = v + 4095" by simp
    then show ?thesis using v by (simp only:) (simp add: unat_word_ariths(1))
  qed
  have "roundUp v pageSize = of_nat (up_to 4096 (unat v))" unfolding roundUp_def page_floor u page_at_def by (simp add: up_to_def)
  then show ?thesis using v unat_up_to [of "unat v" 4096] by simp
qed

lemma roundUp_block: "unat v + 0x200000 \<le> 2 ^ 64 \<Longrightarrow> unat (roundUp v blockSize) = up_to 0x200000 (unat v)"
proof -
  assume v: "unat v + 0x200000 \<le> 2 ^ 64"
  have u: "unat (v + blockSize - 1) = unat v + 0x1fffff"
  proof -
    have "v + blockSize - 1 = v + 0x1fffff" by simp
    then show ?thesis using v by (simp only:) (simp add: unat_word_ariths(1))
  qed
  have "roundUp v blockSize = of_nat (up_to 0x200000 (unat v))" unfolding roundUp_def block_floor u block_at_def by (simp add: up_to_def)
  then show ?thesis using v unat_up_to [of "unat v" "0x200000"] by simp
qed

subsection \<open>An accepted image\<close>

definition image_fits :: "image \<Rightarrow> bool" where
  "image_fits im \<longleftrightarrow> unat (i_end im) \<le> 2 ^ 64 - 2 ^ 31 \<and>
     (\<forall>p \<in> set (i_loads im). 0x200000 \<le> unat (p_vaddr p) \<and> unat (p_vaddr p) mod 4096 = 0 \<and>
        unat (p_vaddr p + p_memsz p) = unat (p_vaddr p) + unat (p_memsz p) \<and>
        unat (p_vaddr p) + unat (p_memsz p) \<le> unat (i_end im))"

text \<open>
  No loaded header's segment ends in the last 2 GiB of the addresses or past them, where the sums
  of the layout could wrap.  The code does not ask this of an image.
\<close>

definition progs_fit :: "prog list \<Rightarrow> bool" where
  "progs_fit ps \<longleftrightarrow> (\<forall>p \<in> set ps. p_load p \<longrightarrow> unat (p_vaddr p) + unat (p_memsz p) \<le> 2 ^ 64 - 2 ^ 31)"

lemma load_progs_fits:
  "load_progs ps im = Inr im' \<Longrightarrow> progs_fit ps \<Longrightarrow> image_fits im \<Longrightarrow> image_fits im'"
proof (induction ps arbitrary: im)
  case (Cons p ps)
  have below: "progs_fit ps" using Cons.prems(2) by (simp add: progs_fit_def)
  show ?case
  proof (cases "\<not> p_load p \<or> p_memsz p = 0")
    case True
    then show ?thesis using Cons.prems Cons.IH [OF _ below] by auto
  next
    case False
    let ?im = "im\<lparr>i_loads := i_loads im @ [p], i_end := max (i_end im) (p_vaddr p + p_memsz p)\<rparr>"
    have placed: "\<not> (p_vaddr p < imageBase \<or> p_vaddr p mod pageSize \<noteq> 0 \<or> p_paddr p \<noteq> p_vaddr p)"
      and rest: "load_progs ps ?im = Inr im'"
      using Cons.prems(1) False by (simp_all split: if_splits)
    have le: "unat (p_vaddr p) + unat (p_memsz p) \<le> 2 ^ 64 - 2 ^ 31" using Cons.prems(2) False by (simp add: progs_fit_def)
    then have sum: "unat (p_vaddr p + p_memsz p) = unat (p_vaddr p) + unat (p_memsz p)"
      by (simp add: unat_word_ariths(1))
    have base: "0x200000 \<le> unat (p_vaddr p)" using placed by (simp add: word_less_nat_alt)
    have "unat (p_vaddr p mod pageSize) = 0" using placed by simp
    then have al: "unat (p_vaddr p) mod 4096 = 0" by (simp add: unat_mod)
    have mx: "unat (max (i_end im) (p_vaddr p + p_memsz p)) = max (unat (i_end im)) (unat (p_vaddr p) + unat (p_memsz p))"
      unfolding sum [symmetric] by (simp add: max_def word_le_nat_alt)
    have "image_fits ?im" using Cons.prems(3) le sum base al unfolding image_fits_def
      by (simp add: mx) (meson le_max_iff_disj order_trans)
    with rest show ?thesis using Cons.IH [OF _ below] by blast
  qed
qed simp

lemma load_syms_keeps: "i_loads (load_syms ss im) = i_loads im \<and> i_end (load_syms ss im) = i_end im"
  by (induction ss im rule: load_syms.induct) (auto simp: Let_def)

lemma loadImage_fits:
  assumes "loadImage ours ps entry syms = Inr im" "progs_fit ps"
  shows "image_fits im"
proof -
  let ?im0 = "\<lparr>i_loads = [], i_entry = entry, i_vectors = 0, i_apEntry = 0, i_end = 0\<rparr>"
  obtain im1 ss where l: "load_progs ps ?im0 = Inr im1" "im = load_syms ss im1"
    using assms(1) by (auto simp: loadImage_def Let_def split: if_splits sum.splits option.splits)
  have "image_fits ?im0" by (simp add: image_fits_def)
  then have "image_fits im1" using load_progs_fits [OF l(1) assms(2)] by blast
  then show ?thesis by (simp add: l(2) image_fits_def load_syms_keeps)
qed

subsection \<open>The layout of an accepted image\<close>

text \<open>The places of the layout as numbers, none wrapped.\<close>

lemma plan_places:
  assumes "image_fits im" "cpus \<le> 32"
  defines "G \<equiv> up_to 0x200000 (unat (i_end im))"
  defines "F \<equiv> G + 0x4001000 + cpus * 0x10000"
  shows "unat (roundUp (i_end im) blockSize) = G" "unat (roundUp (i_end im) blockSize + pageSize) = G + 0x1000"
    "unat (l_faultTop (plan im cpus)) = F" "unat (l_heap (plan im cpus)) = up_to 0x200000 F"
    "unat (l_size (plan im cpus)) = up_to 0x200000 F + 0x40000000"
proof -
  have e: "unat (i_end im) \<le> 2 ^ 64 - 2 ^ 31" using assms(1) by (simp add: image_fits_def)
  have G: "G \<le> 2 ^ 64 - 2 ^ 31 + 0x200000" unfolding G_def using up_to_bound [of "0x200000" "unat (i_end im)"] e by simp
  have F: "F \<le> 2 ^ 64 - 2 ^ 31 + 0x4601000" unfolding F_def using G assms(2) by simp
  show g: "unat (roundUp (i_end im) blockSize) = G" unfolding G_def by (rule roundUp_block) (use e in simp)
  show "unat (roundUp (i_end im) blockSize + pageSize) = G + 0x1000" using g G by (simp add: unat_word_ariths(1))
  have c: "of_nat cpus * FaultStackBytes = of_nat (cpus * 0x10000)" by simp
  have "unat (l_faultTop (plan im cpus)) = unat (roundUp (i_end im) blockSize + 0x4001000 + of_nat (cpus * 0x10000))"
    unfolding plan_def Let_def by (simp add: add.assoc)
  also have "\<dots> = F" unfolding F_def using g G assms(2) by (simp add: unat_word_ariths(1) unat_of_nat del: of_nat_mult)
  finally show f: "unat (l_faultTop (plan im cpus)) = F" .
  have "l_heap (plan im cpus) = roundUp (l_faultTop (plan im cpus)) blockSize" by (simp add: plan_def Let_def)
  then show h: "unat (l_heap (plan im cpus)) = up_to 0x200000 F" using roundUp_block [of "l_faultTop (plan im cpus)"] f F by simp
  have H: "up_to 0x200000 F \<le> 2 ^ 64 - 2 ^ 31 + 0x4801000" using up_to_bound [of "0x200000" F] F by simp
  have "l_size (plan im cpus) = l_heap (plan im cpus) + HeapBytes" by (simp add: plan_def Let_def)
  then show "unat (l_size (plan im cpus)) = up_to 0x200000 F + 0x40000000" using h H by (simp add: unat_word_ariths(1))
qed

lemma plan_spans:
  "l_spans (plan im cpus) = [sys_span] @ map prog_span (i_loads im) @
     [\<lparr>s_lo = roundUp (i_end im) blockSize + pageSize, s_hi = l_faultTop (plan im cpus), s_perm = pRead OR pWrite\<rparr>,
      \<lparr>s_lo = l_heap (plan im cpus), s_hi = l_size (plan im cpus), s_perm = pRead OR pWrite\<rparr>, door_span]"
  by (simp add: plan_def Let_def)

text \<open>A segment's span, as numbers: from the image's base to its end rounded up.\<close>

lemma prog_span_places:
  assumes "image_fits im" "p \<in> set (i_loads im)"
  shows "0x200000 \<le> unat (s_lo (prog_span p))" "unat (s_lo (prog_span p)) mod 4096 = 0"
    "unat (s_hi (prog_span p)) mod 4096 = 0" "unat (s_hi (prog_span p)) \<le> up_to 4096 (unat (i_end im))"
    "unat (s_lo (prog_span p)) \<le> unat (i_end im)"
proof -
  have p: "0x200000 \<le> unat (p_vaddr p)" "unat (p_vaddr p) mod 4096 = 0"
      "unat (p_vaddr p + p_memsz p) = unat (p_vaddr p) + unat (p_memsz p)"
      "unat (p_vaddr p) + unat (p_memsz p) \<le> unat (i_end im)" "unat (i_end im) \<le> 2 ^ 64 - 2 ^ 31"
    using assms by (auto simp: image_fits_def)
  show "0x200000 \<le> unat (s_lo (prog_span p))" "unat (s_lo (prog_span p)) mod 4096 = 0" "unat (s_lo (prog_span p)) \<le> unat (i_end im)"
    using p by (simp_all add: prog_span_def)
  have "unat (s_hi (prog_span p)) = up_to 4096 (unat (p_vaddr p + p_memsz p))"
    unfolding prog_span_def by (simp, rule roundUp_page) (use p in simp)
  then show "unat (s_hi (prog_span p)) mod 4096 = 0" "unat (s_hi (prog_span p)) \<le> up_to 4096 (unat (i_end im))"
    using p up_to_mono [of "unat (p_vaddr p) + unat (p_memsz p)" "unat (i_end im)" 4096] by (simp_all add: up_to_mod)
qed

lemma permAt_none: "(\<And>s. s \<in> set ss \<Longrightarrow> \<not> (unat (s_lo s) \<le> unat va \<and> unat va < unat (s_hi s))) \<Longrightarrow> permAt ss va = 0"
  using permAt_span [of ss va] by (auto simp: word_le_nat_alt word_less_nat_alt)

lemma permAt_append:
  "permAt (ss @ ts) va = (if \<exists>s \<in> set ss. unat (s_lo s) \<le> unat va \<and> unat va < unat (s_hi s) then permAt ss va else permAt ts va)"
  by (induction ss) (auto simp: word_le_nat_alt word_less_nat_alt)

text \<open>Every span but the segments' and the system's, as numbers; the segments end at the guard page.\<close>

lemma segments_end:
  assumes "image_fits im" "p \<in> set (i_loads im)"
  shows "unat (s_hi (prog_span p)) \<le> up_to 0x200000 (unat (i_end im))"
proof -
  have "up_to 4096 (unat (i_end im)) \<le> up_to 0x200000 (unat (i_end im))"
    by (rule up_to_page_le) (simp_all add: up_to_le up_to_block_page)
  with prog_span_places(4) [OF assms] show ?thesis by linarith
qed

lemma segments_elsewhere:
  assumes "image_fits im" "unat va < 0x200000 \<or> up_to 0x200000 (unat (i_end im)) \<le> unat va"
  shows "\<not> (\<exists>s \<in> set (map prog_span (i_loads im)). unat (s_lo s) \<le> unat va \<and> unat va < unat (s_hi s))"
  using prog_span_places(1) [OF assms(1)] segments_end [OF assms(1)] assms(2) by fastforce

lemma sys_span_places: "unat (s_lo sys_span) = 0x1000" "unat (s_hi sys_span) = 0x10000"
  by (simp_all add: sys_span_def)

lemma door_span_places: "unat (s_lo door_span) = 0xf0000000" "unat (s_hi door_span) = 0xf0001000"
  by (simp_all add: door_span_def)

text \<open>Above the system's pages and off the segments, the layout's own spans decide.\<close>

lemma plan_permAt:
  assumes "image_fits im" "unat va < 0x200000 \<or> up_to 0x200000 (unat (i_end im)) \<le> unat va"
    "unat va < 0x1000 \<or> 0x10000 \<le> unat va"
  shows "permAt (l_spans (plan im cpus)) va =
    permAt [\<lparr>s_lo = roundUp (i_end im) blockSize + pageSize, s_hi = l_faultTop (plan im cpus), s_perm = pRead OR pWrite\<rparr>,
      \<lparr>s_lo = l_heap (plan im cpus), s_hi = l_size (plan im cpus), s_perm = pRead OR pWrite\<rparr>, door_span] va"
proof -
  have "permAt ([sys_span] @ ts) va = permAt ts va" for ts
    unfolding permAt_append using assms(3) by (auto simp: sys_span_places)
  moreover have "permAt (map prog_span (i_loads im) @ ts) va = permAt ts va" for ts
    unfolding permAt_append using segments_elsewhere [OF assms(1,2)] by (simp only: if_False)
  ultimately show ?thesis unfolding plan_spans by (simp only:)
qed

lemma mod_4096: "g mod 4096 = 0 \<Longrightarrow> k mod 4096 = 0 \<Longrightarrow> (g + k) mod 4096 = 0" for g k :: nat
  by (simp add: mod_eq_0_iff_dvd)

lemma mod_stack: "(k * 0x10000) mod 4096 = 0" for k :: nat
proof -
  have "k * 0x10000 = 4096 * (16 * k)" by simp
  then show ?thesis by (simp only: mod_mult_self1_is_0)
qed

lemma plan_aligned:
  assumes fits: "image_fits im" and c: "cpus \<le> 32" and door: "l_size (plan im cpus) \<le> Doorbell"
  shows "spans_aligned (l_spans (plan im cpus))" "spans_below 39 (l_spans (plan im cpus))"
proof -
  note pl = plan_places [OF fits c]
  let ?G = "up_to 0x200000 (unat (i_end im))"
  let ?F = "?G + 0x4001000 + cpus * 0x10000"
  have G4: "?G mod 4096 = 0" by (rule up_to_block_page)
  then have a: "(?G + 0x1000) mod 4096 = 0" "?F mod 4096 = 0" by (simp_all add: mod_4096 mod_stack)
  have H4: "up_to 0x200000 ?F mod 4096 = 0" by (rule up_to_block_page)
  then have b: "(up_to 0x200000 ?F + 0x40000000) mod 4096 = 0" by (simp add: mod_4096)
  have segs: "unat (s_lo (prog_span p)) mod 4096 = 0 \<and> unat (s_hi (prog_span p)) mod 4096 = 0 \<and>
      unat (s_lo (prog_span p)) \<le> ?G \<and> unat (s_hi (prog_span p)) \<le> ?G" if "p \<in> set (i_loads im)" for p
    using prog_span_places [OF fits that] segments_end [OF fits that] up_to_le [of "0x200000" "unat (i_end im)"] by simp
  show "spans_aligned (l_spans (plan im cpus))" unfolding spans_aligned_def plan_spans
    using segs a b H4 by (simp add: pl sys_span_places door_span_places)
  have top: "up_to 0x200000 ?F + 0x40000000 \<le> 0xf0000000" using door by (simp add: word_le_nat_alt pl)
  have "?F \<le> up_to 0x200000 ?F" by (rule up_to_le) simp
  then have GF: "?G \<le> 0xf0000000" "?F \<le> 0xf0000000" using top by simp_all
  have low: "unat (s_lo (prog_span p)) \<le> 0xf0000000 \<and> unat (s_hi (prog_span p)) \<le> 0xf0000000" if "p \<in> set (i_loads im)" for p
    using segs [OF that] GF(1) by linarith
  then have low39: "unat (s_lo (prog_span p)) \<le> 2 ^ 39 \<and> unat (s_hi (prog_span p)) \<le> 2 ^ 39" if "p \<in> set (i_loads im)" for p
    using that by fastforce
  show "spans_below 39 (l_spans (plan im cpus))" unfolding spans_below_def plan_spans
    using low39 top GF by (simp add: pl sys_span_places door_span_places)
qed

text \<open>The permission of every address from one to another.\<close>

definition perm_between :: "layout \<Rightarrow> addr \<Rightarrow> addr \<Rightarrow> perm \<Rightarrow> bool" where
  "perm_between l lo hi p \<longleftrightarrow> (\<forall>va. lo \<le> va \<longrightarrow> va < hi \<longrightarrow> permAt (l_spans l) va = p)"

lemma perm_betweenI:
  "(\<And>va. unat lo \<le> unat va \<Longrightarrow> unat va < unat hi \<Longrightarrow> permAt (l_spans l) va = p) \<Longrightarrow> perm_between l lo hi p"
  by (simp add: perm_between_def word_le_nat_alt word_less_nat_alt)

lemma some_load: "loadImage ours ps entry syms = Inr im \<Longrightarrow> i_loads im \<noteq> []"
  by (auto simp: loadImage_def Let_def load_syms_keeps split: if_splits sum.splits option.splits)

text \<open>What a layout promises whichever guest it is for, and what \<open>plan\<close> promises besides.\<close>

definition spans_guard :: "layout \<Rightarrow> bool" where
  "spans_guard l \<longleftrightarrow> spans_aligned (l_spans l) \<and> spans_below 39 (l_spans l) \<and>
     perm_between l 0 sysBase 0 \<and> perm_between l tablesBase tablesEnd 0 \<and>
     perm_between l (l_heap l) (l_size l) (pRead OR pWrite) \<and>
     perm_between l Doorbell (Doorbell + pageSize) (pWrite OR pDevice)"

definition stack_guard :: "image \<Rightarrow> layout \<Rightarrow> bool" where
  "stack_guard im l \<longleftrightarrow>
     (let guard = roundUp (i_end im) blockSize in
      perm_between l guard (guard + pageSize) 0 \<and> perm_between l (guard + pageSize) (l_faultTop l) (pRead OR pWrite))"

lemma plan_ok:
  assumes fits: "image_fits im" and some: "i_loads im \<noteq> []" and c: "cpus \<le> 32" and door: "l_size (plan im cpus) \<le> Doorbell"
  shows "spans_guard (plan im cpus)" "stack_guard im (plan im cpus)"
proof -
  note pl = plan_places [OF fits c]
  let ?l = "plan im cpus" and ?G = "up_to 0x200000 (unat (i_end im))"
  let ?F = "?G + 0x4001000 + cpus * 0x10000"
  have size: "up_to 0x200000 ?F + 0x40000000 \<le> 0xf0000000" using door by (simp add: word_le_nat_alt pl)
  have FH: "?F \<le> up_to 0x200000 ?F" by (rule up_to_le) simp
  obtain p where p: "p \<in> set (i_loads im)" using some by (cases "i_loads im") auto
  have base: "0x200000 \<le> ?G"
    using prog_span_places(1,5) [OF fits p] up_to_le [of "0x200000" "unat (i_end im)"] by simp
  note wl = word_le_nat_alt word_less_nat_alt pl door_span_def
  have "perm_between ?l 0 sysBase 0" "perm_between ?l tablesBase tablesEnd 0"
    "perm_between ?l (roundUp (i_end im) blockSize) (roundUp (i_end im) blockSize + pageSize) 0"
    by (rule perm_betweenI, subst plan_permAt [OF fits], use base size FH in \<open>auto simp: wl\<close>)+
  moreover have "perm_between ?l (roundUp (i_end im) blockSize + pageSize) (l_faultTop ?l) (pRead OR pWrite)"
    "perm_between ?l (l_heap ?l) (l_size ?l) (pRead OR pWrite)"
    by (rule perm_betweenI, subst plan_permAt [OF fits], use base size FH in \<open>auto simp: wl\<close>)+
  moreover have "perm_between ?l Doorbell (Doorbell + pageSize) (pWrite OR pDevice)"
    by (rule perm_betweenI, subst plan_permAt [OF fits], use base size FH in \<open>auto simp: wl\<close>)
  ultimately show "spans_guard ?l" "stack_guard im ?l"
    using plan_aligned [OF fits c door] by (simp_all add: spans_guard_def stack_guard_def Let_def)
qed

text \<open>A Go guest's layout: the base is the lowest segment's, and the heap starts where the last ends.\<close>

definition go_base :: "prog list \<Rightarrow> addr \<Rightarrow> addr" where
  "go_base ps b = fold (\<lambda>p b. min b (p_vaddr p)) ps b"

lemma go_base_places:
  "\<forall>p \<in> set ps. 0x200000 \<le> unat (p_vaddr p) \<and> unat (p_vaddr p) mod 4096 = 0 \<Longrightarrow>
     0x200000 \<le> unat b \<Longrightarrow> unat b mod 4096 = 0 \<Longrightarrow>
     0x200000 \<le> unat (go_base ps b) \<and> unat (go_base ps b) mod 4096 = 0 \<and> unat (go_base ps b) \<le> unat b"
proof (induction ps arbitrary: b)
  case (Cons p ps)
  have "unat (min b (p_vaddr p)) = min (unat b) (unat (p_vaddr p))" by (simp add: min_def word_le_nat_alt)
  with Cons.prems Cons.IH [of "min b (p_vaddr p)"] show ?case
    by (auto simp: go_base_def min_def split: if_splits)
qed (simp add: go_base_def)

lemma planGo_spans:
  "l_spans (planGo im cpus) = [sys_span] @ map prog_span (i_loads im) @
     [\<lparr>s_lo = l_heap (planGo im cpus), s_hi = l_size (planGo im cpus), s_perm = pRead OR pWrite\<rparr>, door_span]"
  by (simp add: planGo_def Let_def)

lemma planGo_places:
  assumes "image_fits im"
  shows "unat (l_heap (planGo im cpus)) = up_to 4096 (unat (i_end im))"
    "unat (l_size (planGo im cpus)) mod 4096 = 0" "0x200000 \<le> unat (l_size (planGo im cpus))"
proof -
  let ?b = "go_base (i_loads im) Doorbell"
  have l: "l_heap (planGo im cpus) = roundUp (i_end im) pageSize" "l_size (planGo im cpus) = ?b + GoRAMBytes"
    by (simp_all add: planGo_def Let_def go_base_def)
  have "unat (i_end im) \<le> 2 ^ 64 - 2 ^ 31" using assms by (simp add: image_fits_def)
  then show "unat (l_heap (planGo im cpus)) = up_to 4096 (unat (i_end im))" unfolding l by (intro roundUp_page) simp
  have b: "0x200000 \<le> unat ?b \<and> unat ?b mod 4096 = 0 \<and> unat ?b \<le> unat Doorbell"
    by (rule go_base_places) (use assms in \<open>auto simp: image_fits_def\<close>)
  then have s: "unat (l_size (planGo im cpus)) = unat ?b + 0xc0000000" unfolding l by (simp add: unat_word_ariths(1))
  with b show "0x200000 \<le> unat (l_size (planGo im cpus))" by simp
  have "(0xc0000000 :: nat) mod 4096 = 0" by simp
  with b show "unat (l_size (planGo im cpus)) mod 4096 = 0" unfolding s by (intro mod_4096) simp_all
qed

lemma planGo_ok:
  assumes fits: "image_fits im" and some: "i_loads im \<noteq> []" and door: "l_size (planGo im cpus) \<le> Doorbell"
    and ram: "l_heap (planGo im cpus) \<le> l_size (planGo im cpus)"
  shows "spans_guard (planGo im cpus)"
proof -
  let ?l = "planGo im cpus" and ?H = "up_to 4096 (unat (i_end im))"
  note pl = planGo_places [OF fits, of cpus]
  have size: "unat (l_size ?l) \<le> 0xf0000000" "?H \<le> unat (l_size ?l)" using door ram pl(1) by (simp_all add: word_le_nat_alt)
  obtain p where p: "p \<in> set (i_loads im)" using some by (cases "i_loads im") auto
  have base: "0x200000 \<le> ?H"
    using prog_span_places(1,5) [OF fits p] up_to_le [of 4096 "unat (i_end im)"] by simp
  have segs: "unat (s_lo (prog_span p)) mod 4096 = 0 \<and> unat (s_hi (prog_span p)) mod 4096 = 0 \<and>
      0x200000 \<le> unat (s_lo (prog_span p)) \<and> unat (s_lo (prog_span p)) \<le> ?H \<and> unat (s_hi (prog_span p)) \<le> ?H"
    if "p \<in> set (i_loads im)" for p
    using prog_span_places [OF fits that] up_to_le [of 4096 "unat (i_end im)"] by simp
  have "spans_aligned (l_spans ?l)" unfolding spans_aligned_def planGo_spans
    using segs pl up_to_mod [of 4096] by (simp add: sys_span_places door_span_places)
  moreover have low: "unat (s_lo (prog_span p)) \<le> 2 ^ 39 \<and> unat (s_hi (prog_span p)) \<le> 2 ^ 39" if "p \<in> set (i_loads im)" for p
    using segs [OF that] size by auto
  then have "spans_below 39 (l_spans ?l)" unfolding spans_below_def planGo_spans
    using size by (simp add: pl(1) sys_span_places door_span_places)
  moreover have at: "permAt (l_spans ?l) va = permAt [\<lparr>s_lo = l_heap ?l, s_hi = l_size ?l, s_perm = pRead OR pWrite\<rparr>, door_span] va"
    if "unat va < 0x200000 \<or> ?H \<le> unat va" "unat va < 0x1000 \<or> 0x10000 \<le> unat va" for va
  proof -
    have "permAt ([sys_span] @ ts) va = permAt ts va" for ts
      unfolding permAt_append using that(2) by (auto simp: sys_span_places)
    moreover have "\<not> (\<exists>s \<in> set (map prog_span (i_loads im)). unat (s_lo s) \<le> unat va \<and> unat va < unat (s_hi s))"
      using segs that(1) by fastforce
    then have "permAt (map prog_span (i_loads im) @ ts) va = permAt ts va" for ts
      unfolding permAt_append by (simp only: if_False)
    ultimately show ?thesis unfolding planGo_spans by (simp only:)
  qed
  note wl = word_le_nat_alt word_less_nat_alt pl(1) door_span_def
  have "perm_between ?l 0 sysBase 0" "perm_between ?l tablesBase tablesEnd 0"
    "perm_between ?l (l_heap ?l) (l_size ?l) (pRead OR pWrite)" "perm_between ?l Doorbell (Doorbell + pageSize) (pWrite OR pDevice)"
    by (rule perm_betweenI, subst at, use base size in \<open>auto simp: wl\<close>)+
  ultimately show ?thesis by (simp add: spans_guard_def)
qed

text \<open>An image that ends in the last block: the end rounds up to 0, and the stack is laid over the tables.\<close>

lemma loads_high: "load_progs ps im = Inr im' \<Longrightarrow> \<forall>p \<in> set (i_loads im). imageBase \<le> p_vaddr p \<Longrightarrow> \<forall>p \<in> set (i_loads im'). imageBase \<le> p_vaddr p"
  by (induction ps im rule: load_progs.induct) (auto simp: not_less split: if_splits)

lemma plan_wrapped:
  assumes load: "loadImage ours ps entry syms = Inr im" and c: "cpus \<le> 32" and wrap: "2 ^ 64 - 2 ^ 21 < unat (i_end im)"
  shows "l_size (plan im cpus) \<le> Doorbell" "perm_between (plan im cpus) tablesBase tablesEnd (pRead OR pWrite)"
proof -
  obtain im1 ss where l: "load_progs ps \<lparr>i_loads = [], i_entry = entry, i_vectors = 0, i_apEntry = 0, i_end = 0\<rparr> = Inr im1"
      "im = load_syms ss im1"
    using load by (auto simp: loadImage_def Let_def split: if_splits sum.splits option.splits)
  have high: "0x200000 \<le> unat (p_vaddr p)" if "p \<in> set (i_loads im)" for p
    using loads_high [OF l(1)] that by (simp add: l(2) load_syms_keeps word_le_nat_alt)
  have lim: "unat (i_end im) < 2 ^ 64" by (rule order_less_le_trans [OF unsigned_less]) simp
  have "unat (i_end im + 0x1fffff) = (unat (i_end im) + 0x1fffff) mod 2 ^ 64" by (simp add: unat_word_ariths(1))
  also have "\<dots> = (unat (i_end im) + 0x1fffff - 2 ^ 64) mod 2 ^ 64" by (rule le_mod_geq) (use wrap in simp)
  also have "\<dots> \<le> unat (i_end im) + 0x1fffff - 2 ^ 64" by (rule mod_less_eq_dividend)
  also have "\<dots> < 2 ^ 21" using lim by simp
  finally have u: "unat (i_end im + 0x1fffff) div 2 ^ 21 = 0" by (rule div_less)
  have "i_end im + blockSize - 1 = i_end im + 0x1fffff" by simp
  then have g: "roundUp (i_end im) blockSize = 0"
    unfolding roundUp_def block_floor using u by (simp only:) (simp add: block_at_def)
  have c': "of_nat cpus * FaultStackBytes = of_nat (cpus * 0x10000)" by simp
  have "unat (l_faultTop (plan im cpus)) = unat (0x4001000 + of_nat (cpus * 0x10000) :: addr)"
    unfolding plan_def Let_def g by simp
  also have "\<dots> = 0x4001000 + cpus * 0x10000" using c by (simp add: unat_word_ariths(1) unat_of_nat del: of_nat_mult)
  finally have f: "unat (l_faultTop (plan im cpus)) = 0x4001000 + cpus * 0x10000" .
  have "l_heap (plan im cpus) = roundUp (l_faultTop (plan im cpus)) blockSize" by (simp add: plan_def Let_def)
  then have h: "unat (l_heap (plan im cpus)) \<le> 0x4001000 + cpus * 0x10000 + 0x200000"
    using roundUp_block [of "l_faultTop (plan im cpus)"] up_to_bound [of "0x200000" "0x4001000 + cpus * 0x10000"] f c by simp
  have "l_size (plan im cpus) = l_heap (plan im cpus) + HeapBytes" by (simp add: plan_def Let_def)
  then show "l_size (plan im cpus) \<le> Doorbell" using h c by (simp add: word_le_nat_alt unat_word_ariths(1))
  show "perm_between (plan im cpus) tablesBase tablesEnd (pRead OR pWrite)"
  proof (rule perm_betweenI)
    fix va :: addr assume va: "unat tablesBase \<le> unat va" "unat va < unat tablesEnd"
    have "permAt ([sys_span] @ ts) va = permAt ts va" for ts
      unfolding permAt_append using va by (auto simp: sys_span_places)
    moreover have "\<not> (\<exists>s \<in> set (map prog_span (i_loads im)). unat (s_lo s) \<le> unat va \<and> unat va < unat (s_hi s))"
      using high va by (fastforce simp: prog_span_def)
    then have "permAt (map prog_span (i_loads im) @ ts) va = permAt ts va" for ts
      unfolding permAt_append by (simp only: if_False)
    ultimately show "permAt (l_spans (plan im cpus)) va = pRead OR pWrite"
      unfolding plan_spans g using va f by (simp only:) (simp add: word_le_nat_alt word_less_nat_alt)
  qed
qed

text \<open>
  C39.  The layouts guard what must not be touched.  Of an image \<open>loadImage\<close> accepts, none of whose
  segments ends in the last 2 GiB of the addresses or past them, a layout \<open>boot\<close> takes has spans of
  whole pages of the address space, nothing mapped at a null pointer or at the page tables, a heap
  that is read and written and never run, and a doorbell that is a device and only written: \<open>plan\<close>
  for a C guest, with an unmapped page under a stack that is read and written, and \<open>planGo\<close> for a
  Go guest whose segments end in its RAM.  No code asks that of the segments' ends: an image whose
  greatest end is in the last 2 MiB is accepted, its end rounds up to 0, and \<open>plan\<close>, whose size
  \<open>boot\<close> takes, maps the page tables for the guest to read and write.
\<close>

theorem plan_guards:
  assumes "loadImage ours ps entry syms = Inr im" "cpus \<le> 32"
  shows "(progs_fit ps \<longrightarrow>
      (l_size (plan im cpus) \<le> Doorbell \<longrightarrow> spans_guard (plan im cpus) \<and> stack_guard im (plan im cpus)) \<and>
      (l_size (planGo im cpus) \<le> Doorbell \<longrightarrow> l_heap (planGo im cpus) \<le> l_size (planGo im cpus) \<longrightarrow>
        spans_guard (planGo im cpus))) \<and>
    (2 ^ 64 - 2 ^ 21 < unat (i_end im) \<longrightarrow>
      l_size (plan im cpus) \<le> Doorbell \<and> perm_between (plan im cpus) tablesBase tablesEnd (pRead OR pWrite))"
  using loadImage_fits [OF assms(1)] plan_ok [OF _ some_load [OF assms(1)] assms(2)]
    planGo_ok [OF _ some_load [OF assms(1)]] plan_wrapped [OF assms] by blast

text \<open>A small image, one segment of five pages with the vectors in it; and one whose segment ends at the top.\<close>

lemma plan_guards_witness:
  "\<exists>im. loadImage True [\<lparr>p_load = True, p_vaddr = 0x200000, p_paddr = 0x200000, p_memsz = 0x4800, p_r = True, p_w = False, p_x = True\<rparr>]
      0x200010 (Some [(''whim_vectors'', 0x200800)]) = Inr im \<and>
    spans_guard (plan im 1) \<and> stack_guard im (plan im 1) \<and> spans_guard (planGo im 4) \<and>
    (\<exists>high. loadImage True [\<lparr>p_load = True, p_vaddr = 0x200000, p_paddr = 0x200000, p_memsz = 0xffffffffffdff000,
        p_r = True, p_w = False, p_x = True\<rparr>] 0x200010 (Some [(''whim_vectors'', 0x200800)]) = Inr high \<and>
      permAt (l_spans (plan high 1)) 0x10000 = pRead OR pWrite)"
proof -
  let ?p = "\<lparr>p_load = True, p_vaddr = 0x200000, p_paddr = 0x200000, p_memsz = 0x4800, p_r = True, p_w = False, p_x = True\<rparr>"
  let ?im = "\<lparr>i_loads = [?p], i_entry = 0x200010, i_vectors = 0x200800, i_apEntry = 0, i_end = 0x204800\<rparr>"
  let ?q = "\<lparr>p_load = True, p_vaddr = 0x200000, p_paddr = 0x200000, p_memsz = 0xffffffffffdff000, p_r = True, p_w = False, p_x = True\<rparr>"
  let ?high = "\<lparr>i_loads = [?q], i_entry = 0x200010, i_vectors = 0x200800, i_apEntry = 0, i_end = 0xfffffffffffff000\<rparr>"
  have l: "loadImage True [?p] 0x200010 (Some [(''whim_vectors'', 0x200800)]) = Inr ?im" by (simp add: loadImage_def)
  have h: "loadImage True [?q] 0x200010 (Some [(''whim_vectors'', 0x200800)]) = Inr ?high" by (simp add: loadImage_def)
  have fit: "progs_fit [?p]" by (simp add: progs_fit_def)
  have sizes: "l_size (plan ?im 1) \<le> Doorbell" "l_size (planGo ?im 4) \<le> Doorbell" "l_heap (planGo ?im 4) \<le> l_size (planGo ?im 4)"
    by (simp_all add: plan_def planGo_def roundUp_def)
  have small: "spans_guard (plan ?im 1) \<and> stack_guard ?im (plan ?im 1)" "spans_guard (planGo ?im 4)"
    using plan_guards [OF l, of 1] plan_guards [OF l, of 4] fit sizes by simp_all
  have "2 ^ 64 - 2 ^ 21 < unat (i_end ?high)" by simp
  with plan_guards [OF h, of 1] have "perm_between (plan ?high 1) tablesBase tablesEnd (pRead OR pWrite)" by simp
  then have "permAt (l_spans (plan ?high 1)) 0x10000 = pRead OR pWrite" by (simp add: perm_between_def)
  with l h small show ?thesis by blast
qed

subsection \<open>The monitor in the guest's memory\<close>

text \<open>
  A slice of the slot the monitor takes for the guest, vmm/vmm.go and vmm/smp.go: refused, taken
  from one address to another, or out of its range, which ends the monitor.
\<close>

datatype mem_slice = Refused | Slice addr addr | Panics

text \<open>\<open>m.mem[lo:hi]\<close> of the slot, of \<open>slot\<close> bytes: unsigned bounds, and signed ones.\<close>

definition slice_of :: "addr \<Rightarrow> addr \<Rightarrow> addr \<Rightarrow> mem_slice" where
  "slice_of slot lo hi = (if lo \<le> hi \<and> hi \<le> slot then Slice lo hi else Panics)"

definition slice_of_int :: "addr \<Rightarrow> addr \<Rightarrow> addr \<Rightarrow> mem_slice" where
  "slice_of_int slot lo hi = (if 0 \<le> sint lo \<and> sint lo \<le> sint hi \<and> sint hi \<le> sint slot then Slice lo hi else Panics)"

definition call_block :: "addr \<Rightarrow> addr \<Rightarrow> mem_slice" where
  "call_block slot cb =
     (if cb mod 64 \<noteq> 0 \<or> cb < imageBase \<or> cb + 64 > slot then Refused else slice_of slot cb (cb + 64))"

definition guest :: "addr \<Rightarrow> addr \<Rightarrow> addr \<Rightarrow> mem_slice" where
  "guest slot gpa n =
     (if sint n < 0 \<or> sint gpa < 0 \<or> gpa > slot \<or> n > slot - gpa then Refused else slice_of_int slot gpa (gpa + n))"

definition release :: "addr \<Rightarrow> addr \<Rightarrow> addr \<Rightarrow> mem_slice" where
  "release slot a b =
     (let lo = roundUp a pageSize; hi = b AND NOT (pageSize - 1) in
      if sint lo < sint imageBase \<or> sint hi \<le> sint lo \<or> hi > slot then Refused else slice_of_int slot lo hi)"

lemma sint_cases: "sint w = (if unat w < 2 ^ 63 then int (unat w) else int (unat w) - 2 ^ 64)" for w :: addr
proof -
  define n where "n = int (unat w)"
  have "unat w < 2 ^ 64" by (rule order_less_le_trans [OF unsigned_less]) simp
  then have "int (unat w) < int (2 ^ 64)" by (simp only: of_nat_less_iff)
  then have lim: "0 \<le> n" "n < 2 ^ 64" by (simp_all add: n_def)
  have s: "sint w = (n + 2 ^ 63) mod 2 ^ 64 - 2 ^ 63"
    unfolding sint_uint signed_take_bit_eq_take_bit_shift take_bit_eq_mod uint_nat n_def by simp
  have lt: "unat w < 2 ^ 63 \<longleftrightarrow> n < 2 ^ 63"
  proof -
    have "unat w < 2 ^ 63 \<longleftrightarrow> int (unat w) < int (2 ^ 63)" by (simp only: of_nat_less_iff)
    then show ?thesis by (simp add: n_def)
  qed
  have "sint w = (if n < 2 ^ 63 then n else n - 2 ^ 64)"
  proof (cases "n < 2 ^ 63")
    case True
    have "(n + 2 ^ 63) mod 2 ^ 64 = n + 2 ^ 63" by (rule mod_pos_pos_trivial) (use True lim in simp_all)
    with True show ?thesis by (simp add: s)
  next
    case False
    have "(n - 2 ^ 63 + 2 ^ 64) mod 2 ^ 64 = (n - 2 ^ 63) mod 2 ^ 64" by (rule mod_add_self2)
    also have "\<dots> = n - 2 ^ 63" by (rule mod_pos_pos_trivial) (use False lim in simp_all)
    finally show ?thesis using False by (simp add: s add.commute)
  qed
  then show ?thesis unfolding lt n_def .
qed

lemma sint_small: "unat w < 2 ^ 63 \<Longrightarrow> sint w = int (unat w)" for w :: addr
  by (simp only: sint_cases if_True)

lemma sint_negative: "\<not> unat w < 2 ^ 63 \<Longrightarrow> sint w < 0" for w :: addr
proof -
  assume "\<not> unat w < 2 ^ 63"
  moreover have "unat w < 2 ^ 64" by (rule order_less_le_trans [OF unsigned_less]) simp
  then have "int (unat w) < int (2 ^ 64)" by (simp only: of_nat_less_iff)
  ultimately show ?thesis by (simp add: sint_cases)
qed

lemma call_block_cases:
  assumes "slot \<le> Doorbell"
  shows "call_block slot cb =
    (if cb = 0xffffffffffffffc0 then Panics
     else if unat cb mod 64 = 0 \<and> 0x200000 \<le> unat cb \<and> unat cb + 64 \<le> unat slot then Slice cb (cb + 64) else Refused)"
proof -
  have m: "cb mod 64 = 0 \<longleftrightarrow> unat cb mod 64 = 0" by (simp add: word_unat_eq_iff unat_mod)
  have lim: "unat cb < 2 ^ 64" by (rule order_less_le_trans [OF unsigned_less]) simp
  have s: "unat slot \<le> 0xf0000000" using assms by (simp add: word_le_nat_alt)
  show ?thesis
  proof (cases "unat cb + 64 < 2 ^ 64")
    case True
    then have sum: "unat (cb + 64) = unat cb + 64" by (simp add: unat_word_ariths(1))
    have "cb \<noteq> 0xffffffffffffffc0" using True by auto
    then show ?thesis unfolding call_block_def slice_of_def m by (auto simp: word_le_nat_alt word_less_nat_alt sum)
  next
    case False
    have "unat cb = 2 ^ 64 - 64" if al: "unat cb mod 64 = 0"
    proof -
      obtain k where k: "unat cb = 64 * k" using al by auto
      have "k < 2 ^ 58" "2 ^ 58 - 1 \<le> k" using False lim unfolding k by simp_all
      then show ?thesis unfolding k by simp
    qed
    then have top: "unat cb mod 64 = 0 \<Longrightarrow> cb = 0xffffffffffffffc0" by (simp add: word_unat_eq_iff)
    show ?thesis
    proof (cases "cb = 0xffffffffffffffc0")
      case True
      have "(0xffffffffffffffc0 :: addr) + 64 = 0" by (simp add: word_unat_eq_iff unat_word_ariths(1))
      then show ?thesis unfolding True call_block_def slice_of_def by (simp only:) simp
    next
      case False
      then have "unat cb mod 64 \<noteq> 0" using top by blast
      then show ?thesis using False unfolding call_block_def m by simp
    qed
  qed
qed

lemma guest_cases:
  assumes "slot \<le> Doorbell"
  shows "guest slot gpa n =
    (if 0 \<le> sint gpa \<and> 0 \<le> sint n \<and> sint gpa + sint n \<le> int (unat slot) then Slice gpa (gpa + n) else Refused)"
proof -
  have s: "unat slot \<le> 0xf0000000" using assms by (simp add: word_le_nat_alt)
  show ?thesis
  proof (cases "unat n < 2 ^ 63 \<and> unat gpa < 2 ^ 63 \<and> unat gpa \<le> unat slot")
    case True
    then have g: "unat gpa \<le> unat slot" "\<not> gpa > slot" and ng: "sint gpa = int (unat gpa)" and nn: "sint n = int (unat n)"
      by (simp_all add: word_le_nat_alt not_less sint_small)
    have d: "unat (slot - gpa) = unat slot - unat gpa" using g by (simp add: unat_sub word_le_nat_alt)
    have ns: "sint slot = int (unat slot)" by (rule sint_small) (use s in simp)
    have lt: "n > slot - gpa \<longleftrightarrow> unat slot - unat gpa < unat n" by (simp only: word_less_nat_alt d)
    have pos: "\<not> sint n < 0" "\<not> sint gpa < 0" unfolding nn ng by simp_all
    show ?thesis
    proof (cases "unat n \<le> unat slot - unat gpa")
      case fits: True
      have sum: "unat (gpa + n) = unat gpa + unat n" using fits g s by (simp add: unat_word_ariths(1))
      then have "sint (gpa + n) = int (unat gpa + unat n)" using fits g s by (simp add: sint_small)
      then have "slice_of_int slot gpa (gpa + n) = Slice gpa (gpa + n)"
        unfolding slice_of_int_def ng ns by (simp only: of_nat_le_iff) (use fits g in simp)
      moreover have "int (unat gpa) + int (unat n) \<le> int (unat slot)" using fits g by linarith
      ultimately show ?thesis unfolding guest_def using pos g fits by (simp add: lt) (simp add: ng nn)
    next
      case False
      then have "\<not> int (unat gpa) + int (unat n) \<le> int (unat slot)" using g by linarith
      then show ?thesis unfolding guest_def using False by (simp add: lt) (simp add: ng nn)
    qed
  next
    case False
    then have refused: "sint n < 0 \<or> sint gpa < 0 \<or> gpa > slot"
      using sint_negative [of n] sint_negative [of gpa] by (auto simp: word_less_nat_alt)
    then have "guest slot gpa n = Refused" unfolding guest_def by (simp only: disj_assoc [symmetric]) simp
    moreover have "\<not> (0 \<le> sint gpa \<and> 0 \<le> sint n \<and> sint gpa + sint n \<le> int (unat slot))"
    proof
      assume a: "0 \<le> sint gpa \<and> 0 \<le> sint n \<and> sint gpa + sint n \<le> int (unat slot)"
      then have "unat gpa < 2 ^ 63" using sint_negative [of gpa] by linarith
      then have "int (unat gpa) \<le> int (unat slot)" using a sint_small [of gpa] by linarith
      then have "unat gpa \<le> unat slot" by (simp only: of_nat_le_iff)
      then have "\<not> gpa > slot" by (simp add: word_less_nat_alt)
      with refused a show False by linarith
    qed
    ultimately show ?thesis by simp
  qed
qed

lemma page_floor_mod: "unat (a AND NOT (pageSize - 1)) = unat a div 4096 * 4096" for a :: addr
proof -
  have "unat a div 2 ^ 12 * 2 ^ 12 < 2 ^ 64"
    by (rule le_less_trans [OF div_times_less_eq_dividend], rule order_less_le_trans [OF unsigned_less]) simp
  then show ?thesis unfolding page_floor page_at_def by (simp add: unat_small del: of_nat_mult of_nat_power)
qed

lemma release_cases:
  assumes "slot \<le> Doorbell"
  shows "release slot a b \<noteq> Panics"
    "release slot a b = Slice lo hi \<Longrightarrow> unat lo = up_to 4096 (unat a) \<and> unat hi = unat b div 4096 * 4096 \<and>
      0x200000 \<le> unat lo \<and> unat lo < unat hi \<and> unat hi \<le> unat slot"
proof -
  let ?lo = "roundUp a pageSize" and ?hi = "b AND NOT (pageSize - 1)"
  have s: "unat slot \<le> 0xf0000000" using assms by (simp add: word_le_nat_alt)
  have main: "0x200000 \<le> unat ?lo \<and> unat ?lo < unat ?hi \<and> unat ?hi \<le> unat slot \<and> release slot a b = Slice ?lo ?hi"
    if kept: "release slot a b \<noteq> Refused"
  proof -
    have c: "\<not> sint ?lo < sint imageBase" "\<not> sint ?hi \<le> sint ?lo" "\<not> ?hi > slot"
      using kept unfolding release_def Let_def by (simp_all split: if_splits)
    have base: "sint imageBase = 0x200000" by simp
    have hi: "unat ?hi \<le> unat slot" using c(3) by (simp only: word_less_nat_alt not_less)
    have shi: "sint ?hi = int (unat ?hi)" by (rule sint_small) (use hi s in simp)
    have "unat ?lo < 2 ^ 63" using sint_negative [of ?lo] c(1) base by linarith
    then have slo: "sint ?lo = int (unat ?lo)" by (rule sint_small)
    have sslot: "sint slot = int (unat slot)" by (rule sint_small) (use s in simp)
    have lt: "unat ?lo < unat ?hi" using c(2) unfolding shi slo by linarith
    have "0x200000 \<le> unat ?lo" using c(1) unfolding base slo by linarith
    moreover have "release slot a b = slice_of_int slot ?lo ?hi" unfolding release_def Let_def using c by simp
    moreover have "slice_of_int slot ?lo ?hi = Slice ?lo ?hi" unfolding slice_of_int_def slo shi sslot by (simp only: of_nat_le_iff) (use lt hi in simp)
    ultimately show ?thesis using lt hi by simp
  qed
  show "release slot a b \<noteq> Panics" using main by auto
  assume r: "release slot a b = Slice lo hi"
  then have m: "0x200000 \<le> unat lo" "unat lo < unat hi" "unat hi \<le> unat slot" "lo = ?lo" "hi = ?hi" using main by auto
  have "unat a + 4095 < 2 ^ 64"
  proof (rule ccontr)
    assume big: "\<not> unat a + 4095 < 2 ^ 64"
    have lim: "unat a < 2 ^ 64" by (rule order_less_le_trans [OF unsigned_less]) simp
    have "unat (a + 0xfff) = (unat a + 4095) mod 2 ^ 64" by (simp add: unat_word_ariths(1))
    also have "\<dots> = (unat a + 4095 - 2 ^ 64) mod 2 ^ 64" by (rule le_mod_geq) (use big in simp)
    also have "\<dots> \<le> unat a + 4095 - 2 ^ 64" by (rule mod_less_eq_dividend)
    also have "\<dots> < 4096" using lim by simp
    finally have "unat (a + 0xfff) < 4096" .
    moreover have "unat lo = unat (a + 0xfff) div 4096 * 4096" using page_floor_mod [of "a + 0xfff"] by (simp add: m(4) roundUp_def add.commute)
    ultimately show False using m(1) by simp
  qed
  then have "unat (a + 0xfff) = unat a + 4095" by (simp add: unat_word_ariths(1))
  then have "unat lo = up_to 4096 (unat a)" using page_floor_mod [of "a + 0xfff"] by (simp add: m(4) roundUp_def up_to_def add.commute)
  moreover have "unat hi = unat b div 4096 * 4096" using page_floor_mod [of b] by (simp only: m(5))
  ultimately show "unat lo = up_to 4096 (unat a) \<and> unat hi = unat b div 4096 * 4096 \<and>
      0x200000 \<le> unat lo \<and> unat lo < unat hi \<and> unat hi \<le> unat slot" using m by simp
qed

text \<open>
  C40.  What the monitor takes of the guest's memory for a call is in the slot: a buffer exactly when
  its address and its length are not negative and it ends in the slot; a released range is the whole
  pages of what was named, above the image's base; and a call's block is an aligned one above that
  base.  Every other is refused, but for one: a block 64 bytes under the top of the addresses, whose
  end wraps to 0, passes the check and panics the monitor.
\<close>

theorem monitor_in_slot:
  assumes "slot \<le> Doorbell"
  shows "guest slot gpa n =
      (if 0 \<le> sint gpa \<and> 0 \<le> sint n \<and> sint gpa + sint n \<le> int (unat slot) then Slice gpa (gpa + n) else Refused) \<and>
    release slot a b \<noteq> Panics \<and>
    (\<forall>lo hi. release slot a b = Slice lo hi \<longrightarrow> unat lo = up_to 4096 (unat a) \<and> unat hi = unat b div 4096 * 4096 \<and>
      0x200000 \<le> unat lo \<and> unat lo < unat hi \<and> unat hi \<le> unat slot) \<and>
    call_block slot cb =
      (if cb = 0xffffffffffffffc0 then Panics
       else if unat cb mod 64 = 0 \<and> 0x200000 \<le> unat cb \<and> unat cb + 64 \<le> unat slot then Slice cb (cb + 64) else Refused)"
  using guest_cases [OF assms] call_block_cases [OF assms] release_cases [OF assms] by blast

lemma monitor_in_slot_witness:
  "guest 0x40000000 0x300000 0x1000 = Slice 0x300000 0x301000 \<and> call_block 0x40000000 0xffffffffffffffc0 = Panics"
  using monitor_in_slot [of "0x40000000" "0x300000" "0x1000" 0 0 "0xffffffffffffffc0"] by simp

end
