(* ===== verification/Spec2Isabelle.thy ===== *)
theory Spec2Isabelle
  imports Main Sexp Pattern GraphEval CPrintRuns Declarators ConstText TreeWalks TreeEdits ConstEval ConstLayout GraphLimits GraphLisp VmmSmp VmmGuest
begin

text \<open>
  A verification library of go-whim: a pipeline of C-to-C edits, written in Go, that takes one
  C program apart and writes the core that is left in other languages.  The pipeline reads C
  with a compiler front end (crefactor/cc), keeps the program as one resolved, typed graph of
  forms (crefactor/graph), edits the graph in 104 phases through an editor that checks each
  edit, folds constants and drops what nothing reaches, and prints the graph as C again
  through C-lisp forms (crefactor/clisp).  A virtual machine monitor (vmm) runs the result as a
  guest with no operating system.  The library models the parts that the rest of the pipeline
  rests on, the forms with their reader and printers, the evaluators of constants, the tree
  edits, the graph with its editor and its text, and of the monitor the guest's memory and the
  vCPUs' parks.  A Go byte is a \<open>char\<close>, a Go string or slice of bytes a
  list of them (\<open>Prelude\<close>).

  \<^bold>\<open>C-lisp forms\<close> (crefactor/clisp).  \<open>Sexp\<close> is sexp.go: \<open>Node\<close> (\<open>Atom\<close>, \<open>Lst\<close>), the reader
  \<open>Read\<close>, the one-line \<open>flat\<close> and the layout printer \<open>Format\<close>; reading back what either prints
  gives the forms, and the reader returns.  \<open>Pattern\<close> is pattern.go: \<open>Pattern\<close>, \<open>Match\<close>, \<open>Subst\<close>,
  inverse of each other.  \<open>CPrint\<close> is toc.go with the levels of expr.go: every function of the
  printer of forms as C, over a state monad whose state is the printer's error; \<open>CPrintRuns\<close>
  shows that it returns and when it panics, through the locale \<open>printer_inv\<close>; \<open>Declarators\<close>
  that the declarators it writes are those of C's grammar with the form's type.  \<open>TreeApi\<close> is
  tree.go: cursors and walks over nodes that are objects of a heap; \<open>TreeWalks\<close> and
  \<open>TreeEdits\<close> show what walks see and what edits leave, in any order.

  \<^bold>\<open>Constants.\<close>  \<open>Consts\<close> and \<open>SweepEval\<close> are crefactor/sweep/eval.go, the evaluator of an
  enumerator's value as text (\<open>lexConst\<close>, the precedence climber, \<open>evalConst\<close>); \<open>GraphEval\<close> is
  crefactor/graph/eval.go, the same of a form; \<open>Levels\<close> the levels of
  crefactor/graph/foldx_eval.go.  \<open>ConstText\<close> composes printer, lexer, parser and evaluator:
  the text printed of a constant form evaluates to what the form does.  \<open>ConstFold\<close> is the
  folding of foldx_eval.go (\<open>litType\<close>, the conversions, \<open>xconst\<close>, layout and offsets of
  structures); \<open>ConstMeaning\<close> and \<open>ConstEval\<close> give C's meaning of constant expressions over
  integers and show that \<open>xconst\<close> answers it; \<open>ConstLayout\<close> that a structure's members are
  aligned, in order and inside it.

  \<^bold>\<open>The graph and its editor\<close> (crefactor/graph).  \<open>Graph\<close> is the node of graph.go as an object
  of a store, with the questions forms.go asks; \<open>GraphEdit\<close> is edit.go and journal.go: an
  editor is a graph with each node's container and an index of each node's uses
  (\<open>NewEditor\<close>), every operation is a checked splice (\<open>spliceAs\<close>) or a \<open>Retarget\<close>, what loses
  its target is recorded (\<open>Dangling\<close>), and \<open>Begin\<close> and \<open>Undo\<close> bracket edits that are taken back.
  \<open>GraphForest\<close>, \<open>GraphSplice\<close> and \<open>GraphHold\<close> show that a splice keeps containment a forest;
  \<open>GraphKeep\<close>, \<open>GraphStep\<close> and \<open>GraphSound\<close> that each operation keeps the editor's invariant
  \<open>sound\<close>; \<open>GraphRuns\<close> states the interface \<open>kept_steps\<close> of an invariant over any sequence of
  edits and interprets it; \<open>GraphIndex\<close> shows what \<open>NewEditor\<close> builds.  \<open>GraphChecked\<close> has the
  editor's properties; \<open>GraphMoves\<close> the interface \<open>graph_moves\<close> of an invariant of the graph alone,
  which \<open>GraphUndo\<close> interprets for the journal and for the ids; \<open>GraphLimits\<close> shows where two
  answers are not what their comments say.  An editor's sentinels are the nodes 0, 1 and 2, taken
  again by the next editor, under which no node is then until it is placed.

  \<^bold>\<open>The graph as Lisp\<close> (crefactor/graph/lisp.go).  \<open>GraphText\<close> is the writer \<open>Lisp\<close> with its layout
  and the reader \<open>gRead\<close>, whose nodes are names an allocator gives and whose edges are slots
  filled when the whole file is read; \<open>GraphSpell\<close> relates what is written of a node to the
  node read from it, and \<open>GraphLisp\<close> shows that reading what \<open>Lisp\<close> writes gives the same graph
  up to the names, and where it does not.

  \<^bold>\<open>The monitor\<close> (vmm).  \<open>VmmSmp\<close> is smp.go with park_linux.go: each vCPU's thread is a phase, an
  action takes one thread, or the clock, a step on, and a run is any interleaving; the count of
  running vCPUs is exact between steps, no park outlasts its limit while another vCPU runs, and
  a park with a limit ends.  \<open>VmmTables\<close> is layout.go with the formats of both machines
  (setup_amd64.go, setup_arm64.go) and \<open>planGo\<close> of tamago.go: memory is a byte at each address,
  addresses are 64-bit words that wrap.  \<open>VmmPaging\<close> has what the processor does, \<open>hw_walk\<close> over
  an entry's decoding, and the interface \<open>paging\<close> of a format and its decoding, interpreted for
  amd64 and arm64; \<open>VmmMapped\<close> proves in it, once for both, that \<open>buildTables\<close> ends and maps what
  \<open>permAt\<close> says; \<open>VmmGuest\<close> states that of each machine, that the layout of an accepted image
  guards the null page, the tables and the page under the stack unless a segment ends at the top
  of the addresses, where the code's sums wrap, and that what the monitor
  slices of the guest's memory is in it.

  \<^bold>\<open>Fuel.\<close>  A recursion of the code that is not structural is given fuel, and a theorem says how
  much is enough: \<open>Read\<close> has twice the text's length and two, \<open>evalConst\<close> three times the tokens
  and three, the printer twice the form's size and four, a walk of the tree twice its nodes,
  \<open>xconst\<close> more than the expression's size, a walk of the graph one more than the nodes there
  are, \<open>gRead\<close> as \<open>Read\<close>.  The loop of \<open>buildTables\<close> over a span's blocks does not end for every
  span, so it is a partial function, and is shown to end where the spans are in the tables'
  space.  Where the code ranges over a map whose order Go leaves open, the model takes the order
  in which the nodes were put in, and says so at the definition.

  \<^bold>\<open>Not modelled.\<close>  The C front end (crefactor/cc, a fork of a third-party package) and what is a
  function of its trees: ccwalk, ccx, cemit, reach, dead, most of sweep, the import of C and the
  translators (crefactor/togo).  The verbs and phases that call the editor, beyond what the
  editor promises for any sequence of edits.  The editors the translators write, and their hosts
  in other languages, are generated.  The pipeline's driver, the commands, the test harness, the
  views, the hypervisor bindings and the guest are input and output; the guest's Lisp is
  third-party code.  Of the monitor, the run loop, the Host's calls, the store and the registers
  a vCPU starts with are input and output, and the command line's area is not modelled.
\<close>

end
